(* ===== verification/Prelude.thy ===== *)
theory Prelude
  imports Main "HOL-Library.Word" "HOL-Library.List_Lexorder"
begin

text \<open>
  Shared vocabulary of the development: the Go integer types as words, the outcomes of a Go
  call (a value, an error value, a run-time panic, or no return), the two sequencing
  combinators (for pure page code and for code that threads a state), slices of byte arrays,
  and the library routine \<^verbatim>\<open>sort.Search\<close>.
\<close>

unbundle bit_operations_syntax

named_theorems exec_simps \<open>evaluation of the sequencing combinators\<close>
named_theorems byte_simps \<open>reads of a byte array after a write\<close>

section \<open>Types\<close>

type_synonym byte = "8 word"
type_synonym uint16 = "16 word"
type_synonym uint64 = "64 word"
type_synonym int64 = "64 word"
type_synonym PageID = "64 word"

text \<open>
  Every error value the program creates or passes on. \<open>EOF\<close> and \<open>ErrUnexpectedEOF\<close> are
  those of \<^verbatim>\<open>io.ReadFull\<close>, \<open>EINVAL\<close> is a seek to a negative offset, \<open>EIO\<close> is a failing
  system call and \<open>ErrClosed\<close> the use of a closed file. \<open>Errorf\<close> is a message made by
  \<^verbatim>\<open>fmt.Errorf\<close> and \<open>Wrapped\<close> one that wraps an error with \<^verbatim>\<open>%w\<close>.
\<close>

datatype error =
    ErrPageFull
  | ErrKeyNotFound
  | ErrInvalidRange
  | ErrDuplicateKey
  | ErrRowTooLarge
  | ErrSlotIndex
  | EOF
  | ErrUnexpectedEOF
  | EINVAL
  | EIO
  | ErrClosed
  | Errorf string
  | Wrapped string error

text \<open>
  The outcome of a Go call: a result, a returned error, a run-time panic (index out of range,
  nil dereference) or a loop that has not returned.
\<close>

datatype 'a res = Ok 'a | Err error | Panic | Hang

section \<open>Sequencing\<close>

text \<open>Pure code: the first outcome that is not a result ends the computation.\<close>

definition rbind :: "'a res \<Rightarrow> ('a \<Rightarrow> 'b res) \<Rightarrow> 'b res" where
  "rbind m f = (case m of Ok a \<Rightarrow> f a | Err e \<Rightarrow> Err e | Panic \<Rightarrow> Panic | Hang \<Rightarrow> Hang)"

lemma rbind_simps [simp]:
  "rbind (Ok a) f = f a"
  "rbind (Err e) f = Err e"
  "rbind Panic f = Panic"
  "rbind Hang f = Hang"
  by (simp_all add: rbind_def)

lemma rbind_cong [fundef_cong]:
  "m = m' \<Longrightarrow> (\<And>a. m' = Ok a \<Longrightarrow> f a = g a) \<Longrightarrow> rbind m f = rbind m' g"
  by (cases m') simp_all

lemma rbind_eq_Ok: "rbind m f = Ok b \<longleftrightarrow> (\<exists>a. m = Ok a \<and> f a = Ok b)"
  by (cases m) simp_all

text \<open>Code with effects: a state transformer that keeps the state at the point of failure.\<close>

type_synonym ('s, 'a) op = "'s \<Rightarrow> 'a res \<times> 's"

definition sbind :: "('s, 'a) op \<Rightarrow> ('a \<Rightarrow> ('s, 'b) op) \<Rightarrow> ('s, 'b) op" where
  "sbind m f = (\<lambda>s. case m s of
      (Ok a, s') \<Rightarrow> f a s'
    | (Err e, s') \<Rightarrow> (Err e, s')
    | (Panic, s') \<Rightarrow> (Panic, s')
    | (Hang, s') \<Rightarrow> (Hang, s'))"

definition sret :: "'a \<Rightarrow> ('s, 'a) op" where
  "sret a = (\<lambda>s. (Ok a, s))"

definition sfail :: "error \<Rightarrow> ('s, 'a) op" where
  "sfail e = (\<lambda>s. (Err e, s))"

definition slift :: "'a res \<Rightarrow> ('s, 'a) op" where
  "slift r = (\<lambda>s. (r, s))"

definition sget :: "('s \<Rightarrow> 'a) \<Rightarrow> ('s, 'a) op" where
  "sget f = (\<lambda>s. (Ok (f s), s))"

definition smod :: "('s \<Rightarrow> 's) \<Rightarrow> ('s, unit) op" where
  "smod g = (\<lambda>s. (Ok (), g s))"

lemma sbind_Ok [exec_simps]: "m s = (Ok a, s') \<Longrightarrow> sbind m f s = f a s'"
  and sbind_Err [exec_simps]: "m s = (Err e, s') \<Longrightarrow> sbind m f s = (Err e, s')"
  and sbind_Panic [exec_simps]: "m s = (Panic, s') \<Longrightarrow> sbind m f s = (Panic, s')"
  and sbind_Hang [exec_simps]: "m s = (Hang, s') \<Longrightarrow> sbind m f s = (Hang, s')"
  by (simp_all add: sbind_def)

lemma sprim_simps [exec_simps]:
  "sret a s = (Ok a, s)"
  "sfail e s = (Err e, s)"
  "slift r s = (r, s)"
  "sget g s = (Ok (g s), s)"
  "smod h s = (Ok (), h s)"
  by (simp_all add: sret_def sfail_def slift_def sget_def smod_def)

lemma sbind_prim_simps [exec_simps]:
  "sbind (sret a) f s = f a s"
  "sbind (sfail e) f s = (Err e, s)"
  "sbind (slift (Ok a)) f s = f a s"
  "sbind (slift (Err e)) f s = (Err e, s)"
  "sbind (slift Panic) f s = (Panic, s)"
  "sbind (slift Hang) f s = (Hang, s)"
  "sbind (sget g) f s = f (g s) s"
  "sbind (smod h) k s = k () (h s)"
  by (simp_all add: sbind_def sprim_simps)

lemma sbind_assoc: "sbind (sbind m f) g = sbind m (\<lambda>x. sbind (f x) g)"
  by (rule ext) (auto simp: sbind_def split: prod.splits res.splits)

lemma sbind_eq_Ok:
  "sbind m f s = (Ok b, s'') \<longleftrightarrow> (\<exists>a s'. m s = (Ok a, s') \<and> f a s' = (Ok b, s''))"
  by (auto simp: sbind_def split: prod.splits res.splits)

section \<open>Slices of a byte array\<close>

text \<open>
  \<open>sub d lo n\<close> is the run of \<open>n\<close> bytes at \<open>lo\<close>; \<open>blit d lo bs\<close> overwrites the run at
  \<open>lo\<close> with \<open>bs\<close>; \<open>slice d lo hi\<close> is the Go expression \<^verbatim>\<open>d[lo:hi]\<close> with its bounds check.
\<close>

definition sub :: "'a list \<Rightarrow> nat \<Rightarrow> nat \<Rightarrow> 'a list" where
  "sub d lo n = take n (drop lo d)"

definition blit :: "'a list \<Rightarrow> nat \<Rightarrow> 'a list \<Rightarrow> 'a list" where
  "blit d lo bs = take lo d @ bs @ drop (lo + length bs) d"

definition slice :: "'a list \<Rightarrow> nat \<Rightarrow> nat \<Rightarrow> 'a list res" where
  "slice d lo hi = (if lo \<le> hi \<and> hi \<le> length d then Ok (sub d lo (hi - lo)) else Panic)"

lemma length_sub: "lo + n \<le> length d \<Longrightarrow> length (sub d lo n) = n"
  by (simp add: sub_def)

lemma sub_0 [simp]: "sub d lo 0 = []"
  by (simp add: sub_def)

lemma sub_full [simp]: "length d = n \<Longrightarrow> sub d 0 n = d"
  by (simp add: sub_def)

lemma length_blit [simp]: "lo + length bs \<le> length d \<Longrightarrow> length (blit d lo bs) = length d"
  by (simp add: blit_def)

lemma sub_nth: "lo + n \<le> length d \<Longrightarrow> i < n \<Longrightarrow> sub d lo n ! i = d ! (lo + i)"
  by (simp add: sub_def)

lemma blit_nth:
  "lo + length bs \<le> length d \<Longrightarrow> i < length d \<Longrightarrow>
   blit d lo bs ! i = (if lo \<le> i \<and> i < lo + length bs then bs ! (i - lo) else d ! i)"
  by (auto simp: blit_def nth_append)

lemma sub_eqI:
  "lo + n \<le> length d \<Longrightarrow> lo + n \<le> length d' \<Longrightarrow>
   (\<And>i. lo \<le> i \<Longrightarrow> i < lo + n \<Longrightarrow> d ! i = d' ! i) \<Longrightarrow> sub d lo n = sub d' lo n"
  by (rule nth_equalityI) (simp_all add: length_sub sub_nth)

lemma sub_blit_same [byte_simps]:
  "lo + length bs \<le> length d \<Longrightarrow> n = length bs \<Longrightarrow> sub (blit d lo bs) lo n = bs"
  by (simp add: sub_def blit_def)

lemma sub_blit_below [byte_simps]:
  "lo + length bs \<le> length d \<Longrightarrow> a + n \<le> lo \<Longrightarrow> sub (blit d lo bs) a n = sub d a n"
  by (rule sub_eqI) (auto simp: blit_nth)

lemma sub_blit_above [byte_simps]:
  "lo + length bs \<le> length d \<Longrightarrow> lo + length bs \<le> a \<Longrightarrow> a + n \<le> length d \<Longrightarrow>
   sub (blit d lo bs) a n = sub d a n"
  by (rule sub_eqI) (auto simp: blit_nth)

lemma sub_blit_within:
  "lo + length bs \<le> length d \<Longrightarrow> lo \<le> a \<Longrightarrow> a + n \<le> lo + length bs \<Longrightarrow>
   sub (blit d lo bs) a n = sub bs (a - lo) n"
  by (rule nth_equalityI) (auto simp: length_sub sub_nth blit_nth)

lemma blit_adjacent:
  "a + length xs + length ys \<le> length d \<Longrightarrow>
   blit (blit d (a + length xs) ys) a xs = blit d a (xs @ ys)"
  by (rule nth_equalityI) (auto simp: blit_nth nth_append)

lemma blit_Nil [simp]: "blit d lo [] = d"
  by (simp add: blit_def)

lemma sub_append:
  "lo + m + n \<le> length d \<Longrightarrow> sub d lo m @ sub d (lo + m) n = sub d lo (m + n)"
  by (rule nth_equalityI) (auto simp: length_sub sub_nth nth_append)

lemma list_update_0_blit: "d \<noteq> [] \<Longrightarrow> d[0 := x] = blit d 0 [x]"
  by (cases d) (simp_all add: blit_def)

lemma nth_0_sub: "d \<noteq> [] \<Longrightarrow> d ! 0 = hd (sub d 0 1)"
  by (cases d) (simp_all add: sub_def)

lemma sub_sub: "a + n \<le> m \<Longrightarrow> sub (sub d lo m) a n = sub d (lo + a) n"
  by (simp add: sub_def take_drop add.commute min_def)

lemma slice_Ok: "lo \<le> hi \<Longrightarrow> hi \<le> length d \<Longrightarrow> slice d lo hi = Ok (sub d lo (hi - lo))"
  by (simp add: slice_def)

lemma slice_eq_Ok: "slice d lo hi = Ok bs \<longleftrightarrow> lo \<le> hi \<and> hi \<le> length d \<and> bs = sub d lo (hi - lo)"
  by (auto simp: slice_def)

section \<open>Binary search\<close>

text \<open>
  \<^verbatim>\<open>sort.Search(n, f)\<close> of the Go library: the loop over the half-open interval \<open>[i, j)\<close>, where
  the predicate itself may panic.
\<close>

function search_loop :: "(nat \<Rightarrow> bool res) \<Rightarrow> nat \<Rightarrow> nat \<Rightarrow> nat res" where
  "search_loop f i j =
     (if i < j then
        (let h = (i + j) div 2 in
         rbind (f h) (\<lambda>b. if \<not> b then search_loop f (h + 1) j else search_loop f i h))
      else Ok i)"
  by pat_completeness auto
termination
  by (relation "measure (\<lambda>(f, i, j). j - i)") auto

declare search_loop.simps [simp del]

definition sort_Search :: "nat \<Rightarrow> (nat \<Rightarrow> bool res) \<Rightarrow> nat res" where
  "sort_Search n f = search_loop f 0 n"

lemma search_loop_bounds:
  assumes "i \<le> k" "k \<le> j"
    and "\<And>h. i \<le> h \<Longrightarrow> h < j \<Longrightarrow> f h = Ok (k \<le> h)"
  shows "search_loop f i j = Ok k"
  using assms
proof (induction f i j rule: search_loop.induct)
  case (1 f i j)
  show ?case
  proof (cases "i < j")
    case True
    define h where "h = (i + j) div 2"
    have h: "i \<le> h" "h < j" and f: "f h = Ok (k \<le> h)"
      using True "1.prems"(3) [of h] by (auto simp: h_def)
    show ?thesis
    proof (cases "k \<le> h")
      case le: True
      have "search_loop f i h = Ok k"
        using "1.IH"(2) [OF True h_def f] le h "1.prems" by auto
      with True f le show ?thesis
        by (simp add: search_loop.simps [of f i j] Let_def h_def)
    next
      case gt: False
      have "search_loop f (h + 1) j = Ok k"
        using "1.IH"(1) [OF True h_def f] gt h "1.prems" by auto
      with True f gt show ?thesis
        by (simp add: search_loop.simps [of f i j] Let_def h_def)
    qed
  next
    case False
    with "1.prems" show ?thesis
      by (simp add: search_loop.simps [of f i j])
  qed
qed

text \<open>
  On a predicate that is false on a prefix and true on the rest, the search returns the length
  of that prefix.
\<close>

lemma sort_Search_prefix:
  "k \<le> n \<Longrightarrow> (\<And>h. h < n \<Longrightarrow> f h = Ok (k \<le> h)) \<Longrightarrow> sort_Search n f = Ok k"
  unfolding sort_Search_def by (rule search_loop_bounds) auto

section \<open>Words\<close>

lemma sint_eq_iff [simp]: "sint a = sint b \<longleftrightarrow> a = (b :: 'a::len word)"
  by (auto intro: signed_word_eqI)

lemma unat_of_nat_small:
  "n < 2 ^ LENGTH('a::len) \<Longrightarrow> unat (word_of_nat n :: 'a word) = n"
  by (simp add: unsigned_of_nat take_bit_nat_eq_self)

section \<open>Sorted lists and prefixes\<close>

lemma takeWhile_prefix_iff:
  assumes mono: "\<And>a b. a \<le> b \<Longrightarrow> b < length xs \<Longrightarrow> P (xs ! b) \<Longrightarrow> P (xs ! a)" and "h < length xs"
  shows "P (xs ! h) \<longleftrightarrow> h < length (takeWhile P xs)"
proof
  assume h: "P (xs ! h)"
  show "h < length (takeWhile P xs)"
  proof (rule ccontr)
    assume "\<not> h < length (takeWhile P xs)"
    then have le: "length (takeWhile P xs) \<le> h" by simp
    then have "\<not> P (xs ! length (takeWhile P xs))"
      using assms(2) by (intro nth_length_takeWhile) simp
    moreover have "P (xs ! length (takeWhile P xs))"
      using mono [OF le assms(2) h] .
    ultimately show False ..
  qed
next
  assume "h < length (takeWhile P xs)"
  then show "P (xs ! h)"
    by (metis nth_mem set_takeWhileD takeWhile_nth)
qed

end
