(* ===== verification/Bytes.thy ===== *)
theory Bytes
  imports Prelude
begin

text \<open>
  The parts of \<^verbatim>\<open>encoding/binary\<close> and \<^verbatim>\<open>bytes\<close> the program uses: big-endian words and the
  lexicographic comparison of byte slices. The lemmas give the round trips and tie the
  comparison to the linear order on byte lists, so that sorted key lists can be treated with
  the list library.
\<close>

section \<open>Big-endian words\<close>

text \<open>
  \<^verbatim>\<open>binary.BigEndian.PutUint64\<close> stores \<^verbatim>\<open>byte(v>>56), byte(v>>48), ..., byte(v)\<close> and
  \<^verbatim>\<open>PutUint16\<close> the two low bytes in the same way: \<open>be_bytes n v\<close> lists the \<open>n\<close> low bytes of
  \<open>v\<close>, most significant first. \<open>be_word\<close> is the inverse shift-and-or.
\<close>

primrec be_bytes :: "nat \<Rightarrow> 'a::len word \<Rightarrow> byte list" where
  "be_bytes 0 v = []"
| "be_bytes (Suc n) v = ucast (drop_bit (8 * n) v) # be_bytes n v"

definition be_word :: "byte list \<Rightarrow> 'a::len word" where
  "be_word bs = foldl (\<lambda>a b. push_bit 8 a OR ucast b) 0 bs"

definition PutUint16 :: "uint16 \<Rightarrow> byte list" where
  "PutUint16 v = be_bytes 2 v"

definition PutUint64 :: "uint64 \<Rightarrow> byte list" where
  "PutUint64 v = be_bytes 8 v"

text \<open>\<^verbatim>\<open>Uint16\<close> and \<^verbatim>\<open>Uint64\<close> read the first 2 or 8 bytes and panic on a shorter slice.\<close>

definition Uint16 :: "byte list \<Rightarrow> uint16 res" where
  "Uint16 bs = (if length bs < 2 then Panic else Ok (be_word (take 2 bs)))"

definition Uint64 :: "byte list \<Rightarrow> uint64 res" where
  "Uint64 bs = (if length bs < 8 then Panic else Ok (be_word (take 8 bs)))"

subsection \<open>Numeric value of a byte list\<close>

definition be_nat :: "byte list \<Rightarrow> nat" where
  "be_nat bs = foldl (\<lambda>a b. a * 256 + unat b) 0 bs"

lemma be_nat_Nil [simp]: "be_nat [] = 0"
  by (simp add: be_nat_def)

lemma be_nat_snoc [simp]: "be_nat (bs @ [b]) = be_nat bs * 256 + unat b"
  by (simp add: be_nat_def)

lemma be_nat_append: "be_nat (as @ bs) = be_nat as * 256 ^ length bs + be_nat bs"
  by (induction bs rule: rev_induct) (simp_all add: algebra_simps flip: append_assoc)

lemma be_nat_Cons: "be_nat (b # bs) = unat b * 256 ^ length bs + be_nat bs"
  using be_nat_append [of "[b]" bs] by (simp add: be_nat_def)

lemma unat_byte: "unat (b :: byte) < 256"
  using unsigned_less [of b] by simp

lemma be_nat_less: "be_nat bs < 256 ^ length bs"
proof (induction bs rule: rev_induct)
  case (snoc b bs)
  have "be_nat bs * 256 + unat b < (be_nat bs + 1) * 256"
    using unat_byte [of b] by simp
  also have "\<dots> \<le> 256 ^ length bs * 256"
    using snoc by (intro mult_right_mono) simp_all
  finally show ?case by (simp add: mult.commute)
qed simp

lemma length_be_bytes [simp]: "length (be_bytes n v) = n"
  by (induction n) simp_all

lemma be_nat_be_bytes: "be_nat (be_bytes n v) = unat v mod 256 ^ n"
proof (induction n)
  case (Suc n)
  have "unat (drop_bit (8 * n) v) = unat v div 2 ^ (8 * n)"
    by (simp add: unsigned_drop_bit_eq take_bit_nat_eq_self flip: drop_bit_eq_div)
  then have "unat (ucast (drop_bit (8 * n) v) :: byte) = (unat v div 2 ^ (8 * n)) mod 2 ^ 8"
    by (simp add: unsigned_ucast_eq take_bit_eq_mod)
  moreover have "(2::nat) ^ (8 * n) = 256 ^ n"
    by (simp add: power_mult)
  ultimately have hd: "unat (ucast (drop_bit (8 * n) v) :: byte) = (unat v div 256 ^ n) mod 256"
    by simp
  have "be_nat (be_bytes (Suc n) v) = (unat v div 256 ^ n) mod 256 * 256 ^ n + unat v mod 256 ^ n"
    by (simp add: be_nat_Cons hd Suc)
  also have "\<dots> = unat v mod (256 ^ n * 256)"
    by (simp add: mod_mult2_eq)
  finally show ?case by (simp add: mult.commute)
qed simp

lemma be_nat_inj: "length as = length bs \<Longrightarrow> be_nat as = be_nat bs \<Longrightarrow> as = bs"
proof (induction as bs rule: list_induct2)
  case (Cons a as b bs)
  have small: "be_nat as < 256 ^ length bs" "be_nat bs < 256 ^ length bs"
    using be_nat_less [of as] be_nat_less [of bs] Cons.hyps by simp_all
  have eq: "unat a * 256 ^ length bs + be_nat as = unat b * 256 ^ length bs + be_nat bs"
    using Cons.prems Cons.hyps by (simp add: be_nat_Cons)
  have "unat a = (unat a * 256 ^ length bs + be_nat as) div 256 ^ length bs"
    using small by simp
  also have "\<dots> = unat b"
    unfolding eq using small by simp
  finally have "a = b" by (simp add: word_unat_eq_iff)
  with eq Cons.IH show ?case by simp
qed simp

lemma push_or_eq: "push_bit 8 a OR ucast (b :: byte) = a * 256 + (ucast b :: 'a::len word)"
proof -
  have "push_bit 8 a AND ucast b = (0 :: 'a word)"
    by (rule bit_word_eqI) (auto simp: bit_simps dest: bit_imp_le_length)
  then have "push_bit 8 a OR ucast b = push_bit 8 a + (ucast b :: 'a word)"
    by (simp add: disjunctive_add_eq_or)
  then show ?thesis by (simp add: push_bit_eq_mult)
qed

lemma be_word_of_nat: "(be_word bs :: 'a::len word) = word_of_nat (be_nat bs)"
proof (induction bs rule: rev_induct)
  case (snoc b bs)
  then show ?case
    by (simp add: be_word_def push_or_eq mult.commute)
qed (simp add: be_word_def)

lemma unat_be_word:
  "256 ^ length bs \<le> (2::nat) ^ LENGTH('a::len) \<Longrightarrow> unat (be_word bs :: 'a word) = be_nat bs"
  using be_nat_less [of bs] by (simp add: be_word_of_nat unsigned_of_nat take_bit_nat_eq_self order.strict_trans2)

subsection \<open>Round trips\<close>

lemma be_word_be_bytes16 [simp]: "be_word (be_bytes 2 v) = (v :: uint16)"
  using unsigned_less [of v, where ?'a = nat] by (simp add: be_word_of_nat be_nat_be_bytes)

lemma be_word_be_bytes64 [simp]: "be_word (be_bytes 8 v) = (v :: uint64)"
  using unsigned_less [of v, where ?'a = nat] by (simp add: be_word_of_nat be_nat_be_bytes)

lemma be_bytes_be_word64: "length bs = 8 \<Longrightarrow> be_bytes 8 (be_word bs :: uint64) = bs"
  using be_nat_less [of bs] by (intro be_nat_inj) (simp_all add: be_nat_be_bytes unat_be_word)

lemma be_bytes_be_word16: "length bs = 2 \<Longrightarrow> be_bytes 2 (be_word bs :: uint16) = bs"
  using be_nat_less [of bs] by (intro be_nat_inj) (simp_all add: be_nat_be_bytes unat_be_word)

lemma length_PutUint [simp]: "length (PutUint16 a) = 2" "length (PutUint64 b) = 8"
  by (simp_all add: PutUint16_def PutUint64_def)

lemma Uint16_PutUint16 [simp]: "Uint16 (PutUint16 v) = Ok v"
  by (simp add: Uint16_def PutUint16_def)

lemma Uint64_PutUint64 [simp]: "Uint64 (PutUint64 v) = Ok v"
  by (simp add: Uint64_def PutUint64_def)

lemma PutUint_be_word [simp]:
  "length bs = 2 \<Longrightarrow> PutUint16 (be_word bs) = bs"
  "length cs = 8 \<Longrightarrow> PutUint64 (be_word cs) = cs"
  by (simp_all add: PutUint16_def PutUint64_def be_bytes_be_word16 be_bytes_be_word64)

lemma be_word_PutUint [simp]:
  "be_word (PutUint16 v) = v"
  "be_word (PutUint64 w) = w"
  by (simp_all add: PutUint16_def PutUint64_def)

lemma Uint64_eq_Ok: "Uint64 bs = Ok v \<longleftrightarrow> 8 \<le> length bs \<and> v = be_word (take 8 bs)"
  by (auto simp: Uint64_def)

lemma PutUint64_inject [simp]: "PutUint64 a = PutUint64 b \<longleftrightarrow> a = b"
  by (metis Uint64_PutUint64 res.inject(1))

section \<open>Comparison of byte slices\<close>

text \<open>\<^verbatim>\<open>bytes.Compare\<close>: lexicographic, a proper prefix is smaller.\<close>

fun bytes_Compare :: "byte list \<Rightarrow> byte list \<Rightarrow> int" where
  "bytes_Compare [] [] = 0"
| "bytes_Compare [] (b # bs) = -1"
| "bytes_Compare (a # as) [] = 1"
| "bytes_Compare (a # as) (b # bs) =
     (if a < b then -1 else if b < a then 1 else bytes_Compare as bs)"

lemma bytes_Compare_order:
  "bytes_Compare as bs = (if as < bs then -1 else if as = bs then 0 else 1)"
  by (induction as bs rule: bytes_Compare.induct) auto

lemma bytes_Compare_iff [simp]:
  "bytes_Compare as bs = 0 \<longleftrightarrow> as = bs"
  "0 \<le> bytes_Compare as bs \<longleftrightarrow> bs \<le> as"
  "bytes_Compare as bs = 1 \<longleftrightarrow> bs < as"
  "0 < bytes_Compare as bs \<longleftrightarrow> bs < as"
  by (auto simp: bytes_Compare_order)

lemma bytes_less_iff_be_nat:
  "length as = length bs \<Longrightarrow> as < bs \<longleftrightarrow> be_nat as < be_nat bs"
proof (induction as bs rule: list_induct2)
  case (Cons a as b bs)
  have small: "be_nat as < 256 ^ length bs" "be_nat bs < 256 ^ length bs"
    using be_nat_less [of as] be_nat_less [of bs] Cons.hyps by simp_all
  have step: "unat x * m + r < unat y * m + t" if "x < y" "r < m" for x y :: byte and m r t :: nat
  proof -
    have "unat x * m + r < (unat x + 1) * m" using that by simp
    also have "\<dots> \<le> unat y * m"
      using that by (intro mult_right_mono) (simp_all add: word_less_nat_alt)
    finally show ?thesis by simp
  qed
  show ?case
  proof (cases a b rule: linorder_cases)
    case less
    with step [OF less small(1)] Cons.hyps show ?thesis by (simp add: be_nat_Cons)
  next
    case equal
    with Cons show ?thesis by (simp add: be_nat_Cons)
  next
    case greater
    with step [OF greater small(2), of "be_nat as"] Cons.hyps show ?thesis
      by (auto simp: be_nat_Cons)
  qed
qed simp

end
