(* ===== verification/Key.thy ===== *)
theory Key
  imports Bytes
begin

text \<open>
  \<^verbatim>\<open>internal/btree/key.go\<close>: the order-preserving encoding of signed 64-bit keys and of
  two-column composite keys, with its inverse.
\<close>

section \<open>Definitions\<close>

definition signBitMask :: uint64 where
  "signBitMask = push_bit 63 1"

definition EncodeInt64 :: "int64 \<Rightarrow> byte list" where
  "EncodeInt64 n = (let bits = n; flipped = bits XOR signBitMask in PutUint64 flipped)"

definition DecodeInt64 :: "byte list \<Rightarrow> int64 res" where
  "DecodeInt64 encoded =
     rbind (Uint64 encoded) (\<lambda>decoded. let flipped = decoded XOR signBitMask in Ok flipped)"

definition CompareKeys :: "byte list \<Rightarrow> byte list \<Rightarrow> int" where
  "CompareKeys a b = bytes_Compare a b"

definition CompositeEntrySize :: uint16 where
  "CompositeEntrySize = 24"

definition EncodeCompositeKey :: "int64 \<Rightarrow> int64 \<Rightarrow> byte list" where
  "EncodeCompositeKey columnA columnB =
     (let encodedColumnA = EncodeInt64 columnA; encodedColumnB = EncodeInt64 columnB
      in encodedColumnA @ encodedColumnB)"

definition DecodeCompositeKey :: "byte list \<Rightarrow> (int64 \<times> int64) res" where
  "DecodeCompositeKey encoded =
     rbind (slice encoded 0 8) (\<lambda>encodedColumnA.
     rbind (slice encoded 8 (length encoded)) (\<lambda>encodedColumnB.
     rbind (DecodeInt64 encodedColumnA) (\<lambda>a.
     rbind (DecodeInt64 encodedColumnB) (\<lambda>b. Ok (a, b)))))"

section \<open>Round trips\<close>

lemma length_EncodeInt64 [simp]: "length (EncodeInt64 n) = 8"
  by (simp add: EncodeInt64_def)

lemma length_EncodeCompositeKey [simp]: "length (EncodeCompositeKey a b) = 16"
  by (simp add: EncodeCompositeKey_def)

lemma xor_mask_mask [simp]: "(n XOR m) XOR m = (n :: 'a::len word)"
  by (simp add: xor.assoc)

lemma Decode_Encode [simp]: "DecodeInt64 (EncodeInt64 n) = Ok n"
  by (simp add: DecodeInt64_def EncodeInt64_def)

lemma Decode_take [simp]: "8 \<le> length bs \<Longrightarrow> DecodeInt64 (take 8 bs) = DecodeInt64 bs"
  by (simp add: DecodeInt64_def Uint64_def)

lemma Decode_total: "8 \<le> length bs \<Longrightarrow> \<exists>n. DecodeInt64 bs = Ok n"
  by (simp add: DecodeInt64_def Uint64_def)

lemma Encode_Decode: "length bs = 8 \<Longrightarrow> DecodeInt64 bs = Ok n \<Longrightarrow> EncodeInt64 n = bs"
  by (auto simp: DecodeInt64_def EncodeInt64_def Uint64_def PutUint64_def be_bytes_be_word64)

lemma EncodeInt64_inject [simp]: "EncodeInt64 a = EncodeInt64 b \<longleftrightarrow> a = b"
  by (metis Decode_Encode res.inject(1))

lemma EncodeCompositeKey_inject [simp]:
  "EncodeCompositeKey a b = EncodeCompositeKey c d \<longleftrightarrow> a = c \<and> b = d"
  by (simp add: EncodeCompositeKey_def append_eq_append_conv)

section \<open>Order\<close>

text \<open>Flipping the sign bit shifts the signed range onto the unsigned one.\<close>

lemma xor_sign_eq_add: "n XOR signBitMask = n + 2 ^ 63"
proof -
  have "n XOR signBitMask = flip_bit 63 n"
    by (simp add: signBitMask_def flip_bit_eq_xor)
  also have "\<dots> = n + 2 ^ 63"
    by (simp add: flip_bit_eq_if set_bit_eq unset_bit_eq)
  finally show ?thesis .
qed

lemma unat_xor_sign: "int (unat (n XOR signBitMask)) = sint n + 2 ^ 63"
proof -
  have "uint (n + 2 ^ 63) = take_bit 64 (uint n + 2 ^ 63)"
    by (simp add: uint_word_ariths take_bit_eq_mod)
  then show ?thesis
    by (simp add: xor_sign_eq_add sint_uint signed_take_bit_eq_take_bit_shift)
qed

lemma EncodeInt64_less [simp]: "EncodeInt64 a < EncodeInt64 b \<longleftrightarrow> a <s b"
proof -
  have val: "be_nat (EncodeInt64 n) = unat (n XOR signBitMask)" for n
    using unsigned_less [of "n XOR signBitMask", where ?'a = nat]
    by (simp add: EncodeInt64_def PutUint64_def be_nat_be_bytes)
  have "EncodeInt64 a < EncodeInt64 b \<longleftrightarrow>
      int (unat (a XOR signBitMask)) < int (unat (b XOR signBitMask))"
    by (simp add: bytes_less_iff_be_nat val del: of_nat_unat)
  also have "\<dots> \<longleftrightarrow> sint a < sint b"
    unfolding unat_xor_sign by simp
  finally show ?thesis by (simp add: word_sless_alt)
qed

lemma EncodeInt64_le [simp]: "EncodeInt64 a \<le> EncodeInt64 b \<longleftrightarrow> a \<le>s b"
  by (metis EncodeInt64_less linorder_not_less signed.not_less)

lemma append_less_iff:
  "length as = length cs \<Longrightarrow> as @ bs < cs @ ds \<longleftrightarrow> as < cs \<or> as = cs \<and> bs < (ds :: byte list)"
  by (induction as cs rule: list_induct2) auto

lemma EncodeCompositeKey_less:
  "EncodeCompositeKey a b < EncodeCompositeKey c d \<longleftrightarrow> a <s c \<or> a = c \<and> b <s d"
  by (simp add: EncodeCompositeKey_def append_less_iff)

lemma composite_roundtrip: "DecodeCompositeKey (EncodeCompositeKey a b) = Ok (a, b)"
  by (simp add: DecodeCompositeKey_def slice_def EncodeCompositeKey_def sub_def)

section \<open>Properties\<close>

text \<open>
  C32. Keys compare as the integers they encode: the sign of \<^verbatim>\<open>CompareKeys\<close> on two encoded keys
  is the signed comparison of the keys, and decoding an encoded key gives the key back.
\<close>

theorem encode_int64_order_and_roundtrip:
  "CompareKeys (EncodeInt64 a) (EncodeInt64 b) =
     (if sint a < sint b then -1 else if sint a = sint b then 0 else 1) \<and>
   DecodeInt64 (EncodeInt64 a) = Ok a"
  by (simp add: CompareKeys_def bytes_Compare_order word_sless_alt)

text \<open>
  C33. Composite keys compare column by column, the first column deciding unless it is equal, and
  decoding an encoded composite key gives both columns back.
\<close>

theorem composite_key_order_and_roundtrip:
  "CompareKeys (EncodeCompositeKey a b) (EncodeCompositeKey c d) =
     (if sint a < sint c \<or> sint a = sint c \<and> sint b < sint d then -1
      else if sint a = sint c \<and> sint b = sint d then 0 else 1) \<and>
   DecodeCompositeKey (EncodeCompositeKey a b) = Ok (a, b)"
  by (simp add: CompareKeys_def bytes_Compare_order EncodeCompositeKey_less word_sless_alt composite_roundtrip)

end
