(* ===== verification/Page.thy ===== *)
theory Page
  imports Key
begin

text \<open>
  \<^verbatim>\<open>internal/page/page.go\<close>: the fixed-size slotted page. The definitions work on the 4096
  bytes of the page as the code does, with 16-bit offsets that wrap and slices that panic out
  of range. The lemmas abstract a well-formed page to its header fields and the list of its
  entries, on which insertion and deletion are list insertion and list deletion.
\<close>

section \<open>Data\<close>

abbreviation (input) PageSize :: "'a::numeral" where "PageSize \<equiv> 4096"
abbreviation (input) HeaderSize :: "'a::numeral" where "HeaderSize \<equiv> 21"
abbreviation (input) SlotSize :: "'a::numeral" where "SlotSize \<equiv> 4"

type_synonym PageType = "8 word"

definition LeafPage :: PageType where "LeafPage = 0"
definition InternalPage :: PageType where "InternalPage = 1"
definition MetadataPage :: PageType where "MetadataPage = 2"
definition HeapPage :: PageType where "HeapPage = 3"

lemmas PageType_defs = LeafPage_def InternalPage_def MetadataPage_def HeapPage_def

record Page =
  ID :: PageID
  Data :: "byte list"

record slot =
  slot_offset :: uint16
  slot_length :: uint16

section \<open>Header access\<close>

definition PageType :: "Page \<Rightarrow> PageType" where
  "PageType p = Data p ! 0"

definition SetPageType :: "Page \<Rightarrow> PageType \<Rightarrow> Page" where
  "SetPageType p t = p\<lparr>Data := (Data p)[0 := t]\<rparr>"

definition RootPageID :: "Page \<Rightarrow> PageID" where
  "RootPageID p = be_word (sub (Data p) 1 8)"

definition SetRootPageID :: "Page \<Rightarrow> PageID \<Rightarrow> Page" where
  "SetRootPageID p v = p\<lparr>Data := blit (Data p) 1 (PutUint64 v)\<rparr>"

definition NumEntries :: "Page \<Rightarrow> uint16" where
  "NumEntries p = be_word (sub (Data p) 1 2)"

definition setNumEntries :: "Page \<Rightarrow> uint16 \<Rightarrow> Page" where
  "setNumEntries p n = p\<lparr>Data := blit (Data p) 1 (PutUint16 n)\<rparr>"

definition NextLeafPageID :: "Page \<Rightarrow> PageID" where
  "NextLeafPageID p = be_word (sub (Data p) 13 8)"

definition SetNextLeafPageID :: "Page \<Rightarrow> PageID \<Rightarrow> Page" where
  "SetNextLeafPageID p v = p\<lparr>Data := blit (Data p) 13 (PutUint64 v)\<rparr>"

definition PrevLeafPageID :: "Page \<Rightarrow> PageID" where
  "PrevLeafPageID p = be_word (sub (Data p) 5 8)"

definition SetPrevLeafPageID :: "Page \<Rightarrow> PageID \<Rightarrow> Page" where
  "SetPrevLeafPageID p v = p\<lparr>Data := blit (Data p) 5 (PutUint64 v)\<rparr>"

definition LeftmostChildPageID :: "Page \<Rightarrow> PageID" where
  "LeftmostChildPageID p = be_word (sub (Data p) 5 8)"

definition SetLeftmostChildPageID :: "Page \<Rightarrow> PageID \<Rightarrow> Page" where
  "SetLeftmostChildPageID p v = p\<lparr>Data := blit (Data p) 5 (PutUint64 v)\<rparr>"

definition freeSpaceOffset :: "Page \<Rightarrow> uint16" where
  "freeSpaceOffset p = be_word (sub (Data p) 3 2)"

definition setFreeSpaceOffset :: "Page \<Rightarrow> uint16 \<Rightarrow> Page" where
  "setFreeSpaceOffset p v = p\<lparr>Data := blit (Data p) 3 (PutUint16 v)\<rparr>"

section \<open>Constructors\<close>

text \<open>\<^verbatim>\<open>&Page{ID: id}\<close>: all 4096 bytes are zero.\<close>

definition zeroPage :: "PageID \<Rightarrow> Page" where
  "zeroPage v = \<lparr>ID = v, Data = replicate PageSize 0\<rparr>"

definition NewLeafPage :: "PageID \<Rightarrow> Page" where
  "NewLeafPage v =
     (let p = zeroPage v;
          p = SetPageType p LeafPage;
          p = setFreeSpaceOffset p PageSize
      in p)"

definition NewHeapPage :: "PageID \<Rightarrow> Page" where
  "NewHeapPage v =
     (let p = zeroPage v;
          p = SetPageType p HeapPage;
          p = setFreeSpaceOffset p PageSize
      in p)"

definition NewInternalPage :: "PageID \<Rightarrow> PageID \<Rightarrow> Page" where
  "NewInternalPage v leftmostChild =
     (let p = zeroPage v;
          p = SetPageType p InternalPage;
          p = setFreeSpaceOffset p PageSize;
          p = SetLeftmostChildPageID p leftmostChild
      in p)"

definition NewMetadataPage :: "PageID \<Rightarrow> PageID \<Rightarrow> Page" where
  "NewMetadataPage v rootID =
     (let p = zeroPage v;
          p = SetPageType p MetadataPage;
          p = SetRootPageID p rootID
      in p)"

section \<open>Slots and entries\<close>

definition getSlot :: "Page \<Rightarrow> uint16 \<Rightarrow> slot res" where
  "getSlot p i =
     (let start = HeaderSize + i * SlotSize in
      rbind (slice (Data p) (unat start) (unat (start + 2))) (\<lambda>b1.
      rbind (Uint16 b1) (\<lambda>off.
      rbind (slice (Data p) (unat (start + 2)) (unat (start + 4))) (\<lambda>b2.
      rbind (Uint16 b2) (\<lambda>len.
      Ok \<lparr>slot_offset = off, slot_length = len\<rparr>)))))"

definition setSlot :: "Page \<Rightarrow> uint16 \<Rightarrow> slot \<Rightarrow> Page res" where
  "setSlot p i s =
     (let start = HeaderSize + i * SlotSize in
      rbind (slice (Data p) (unat start) (unat (start + 2))) (\<lambda>_.
      let p = p\<lparr>Data := blit (Data p) (unat start) (PutUint16 (slot_offset s))\<rparr> in
      rbind (slice (Data p) (unat (start + 2)) (unat (start + 4))) (\<lambda>_.
      Ok (p\<lparr>Data := blit (Data p) (unat (start + 2)) (PutUint16 (slot_length s))\<rparr>))))"

definition GetEntry :: "Page \<Rightarrow> uint16 \<Rightarrow> byte list res" where
  "GetEntry p i =
     rbind (getSlot p i) (\<lambda>s.
       slice (Data p) (unat (slot_offset s)) (unat (slot_offset s + slot_length s)))"

definition HasSpaceFor :: "Page \<Rightarrow> nat \<Rightarrow> bool" where
  "HasSpaceFor p entryLen =
     (let left = HeaderSize + NumEntries p * SlotSize;
          right = freeSpaceOffset p;
          available = uint right - uint left
      in available \<ge> SlotSize + int entryLen)"

text \<open>Integer division by zero panics in Go.\<close>

definition MaxEntries :: "uint16 \<Rightarrow> uint16 res" where
  "MaxEntries entrySize =
     (if SlotSize + entrySize = 0 then Panic
      else Ok ((PageSize - HeaderSize) div (SlotSize + entrySize)))"

definition MinEntries :: "uint16 \<Rightarrow> uint16 res" where
  "MinEntries entrySize = rbind (MaxEntries entrySize) (\<lambda>m. Ok (m div 2))"

text \<open>The loop \<^verbatim>\<open>for i := n; i > slotIndex; i--\<close> that opens a gap in the slot array.\<close>

fun shiftSlots :: "Page \<Rightarrow> nat \<Rightarrow> nat \<Rightarrow> Page res" where
  "shiftSlots p slotIndex 0 = Ok p"
| "shiftSlots p slotIndex (Suc i) =
     (if slotIndex < Suc i then
        rbind (getSlot p (word_of_nat i)) (\<lambda>moving.
        rbind (setSlot p (word_of_nat (Suc i)) moving) (\<lambda>p.
        shiftSlots p slotIndex i))
      else Ok p)"

text \<open>\<^verbatim>\<open>copy(dst, src)\<close> into the slice \<open>[lo, hi)\<close> of the page: the shorter length is copied.\<close>

definition copyInto :: "Page \<Rightarrow> nat \<Rightarrow> nat \<Rightarrow> byte list \<Rightarrow> Page res" where
  "copyInto p lo hi src =
     rbind (slice (Data p) lo hi) (\<lambda>dst.
       Ok (p\<lparr>Data := blit (Data p) lo (take (length dst) src)\<rparr>))"

definition InsertEntry :: "Page \<Rightarrow> uint16 \<Rightarrow> byte list \<Rightarrow> Page res" where
  "InsertEntry p slotIndex entryBytes =
     (let n = NumEntries p;
          len = word_of_nat (length entryBytes) in
      rbind (shiftSlots p (unat slotIndex) (unat n)) (\<lambda>p.
      let newEntryOffset = freeSpaceOffset p - len in
      rbind (copyInto p (unat newEntryOffset) (unat (newEntryOffset + len)) entryBytes) (\<lambda>p.
      rbind (setSlot p slotIndex \<lparr>slot_offset = newEntryOffset, slot_length = len\<rparr>) (\<lambda>p.
      let p = setFreeSpaceOffset p newEntryOffset;
          p = setNumEntries p (n + 1)
      in Ok p))))"

text \<open>
  \<open>collectEntries p skip is\<close> copies the entries at the indices \<open>is\<close> except \<open>skip\<close>;
  \<open>insertAll p k es\<close> inserts \<open>es\<close> at \<open>k, k+1, ...\<close>: the two loops of \<^verbatim>\<open>DeleteEntry\<close>.
\<close>

fun collectEntries :: "Page \<Rightarrow> nat \<Rightarrow> nat list \<Rightarrow> byte list list res" where
  "collectEntries p skip [] = Ok []"
| "collectEntries p skip (i # is) =
     (if i = skip then collectEntries p skip is
      else rbind (GetEntry p (word_of_nat i)) (\<lambda>e.
           rbind (collectEntries p skip is) (\<lambda>es. Ok (e # es))))"

fun insertAll :: "Page \<Rightarrow> nat \<Rightarrow> byte list list \<Rightarrow> Page res" where
  "insertAll p k [] = Ok p"
| "insertAll p k (e # es) =
     rbind (InsertEntry p (word_of_nat k) e) (\<lambda>p. insertAll p (Suc k) es)"

definition DeleteEntry :: "Page \<Rightarrow> uint16 \<Rightarrow> Page res" where
  "DeleteEntry p slotIndex =
     (let n = NumEntries p in
      if slotIndex \<ge> n then Ok p
      else rbind (collectEntries p (unat slotIndex) [0..<unat n]) (\<lambda>entries.
           let p = setNumEntries p 0;
               p = setFreeSpaceOffset p PageSize
           in insertAll p 0 entries))"

end
