(* ===== verification/Page_Layout.thy ===== *)
theory Page_Layout
  imports Page
begin

text \<open>
  The abstraction of a page: \<open>entries p\<close> is the list of entry byte strings in slot order and
  \<open>wf_page p\<close> the layout invariant (the slot array and the entry data do not overlap and the
  entry data is packed against the end of the page). On well-formed pages the operations of
  \<^verbatim>\<open>page.go\<close> do not panic, keep the invariant, keep the other header fields, and act on
  \<open>entries\<close> as the list operations do.
\<close>

section \<open>Abstraction\<close>

definition slotOff :: "byte list \<Rightarrow> nat \<Rightarrow> nat" where
  "slotOff d i = unat (be_word (sub d (HeaderSize + SlotSize * i) 2) :: uint16)"

definition slotLen :: "byte list \<Rightarrow> nat \<Rightarrow> nat" where
  "slotLen d i = unat (be_word (sub d (HeaderSize + SlotSize * i + 2) 2) :: uint16)"

definition entryAt :: "byte list \<Rightarrow> nat \<Rightarrow> byte list" where
  "entryAt d i = sub d (slotOff d i) (slotLen d i)"

abbreviation numEntries :: "Page \<Rightarrow> nat" where
  "numEntries p \<equiv> unat (NumEntries p)"

definition entries :: "Page \<Rightarrow> byte list list" where
  "entries p = map (entryAt (Data p)) [0..<numEntries p]"

definition dataBytes :: "byte list list \<Rightarrow> nat" where
  "dataBytes es = sum_list (map length es)"

definition wf_page :: "Page \<Rightarrow> bool" where
  "wf_page p \<longleftrightarrow>
     length (Data p) = PageSize \<and>
     unat (freeSpaceOffset p) + dataBytes (entries p) = PageSize \<and>
     HeaderSize + SlotSize * numEntries p \<le> unat (freeSpaceOffset p) \<and>
     (\<forall>i < numEntries p. unat (freeSpaceOffset p) \<le> slotOff (Data p) i \<and>
        slotOff (Data p) i + slotLen (Data p) i \<le> PageSize)"

lemma length_entries [simp]: "length (entries p) = numEntries p"
  by (simp add: entries_def)

lemma dataBytes_simps [simp]:
  "dataBytes [] = 0"
  "dataBytes (e # es) = length e + dataBytes es"
  "dataBytes (es @ fs) = dataBytes es + dataBytes fs"
  by (simp_all add: dataBytes_def)

lemma dataBytes_take_drop: "dataBytes (take i es) + dataBytes (drop i es) = dataBytes es"
  by (simp flip: dataBytes_simps(3))

text \<open>Room on a page, in terms of its entries only.\<close>

definition fits :: "byte list list \<Rightarrow> bool" where
  "fits es \<longleftrightarrow> HeaderSize + SlotSize * length es + dataBytes es \<le> PageSize"

lemma wf_page_fits: "wf_page p \<Longrightarrow> fits (entries p)"
  by (auto simp: wf_page_def fits_def)

lemma wf_page_numEntries: "wf_page p \<Longrightarrow> numEntries p \<le> 1018"
  by (auto simp: wf_page_def)

lemma HasSpaceFor_iff:
  assumes "wf_page p"
  shows "HasSpaceFor p m \<longleftrightarrow> fits (entries p) \<and>
    HeaderSize + SlotSize * (numEntries p + 1) + dataBytes (entries p) + m \<le> PageSize"
proof -
  have n: "numEntries p \<le> 1018" using assms by (rule wf_page_numEntries)
  then have "unat (HeaderSize + NumEntries p * SlotSize :: uint16) = HeaderSize + SlotSize * numEntries p"
    by (simp add: unat_word_ariths)
  then have left: "uint (HeaderSize + NumEntries p * SlotSize :: uint16) = HeaderSize + SlotSize * int (numEntries p)"
    by (metis (mono_tags, lifting) of_nat_add of_nat_mult of_nat_numeral of_nat_unat)
  have right: "uint (freeSpaceOffset p) = int (unat (freeSpaceOffset p))" by simp
  show ?thesis
    using assms unfolding HasSpaceFor_def Let_def left right wf_page_def fits_def
    by (auto simp del: of_nat_unat)
qed

section \<open>Slot access on the layout\<close>

lemma slot_start:
  "HeaderSize + SlotSize * i + 4 \<le> PageSize \<Longrightarrow>
   unat (HeaderSize + word_of_nat i * SlotSize :: uint16) = HeaderSize + SlotSize * i \<and>
   unat (HeaderSize + word_of_nat i * SlotSize + 2 :: uint16) = HeaderSize + SlotSize * i + 2 \<and>
   unat (HeaderSize + word_of_nat i * SlotSize + 4 :: uint16) = HeaderSize + SlotSize * i + 4"
  by (simp add: unat_word_ariths unat_of_nat_small)

lemma getSlot_layout:
  assumes "length (Data p) = PageSize" "HeaderSize + SlotSize * i + 4 \<le> (PageSize::nat)"
  shows "getSlot p (word_of_nat i) =
    Ok \<lparr>slot_offset = be_word (sub (Data p) (HeaderSize + SlotSize * i) 2),
        slot_length = be_word (sub (Data p) (HeaderSize + SlotSize * i + 2) 2)\<rparr>"
  using assms slot_start [OF assms(2)]
  by (simp add: getSlot_def Let_def slice_def Uint16_def length_sub)

lemma setSlot_layout:
  assumes "length (Data p) = PageSize" "HeaderSize + SlotSize * i + 4 \<le> (PageSize::nat)"
  shows "setSlot p (word_of_nat i) s =
    Ok (p\<lparr>Data := blit (Data p) (HeaderSize + SlotSize * i)
                     (PutUint16 (slot_offset s) @ PutUint16 (slot_length s))\<rparr>)"
proof -
  have "blit (blit (Data p) (HeaderSize + SlotSize * i) (PutUint16 (slot_offset s)))
          (HeaderSize + SlotSize * i + 2) (PutUint16 (slot_length s)) =
        blit (Data p) (HeaderSize + SlotSize * i) (PutUint16 (slot_offset s) @ PutUint16 (slot_length s))"
    by (rule nth_equalityI) (use assms in \<open>auto simp: blit_nth nth_append\<close>)
  with assms slot_start [OF assms(2)] show ?thesis
    by (simp add: setSlot_def Let_def slice_def)
qed

text \<open>Moving slot \<open>i\<close> up after slots \<open>k..<i\<close> have been moved is one longer move.\<close>

lemma shift_join:
  assumes "length d = PageSize" "HeaderSize + SlotSize * i + 8 \<le> (PageSize::nat)" "k \<le> i"
  shows "blit (blit d (HeaderSize + SlotSize * Suc i) (sub d (HeaderSize + SlotSize * i) 4))
           (HeaderSize + SlotSize * (k + 1)) (sub d (HeaderSize + SlotSize * k) (SlotSize * (i - k))) =
         blit d (HeaderSize + SlotSize * (k + 1)) (sub d (HeaderSize + SlotSize * k) (SlotSize * (Suc i - k)))"
proof -
  let ?low = "sub d (HeaderSize + SlotSize * k) (SlotSize * (i - k))"
  have len: "HeaderSize + SlotSize * (k + 1) + length ?low = HeaderSize + SlotSize * Suc i"
    using assms by (simp add: length_sub diff_mult_distrib2)
  have "?low @ sub d (HeaderSize + SlotSize * i) 4 = sub d (HeaderSize + SlotSize * k) (SlotSize * (Suc i - k))"
    using sub_append [of "HeaderSize + SlotSize * k" "SlotSize * (i - k)" 4 d] assms
    by (simp add: Suc_diff_le diff_mult_distrib2 add.commute)
  moreover have "blit (blit d (HeaderSize + SlotSize * (k + 1) + length ?low) (sub d (HeaderSize + SlotSize * i) 4))
        (HeaderSize + SlotSize * (k + 1)) ?low =
      blit d (HeaderSize + SlotSize * (k + 1)) (?low @ sub d (HeaderSize + SlotSize * i) 4)"
    using assms by (intro blit_adjacent) (simp add: length_sub)
  ultimately show ?thesis unfolding len by simp
qed

lemma moveSlot_layout:
  assumes "length (Data p) = PageSize" "HeaderSize + SlotSize * i + 8 \<le> (PageSize::nat)"
  shows "rbind (getSlot p (word_of_nat i)) (setSlot p (word_of_nat (Suc i))) =
    Ok (p\<lparr>Data := blit (Data p) (HeaderSize + SlotSize * Suc i) (sub (Data p) (HeaderSize + SlotSize * i) 4)\<rparr>)"
proof -
  have "sub (Data p) (HeaderSize + SlotSize * i) 2 @ sub (Data p) (HeaderSize + SlotSize * i + 2) 2 =
      sub (Data p) (HeaderSize + SlotSize * i) 4"
    using assms by (subst sub_append) simp_all
  with assms show ?thesis
    by (simp add: getSlot_layout setSlot_layout length_sub add.commute del: of_nat_Suc)
qed

lemma shiftSlots_layout:
  assumes "length (Data p) = PageSize" "HeaderSize + SlotSize * (n + 1) \<le> (PageSize::nat)" "k \<le> n"
  shows "shiftSlots p k n = Ok (p\<lparr>Data :=
    blit (Data p) (HeaderSize + SlotSize * (k + 1)) (sub (Data p) (HeaderSize + SlotSize * k) (SlotSize * (n - k)))\<rparr>)"
  using assms
proof (induction n arbitrary: p)
  case (Suc i)
  show ?case
  proof (cases "k \<le> i")
    case True
    define d1 where "d1 = blit (Data p) (HeaderSize + SlotSize * Suc i) (sub (Data p) (HeaderSize + SlotSize * i) 4)"
    have room: "HeaderSize + SlotSize * i + 8 \<le> (PageSize::nat)"
      using Suc.prems by simp
    have len1: "length d1 = PageSize"
      using Suc.prems by (simp add: d1_def length_sub)
    have "shiftSlots p k (Suc i) = shiftSlots (p\<lparr>Data := d1\<rparr>) k i"
      using True moveSlot_layout [OF Suc.prems(1) room]
      by (auto simp: rbind_eq_Ok d1_def simp del: of_nat_Suc)
    also have "\<dots> = Ok (p\<lparr>Data := blit d1 (HeaderSize + SlotSize * (k + 1))
        (sub d1 (HeaderSize + SlotSize * k) (SlotSize * (i - k)))\<rparr>)"
      using Suc.IH [of "p\<lparr>Data := d1\<rparr>"] len1 room True by simp
    also have "sub d1 (HeaderSize + SlotSize * k) (SlotSize * (i - k)) =
        sub (Data p) (HeaderSize + SlotSize * k) (SlotSize * (i - k))"
      using True Suc.prems by (simp add: d1_def byte_simps length_sub)
    finally show ?thesis
      using shift_join [OF Suc.prems(1) room True] by (simp add: d1_def)
  next
    case False
    with Suc.prems have "k = Suc i" by simp
    then show ?thesis by simp
  qed
qed simp

section \<open>Insertion\<close>

text \<open>The header fields an entry operation must leave alone.\<close>

definition header :: "Page \<Rightarrow> PageID \<times> PageType \<times> PageID \<times> PageID" where
  "header p = (ID p, PageType p, PrevLeafPageID p, NextLeafPageID p)"

lemma slot_of_bytes:
  "slotOff d i = unat (be_word (sub (sub d (HeaderSize + SlotSize * i) 4) 0 2) :: uint16)"
  "slotLen d i = unat (be_word (sub (sub d (HeaderSize + SlotSize * i) 4) 2 2) :: uint16)"
  by (simp_all add: slotOff_def slotLen_def sub_sub)

text \<open>The bytes of the page after inserting \<open>e\<close> at slot \<open>k\<close> of \<open>n\<close>, with its data at \<open>off\<close>.\<close>

definition insertData :: "byte list \<Rightarrow> nat \<Rightarrow> nat \<Rightarrow> nat \<Rightarrow> byte list \<Rightarrow> byte list" where
  "insertData d k n off e =
     blit (blit (blit (blit (blit d (HeaderSize + SlotSize * (k + 1)) (sub d (HeaderSize + SlotSize * k) (SlotSize * (n - k))))
       off e)
       (HeaderSize + SlotSize * k) (PutUint16 (word_of_nat off) @ PutUint16 (word_of_nat (length e))))
       3 (PutUint16 (word_of_nat off)))
       1 (PutUint16 (word_of_nat (n + 1)))"

lemma insertData_bytes:
  assumes "length d = PageSize" "k \<le> n" "HeaderSize + SlotSize * (n + 1) \<le> off" "off + length e \<le> PageSize"
  shows length_insertData: "length (insertData d k n off e) = PageSize"
    and insertData_num: "sub (insertData d k n off e) 1 2 = PutUint16 (word_of_nat (n + 1))"
    and insertData_free: "sub (insertData d k n off e) 3 2 = PutUint16 (word_of_nat off)"
    and insertData_prev: "sub (insertData d k n off e) 5 8 = sub d 5 8"
    and insertData_next: "sub (insertData d k n off e) 13 8 = sub d 13 8"
    and insertData_type: "insertData d k n off e ! 0 = d ! 0"
    and insertData_entry: "sub (insertData d k n off e) off (length e) = e"
    and insertData_above:
      "off + length e \<le> a \<Longrightarrow> a + m \<le> PageSize \<Longrightarrow> sub (insertData d k n off e) a m = sub d a m"
  using assms by (auto simp: insertData_def byte_simps length_sub blit_nth)

lemma insertData_slot:
  assumes "length d = PageSize" "k \<le> n" "HeaderSize + SlotSize * (n + 1) \<le> off" "off + length e \<le> PageSize"
    and "j \<le> n"
  shows "sub (insertData d k n off e) (HeaderSize + SlotSize * j) 4 =
    (if j < k then sub d (HeaderSize + SlotSize * j) 4
     else if j = k then PutUint16 (word_of_nat off) @ PutUint16 (word_of_nat (length e))
     else sub d (HeaderSize + SlotSize * (j - 1)) 4)"
proof -
  consider "j < k" | "j = k" | "k < j" by linarith
  then show ?thesis
  proof cases
    case 3
    then obtain i where j: "j = Suc i" by (cases j) simp_all
    have "sub (blit d (HeaderSize + SlotSize * (k + 1)) (sub d (HeaderSize + SlotSize * k) (SlotSize * (n - k))))
        (HeaderSize + SlotSize * j) 4 = sub (sub d (HeaderSize + SlotSize * k) (SlotSize * (n - k))) (SlotSize * (i - k)) 4"
      using 3 assms j by (subst sub_blit_within) (simp_all add: length_sub diff_mult_distrib2)
    also have "\<dots> = sub d (HeaderSize + SlotSize * i) 4"
      using 3 assms j by (subst sub_sub) (simp_all add: diff_mult_distrib2)
    finally show ?thesis
      using 3 assms j by (simp add: insertData_def byte_simps length_sub)
  qed (use assms in \<open>simp_all add: insertData_def byte_simps length_sub\<close>)
qed

lemma InsertEntry_layout:
  assumes wf: "wf_page p" and k: "unat k \<le> numEntries p"
    and room: "HeaderSize + SlotSize * (numEntries p + 1) + dataBytes (entries p) + length e \<le> PageSize"
  shows "InsertEntry p k e = Ok (p\<lparr>Data :=
    insertData (Data p) (unat k) (numEntries p) (unat (freeSpaceOffset p) - length e) e\<rparr>)"
proof -
  let ?n = "numEntries p"
  define off where "off = unat (freeSpaceOffset p) - length e"
  have len: "length (Data p) = PageSize"
    and free: "unat (freeSpaceOffset p) = off + length e" "off + length e \<le> PageSize"
    and off: "HeaderSize + SlotSize * (?n + 1) \<le> off"
    using wf room by (auto simp: wf_page_def off_def)
  define d1 where "d1 = blit (Data p) (HeaderSize + SlotSize * (unat k + 1))
      (sub (Data p) (HeaderSize + SlotSize * unat k) (SlotSize * (?n - unat k)))"
  have len1: "length d1 = PageSize"
    using len k off free by (simp add: d1_def length_sub)
  have shift: "shiftSlots p (unat k) ?n = Ok (p\<lparr>Data := d1\<rparr>)"
    unfolding d1_def using len k off free by (intro shiftSlots_layout) simp_all
  have fso: "freeSpaceOffset (p\<lparr>Data := d1\<rparr>) = freeSpaceOffset p"
    using len k off free by (simp add: freeSpaceOffset_def d1_def byte_simps length_sub)
  have new: "freeSpaceOffset p - word_of_nat (length e) = word_of_nat off"
    using free by (simp add: word_unat_eq_iff unat_sub_if' unat_of_nat_small)
  have unat_off: "unat (word_of_nat off :: uint16) = off"
      "unat (word_of_nat off + word_of_nat (length e) :: uint16) = off + length e"
    using free by (simp_all add: unat_of_nat_small unat_word_ariths)
  have slot: "setSlot (p\<lparr>Data := blit d1 off e\<rparr>) k s = Ok (p\<lparr>Data :=
      blit (blit d1 off e) (HeaderSize + SlotSize * unat k) (PutUint16 (slot_offset s) @ PutUint16 (slot_length s))\<rparr>)" for s
    using setSlot_layout [of "p\<lparr>Data := blit d1 off e\<rparr>" "unat k" s] len1 free off k by simp
  have num: "NumEntries p + 1 = word_of_nat (?n + 1)" by simp
  show ?thesis
    unfolding InsertEntry_def Let_def shift rbind_simps fso new unat_off num off_def [symmetric]
      insertData_def d1_def [symmetric]
    using len1 free
    by (simp add: copyInto_def slice_def length_sub slot setFreeSpaceOffset_def setNumEntries_def)
qed

text \<open>The list operation that insertion implements.\<close>

definition insert_nth :: "nat \<Rightarrow> 'a \<Rightarrow> 'a list \<Rightarrow> 'a list" where
  "insert_nth i x xs = take i xs @ x # drop i xs"

lemma length_insert_nth [simp]: "length (insert_nth i x xs) = Suc (length xs)"
  by (simp add: insert_nth_def)

lemma insert_nth_length [simp]: "insert_nth (length xs) x xs = xs @ [x]"
  by (simp add: insert_nth_def)

lemma insert_nth_0 [simp]: "insert_nth 0 x xs = x # xs"
  by (simp add: insert_nth_def)

lemma nth_insert_nth:
  "i \<le> length xs \<Longrightarrow> j \<le> length xs \<Longrightarrow>
   insert_nth i x xs ! j = (if j < i then xs ! j else if j = i then x else xs ! (j - 1))"
  by (auto simp: insert_nth_def nth_append nth_Cons')

lemma dataBytes_insert_nth [simp]: "dataBytes (insert_nth i e es) = dataBytes es + length e"
  using dataBytes_take_drop [of i es] by (simp add: insert_nth_def)

lemma entries_nth: "i < numEntries p \<Longrightarrow> entries p ! i = entryAt (Data p) i"
  by (simp add: entries_def)

lemma entryAt_insertData:
  assumes "length d = PageSize" "k \<le> n" "HeaderSize + SlotSize * (n + 1) \<le> off" "off + length e \<le> PageSize"
    and slots: "\<And>i. i < n \<Longrightarrow> off + length e \<le> slotOff d i \<and> slotOff d i + slotLen d i \<le> PageSize"
    and j: "j \<le> n"
  shows "slotOff (insertData d k n off e) j = (if j < k then slotOff d j else if j = k then off else slotOff d (j - 1))"
    and "slotLen (insertData d k n off e) j = (if j < k then slotLen d j else if j = k then length e else slotLen d (j - 1))"
    and "entryAt (insertData d k n off e) j = (if j < k then entryAt d j else if j = k then e else entryAt d (j - 1))"
proof -
  note slot = insertData_slot [OF assms(1-4) j]
  have put: "sub (PutUint16 a @ PutUint16 b) 0 2 = PutUint16 a" "sub (PutUint16 a @ PutUint16 b) 2 2 = PutUint16 b" for a b
    by (simp_all add: sub_def)
  show off: "slotOff (insertData d k n off e) j = (if j < k then slotOff d j else if j = k then off else slotOff d (j - 1))"
    using assms(4) unfolding slot_of_bytes(1) slot by (simp add: put unat_of_nat_small)
  show len: "slotLen (insertData d k n off e) j = (if j < k then slotLen d j else if j = k then length e else slotLen d (j - 1))"
    using assms(4) unfolding slot_of_bytes(2) slot by (simp add: put unat_of_nat_small)
  have above: "sub (insertData d k n off e) (slotOff d i) (slotLen d i) = sub d (slotOff d i) (slotLen d i)" if "i < n" for i
    using slots [OF that] by (intro insertData_above [OF assms(1-4)]) simp_all
  show "entryAt (insertData d k n off e) j = (if j < k then entryAt d j else if j = k then e else entryAt d (j - 1))"
    using j assms(2) insertData_entry [OF assms(1-4)] unfolding entryAt_def off len by (auto simp: above)
qed

lemma InsertEntry_spec:
  assumes wf: "wf_page p" and k: "unat k \<le> numEntries p" and fit: "fits (insert_nth (unat k) e (entries p))"
  shows "\<exists>p'. InsertEntry p k e = Ok p' \<and> wf_page p' \<and> header p' = header p \<and>
    entries p' = insert_nth (unat k) e (entries p) \<and> ID p' = ID p \<and>
    (\<forall>a m. unat (freeSpaceOffset p) \<le> a \<and> a + m \<le> PageSize \<longrightarrow> sub (Data p') a m = sub (Data p) a m)"
proof -
  let ?n = "numEntries p" and ?d = "Data p"
  define off where "off = unat (freeSpaceOffset p) - length e"
  define p' where "p' = p\<lparr>Data := insertData ?d (unat k) ?n off e\<rparr>"
  have room: "HeaderSize + SlotSize * (?n + 1) + dataBytes (entries p) + length e \<le> PageSize"
    using fit by (simp add: fits_def)
  have len: "length ?d = PageSize" and free: "unat (freeSpaceOffset p) = off + length e" "off + length e \<le> PageSize"
    and off: "HeaderSize + SlotSize * (?n + 1) \<le> off" and sum: "off + length e + dataBytes (entries p) = PageSize"
    and slots: "\<And>i. i < ?n \<Longrightarrow> off + length e \<le> slotOff ?d i \<and> slotOff ?d i + slotLen ?d i \<le> PageSize"
    using wf room by (auto simp: wf_page_def off_def)
  note bytes = insertData_bytes [OF len k off free(2)] and at = entryAt_insertData [OF len k off free(2) slots]
  have ins: "InsertEntry p k e = Ok p'"
    using InsertEntry_layout [OF wf k room] by (simp add: p'_def off_def)
  have num: "numEntries p' = ?n + 1"
    using off free bytes(2) by (simp add: NumEntries_def p'_def unat_of_nat_small del: of_nat_add of_nat_Suc)
  have fso: "unat (freeSpaceOffset p') = off"
    using free bytes(3) by (simp add: freeSpaceOffset_def p'_def unat_of_nat_small)
  have es: "entries p' = insert_nth (unat k) e (entries p)"
  proof (rule nth_equalityI)
    fix j assume "j < length (entries p')"
    then have j: "j \<le> ?n" by (simp add: num)
    then have "entries p' ! j = entryAt (insertData ?d (unat k) ?n off e) j"
      using entries_nth [of j p'] by (simp add: num) (simp add: p'_def)
    then show "entries p' ! j = insert_nth (unat k) e (entries p) ! j"
      using k j at(3) [OF _ j] by (auto simp: entries_nth nth_insert_nth)
  qed (simp add: num)
  have "off \<le> slotOff (Data p') i \<and> slotOff (Data p') i + slotLen (Data p') i \<le> PageSize" if "i \<le> ?n" for i
  proof (cases i "unat k" rule: linorder_cases)
    case less
    with slots [of i] at(1,2) [OF _ that] k show ?thesis by (simp add: p'_def)
  next
    case equal
    with at(1,2) [OF _ that] free show ?thesis by (simp add: p'_def)
  next
    case greater
    with that have "i - 1 < ?n" by simp
    with greater slots [of "i - 1"] at(1,2) [OF _ that] show ?thesis by (simp add: p'_def)
  qed
  then have "wf_page p'"
    using bytes(1) off sum unfolding wf_page_def fso es num by (simp add: p'_def less_Suc_eq_le)
  moreover have "header p' = header p"
    using bytes by (simp add: header_def p'_def PageType_def PrevLeafPageID_def NextLeafPageID_def)
  ultimately show ?thesis
    using ins es bytes(8) free by (auto simp: p'_def)
qed

section \<open>Reading and deleting\<close>

lemma GetEntry_spec:
  assumes wf: "wf_page p" and i: "unat i < numEntries p"
  shows "GetEntry p i = Ok (entries p ! unat i)"
proof -
  have len: "length (Data p) = PageSize" and room: "HeaderSize + SlotSize * unat i + 4 \<le> (PageSize::nat)"
    and slot: "slotOff (Data p) (unat i) + slotLen (Data p) (unat i) \<le> PageSize"
    using wf i by (auto simp: wf_page_def)
  show ?thesis
    using getSlot_layout [OF len room] len slot i
    by (simp add: GetEntry_def slice_def unat_word_ariths entries_nth entryAt_def slotOff_def slotLen_def)
qed

lemma GetEntry_of_nat: "wf_page p \<Longrightarrow> i < numEntries p \<Longrightarrow> GetEntry p (word_of_nat i) = Ok (entries p ! i)"
  using GetEntry_spec [of p "word_of_nat i"] wf_page_numEntries [of p] by (simp add: unat_of_nat_small)

text \<open>The list operation that deletion implements.\<close>

definition delete_nth :: "nat \<Rightarrow> 'a list \<Rightarrow> 'a list" where
  "delete_nth i xs = take i xs @ drop (Suc i) xs"

lemma length_delete_nth [simp]: "i < length xs \<Longrightarrow> length (delete_nth i xs) = length xs - 1"
  by (simp add: delete_nth_def)

lemma delete_nth_last [simp]: "delete_nth (length xs) (xs @ [x]) = xs"
  by (simp add: delete_nth_def)

lemma delete_insert_nth: "i \<le> length xs \<Longrightarrow> delete_nth i (insert_nth i x xs) = xs"
  by (simp add: delete_nth_def insert_nth_def)

lemma insert_delete_nth: "i < length xs \<Longrightarrow> insert_nth i (xs ! i) (delete_nth i xs) = xs"
  by (simp add: delete_nth_def insert_nth_def id_take_nth_drop [symmetric] min_def)

lemma dataBytes_delete_nth:
  "i < length es \<Longrightarrow> dataBytes (delete_nth i es) + length (es ! i) = dataBytes es"
  by (metis dataBytes_insert_nth insert_delete_nth)

lemma fits_delete_nth: "fits es \<Longrightarrow> i < length es \<Longrightarrow> fits (delete_nth i es)"
  using dataBytes_delete_nth [of i es] by (auto simp: fits_def)

lemma fits_prefix: "fits (es @ fs) \<Longrightarrow> fits es"
  by (auto simp: fits_def)

lemma collectEntries_spec:
  assumes "wf_page p" "\<And>i. i \<in> set is \<Longrightarrow> i < numEntries p"
  shows "collectEntries p k is = Ok (map ((!) (entries p)) (filter (\<lambda>i. i \<noteq> k) is))"
  using assms by (induction "is") (simp_all add: GetEntry_of_nat)

lemma filter_upt_delete:
  assumes k: "k < length xs"
  shows "map ((!) xs) (filter (\<lambda>i. i \<noteq> k) [0..<length xs]) = delete_nth k xs"
proof -
  have split: "[0..<length xs] = [0..<k] @ k # [Suc k..<length xs]"
    using k upt_add_eq_append [of 0 k "length xs - k"] by (simp add: upt_conv_Cons)
  have "filter (\<lambda>i. i \<noteq> k) [0..<k] = [0..<k]" "filter (\<lambda>i. i \<noteq> k) [Suc k..<length xs] = [Suc k..<length xs]"
    by (simp_all add: filter_id_conv)
  moreover have "map ((!) xs) [0..<k] = take k xs" "map ((!) xs) [Suc k..<length xs] = drop (Suc k) xs"
    using k by (auto intro: nth_equalityI)
  ultimately show ?thesis
    by (simp add: split delete_nth_def)
qed

lemma insertAll_spec:
  assumes "wf_page p" "fits (entries p @ es)" "numEntries p = k"
  shows "\<exists>p'. insertAll p k es = Ok p' \<and> wf_page p' \<and> header p' = header p \<and> ID p' = ID p \<and> entries p' = entries p @ es"
  using assms
proof (induction es arbitrary: p k)
  case (Cons e es)
  have k: "unat (word_of_nat k :: uint16) = k"
    using wf_page_numEntries [OF Cons.prems(1)] Cons.prems(3) by (simp add: unat_of_nat_small)
  have ins: "insert_nth k e (entries p) = entries p @ [e]"
    using insert_nth_length [of "entries p"] Cons.prems(3) by simp
  have fit: "fits (insert_nth (unat (word_of_nat k :: uint16)) e (entries p))"
    unfolding k ins using fits_prefix [of "entries p @ [e]" es] Cons.prems(2) by simp
  obtain p1 where p1: "InsertEntry p (word_of_nat k) e = Ok p1" "wf_page p1" "header p1 = header p"
      "ID p1 = ID p" "entries p1 = entries p @ [e]"
    using InsertEntry_spec [OF Cons.prems(1) _ fit] Cons.prems(3) k ins by auto
  then have "numEntries p1 = Suc k"
    using Cons.prems(3) length_entries [of p1] by simp
  with Cons.IH [of p1 "Suc k"] p1 Cons.prems(2) show ?case by simp
qed simp

text \<open>Resetting the entry count and the free-space offset empties the page.\<close>

lemma reset_page:
  assumes "length (Data p) = PageSize"
  defines "q \<equiv> setFreeSpaceOffset (setNumEntries p 0) PageSize"
  shows "wf_page q" "entries q = []" "header q = header p" "numEntries q = 0" "ID q = ID p"
proof -
  show num: "numEntries q = 0"
    using assms(1) by (simp add: q_def setFreeSpaceOffset_def setNumEntries_def NumEntries_def byte_simps)
  show es: "entries q = []" by (simp add: entries_def num)
  show "wf_page q"
    using assms(1) unfolding wf_page_def es num
    by (simp add: q_def setFreeSpaceOffset_def setNumEntries_def freeSpaceOffset_def byte_simps)
  show "header q = header p" "ID q = ID p"
    using assms(1) by (simp_all add: q_def header_def setFreeSpaceOffset_def setNumEntries_def PageType_def
        PrevLeafPageID_def NextLeafPageID_def byte_simps blit_nth)
qed

lemma DeleteEntry_spec:
  assumes wf: "wf_page p" and k: "unat k < numEntries p"
  shows "\<exists>p'. DeleteEntry p k = Ok p' \<and> wf_page p' \<and> header p' = header p \<and> ID p' = ID p \<and>
    entries p' = delete_nth (unat k) (entries p)"
proof -
  let ?q = "setFreeSpaceOffset (setNumEntries p 0) PageSize"
  have len: "length (Data p) = PageSize" using wf by (simp add: wf_page_def)
  have "collectEntries p (unat k) [0..<numEntries p] = Ok (delete_nth (unat k) (entries p))"
    using collectEntries_spec [OF wf, of "[0..<numEntries p]"] filter_upt_delete [of "unat k" "entries p"] k by simp
  moreover have "fits (delete_nth (unat k) (entries p))"
    using fits_delete_nth wf_page_fits [OF wf] k by simp
  ultimately show ?thesis
    using insertAll_spec [of ?q "delete_nth (unat k) (entries p)" 0] reset_page [OF len] k
    by (auto simp: DeleteEntry_def Let_def word_le_nat_alt)
qed

lemma DeleteEntry_out_of_range: "numEntries p \<le> unat k \<Longrightarrow> DeleteEntry p k = Ok p"
  by (simp add: DeleteEntry_def word_le_nat_alt)

section \<open>Constructors and header updates\<close>

lemma sub_replicate [simp]: "a + m \<le> n \<Longrightarrow> sub (replicate n x) a m = replicate m x"
  by (simp add: sub_def)

lemma be_word_replicate_0 [simp]: "be_word (replicate n 0) = 0"
proof -
  have "be_nat (replicate n 0) = 0"
    by (induction n) (simp_all add: be_nat_Cons)
  then show ?thesis by (simp add: be_word_of_nat)
qed

lemma zeroPage_typed:
  fixes t :: PageType and v :: PageID
  defines "q \<equiv> setFreeSpaceOffset (SetPageType (zeroPage v) t) PageSize"
  shows "wf_page q" "entries q = []" "header q = (v, t, 0, 0)"
proof -
  note defs = q_def setFreeSpaceOffset_def SetPageType_def zeroPage_def list_update_0_blit
  have "NumEntries q = be_word (replicate 2 0)"
    unfolding NumEntries_def by (simp add: defs byte_simps)
  then have num: "numEntries q = 0" by simp
  then show es: "entries q = []" by (simp add: entries_def)
  show "wf_page q"
    unfolding wf_page_def es num by (simp add: defs freeSpaceOffset_def byte_simps)
  have "sub (Data q) 5 8 = replicate 8 0" "sub (Data q) 13 8 = replicate 8 0"
    by (simp_all add: defs byte_simps)
  then have "PrevLeafPageID q = 0" "NextLeafPageID q = 0"
    by (simp_all only: PrevLeafPageID_def NextLeafPageID_def be_word_replicate_0)
  then show "header q = (v, t, 0, 0)"
    by (simp add: header_def PageType_def defs blit_nth)
qed

text \<open>Writing the 8-byte field at 5 (previous leaf, leftmost child) or at 13 (next leaf).\<close>

lemma header_blit:
  assumes wf: "wf_page p" and a: "5 \<le> a" "a + length bs \<le> HeaderSize"
  defines "q \<equiv> p\<lparr>Data := blit (Data p) a bs\<rparr>"
  shows "wf_page q" "entries q = entries p" "ID q = ID p" "PageType q = PageType p"
proof -
  have len: "length (Data p) = PageSize" using wf by (simp add: wf_page_def)
  have num: "NumEntries q = NumEntries p" and fso: "freeSpaceOffset q = freeSpaceOffset p"
    using len a by (simp_all add: q_def NumEntries_def freeSpaceOffset_def byte_simps)
  have slot: "slotOff (Data q) i = slotOff (Data p) i" "slotLen (Data q) i = slotLen (Data p) i"
    if "i < numEntries p" for i
    using wf that len a by (auto simp: q_def slotOff_def slotLen_def byte_simps wf_page_def)
  have "entryAt (Data q) i = entryAt (Data p) i" if i: "i < numEntries p" for i
    using wf i len a unfolding entryAt_def slot [OF i]
    by (auto simp: q_def wf_page_def intro!: sub_blit_above)
  then show es: "entries q = entries p"
    by (simp add: entries_def num)
  show "wf_page q"
    using wf len a slot unfolding wf_page_def es num fso by (simp add: q_def)
  show "ID q = ID p" "PageType q = PageType p"
    using len a by (simp_all add: q_def PageType_def blit_nth)
qed

lemma Leftmost_is_Prev: "LeftmostChildPageID = PrevLeafPageID" "SetLeftmostChildPageID = SetPrevLeafPageID"
  by (simp_all add: fun_eq_iff LeftmostChildPageID_def PrevLeafPageID_def SetLeftmostChildPageID_def
      SetPrevLeafPageID_def)

lemma SetPrevLeaf_spec:
  assumes "wf_page p"
  shows "wf_page (SetPrevLeafPageID p v)" "entries (SetPrevLeafPageID p v) = entries p"
    and "header (SetPrevLeafPageID p v) = (ID p, PageType p, v, NextLeafPageID p)"
  using header_blit [OF assms, of 5 "PutUint64 v"] assms
  by (simp_all add: SetPrevLeafPageID_def header_def PrevLeafPageID_def NextLeafPageID_def byte_simps wf_page_def)

lemma SetNextLeaf_spec:
  assumes "wf_page p"
  shows "wf_page (SetNextLeafPageID p v)" "entries (SetNextLeafPageID p v) = entries p"
    and "header (SetNextLeafPageID p v) = (ID p, PageType p, PrevLeafPageID p, v)"
  using header_blit [OF assms, of 13 "PutUint64 v"] assms
  by (simp_all add: SetNextLeafPageID_def header_def PrevLeafPageID_def NextLeafPageID_def byte_simps wf_page_def)

lemma NewLeafPage_spec:
  "wf_page (NewLeafPage v)" "entries (NewLeafPage v) = []" "header (NewLeafPage v) = (v, LeafPage, 0, 0)"
  unfolding NewLeafPage_def Let_def by (rule zeroPage_typed)+

lemma NewHeapPage_spec:
  "wf_page (NewHeapPage v)" "entries (NewHeapPage v) = []" "header (NewHeapPage v) = (v, HeapPage, 0, 0)"
  unfolding NewHeapPage_def Let_def by (rule zeroPage_typed)+

lemma NewInternalPage_spec:
  "wf_page (NewInternalPage v c)" "entries (NewInternalPage v c) = []"
  "header (NewInternalPage v c) = (v, InternalPage, c, 0)"
  unfolding NewInternalPage_def Let_def Leftmost_is_Prev
  using zeroPage_typed [of v InternalPage] SetPrevLeaf_spec [OF zeroPage_typed(1) [of v InternalPage], of c]
  by (simp_all add: header_def)

lemma RootPageID_NewMetadataPage: "RootPageID (NewMetadataPage v r) = r"
  by (simp add: NewMetadataPage_def RootPageID_def SetRootPageID_def SetPageType_def zeroPage_def byte_simps)

lemma MaxMinEntries:
  "MaxEntries 16 = Ok 203" "MinEntries 16 = Ok 101" "MaxEntries 24 = Ok 145" "MinEntries 24 = Ok 72"
  by (simp_all add: MinEntries_def MaxEntries_def)

end
