(* ===== verification/Node.thy ===== *)
theory Node
  imports Page_Layout
begin

text \<open>
  \<^verbatim>\<open>internal/btree/node.go\<close> and \<^verbatim>\<open>internal/btree/tree.go\<close>: searches inside one page,
  splitting, merging and redistribution of pages, and the single-leaf operations. Pages are
  passed by value and the changed pages are returned; an operation on two pages is a function of
  two distinct page objects, as at every call of the program.
\<close>

section \<open>Slices of entries\<close>

text \<open>\<^verbatim>\<open>b[:k]\<close> and \<^verbatim>\<open>b[k:]\<close> for an \<^verbatim>\<open>int\<close> bound, on a slice with no spare capacity.\<close>

definition sliceTo :: "byte list \<Rightarrow> int \<Rightarrow> byte list res" where
  "sliceTo b k = (if 0 \<le> k \<and> k \<le> int (length b) then Ok (take (nat k) b) else Panic)"

definition sliceFrom :: "byte list \<Rightarrow> int \<Rightarrow> byte list res" where
  "sliceFrom b k = (if 0 \<le> k \<and> k \<le> int (length b) then Ok (drop (nat k) b) else Panic)"

text \<open>
  \<^verbatim>\<open>p.GetEntry(i)[:k]\<close>: the entry is a slice of the page, so its capacity, which bounds \<open>k\<close>,
  reaches to the end of the page.
\<close>

definition entryPrefix :: "Page \<Rightarrow> uint16 \<Rightarrow> int \<Rightarrow> byte list res" where
  "entryPrefix p i k =
     rbind (getSlot p i) (\<lambda>s.
     rbind (GetEntry p i) (\<lambda>_.
     if k < 0 then Panic
     else slice (Data p) (unat (slot_offset s)) (unat (slot_offset s) + nat k)))"

text \<open>\<^verbatim>\<open>binary.BigEndian.Uint64(p.GetEntry(i)[k:])\<close>\<close>

definition entryChild :: "Page \<Rightarrow> uint16 \<Rightarrow> int \<Rightarrow> PageID res" where
  "entryChild p i k = rbind (GetEntry p i) (\<lambda>e. rbind (sliceFrom e k) Uint64)"

section \<open>Searching a page\<close>

definition encodeChildID :: "PageID \<Rightarrow> byte list" where
  "encodeChildID v = PutUint64 v"

definition entryKeyLen :: "Page \<Rightarrow> int res" where
  "entryKeyLen p =
     (if NumEntries p = 0 then Ok 8 else rbind (GetEntry p 0) (\<lambda>e. Ok (int (length e) - 8)))"

definition findChildPageID :: "Page \<Rightarrow> byte list \<Rightarrow> PageID res" where
  "findChildPageID p targetKey =
     (let n = NumEntries p in
      if n = 0 then Ok (LeftmostChildPageID p)
      else
        rbind (entryKeyLen p) (\<lambda>keyLen.
        rbind (sort_Search (unat n) (\<lambda>i.
                 rbind (entryPrefix p (word_of_nat i) keyLen) (\<lambda>k. Ok (CompareKeys k targetKey = 1))))
          (\<lambda>idx.
        if idx = 0 then Ok (LeftmostChildPageID p)
        else entryChild p (word_of_nat (idx - 1)) keyLen)))"

definition findKeyIndex :: "Page \<Rightarrow> byte list \<Rightarrow> (uint16 \<times> bool) res" where
  "findKeyIndex p targetKey =
     (let n = NumEntries p in
      if n = 0 then Ok (0, False)
      else
        rbind (entryKeyLen p) (\<lambda>keyLen.
        rbind (sort_Search (unat n) (\<lambda>i.
                 rbind (entryPrefix p (word_of_nat i) keyLen) (\<lambda>k. Ok (CompareKeys k targetKey \<ge> 0))))
          (\<lambda>i.
        if i < unat n then
          rbind (entryPrefix p (word_of_nat i) keyLen) (\<lambda>k.
            if CompareKeys k targetKey = 0 then Ok (word_of_nat i, True) else Ok (word_of_nat i, False))
        else Ok (word_of_nat i, False))))"

text \<open>The scan of \<^verbatim>\<open>findChildIndex\<close> from entry \<open>i\<close>, with \<open>m\<close> entries left.\<close>

fun findChildFrom :: "Page \<Rightarrow> PageID \<Rightarrow> int \<Rightarrow> nat \<Rightarrow> nat \<Rightarrow> (uint16 \<times> bool) res" where
  "findChildFrom p childID keyLen i 0 = Ok (0, False)"
| "findChildFrom p childID keyLen i (Suc m) =
     rbind (entryChild p (word_of_nat i) keyLen) (\<lambda>pageID.
       if pageID = childID then Ok (word_of_nat i, True)
       else findChildFrom p childID keyLen (Suc i) m)"

definition findChildIndex :: "Page \<Rightarrow> PageID \<Rightarrow> (uint16 \<times> bool) res" where
  "findChildIndex p childID =
     (if LeftmostChildPageID p = childID then Ok (NumEntries p, True)
      else rbind (entryKeyLen p) (\<lambda>keyLen. findChildFrom p childID keyLen 0 (numEntries p)))"

definition findSiblingPageIDs :: "Page \<Rightarrow> Page \<Rightarrow> (PageID \<times> PageID) res" where
  "findSiblingPageIDs grandparent node =
     rbind (findChildIndex grandparent (ID node)) (\<lambda>(idx, _).
     let n = NumEntries grandparent in
     rbind (entryKeyLen grandparent) (\<lambda>keyLen.
     if idx = n then
       rbind (entryChild grandparent 0 keyLen) (\<lambda>rightID. Ok (0, rightID))
     else
       rbind (if idx = 0 then Ok (LeftmostChildPageID grandparent)
              else entryChild grandparent (idx - 1) keyLen) (\<lambda>leftID.
       rbind (if idx + 1 < n then entryChild grandparent (idx + 1) keyLen else Ok 0) (\<lambda>rightID.
       Ok (leftID, rightID)))))"

section \<open>Redistribution\<close>

definition redistributeFromLeft :: "Page \<Rightarrow> Page \<Rightarrow> (byte list \<times> Page \<times> Page) res" where
  "redistributeFromLeft underflowing leftSibling =
     (let lastIdx = NumEntries leftSibling - 1 in
      rbind (GetEntry leftSibling lastIdx) (\<lambda>entry.
      let keyLen = int (length entry) - 8 in
      rbind (DeleteEntry leftSibling lastIdx) (\<lambda>leftSibling.
      rbind (InsertEntry underflowing 0 entry) (\<lambda>underflowing.
      rbind (sliceTo entry keyLen) (\<lambda>newSeparator.
      Ok (newSeparator, underflowing, leftSibling))))))"

definition redistributeFromRight :: "Page \<Rightarrow> Page \<Rightarrow> (byte list \<times> Page \<times> Page) res" where
  "redistributeFromRight underflowing rightSibling =
     rbind (GetEntry rightSibling 0) (\<lambda>entry.
     let keyLen = int (length entry) - 8 in
     rbind (DeleteEntry rightSibling 0) (\<lambda>rightSibling.
     rbind (InsertEntry underflowing (NumEntries underflowing) entry) (\<lambda>underflowing.
     rbind (entryPrefix rightSibling 0 keyLen) (\<lambda>newSeparator.
     Ok (newSeparator, underflowing, rightSibling)))))"

definition redistributeInternalFromLeft ::
    "Page \<Rightarrow> Page \<Rightarrow> byte list \<Rightarrow> (byte list \<times> Page \<times> Page) res" where
  "redistributeInternalFromLeft underflowing leftSibling oldParentSeparator =
     (let lastIdx = NumEntries leftSibling - 1 in
      rbind (GetEntry leftSibling lastIdx) (\<lambda>lastEntry.
      rbind (sliceFrom lastEntry 8) (\<lambda>movedChildBytes.
      rbind (sliceTo lastEntry (int (length lastEntry) - 8)) (\<lambda>newParentSeparator.
      let oldLeftmostChild = LeftmostChildPageID underflowing in
      rbind (DeleteEntry leftSibling lastIdx) (\<lambda>leftSibling.
      let newFirstEntry = oldParentSeparator @ encodeChildID oldLeftmostChild in
      rbind (InsertEntry underflowing 0 newFirstEntry) (\<lambda>underflowing.
      rbind (Uint64 movedChildBytes) (\<lambda>movedChild.
      Ok (newParentSeparator, SetLeftmostChildPageID underflowing movedChild, leftSibling))))))))"

definition redistributeInternalFromRight ::
    "Page \<Rightarrow> Page \<Rightarrow> byte list \<Rightarrow> (byte list \<times> Page \<times> Page) res" where
  "redistributeInternalFromRight underflowing rightSibling oldParentSeparator =
     (let oldLeftmostChild = LeftmostChildPageID rightSibling in
      rbind (GetEntry rightSibling 0) (\<lambda>firstEntry.
      rbind (sliceFrom firstEntry 8) (\<lambda>oldFirstEntry.
      rbind (sliceTo firstEntry (int (length firstEntry) - 8)) (\<lambda>newParentSeparator.
      rbind (DeleteEntry rightSibling 0) (\<lambda>rightSibling.
      let latestEntry = oldParentSeparator @ encodeChildID oldLeftmostChild in
      rbind (InsertEntry underflowing (NumEntries underflowing) latestEntry) (\<lambda>underflowing.
      rbind (Uint64 oldFirstEntry) (\<lambda>movedChild.
      Ok (newParentSeparator, underflowing, SetLeftmostChildPageID rightSibling movedChild))))))))"

section \<open>Merging\<close>

text \<open>\<open>appendFrom left right i m\<close>: append entries \<open>i, ..., i+m-1\<close> of \<open>right\<close> to \<open>left\<close>.\<close>

fun appendFrom :: "Page \<Rightarrow> Page \<Rightarrow> nat \<Rightarrow> nat \<Rightarrow> Page res" where
  "appendFrom left right i 0 = Ok left"
| "appendFrom left right i (Suc m) =
     rbind (GetEntry right (word_of_nat i)) (\<lambda>e.
     rbind (InsertEntry left (NumEntries left) e) (\<lambda>left.
     appendFrom left right (Suc i) m))"

text \<open>\<^verbatim>\<open>for i := n - 1; i >= 0; i--\<close> over \<^verbatim>\<open>int\<close>: delete every entry from the last.\<close>

fun deleteAllFrom :: "Page \<Rightarrow> nat \<Rightarrow> Page res" where
  "deleteAllFrom p 0 = Ok p"
| "deleteAllFrom p (Suc i) = rbind (DeleteEntry p (word_of_nat i)) (\<lambda>p. deleteAllFrom p i)"

definition mergeLeaf :: "Page \<Rightarrow> Page \<Rightarrow> (Page \<times> Page) res" where
  "mergeLeaf left right =
     rbind (appendFrom left right 0 (numEntries right)) (\<lambda>left.
     let left = SetNextLeafPageID left (NextLeafPageID right) in
     rbind (deleteAllFrom right (numEntries right)) (\<lambda>right. Ok (left, right)))"

definition mergeInternal :: "Page \<Rightarrow> Page \<Rightarrow> byte list \<Rightarrow> Page res" where
  "mergeInternal left right oldParentSeparator =
     (let leftmostChild = LeftmostChildPageID right;
          entryBytes = oldParentSeparator @ encodeChildID leftmostChild in
      rbind (InsertEntry left (NumEntries left) entryBytes) (\<lambda>left.
      appendFrom left right 0 (numEntries right)))"

section \<open>Splitting\<close>

text \<open>The copies \<^verbatim>\<open>moving\<close> of entries \<open>i, ..., i+m-1\<close>.\<close>

fun copyEntries :: "Page \<Rightarrow> nat \<Rightarrow> nat \<Rightarrow> byte list list res" where
  "copyEntries p i 0 = Ok []"
| "copyEntries p i (Suc m) =
     rbind (GetEntry p (word_of_nat i)) (\<lambda>e.
     rbind (copyEntries p (Suc i) m) (\<lambda>es. Ok (e # es)))"

text \<open>
  \<^verbatim>\<open>for i := n - 1; i >= mid; i-- { p.DeleteEntry(i) }\<close> over \<^verbatim>\<open>uint16\<close>. With \<open>mid = 0\<close> the
  condition is always true: once every entry is gone the index wraps and the loop runs forever.
\<close>

fun deleteDown :: "Page \<Rightarrow> nat \<Rightarrow> nat \<Rightarrow> Page res" where
  "deleteDown p mid i =
     (if mid \<le> i then
        rbind (DeleteEntry p (word_of_nat i)) (\<lambda>p.
          case i of 0 \<Rightarrow> Hang | Suc j \<Rightarrow> deleteDown p mid j)
      else Ok p)"

declare deleteDown.simps [simp del]

text \<open>\<^verbatim>\<open>for _, e := range moving { p.InsertEntry(p.NumEntries(), e) }\<close>\<close>

fun appendEntries :: "Page \<Rightarrow> byte list list \<Rightarrow> Page res" where
  "appendEntries p [] = Ok p"
| "appendEntries p (e # es) = rbind (InsertEntry p (NumEntries p) e) (\<lambda>p. appendEntries p es)"

text \<open>
  The page that \<^verbatim>\<open>allocateFn()\<close> returns is the last argument; the results are the separator, the
  new page and the old page.
\<close>

definition splitLeaf :: "Page \<Rightarrow> Page \<Rightarrow> (byte list \<times> Page \<times> Page) res" where
  "splitLeaf oldPage newPage =
     (let n = NumEntries oldPage; mid = n div 2 in
      rbind (GetEntry oldPage 0) (\<lambda>e0.
      let separatorLen = int (length e0) - 8 in
      rbind (copyEntries oldPage (unat mid) (unat n - unat mid)) (\<lambda>moving.
      rbind (deleteDown oldPage (unat mid) (unat (n - 1))) (\<lambda>oldPage.
      rbind (appendEntries newPage moving) (\<lambda>newPage.
      let newPage = SetPrevLeafPageID newPage (ID oldPage);
          newPage = SetNextLeafPageID newPage (NextLeafPageID oldPage);
          oldPage = SetNextLeafPageID oldPage (ID newPage) in
      rbind (entryPrefix newPage 0 separatorLen) (\<lambda>separatorKey.
      Ok (separatorKey, newPage, oldPage)))))))"

definition splitInternal :: "Page \<Rightarrow> Page \<Rightarrow> (byte list \<times> Page \<times> Page) res" where
  "splitInternal oldPage reserved =
     (let n = NumEntries oldPage; mid = n div 2 in
      rbind (entryKeyLen oldPage) (\<lambda>separatorLen.
      rbind (GetEntry oldPage mid) (\<lambda>middleEntry.
      rbind (sliceTo middleEntry separatorLen) (\<lambda>separatorKey.
      rbind (sliceFrom middleEntry separatorLen) (\<lambda>childBytes.
      rbind (Uint64 childBytes) (\<lambda>middleChildID.
      rbind (copyEntries oldPage (unat mid + 1) (unat n - (unat mid + 1))) (\<lambda>moving.
      let newPage = NewInternalPage (ID reserved) middleChildID in
      rbind (appendEntries newPage moving) (\<lambda>newPage.
      rbind (deleteDown oldPage (unat mid) (unat (n - 1))) (\<lambda>oldPage.
      Ok (separatorKey, newPage, oldPage))))))))))"

section \<open>Operations on a single leaf\<close>

definition Insert :: "Page \<Rightarrow> int64 \<Rightarrow> int64 \<Rightarrow> Page res" where
  "Insert p key recordID =
     (let encodedKey = EncodeInt64 key;
          entryBytes = encodedKey @ EncodeInt64 recordID in
      rbind (findKeyIndex p encodedKey) (\<lambda>(index, _).
      if \<not> HasSpaceFor p (length entryBytes) then Err ErrPageFull
      else InsertEntry p index entryBytes))"

definition Search :: "Page \<Rightarrow> int64 \<Rightarrow> (int64 \<times> bool) res" where
  "Search p key =
     (let encodedKey = EncodeInt64 key in
      rbind (findKeyIndex p encodedKey) (\<lambda>(index, ok).
      if \<not> ok then Ok (0, False)
      else
        rbind (GetEntry p index) (\<lambda>e.
        rbind (sliceFrom e 8) (\<lambda>valueBytes.
        rbind (DecodeInt64 valueBytes) (\<lambda>v. Ok (v, True))))))"

definition Delete :: "Page \<Rightarrow> int64 \<Rightarrow> Page res" where
  "Delete p key =
     (let encodedKey = EncodeInt64 key in
      rbind (findKeyIndex p encodedKey) (\<lambda>(index, ok).
      if \<not> ok then Err ErrKeyNotFound
      else DeleteEntry p index))"

end
