(* ===== verification/Node_Spec.thy ===== *)
theory Node_Spec
  imports Node "HOL-Library.Multiset"
begin

text \<open>
  What the page-level tree operations do on pages in order: a page is \<open>node_ok K\<close> when it is
  well formed, every entry is a \<open>K\<close>-byte key followed by 8 bytes, and the keys ascend. The
  binary searches find the expected position, and insertion, deletion, splitting, merging and
  redistribution act on the entry lists as expected and keep pages in order.
\<close>

section \<open>Pages in order\<close>

definition keys :: "nat \<Rightarrow> Page \<Rightarrow> byte list list" where
  "keys K p = map (take K) (entries p)"

definition uniform :: "nat \<Rightarrow> byte list list \<Rightarrow> bool" where
  "uniform K es \<longleftrightarrow> (\<forall>e \<in> set es. length e = K + 8)"

definition node_ok :: "nat \<Rightarrow> Page \<Rightarrow> bool" where
  "node_ok K p \<longleftrightarrow> wf_page p \<and> uniform K (entries p) \<and> sorted (keys K p)"

definition childOf :: "nat \<Rightarrow> byte list \<Rightarrow> PageID" where
  "childOf K e = be_word (drop K e)"

lemma length_keys [simp]: "length (keys K p) = numEntries p"
  by (simp add: keys_def)

lemma uniform_nth: "uniform K es \<Longrightarrow> i < length es \<Longrightarrow> length (es ! i) = K + 8"
  by (simp add: uniform_def)

lemma uniform_simps [simp]:
  "uniform K []"
  "uniform K (e # es) \<longleftrightarrow> length e = K + 8 \<and> uniform K es"
  "uniform K (es @ fs) \<longleftrightarrow> uniform K es \<and> uniform K fs"
  by (auto simp: uniform_def)

lemma uniform_take_drop: "uniform K es \<Longrightarrow> uniform K (take i es)" "uniform K es \<Longrightarrow> uniform K (drop i es)"
  by (auto simp: uniform_def dest: in_set_takeD in_set_dropD)

lemma dataBytes_uniform: "uniform K es \<Longrightarrow> dataBytes es = length es * (K + 8)"
  by (induction es) simp_all

lemma entryKeyLen_spec:
  assumes "wf_page p" "uniform K (entries p)" "numEntries p \<noteq> 0"
  shows "entryKeyLen p = Ok (int K)"
proof -
  have "GetEntry p 0 = Ok (entries p ! 0)"
    using GetEntry_spec [of p 0] assms by simp
  moreover have "length (entries p ! 0) = K + 8"
    using assms by (intro uniform_nth) simp_all
  moreover have "NumEntries p \<noteq> 0"
    using assms(3) by auto
  ultimately show ?thesis
    by (simp add: entryKeyLen_def)
qed

lemma entryPrefix_spec:
  assumes "wf_page p" "i < numEntries p" "k \<le> length (entries p ! i)"
  shows "entryPrefix p (word_of_nat i) (int k) = Ok (take k (entries p ! i))"
proof -
  have len: "length (Data p) = PageSize" and room: "HeaderSize + SlotSize * i + 4 \<le> (PageSize::nat)"
    and slot: "slotOff (Data p) i + slotLen (Data p) i \<le> PageSize"
    using assms(1,2) by (auto simp: wf_page_def)
  have ent: "entries p ! i = sub (Data p) (slotOff (Data p) i) (slotLen (Data p) i)"
    using assms(2) by (simp add: entries_nth entryAt_def)
  then have k: "k \<le> slotLen (Data p) i"
    using assms(3) slot len by (simp add: length_sub)
  have "slice (Data p) (slotOff (Data p) i) (slotOff (Data p) i + k) = Ok (take k (entries p ! i))"
    using slot k len by (simp add: slice_def ent sub_def)
  then show ?thesis
    using getSlot_layout [OF len room] GetEntry_of_nat [OF assms(1,2)]
    by (simp add: entryPrefix_def slotOff_def)
qed

lemma entryChild_spec:
  assumes "wf_page p" "uniform K (entries p)" "i < numEntries p"
  shows "entryChild p (word_of_nat i) (int K) = Ok (childOf K (entries p ! i))"
  using assms uniform_nth [OF assms(2), of i]
  by (simp add: entryChild_def GetEntry_of_nat sliceFrom_def Uint64_def childOf_def)

section \<open>Searching\<close>

text \<open>Position of the first key that is not below, or that is above, the target.\<close>

definition lowerIdx :: "'a::linorder list \<Rightarrow> 'a \<Rightarrow> nat" where
  "lowerIdx ks t = length (takeWhile (\<lambda>k. k < t) ks)"

definition upperIdx :: "'a::linorder list \<Rightarrow> 'a \<Rightarrow> nat" where
  "upperIdx ks t = length (takeWhile (\<lambda>k. k \<le> t) ks)"

lemma lowerIdx_le: "lowerIdx ks t \<le> length ks"
  by (simp add: lowerIdx_def length_takeWhile_le)

lemma upperIdx_le: "upperIdx ks t \<le> length ks"
  by (simp add: upperIdx_def length_takeWhile_le)

lemma lowerIdx_iff: "sorted ks \<Longrightarrow> h < length ks \<Longrightarrow> h < lowerIdx ks t \<longleftrightarrow> ks ! h < t"
  unfolding lowerIdx_def
  by (rule takeWhile_prefix_iff [symmetric]) (auto dest: sorted_nth_mono le_less_trans)

lemma upperIdx_iff: "sorted ks \<Longrightarrow> h < length ks \<Longrightarrow> h < upperIdx ks t \<longleftrightarrow> ks ! h \<le> t"
  unfolding upperIdx_def
  by (rule takeWhile_prefix_iff [symmetric]) (auto dest: sorted_nth_mono order_trans)

lemma lowerIdx_ge_iff: "sorted ks \<Longrightarrow> h < length ks \<Longrightarrow> lowerIdx ks t \<le> h \<longleftrightarrow> t \<le> ks ! h"
  by (metis lowerIdx_iff not_le)

lemma upperIdx_ge_iff: "sorted ks \<Longrightarrow> h < length ks \<Longrightarrow> upperIdx ks t \<le> h \<longleftrightarrow> t < ks ! h"
  by (metis upperIdx_iff not_le)

lemma keys_nth: "i < numEntries p \<Longrightarrow> keys K p ! i = take K (entries p ! i)"
  by (simp add: keys_def)

lemma entryPrefix_key:
  assumes "node_ok K p" "i < numEntries p"
  shows "entryPrefix p (word_of_nat i) (int K) = Ok (keys K p ! i)"
  using entryPrefix_spec [of p i K] uniform_nth [of K "entries p" i] assms
  by (simp add: node_ok_def keys_nth)

lemma findKeyIndex_spec:
  assumes ok: "node_ok K p"
  shows "findKeyIndex p t = Ok (word_of_nat (lowerIdx (keys K p) t),
    lowerIdx (keys K p) t < numEntries p \<and> keys K p ! lowerIdx (keys K p) t = t)"
proof (cases "numEntries p = 0")
  case True
  then have "keys K p = []" by (metis length_0_conv length_keys)
  moreover from True have "NumEntries p = 0" by (simp add: unat_eq_zero)
  ultimately show ?thesis by (simp add: findKeyIndex_def lowerIdx_def)
next
  case False
  let ?i = "lowerIdx (keys K p) t"
  have srt: "sorted (keys K p)" and len: "entryKeyLen p = Ok (int K)" and ne: "NumEntries p \<noteq> 0"
    using ok False by (auto simp: node_ok_def intro: entryKeyLen_spec)
  have "sort_Search (numEntries p) (\<lambda>i. rbind (entryPrefix p (word_of_nat i) (int K))
      (\<lambda>k. Ok (CompareKeys k t \<ge> 0))) = Ok ?i"
    using lowerIdx_le [of "keys K p" t] lowerIdx_ge_iff [OF srt] entryPrefix_key [OF ok]
    by (intro sort_Search_prefix) (simp_all add: CompareKeys_def)
  then show ?thesis
    using ne len entryPrefix_key [OF ok, of ?i] by (simp add: findKeyIndex_def CompareKeys_def)
qed

lemma findChildPageID_spec:
  assumes ok: "node_ok K p"
  shows "findChildPageID p t = Ok (if upperIdx (keys K p) t = 0 then LeftmostChildPageID p
    else childOf K (entries p ! (upperIdx (keys K p) t - 1)))"
proof (cases "numEntries p = 0")
  case True
  then have "keys K p = []" by (metis length_0_conv length_keys)
  moreover from True have "NumEntries p = 0" by (simp add: unat_eq_zero)
  ultimately show ?thesis by (simp add: findChildPageID_def upperIdx_def)
next
  case False
  let ?i = "upperIdx (keys K p) t"
  have srt: "sorted (keys K p)" and wf: "wf_page p" and uni: "uniform K (entries p)"
    and len: "entryKeyLen p = Ok (int K)" and ne: "NumEntries p \<noteq> 0"
    using ok False by (auto simp: node_ok_def intro: entryKeyLen_spec)
  have "sort_Search (numEntries p) (\<lambda>i. rbind (entryPrefix p (word_of_nat i) (int K))
      (\<lambda>k. Ok (CompareKeys k t = 1))) = Ok ?i"
    using upperIdx_le [of "keys K p" t] upperIdx_ge_iff [OF srt] entryPrefix_key [OF ok]
    by (intro sort_Search_prefix) (simp_all add: CompareKeys_def)
  then show ?thesis
    using ne len entryChild_spec [OF wf uni] upperIdx_le [of "keys K p" t]
    by (cases ?i) (simp_all add: findChildPageID_def)
qed

section \<open>Sorted insertion and deletion\<close>

lemma map_insert_nth: "map f (insert_nth i x xs) = insert_nth i (f x) (map f xs)"
  by (simp add: insert_nth_def take_map drop_map)

lemma map_delete_nth: "map f (delete_nth i xs) = delete_nth i (map f xs)"
  by (simp add: delete_nth_def take_map drop_map)

lemma set_insert_nth: "set (insert_nth i x xs) = insert x (set xs)"
proof -
  have "set (take i xs) \<union> set (drop i xs) = set xs"
    by (metis append_take_drop_id set_append)
  then show ?thesis by (simp add: insert_nth_def)
qed

lemma set_delete_nth: "set (delete_nth i xs) \<subseteq> set xs"
  by (auto simp: delete_nth_def dest: in_set_takeD in_set_dropD)

lemma uniform_insert_nth [simp]: "uniform K (insert_nth i e es) \<longleftrightarrow> length e = K + 8 \<and> uniform K es"
  by (auto simp: uniform_def set_insert_nth)

lemma uniform_delete_nth: "uniform K es \<Longrightarrow> uniform K (delete_nth i es)"
  using set_delete_nth [of i es] by (auto simp: uniform_def)

lemma sorted_insert_lowerIdx:
  assumes "sorted ks"
  shows "sorted (insert_nth (lowerIdx ks t) t ks)"
proof -
  let ?i = "lowerIdx ks t"
  have "\<forall>x \<in> set (take ?i ks). x < t"
    by (auto simp: lowerIdx_def takeWhile_eq_take [symmetric] dest: set_takeWhileD)
  moreover have "\<forall>y \<in> set (drop ?i ks). t \<le> y"
  proof
    fix y assume "y \<in> set (drop ?i ks)"
    then obtain j where "j < length ks - ?i" "y = ks ! (?i + j)"
      by (auto simp: in_set_conv_nth)
    then show "t \<le> y"
      using lowerIdx_ge_iff [OF assms, of "?i + j" t] by simp
  qed
  moreover have "sorted (take ?i ks @ drop ?i ks)" using assms by simp
  ultimately show ?thesis
    unfolding insert_nth_def sorted_append by (auto intro: less_imp_le order_trans)
qed

lemma sorted_delete_nth:
  assumes "sorted xs"
  shows "sorted (delete_nth i xs)"
proof -
  have "sorted (take i xs @ drop i xs)" using assms by simp
  moreover have "drop (Suc i) xs = tl (drop i xs)" by (simp add: drop_Suc tl_drop)
  moreover have "set (tl (drop i xs)) \<subseteq> set (drop i xs)" by (cases "drop i xs") auto
  ultimately show ?thesis
    unfolding delete_nth_def sorted_append by (auto simp: sorted_tl)
qed

lemma node_ok_insert:
  assumes "node_ok K p" "wf_page p'" "length e = K + 8"
    and "entries p' = insert_nth (lowerIdx (keys K p) (take K e)) e (entries p)"
  shows "node_ok K p'"
  using assms sorted_insert_lowerIdx [of "keys K p" "take K e"]
  by (simp add: node_ok_def keys_def map_insert_nth)

lemma node_ok_delete:
  assumes "node_ok K p" "wf_page p'" "entries p' = delete_nth i (entries p)"
  shows "node_ok K p'"
  using assms sorted_delete_nth [of "keys K p" i]
  by (simp add: node_ok_def keys_def map_delete_nth uniform_delete_nth)

section \<open>Single-leaf operations\<close>

text \<open>The key and record a 16-byte leaf entry holds, and the association list of a leaf.\<close>

definition dec64 :: "byte list \<Rightarrow> int64" where
  "dec64 bs = be_word (take 8 bs) XOR signBitMask"

definition pairOf :: "byte list \<Rightarrow> int64 \<times> int64" where
  "pairOf e = (dec64 e, dec64 (drop 8 e))"

definition pairs :: "Page \<Rightarrow> (int64 \<times> int64) list" where
  "pairs p = map pairOf (entries p)"

lemma DecodeInt64_dec64: "8 \<le> length bs \<Longrightarrow> DecodeInt64 bs = Ok (dec64 bs)"
  by (simp add: DecodeInt64_def Uint64_def dec64_def)

lemma dec64_Encode [simp]: "dec64 (EncodeInt64 n @ bs) = n" "dec64 (EncodeInt64 n) = n"
  by (simp_all add: dec64_def EncodeInt64_def)

lemma Encode_dec64 [simp]: "8 \<le> length bs \<Longrightarrow> EncodeInt64 (dec64 bs) = take 8 bs"
  by (rule Encode_Decode) (simp_all add: DecodeInt64_dec64 dec64_def)

lemma pairOf_entry [simp]: "pairOf (EncodeInt64 k @ EncodeInt64 v) = (k, v)"
  by (simp add: pairOf_def)

lemma fst_pairOf_eq: "length e = 16 \<Longrightarrow> fst (pairOf e) = k \<longleftrightarrow> take 8 e = EncodeInt64 k"
  by (metis EncodeInt64_inject Encode_dec64 fst_conv le_add2 numeral_Bit0 pairOf_def)

lemma pairs_nth: "i < numEntries p \<Longrightarrow> pairs p ! i = pairOf (entries p ! i)"
  by (simp add: pairs_def)

lemma length_pairs [simp]: "length (pairs p) = numEntries p"
  by (simp add: pairs_def)

lemma leaf_key_eq:
  assumes "node_ok 8 p" "i < numEntries p"
  shows "keys 8 p ! i = EncodeInt64 k \<longleftrightarrow> fst (pairs p ! i) = k"
  using assms fst_pairOf_eq [of "entries p ! i" k] uniform_nth [of 8 "entries p" i]
  by (simp add: node_ok_def pairs_nth keys_nth)

lemma map_of_first:
  "i < length xs \<Longrightarrow> fst (xs ! i) = k \<Longrightarrow> (\<And>j. j < i \<Longrightarrow> fst (xs ! j) \<noteq> k) \<Longrightarrow>
   map_of xs k = Some (snd (xs ! i))"
proof (induction xs arbitrary: i)
  case (Cons x xs)
  then show ?case
  proof (cases i)
    case 0
    with Cons.prems show ?thesis by (cases x) simp
  next
    case (Suc j)
    then have "fst x \<noteq> k" using Cons.prems(3) [of 0] by simp
    moreover have "map_of xs k = Some (snd (xs ! j))"
    proof (rule Cons.IH)
      show "j < length xs" "fst (xs ! j) = k" using Cons.prems Suc by simp_all
      show "fst (xs ! l) \<noteq> k" if "l < j" for l
        using Cons.prems(3) [of "Suc l"] that Suc by simp
    qed
    ultimately show ?thesis using Suc by (cases x) simp
  qed
qed simp

text \<open>The position found for a key is that of its first pair, if it has one.\<close>

lemma leaf_lookup:
  assumes ok: "node_ok 8 p"
  defines "i k \<equiv> lowerIdx (keys 8 p) (EncodeInt64 k)"
  shows "i k < numEntries p \<and> keys 8 p ! i k = EncodeInt64 k \<longleftrightarrow> k \<in> fst ` set (pairs p)"
    and "k \<in> fst ` set (pairs p) \<Longrightarrow> map_of (pairs p) k = Some (snd (pairs p ! i k))"
proof -
  have srt: "sorted (keys 8 p)" using ok by (simp add: node_ok_def)
  have below: "fst (pairs p ! j) \<noteq> k" if "j < i k" for j k
    using that lowerIdx_iff [OF srt, of j "EncodeInt64 k"] lowerIdx_le [of "keys 8 p" "EncodeInt64 k"]
      leaf_key_eq [OF ok, of j k] by (auto simp: i_def)
  show iff: "i k < numEntries p \<and> keys 8 p ! i k = EncodeInt64 k \<longleftrightarrow> k \<in> fst ` set (pairs p)" for k
  proof
    assume "i k < numEntries p \<and> keys 8 p ! i k = EncodeInt64 k"
    then have "fst (pairs p ! i k) = k" "pairs p ! i k \<in> set (pairs p)"
      using leaf_key_eq [OF ok] by auto
    then show "k \<in> fst ` set (pairs p)" by force
  next
    assume "k \<in> fst ` set (pairs p)"
    then obtain j where j: "j < numEntries p" "fst (pairs p ! j) = k"
      by (auto simp: in_set_conv_nth)
    then have "keys 8 p ! j = EncodeInt64 k" using leaf_key_eq [OF ok] by simp
    moreover from j below [of j k] have "i k \<le> j" by (meson not_le)
    ultimately show "i k < numEntries p \<and> keys 8 p ! i k = EncodeInt64 k"
      using j lowerIdx_ge_iff [OF srt, of "i k" "EncodeInt64 k"] sorted_nth_mono [OF srt, of "i k" j]
      by (auto simp: i_def)
  qed
  show "map_of (pairs p) k = Some (snd (pairs p ! i k))" if "k \<in> fst ` set (pairs p)"
    using iff [of k] that below [of _ k] leaf_key_eq [OF ok, of "i k" k]
    by (intro map_of_first) auto
qed

lemma lowerIdx_found:
  assumes "sorted ks"
  shows "lowerIdx ks t < length ks \<and> ks ! lowerIdx ks t = t \<longleftrightarrow> t \<in> set ks"
proof
  assume "t \<in> set ks"
  then obtain j where j: "j < length ks" "ks ! j = t" by (auto simp: in_set_conv_nth)
  then have le: "lowerIdx ks t \<le> j" using lowerIdx_ge_iff [OF assms j(1), of t] by simp
  then have "ks ! lowerIdx ks t \<le> t" "t \<le> ks ! lowerIdx ks t"
    using j sorted_nth_mono [OF assms le j(1)] lowerIdx_ge_iff [OF assms, of "lowerIdx ks t" t] by auto
  with le j(1) show "lowerIdx ks t < length ks \<and> ks ! lowerIdx ks t = t" by simp
qed (metis nth_mem)

lemma leaf_index [simp]:
  assumes "node_ok K p"
  shows "unat (word_of_nat (lowerIdx (keys K p) t) :: uint16) = lowerIdx (keys K p) t"
  using assms lowerIdx_le [of "keys K p" t] wf_page_numEntries [of p]
  by (intro unat_of_nat_small) (simp add: node_ok_def)

text \<open>Insertion and deletion at the position the search gives, for keys of any width.\<close>

lemma insert_key_spec:
  assumes ok: "node_ok K p" and e: "length e = K + 8" and space: "HasSpaceFor p (K + 8)"
  shows "\<exists>p'. InsertEntry p (word_of_nat (lowerIdx (keys K p) (take K e))) e = Ok p' \<and> node_ok K p' \<and> header p' = header p \<and>
    entries p' = insert_nth (lowerIdx (keys K p) (take K e)) e (entries p)"
proof -
  let ?i = "lowerIdx (keys K p) (take K e)"
  have wf: "wf_page p" using ok by (simp add: node_ok_def)
  have "fits (insert_nth ?i e (entries p))" using HasSpaceFor_iff [OF wf] space e by (simp add: fits_def)
  then obtain p' where p': "InsertEntry p (word_of_nat ?i) e = Ok p'" "wf_page p'" "header p' = header p"
      "entries p' = insert_nth ?i e (entries p)"
    using InsertEntry_spec [OF wf, of "word_of_nat ?i" e] ok lowerIdx_le [of "keys K p"] by auto
  with node_ok_insert [OF ok p'(2) e p'(4)] show ?thesis by blast
qed

lemma delete_key_spec:
  assumes ok: "node_ok K p" and k: "k \<in> set (keys K p)"
  shows "\<exists>p'. DeleteEntry p (word_of_nat (lowerIdx (keys K p) k)) = Ok p' \<and> node_ok K p' \<and> header p' = header p \<and>
    entries p' = delete_nth (lowerIdx (keys K p) k) (entries p)"
proof -
  let ?i = "lowerIdx (keys K p) k"
  have wf: "wf_page p" and i: "?i < numEntries p" using ok lowerIdx_found [of "keys K p" k] k by (auto simp: node_ok_def)
  obtain p' where p': "DeleteEntry p (word_of_nat ?i) = Ok p'" "wf_page p'" "header p' = header p"
      "entries p' = delete_nth ?i (entries p)"
    using DeleteEntry_spec [OF wf, of "word_of_nat ?i"] ok i by auto
  with node_ok_delete [OF ok p'(2,4)] show ?thesis by blast
qed

lemma Search_spec:
  assumes ok: "node_ok 8 p"
  shows "Search p k = Ok (case map_of (pairs p) k of None \<Rightarrow> (0, False) | Some v \<Rightarrow> (v, True))"
proof (cases "k \<in> fst ` set (pairs p)")
  case True
  define i where "i = lowerIdx (keys 8 p) (EncodeInt64 k)"
  have i: "i < numEntries p" "keys 8 p ! i = EncodeInt64 k" "map_of (pairs p) k = Some (snd (pairs p ! i))"
    using leaf_lookup [OF ok, of k] True by (simp_all add: i_def)
  have "GetEntry p (word_of_nat i) = Ok (entries p ! i)" "length (entries p ! i) = 16"
    using ok i(1) GetEntry_of_nat [of p i] uniform_nth [of 8 "entries p" i] by (simp_all add: node_ok_def)
  then show ?thesis
    using i findKeyIndex_spec [OF ok, of "EncodeInt64 k"]
    by (simp add: Search_def sliceFrom_def DecodeInt64_dec64 pairs_nth pairOf_def flip: i_def)
next
  case False
  then show ?thesis
    using findKeyIndex_spec [OF ok, of "EncodeInt64 k"] leaf_lookup(1) [OF ok, of k]
    by (simp add: Search_def map_of_eq_None_iff [THEN iffD2])
qed

lemma mset_insert_nth [simp]: "mset (insert_nth i x xs) = add_mset x (mset xs)"
proof -
  have "mset (take i xs) + mset (drop i xs) = mset xs"
    by (metis append_take_drop_id mset_append)
  then show ?thesis by (simp add: insert_nth_def)
qed

lemma mset_delete_nth: "i < length xs \<Longrightarrow> add_mset (xs ! i) (mset (delete_nth i xs)) = mset xs"
  by (metis insert_delete_nth mset_insert_nth)

lemma map_of_insert_nth:
  assumes "\<And>j. j < i \<Longrightarrow> j < length xs \<Longrightarrow> fst (xs ! j) \<noteq> k"
  shows "map_of (insert_nth i (k, v) xs) = (map_of xs)(k \<mapsto> v)"
proof -
  have none: "map_of (take i xs) k = None"
    using assms by (force simp: map_of_eq_None_iff in_set_conv_nth)
  have "map_of xs = map_of (drop i xs) ++ map_of (take i xs)"
    by (metis append_take_drop_id map_of_append)
  with none show ?thesis
    by (auto simp: insert_nth_def map_of_append map_add_def fun_eq_iff split: option.splits)
qed

lemma Insert_spec:
  assumes ok: "node_ok 8 p"
  shows "HasSpaceFor p 16 \<Longrightarrow> \<exists>p'. Insert p k v = Ok p' \<and> node_ok 8 p' \<and> header p' = header p \<and>
      pairs p' = insert_nth (lowerIdx (keys 8 p) (EncodeInt64 k)) (k, v) (pairs p) \<and>
      entries p' = insert_nth (lowerIdx (keys 8 p) (EncodeInt64 k)) (EncodeInt64 k @ EncodeInt64 v) (entries p)"
    and "\<not> HasSpaceFor p 16 \<Longrightarrow> Insert p k v = Err ErrPageFull"
proof -
  let ?i = "lowerIdx (keys 8 p) (EncodeInt64 k)" and ?e = "EncodeInt64 k @ EncodeInt64 v"
  show "Insert p k v = Err ErrPageFull" if "\<not> HasSpaceFor p 16"
    using that findKeyIndex_spec [OF ok] by (simp add: Insert_def)
  assume space: "HasSpaceFor p 16"
  obtain p' where "InsertEntry p (word_of_nat ?i) ?e = Ok p'" "node_ok 8 p'" "header p' = header p"
      "entries p' = insert_nth ?i ?e (entries p)"
    using insert_key_spec [OF ok, of ?e] space by auto
  with space show "\<exists>p'. Insert p k v = Ok p' \<and> node_ok 8 p' \<and> header p' = header p \<and>
      pairs p' = insert_nth ?i (k, v) (pairs p) \<and> entries p' = insert_nth ?i ?e (entries p)"
    using findKeyIndex_spec [OF ok] by (simp add: Insert_def pairs_def map_insert_nth)
qed

lemma Delete_spec:
  assumes ok: "node_ok 8 p"
  shows "k \<in> fst ` set (pairs p) \<Longrightarrow> \<exists>p'. Delete p k = Ok p' \<and> node_ok 8 p' \<and> header p' = header p \<and>
      pairs p' = delete_nth (lowerIdx (keys 8 p) (EncodeInt64 k)) (pairs p) \<and>
      entries p' = delete_nth (lowerIdx (keys 8 p) (EncodeInt64 k)) (entries p)"
    and "k \<notin> fst ` set (pairs p) \<Longrightarrow> Delete p k = Err ErrKeyNotFound"
proof -
  let ?i = "lowerIdx (keys 8 p) (EncodeInt64 k)"
  show "Delete p k = Err ErrKeyNotFound" if "k \<notin> fst ` set (pairs p)"
    using that findKeyIndex_spec [OF ok, of "EncodeInt64 k"] leaf_lookup(1) [OF ok, of k]
    by (simp add: Delete_def)
  assume "k \<in> fst ` set (pairs p)"
  then have i: "?i < numEntries p" "keys 8 p ! ?i = EncodeInt64 k"
    using leaf_lookup(1) [OF ok, of k] by auto
  then have "EncodeInt64 k \<in> set (keys 8 p)" by (metis length_keys nth_mem)
  from delete_key_spec [OF ok this] i show "\<exists>p'. Delete p k = Ok p' \<and> node_ok 8 p' \<and> header p' = header p \<and>
      pairs p' = delete_nth ?i (pairs p) \<and> entries p' = delete_nth ?i (entries p)"
    using findKeyIndex_spec [OF ok, of "EncodeInt64 k"]
    by (auto simp: Delete_def pairs_def map_delete_nth)
qed

section \<open>Children\<close>

text \<open>The children of an internal page, left to right.\<close>

definition childIDs :: "nat \<Rightarrow> Page \<Rightarrow> PageID list" where
  "childIDs K p = LeftmostChildPageID p # map (childOf K) (entries p)"

lemma Leftmost_header: "LeftmostChildPageID p = fst (snd (snd (header p)))"
  by (simp add: header_def Leftmost_is_Prev)

lemma childOf_entry [simp]: "length s = K \<Longrightarrow> childOf K (s @ PutUint64 v) = v"
  by (simp add: childOf_def)

lemma findChildPageID_childIDs:
  assumes "node_ok K p"
  shows "findChildPageID p t = Ok (childIDs K p ! upperIdx (keys K p) t)"
  using findChildPageID_spec [OF assms, of t] upperIdx_le [of "keys K p" t]
  by (cases "upperIdx (keys K p) t") (simp_all add: childIDs_def)

end
