(* ===== verification/Node_Split.thy ===== *)
theory Node_Split
  imports Node_Spec
begin

text \<open>
  Splitting, merging and redistribution of \<^verbatim>\<open>node.go\<close> on entry lists: what the two pages hold
  afterwards, which header fields change, and that no entry is lost or duplicated.
\<close>

section \<open>The loops\<close>

lemma copyEntries_spec:
  "wf_page p \<Longrightarrow> i + m \<le> numEntries p \<Longrightarrow> copyEntries p i m = Ok (take m (drop i (entries p)))"
proof (induction m arbitrary: i)
  case (Suc m)
  then have "drop i (entries p) = entries p ! i # drop (Suc i) (entries p)"
    by (simp add: Cons_nth_drop_Suc)
  with Suc show ?case by (simp add: GetEntry_of_nat)
qed simp

lemma appendOne_spec:
  assumes "wf_page p" "fits (entries p @ [e])"
  shows "\<exists>p'. InsertEntry p (NumEntries p) e = Ok p' \<and> wf_page p' \<and> header p' = header p \<and> entries p' = entries p @ [e]"
  using InsertEntry_spec [OF assms(1), of "NumEntries p" e] insert_nth_length [of "entries p" e] assms(2)
  by auto

lemma appendEntries_spec:
  "wf_page p \<Longrightarrow> fits (entries p @ es) \<Longrightarrow>
   \<exists>p'. appendEntries p es = Ok p' \<and> wf_page p' \<and> header p' = header p \<and> entries p' = entries p @ es"
proof (induction es arbitrary: p)
  case (Cons e es)
  have "fits (entries p @ [e])"
    using Cons.prems(2) fits_prefix [of "entries p @ [e]" es] by simp
  then obtain p1 where p1: "InsertEntry p (NumEntries p) e = Ok p1" "wf_page p1" "header p1 = header p"
      "entries p1 = entries p @ [e]"
    using appendOne_spec Cons.prems(1) by blast
  with Cons.IH [of p1] Cons.prems(2) show ?case by auto
qed simp

lemma appendFrom_spec:
  "wf_page l \<Longrightarrow> wf_page r \<Longrightarrow> i + m \<le> numEntries r \<Longrightarrow> fits (entries l @ take m (drop i (entries r))) \<Longrightarrow>
   \<exists>l'. appendFrom l r i m = Ok l' \<and> wf_page l' \<and> header l' = header l \<and>
     entries l' = entries l @ take m (drop i (entries r))"
proof (induction m arbitrary: l i)
  case (Suc m)
  have split: "take (Suc m) (drop i (entries r)) = entries r ! i # take m (drop (Suc i) (entries r))"
    using Suc.prems(3) by (simp flip: Cons_nth_drop_Suc)
  have "fits (entries l @ [entries r ! i])"
    using Suc.prems(4) fits_prefix [of "entries l @ [entries r ! i]"] by (simp add: split)
  then obtain l1 where l1: "InsertEntry l (NumEntries l) (entries r ! i) = Ok l1" "wf_page l1"
      "header l1 = header l" "entries l1 = entries l @ [entries r ! i]"
    using appendOne_spec Suc.prems(1) by blast
  with Suc.IH [of l1 "Suc i"] Suc.prems split show ?case by (auto simp: GetEntry_of_nat)
qed simp

lemma dropLast_spec:
  assumes "wf_page p" "numEntries p = Suc i"
  shows "\<exists>p'. DeleteEntry p (word_of_nat i) = Ok p' \<and> wf_page p' \<and> header p' = header p \<and> entries p' = take i (entries p)"
proof -
  have "unat (word_of_nat i :: uint16) = i"
    using wf_page_numEntries [OF assms(1)] assms(2) by (simp add: unat_of_nat_small)
  moreover have "delete_nth i (entries p) = take i (entries p)"
    using assms(2) by (simp add: delete_nth_def)
  ultimately show ?thesis
    using DeleteEntry_spec [OF assms(1), of "word_of_nat i"] assms(2) by auto
qed

lemma deleteDown_spec:
  "wf_page p \<Longrightarrow> numEntries p = Suc i \<Longrightarrow> 0 < mid \<Longrightarrow> mid \<le> Suc i \<Longrightarrow>
   \<exists>p'. deleteDown p mid i = Ok p' \<and> wf_page p' \<and> header p' = header p \<and> entries p' = take mid (entries p)"
proof (induction i arbitrary: p)
  case 0
  then show ?case by (auto simp: deleteDown.simps)
next
  case (Suc i)
  show ?case
  proof (cases "mid \<le> Suc i")
    case True
    obtain p1 where p1: "DeleteEntry p (word_of_nat (Suc i)) = Ok p1" "wf_page p1" "header p1 = header p"
        "entries p1 = take (Suc i) (entries p)"
      using dropLast_spec [OF Suc.prems(1,2)] by blast
    then have "numEntries p1 = Suc i"
      using Suc.prems(2) length_entries [of p1] by simp
    with Suc.IH [of p1] p1 Suc.prems True show ?thesis
      by (auto simp: deleteDown.simps [of p mid "Suc i"] min_def simp del: of_nat_Suc)
  next
    case False
    with Suc.prems show ?thesis by (auto simp: deleteDown.simps)
  qed
qed

lemma deleteAllFrom_spec:
  "wf_page p \<Longrightarrow> numEntries p = n \<Longrightarrow>
   \<exists>p'. deleteAllFrom p n = Ok p' \<and> wf_page p' \<and> header p' = header p \<and> entries p' = []"
proof (induction n arbitrary: p)
  case 0
  then show ?case by (simp add: entries_def)
next
  case (Suc n)
  obtain p1 where p1: "DeleteEntry p (word_of_nat n) = Ok p1" "wf_page p1" "header p1 = header p"
      "entries p1 = take n (entries p)"
    using dropLast_spec [OF Suc.prems] by blast
  then have "numEntries p1 = n"
    using Suc.prems(2) length_entries [of p1] by simp
  with Suc.IH [of p1] p1 show ?case by auto
qed

section \<open>Splitting\<close>

lemma fits_take_drop: "fits es \<Longrightarrow> fits (take i es)" "fits es \<Longrightarrow> fits (drop i es)"
  using dataBytes_take_drop [of i es] by (auto simp: fits_def)

lemma node_ok_take_drop:
  "node_ok K p \<Longrightarrow> wf_page q \<Longrightarrow> entries q = take i (entries p) \<Longrightarrow> node_ok K q"
  "node_ok K p \<Longrightarrow> wf_page q \<Longrightarrow> entries q = drop i (entries p) \<Longrightarrow> node_ok K q"
  by (simp_all add: node_ok_def keys_def uniform_take_drop take_map [symmetric] drop_map [symmetric]
      sorted_wrt_take sorted_wrt_drop)

lemma header_eqD:
  "header p = (i, t, l, r) \<Longrightarrow> ID p = i \<and> PageType p = t \<and> PrevLeafPageID p = l \<and> NextLeafPageID p = r"
  by (simp add: header_def)

lemma header_same:
  "header p = header q \<Longrightarrow> ID p = ID q \<and> PageType p = PageType q \<and> PrevLeafPageID p = PrevLeafPageID q \<and>
     NextLeafPageID p = NextLeafPageID q"
  by (simp add: header_def)

lemma half_words:
  "unat (n div 2 :: uint16) = unat n div 2" "0 < unat n \<Longrightarrow> unat (n - 1) = unat n - 1"
  by (simp_all add: unat_div unat_sub_if' word_le_nat_alt)

lemma splitLeaf_spec:
  assumes ok: "node_ok K p" and n: "2 \<le> numEntries p"
  defines "mid \<equiv> numEntries p div 2"
  shows "\<exists>p1 p2. splitLeaf p (NewLeafPage v) = Ok (keys K p ! mid, p2, p1) \<and> node_ok K p1 \<and> node_ok K p2 \<and>
     entries p1 = take mid (entries p) \<and> entries p2 = drop mid (entries p) \<and>
     header p1 = (ID p, PageType p, PrevLeafPageID p, v) \<and>
     header p2 = (v, LeafPage, ID p, NextLeafPageID p)"
proof -
  have wf: "wf_page p" and uni: "uniform K (entries p)" using ok by (simp_all add: node_ok_def)
  have mid: "0 < mid" "mid < numEntries p" using n by (auto simp: mid_def)
  have e0: "GetEntry p 0 = Ok (entries p ! 0)" "int (length (entries p ! 0)) - 8 = int K"
    using GetEntry_spec [OF wf, of 0] uniform_nth [OF uni, of 0] n by simp_all
  have copy: "copyEntries p mid (numEntries p - mid) = Ok (drop mid (entries p))"
    using copyEntries_spec [OF wf, of mid "numEntries p - mid"] mid by simp
  obtain p1 where p1: "deleteDown p mid (numEntries p - 1) = Ok p1" "wf_page p1" "header p1 = header p"
      "entries p1 = take mid (entries p)"
    using deleteDown_spec [OF wf, of "numEntries p - 1" mid] mid by auto
  have "fits (drop mid (entries p))"
    using wf_page_fits [OF wf] by (rule fits_take_drop)
  then obtain p2 where p2: "appendEntries (NewLeafPage v) (drop mid (entries p)) = Ok p2" "wf_page p2"
      "header p2 = (v, LeafPage, 0, 0)" "entries p2 = drop mid (entries p)"
    using appendEntries_spec [OF NewLeafPage_spec(1), of v "drop mid (entries p)"]
    by (auto simp: NewLeafPage_spec)
  define q2 where "q2 = SetNextLeafPageID (SetPrevLeafPageID p2 (ID p1)) (NextLeafPageID p1)"
  define q1 where "q1 = SetNextLeafPageID p1 (ID q2)"
  have q2: "wf_page q2" "entries q2 = drop mid (entries p)" "header q2 = (v, LeafPage, ID p, NextLeafPageID p)"
    using p1(3) p2 SetPrevLeaf_spec [OF p2(2), of "ID p1"]
      SetNextLeaf_spec [OF SetPrevLeaf_spec(1) [OF p2(2), of "ID p1"], of "NextLeafPageID p1"]
    by (auto simp: q2_def header_def)
  then have q1: "wf_page q1" "entries q1 = take mid (entries p)" "header q1 = (ID p, PageType p, PrevLeafPageID p, v)"
    using p1 SetNextLeaf_spec [OF p1(2), of "ID q2"] by (auto simp: q1_def header_def)
  have ok2: "node_ok K q2" using node_ok_take_drop(2) [OF ok q2(1,2)] .
  have "numEntries q2 = numEntries p - mid" using q2(2) length_entries [of q2] by simp
  then have sep: "entryPrefix q2 0 (int K) = Ok (keys K p ! mid)"
    using entryPrefix_key [OF ok2, of 0] q2(2) mid by (simp add: keys_def)
  have "splitLeaf p (NewLeafPage v) = Ok (keys K p ! mid, q2, q1)"
    using e0 copy p1(1) p2(1) sep mid
    by (simp add: splitLeaf_def Let_def half_words q1_def q2_def flip: mid_def)
  with q1 q2 ok2 node_ok_take_drop(1) [OF ok q1(1,2)] show ?thesis by blast
qed

lemma splitInternal_spec:
  assumes ok: "node_ok K p" and n: "2 \<le> numEntries p"
  defines "mid \<equiv> numEntries p div 2"
  shows "\<exists>p1 p2. splitInternal p r = Ok (keys K p ! mid, p2, p1) \<and> node_ok K p1 \<and> node_ok K p2 \<and>
     entries p1 = take mid (entries p) \<and> entries p2 = drop (Suc mid) (entries p) \<and>
     header p1 = header p \<and> header p2 = (ID r, InternalPage, childOf K (entries p ! mid), 0)"
proof -
  have wf: "wf_page p" and uni: "uniform K (entries p)" using ok by (simp_all add: node_ok_def)
  have mid: "0 < mid" "mid < numEntries p" using n by (auto simp: mid_def)
  let ?m = "entries p ! mid"
  have wmid: "word_of_nat mid = NumEntries p div 2"
    by (simp add: mid_def word_unat_eq_iff half_words unat_of_nat_small flip: half_words(1))
  have len: "length ?m = K + 8" using uniform_nth [OF uni] mid by simp
  have kl: "entryKeyLen p = Ok (int K)" using entryKeyLen_spec [OF wf uni] mid by simp
  have get: "GetEntry p (NumEntries p div 2) = Ok ?m"
    using GetEntry_of_nat [OF wf mid(2)] by (simp add: wmid)
  have copy: "copyEntries p (mid + 1) (numEntries p - (mid + 1)) = Ok (drop (Suc mid) (entries p))"
    using copyEntries_spec [OF wf, of "mid + 1" "numEntries p - (mid + 1)"] mid by simp
  obtain p1 where p1: "deleteDown p mid (numEntries p - 1) = Ok p1" "wf_page p1" "header p1 = header p"
      "entries p1 = take mid (entries p)"
    using deleteDown_spec [OF wf, of "numEntries p - 1" mid] mid by auto
  have "fits (drop (Suc mid) (entries p))"
    using wf_page_fits [OF wf] by (rule fits_take_drop)
  then obtain p2 where p2: "appendEntries (NewInternalPage (ID r) (childOf K ?m)) (drop (Suc mid) (entries p)) = Ok p2"
      "wf_page p2" "header p2 = (ID r, InternalPage, childOf K ?m, 0)" "entries p2 = drop (Suc mid) (entries p)"
    using appendEntries_spec [OF NewInternalPage_spec(1), of "ID r" "childOf K ?m" "drop (Suc mid) (entries p)"]
    by (auto simp: NewInternalPage_spec)
  have "splitInternal p r = Ok (keys K p ! mid, p2, p1)"
    using kl get copy p1(1) p2(1) mid len
    by (simp add: splitInternal_def Let_def half_words sliceTo_def sliceFrom_def Uint64_def childOf_def keys_def
        flip: mid_def)
  then show ?thesis
    using p1 p2 node_ok_take_drop [OF ok] by blast
qed

section \<open>Merging\<close>

lemma mergeLeaf_spec:
  assumes wf: "wf_page l" "wf_page r" and fit: "fits (entries l @ entries r)"
  shows "\<exists>l' r'. mergeLeaf l r = Ok (l', r') \<and> wf_page l' \<and> entries l' = entries l @ entries r \<and>
    header l' = (ID l, PageType l, PrevLeafPageID l, NextLeafPageID r) \<and>
    wf_page r' \<and> entries r' = [] \<and> header r' = header r"
proof -
  have fit': "fits (entries l @ take (numEntries r) (drop 0 (entries r)))" using fit by simp
  obtain l1 where l1: "appendFrom l r 0 (numEntries r) = Ok l1" "wf_page l1" "header l1 = header l"
      "entries l1 = entries l @ entries r"
    using appendFrom_spec [OF wf _ fit'] by auto
  obtain r1 where r1: "deleteAllFrom r (numEntries r) = Ok r1" "wf_page r1" "header r1 = header r" "entries r1 = []"
    using deleteAllFrom_spec [OF wf(2) refl] by blast
  show ?thesis
    using l1 r1 SetNextLeaf_spec [OF l1(2), of "NextLeafPageID r"] by (auto simp: mergeLeaf_def header_def)
qed

lemma mergeInternal_spec:
  assumes wf: "wf_page l" "wf_page r"
    and fit: "fits (entries l @ (sep @ PutUint64 (LeftmostChildPageID r)) # entries r)"
  shows "\<exists>l'. mergeInternal l r sep = Ok l' \<and> wf_page l' \<and> header l' = header l \<and>
    entries l' = entries l @ (sep @ PutUint64 (LeftmostChildPageID r)) # entries r"
proof -
  let ?e = "sep @ PutUint64 (LeftmostChildPageID r)"
  have "fits (entries l @ [?e])"
    using fit fits_prefix [of "entries l @ [?e]" "entries r"] by simp
  then obtain l1 where l1: "InsertEntry l (NumEntries l) ?e = Ok l1" "wf_page l1" "header l1 = header l"
      "entries l1 = entries l @ [?e]"
    using appendOne_spec wf(1) by blast
  then show ?thesis
    using appendFrom_spec [OF l1(2) wf(2), of 0 "numEntries r"] fit
    by (auto simp: mergeInternal_def encodeChildID_def)
qed

section \<open>Redistribution\<close>

lemma lastIdx_word: "0 < numEntries p \<Longrightarrow> NumEntries p - 1 = word_of_nat (numEntries p - 1)"
  by (simp add: word_unat_eq_iff half_words unat_of_nat_small of_nat_diff)

lemma last_entry:
  assumes "wf_page p" "0 < numEntries p"
  shows "GetEntry p (NumEntries p - 1) = Ok (last (entries p))"
    and "\<exists>p'. DeleteEntry p (NumEntries p - 1) = Ok p' \<and> wf_page p' \<and> header p' = header p \<and>
      entries p' = butlast (entries p)"
proof -
  have ne: "entries p \<noteq> []" using assms(2) by (metis length_entries length_greater_0_conv)
  show "GetEntry p (NumEntries p - 1) = Ok (last (entries p))"
    using GetEntry_of_nat [OF assms(1), of "numEntries p - 1"] assms(2) ne
    by (simp add: lastIdx_word last_conv_nth del: of_nat_diff)
  show "\<exists>p'. DeleteEntry p (NumEntries p - 1) = Ok p' \<and> wf_page p' \<and> header p' = header p \<and>
      entries p' = butlast (entries p)"
    using dropLast_spec [OF assms(1), of "numEntries p - 1"] assms(2)
    by (simp add: lastIdx_word butlast_conv_take del: of_nat_diff)
qed

lemma first_entry:
  assumes "wf_page p" "0 < numEntries p"
  shows "GetEntry p 0 = Ok (hd (entries p))"
    and "\<exists>p'. DeleteEntry p 0 = Ok p' \<and> wf_page p' \<and> header p' = header p \<and> entries p' = tl (entries p)"
proof -
  have ne: "entries p \<noteq> []" using assms(2) by (metis length_entries length_greater_0_conv)
  show "GetEntry p 0 = Ok (hd (entries p))"
    using GetEntry_spec [OF assms(1), of 0] assms(2) ne by (simp add: hd_conv_nth)
  show "\<exists>p'. DeleteEntry p 0 = Ok p' \<and> wf_page p' \<and> header p' = header p \<and> entries p' = tl (entries p)"
    using DeleteEntry_spec [OF assms(1), of 0] assms(2) by (auto simp: delete_nth_def drop_Suc)
qed

lemma prependOne_spec:
  assumes "wf_page p" "fits (e # entries p)"
  shows "\<exists>p'. InsertEntry p 0 e = Ok p' \<and> wf_page p' \<and> header p' = header p \<and> entries p' = e # entries p"
  using InsertEntry_spec [OF assms(1), of 0 e] assms(2) by auto

lemma redistributeFromLeft_spec:
  assumes wf: "wf_page p" "wf_page l" and n: "0 < numEntries l" and uni: "uniform K (entries l)"
    and fit: "fits (last (entries l) # entries p)"
  shows "\<exists>p' l'. redistributeFromLeft p l = Ok (take K (last (entries l)), p', l') \<and>
    wf_page p' \<and> wf_page l' \<and> header p' = header p \<and> header l' = header l \<and>
    entries l' = butlast (entries l) \<and> entries p' = last (entries l) # entries p"
proof -
  have "last (entries l) \<in> set (entries l)"
    using n by (metis last_in_set length_entries length_greater_0_conv)
  then have "length (last (entries l)) = K + 8" using uni by (simp add: uniform_def)
  then show ?thesis
    using last_entry [OF wf(2) n] prependOne_spec [OF wf(1) fit]
    by (auto simp: redistributeFromLeft_def Let_def sliceTo_def)
qed

lemma redistributeFromRight_spec:
  assumes wf: "wf_page p" and ok: "node_ok K r" and n: "2 \<le> numEntries r"
    and fit: "fits (entries p @ [hd (entries r)])"
  shows "\<exists>p' r'. redistributeFromRight p r = Ok (keys K r ! 1, p', r') \<and>
    wf_page p' \<and> wf_page r' \<and> header p' = header p \<and> header r' = header r \<and>
    entries r' = tl (entries r) \<and> entries p' = entries p @ [hd (entries r)]"
proof -
  have wr: "wf_page r" and uni: "uniform K (entries r)" using ok by (simp_all add: node_ok_def)
  have ne: "entries r \<noteq> []" using n by (metis length_entries list.size(3) not_numeral_le_zero)
  have len: "length (hd (entries r)) = K + 8"
    using uni ne by (simp add: uniform_def)
  obtain r' where r': "DeleteEntry r 0 = Ok r'" "wf_page r'" "header r' = header r" "entries r' = tl (entries r)"
    using first_entry(2) [OF wr] n by auto
  have ok': "node_ok K r'"
    using node_ok_take_drop(2) [OF ok r'(2), of 1] r'(4) by (simp add: drop_Suc)
  have num: "numEntries r' = numEntries r - 1" using r'(4) length_entries [of r'] by simp
  have "entryPrefix r' 0 (int K) = Ok (keys K r ! 1)"
    using entryPrefix_key [OF ok', of 0] num n r'(4) by (simp add: keys_def nth_tl)
  then show ?thesis
    using first_entry(1) [OF wr] r' appendOne_spec [OF wf fit] len n
    by (auto simp: redistributeFromRight_def Let_def)
qed

lemma redistributeInternalFromLeft_spec:
  assumes wf: "wf_page p" "wf_page l" and n: "0 < numEntries l" and uni: "uniform 8 (entries l)"
    and fit: "fits ((sep @ PutUint64 (LeftmostChildPageID p)) # entries p)"
  shows "\<exists>p' l'. redistributeInternalFromLeft p l sep = Ok (take 8 (last (entries l)), p', l') \<and>
    wf_page p' \<and> wf_page l' \<and> header l' = header l \<and>
    header p' = (ID p, PageType p, childOf 8 (last (entries l)), NextLeafPageID p) \<and>
    entries l' = butlast (entries l) \<and> entries p' = (sep @ PutUint64 (LeftmostChildPageID p)) # entries p"
proof -
  have "last (entries l) \<in> set (entries l)"
    using n by (metis last_in_set length_entries length_greater_0_conv)
  then have len: "length (last (entries l)) = 16" using uni by (simp add: uniform_def)
  obtain p1 where p1: "InsertEntry p 0 (sep @ PutUint64 (LeftmostChildPageID p)) = Ok p1" "wf_page p1"
      "header p1 = header p" "entries p1 = (sep @ PutUint64 (LeftmostChildPageID p)) # entries p"
    using prependOne_spec [OF wf(1) fit] by blast
  then show ?thesis
    using last_entry [OF wf(2) n] len SetPrevLeaf_spec [OF p1(2), of "childOf 8 (last (entries l))"]
    by (auto simp: redistributeInternalFromLeft_def Let_def sliceTo_def sliceFrom_def Uint64_def encodeChildID_def
        childOf_def Leftmost_is_Prev header_def)
qed

lemma redistributeInternalFromRight_spec:
  assumes wf: "wf_page p" "wf_page r" and n: "0 < numEntries r" and uni: "uniform 8 (entries r)"
    and fit: "fits (entries p @ [sep @ PutUint64 (LeftmostChildPageID r)])"
  shows "\<exists>p' r'. redistributeInternalFromRight p r sep = Ok (take 8 (hd (entries r)), p', r') \<and>
    wf_page p' \<and> wf_page r' \<and> header p' = header p \<and>
    header r' = (ID r, PageType r, childOf 8 (hd (entries r)), NextLeafPageID r) \<and>
    entries r' = tl (entries r) \<and> entries p' = entries p @ [sep @ PutUint64 (LeftmostChildPageID r)]"
proof -
  have "hd (entries r) \<in> set (entries r)"
    using n by (metis hd_in_set length_entries length_greater_0_conv)
  then have len: "length (hd (entries r)) = 16" using uni by (simp add: uniform_def)
  obtain r1 where r1: "DeleteEntry r 0 = Ok r1" "wf_page r1" "header r1 = header r" "entries r1 = tl (entries r)"
    using first_entry(2) [OF wf(2) n] by blast
  then show ?thesis
    using first_entry(1) [OF wf(2) n] len appendOne_spec [OF wf(1) fit]
      SetPrevLeaf_spec [OF r1(2), of "childOf 8 (hd (entries r))"]
    by (auto simp: redistributeInternalFromRight_def Let_def sliceTo_def sliceFrom_def Uint64_def encodeChildID_def
        childOf_def Leftmost_is_Prev header_def)
qed

end
