(* ===== verification/Page_Properties.thy ===== *)
theory Page_Properties
  imports Node_Split
begin

text \<open>
  The properties of the slotted page and of the page-level tree operations, stated over the
  entry list of a page, with an instance of each on concrete pages.
\<close>

section \<open>Concrete pages for the instances\<close>

definition row :: "int64 \<Rightarrow> int64 \<Rightarrow> byte list" where
  "row k v = EncodeInt64 k @ EncodeInt64 v"

definition pageWith :: "Page \<Rightarrow> byte list list \<Rightarrow> Page" where
  "pageWith p es = (case appendEntries p es of Ok q \<Rightarrow> q | _ \<Rightarrow> p)"

lemma length_row [simp]: "length (row k v) = 16"
  by (simp add: row_def)

lemma take_row [simp]: "take 8 (row k v) = EncodeInt64 k"
  by (simp add: row_def)

lemma pairOf_row [simp]: "pairOf (row k v) = (k, v)"
  by (simp add: row_def)

lemma pageWith_spec:
  assumes "wf_page p" "fits (entries p @ es)"
  shows "wf_page (pageWith p es)" "header (pageWith p es) = header p" "entries (pageWith p es) = entries p @ es"
  using appendEntries_spec [OF assms] by (auto simp: pageWith_def)

lemma NumEntries_new [simp]: "NumEntries (NewLeafPage v) = 0"
  using length_entries [of "NewLeafPage v"] by (simp add: NewLeafPage_spec unat_eq_zero)

lemma leafWith_spec:
  assumes "length es \<le> 203" "uniform 8 es"
  shows "wf_page (pageWith (NewLeafPage v) es)" "entries (pageWith (NewLeafPage v) es) = es"
    and "header (pageWith (NewLeafPage v) es) = (v, LeafPage, 0, 0)"
proof -
  have "fits (entries (NewLeafPage v) @ es)"
    using assms by (simp add: NewLeafPage_spec fits_def dataBytes_uniform)
  from pageWith_spec [OF NewLeafPage_spec(1) this]
  show "wf_page (pageWith (NewLeafPage v) es)" "entries (pageWith (NewLeafPage v) es) = es"
    "header (pageWith (NewLeafPage v) es) = (v, LeafPage, 0, 0)"
    by (simp_all add: NewLeafPage_spec)
qed

lemma leafWith_node_ok:
  assumes "length es \<le> 203" "uniform 8 es" "sorted (map (take 8) es)"
  shows "node_ok 8 (pageWith (NewLeafPage v) es)"
  using assms leafWith_spec by (simp add: node_ok_def keys_def)

lemma leafWith_numEntries:
  assumes "length es \<le> 203" "uniform 8 es"
  shows "numEntries (pageWith (NewLeafPage v) es) = length es"
  using leafWith_spec(2) [OF assms] length_entries by metis

lemma EncodeInt64_le_sint: "EncodeInt64 a \<le> EncodeInt64 b \<longleftrightarrow> sint a \<le> sint b"
  by (simp add: word_sle_eq)

section \<open>The slotted page\<close>

text \<open>
  C34. Inserting an entry into a well-formed page that has room for it succeeds and inserts the
  entry at that position of the entry list: every other entry is kept, the header fields are
  unchanged and the page is well formed.
\<close>

theorem page_insert_entry:
  assumes "wf_page p" "unat i \<le> numEntries p" "HasSpaceFor p (length e)"
  shows "\<exists>p'. InsertEntry p i e = Ok p' \<and> wf_page p' \<and> header p' = header p \<and>
    entries p' = insert_nth (unat i) e (entries p) \<and>
    (\<forall>j < numEntries p'. GetEntry p' (word_of_nat j) = Ok (insert_nth (unat i) e (entries p) ! j))"
proof -
  have "dataBytes (insert_nth (unat i) e (entries p)) = dataBytes (entries p) + length e"
    using dataBytes_take_drop [of "unat i" "entries p"] by (simp add: insert_nth_def dataBytes_def)
  then have "fits (insert_nth (unat i) e (entries p))"
    using assms(3) HasSpaceFor_iff [OF assms(1)] by (simp add: fits_def)
  from InsertEntry_spec [OF assms(1,2) this] show ?thesis
    by (metis GetEntry_of_nat)
qed

theorem page_insert_entry_witness:
  "\<exists>p'. InsertEntry (NewLeafPage 7) 0 (row 1 2) = Ok p' \<and> entries p' = [row 1 2]"
  using page_insert_entry [of "NewLeafPage 7" 0 "row 1 2"] NewLeafPage_spec [of 7]
  by (auto simp: HasSpaceFor_iff fits_def dataBytes_def insert_nth_def)

text \<open>
  C35. Deleting an entry of a well-formed page removes exactly that entry and compacts the page:
  the space of the entry and of its slot is free again. A slot index past the last entry is a
  deletion that changes nothing.
\<close>

theorem page_delete_entry:
  assumes "wf_page p"
  shows "(if unat i < numEntries p then
       \<exists>p'. DeleteEntry p i = Ok p' \<and> wf_page p' \<and> header p' = header p \<and>
         entries p' = delete_nth (unat i) (entries p) \<and> HasSpaceFor p' (length (entries p ! unat i))
     else DeleteEntry p i = Ok p)"
proof (cases "unat i < numEntries p")
  case True
  obtain p' where p': "DeleteEntry p i = Ok p'" "wf_page p'" "header p' = header p"
      "entries p' = delete_nth (unat i) (entries p)"
    using DeleteEntry_spec [OF assms True] by blast
  have "add_mset (entries p ! unat i) (mset (entries p')) = mset (entries p)"
    using mset_delete_nth [of "unat i" "entries p"] True p'(4) by simp
  then have "sum_mset (image_mset length (mset (entries p))) =
      length (entries p ! unat i) + sum_mset (image_mset length (mset (entries p')))"
    by (metis image_mset_add_mset sum_mset.add_mset)
  then have sz: "dataBytes (entries p) = length (entries p ! unat i) + dataBytes (entries p')"
    by (simp add: dataBytes_def flip: sum_mset_sum_list mset_map)
  have "numEntries p' + 1 = numEntries p"
    using True p'(4) length_entries [of p'] by simp
  then have "HasSpaceFor p' (length (entries p ! unat i))"
    using sz wf_page_fits [OF assms] by (auto simp: HasSpaceFor_iff [OF p'(2)] fits_def)
  with True p' show ?thesis by auto
qed (simp add: DeleteEntry_out_of_range)

theorem page_delete_entry_witness:
  "\<exists>p'. DeleteEntry (pageWith (NewLeafPage 7) [row 1 2, row 3 4, row 5 6]) 1 = Ok p' \<and>
     entries p' = [row 1 2, row 5 6]"
  using page_delete_entry [of "pageWith (NewLeafPage 7) [row 1 2, row 3 4, row 5 6]" 1]
    leafWith_spec [of "[row 1 2, row 3 4, row 5 6]" 7] leafWith_numEntries [of "[row 1 2, row 3 4, row 5 6]" 7]
  by (auto simp: delete_nth_def)

text \<open>
  C36. \<^verbatim>\<open>MaxEntries\<close> is the exact capacity: a well-formed page whose entries all have the size
  \<open>K + 8\<close> has room for one more entry of that size just when it holds fewer than \<^verbatim>\<open>MaxEntries\<close>.
\<close>

theorem page_capacity_exact:
  assumes "wf_page p" "uniform K (entries p)" "K + 8 \<le> 1000"
  shows "\<exists>m. MaxEntries (word_of_nat (K + 8)) = Ok m \<and> unat m = 4075 div (K + 12) \<and>
    (HasSpaceFor p (K + 8) \<longleftrightarrow> numEntries p < unat m)"
proof -
  let ?s = "word_of_nat (K + 8) :: uint16"
  have "4 + ?s = word_of_nat (K + 12)" by simp
  then have s4: "unat (4 + ?s) = K + 12" using assms(3) by (simp add: unat_of_nat_small del: of_nat_add)
  then have nz: "4 + ?s \<noteq> 0" by (metis add_is_0 unat_0 zero_neq_numeral)
  have m: "MaxEntries ?s = Ok (4075 div (4 + ?s))"
    using nz by (simp add: MaxEntries_def)
  have "unat (4075 div (4 + ?s) :: uint16) = 4075 div (K + 12)"
    using s4 by (simp add: unat_div)
  moreover have "HasSpaceFor p (K + 8) \<longleftrightarrow> Suc (numEntries p) * (K + 12) \<le> 4075"
    using wf_page_fits [OF assms(1)] dataBytes_uniform [OF assms(2)]
    by (auto simp: HasSpaceFor_iff [OF assms(1)] fits_def algebra_simps)
  ultimately show ?thesis
    using m by (auto simp: less_eq_div_iff_mult_less_eq Suc_le_eq [symmetric])
qed

theorem page_capacity_exact_witness:
  "\<exists>m. MaxEntries 16 = Ok m \<and> unat m = 203 \<and> HasSpaceFor (NewLeafPage 1) 16"
  using page_capacity_exact [of "NewLeafPage 1" 8] NewLeafPage_spec [of 1]
    by auto

section \<open>Searching a page\<close>

lemma lowerIdx_eq_count: "sorted ks \<Longrightarrow> lowerIdx ks t = length (filter (\<lambda>k. k < t) ks)"
  unfolding lowerIdx_def by (induction ks) (auto simp: filter_empty_conv not_less)

lemma upperIdx_eq_count: "sorted ks \<Longrightarrow> upperIdx ks t = length (filter (\<lambda>k. k \<le> t) ks)"
  unfolding upperIdx_def by (induction ks) (auto simp: filter_empty_conv not_le)

text \<open>
  On a page in order, \<^verbatim>\<open>findKeyIndex\<close> returns the number of keys below the target and whether
  the target is one of the keys, and \<^verbatim>\<open>findChildPageID\<close> returns the child to the right of the last
  separator that is not above the target, or the leftmost child when there is none.
\<close>

lemma page_search_correct:
  assumes "node_ok K p"
  shows "findKeyIndex p t = Ok (word_of_nat (length (filter (\<lambda>k. k < t) (keys K p))), t \<in> set (keys K p)) \<and>
    findChildPageID p t =
      Ok ((LeftmostChildPageID p # map (childOf K) (entries p)) ! length (filter (\<lambda>k. k \<le> t) (keys K p)))"
proof -
  have srt: "sorted (keys K p)" using assms by (simp add: node_ok_def)
  let ?u = "upperIdx (keys K p) t"
  have "(LeftmostChildPageID p # map (childOf K) (entries p)) ! ?u =
      (if ?u = 0 then LeftmostChildPageID p else childOf K (entries p ! (?u - 1)))"
    using upperIdx_le [of "keys K p" t] by (cases ?u) simp_all
  then show ?thesis
    using findKeyIndex_spec [OF assms, of t] findChildPageID_spec [OF assms, of t] lowerIdx_found [OF srt, of t]
    by (simp add: lowerIdx_eq_count [OF srt] upperIdx_eq_count [OF srt])
qed

section \<open>A leaf as a map\<close>

lemma map_of_delete_nth:
  assumes "distinct (map fst xs)" "i < length xs"
  shows "map_of (delete_nth i xs) = (map_of xs)(fst (xs ! i) := None)"
proof -
  have xs: "xs = take i xs @ xs ! i # drop (Suc i) xs" using assms(2) by (rule id_take_nth_drop)
  then have "distinct (map fst (take i xs @ xs ! i # drop (Suc i) xs))" using assms(1) by simp
  then have notin: "fst (xs ! i) \<notin> fst ` set (take i xs)" "fst (xs ! i) \<notin> fst ` set (drop (Suc i) xs)"
    by (auto simp flip: set_map)
  then have "map_of (take i xs) (fst (xs ! i)) = None" "map_of (drop (Suc i) xs) (fst (xs ! i)) = None"
    by (simp_all add: map_of_eq_None_iff)
  moreover have "map_of xs = map_of (drop (Suc i) xs) ++ [fst (xs ! i) \<mapsto> snd (xs ! i)] ++ map_of (take i xs)"
    using xs by (cases "xs ! i") (metis fst_conv snd_conv map_add_assoc map_of.simps(2) map_of_append map_add_upd map_add_empty)
  ultimately show ?thesis
    by (auto simp: delete_nth_def fun_eq_iff map_add_def split: option.splits)
qed

lemma pairs_keys: "node_ok 8 p \<Longrightarrow> keys 8 p = map EncodeInt64 (map fst (pairs p))"
  by (auto simp: keys_def pairs_def pairOf_def node_ok_def uniform_def)

lemma distinct_pairs: "node_ok 8 p \<Longrightarrow> distinct (map fst (pairs p)) \<longleftrightarrow> distinct (keys 8 p)"
  by (simp add: pairs_keys distinct_map inj_on_def)

lemma Insert_map:
  assumes ok: "node_ok 8 p" and sp: "HasSpaceFor p 16"
  shows "\<exists>p'. Insert p k v = Ok p' \<and> node_ok 8 p' \<and> header p' = header p \<and>
    map_of (pairs p') = (map_of (pairs p))(k \<mapsto> v) \<and> mset (pairs p') = add_mset (k, v) (mset (pairs p))"
proof -
  let ?i = "lowerIdx (keys 8 p) (EncodeInt64 k)"
  have srt: "sorted (keys 8 p)" using ok by (simp add: node_ok_def)
  have "fst (pairs p ! j) \<noteq> k" if "j < ?i" "j < length (pairs p)" for j
    using that lowerIdx_iff [OF srt, of j "EncodeInt64 k"] leaf_key_eq [OF ok, of j k] by auto
  from map_of_insert_nth [OF this] show ?thesis
    using Insert_spec(1) [OF ok sp, of k v] by (metis mset_insert_nth)
qed

lemma Delete_map:
  assumes ok: "node_ok 8 p" and k: "k \<in> fst ` set (pairs p)"
  shows "\<exists>p'. Delete p k = Ok p' \<and> node_ok 8 p' \<and> header p' = header p \<and> Suc (numEntries p') = numEntries p \<and>
    (distinct (map fst (pairs p)) \<longrightarrow> map_of (pairs p') = (map_of (pairs p))(k := None)) \<and>
    mset (pairs p) = add_mset (k, the (map_of (pairs p) k)) (mset (pairs p'))"
proof -
  let ?i = "lowerIdx (keys 8 p) (EncodeInt64 k)"
  obtain p' where p': "Delete p k = Ok p'" "node_ok 8 p'" "header p' = header p" "pairs p' = delete_nth ?i (pairs p)"
    using Delete_spec(1) [OF ok k] by blast
  have i: "?i < length (pairs p)" "fst (pairs p ! ?i) = k" "map_of (pairs p) k = Some (snd (pairs p ! ?i))"
    using leaf_lookup [OF ok, of k] k leaf_key_eq [OF ok, of ?i k] by auto
  have ik: "pairs p ! ?i = (k, the (map_of (pairs p) k))" using i by (metis option.sel prod.collapse)
  have "add_mset (pairs p ! ?i) (mset (pairs p')) = mset (pairs p)"
    using mset_delete_nth [OF i(1)] p'(4) by simp
  moreover have "length (pairs p') = length (pairs p) - 1" using i(1) p'(4) by simp
  then have "Suc (numEntries p') = numEntries p" using i(1) by simp
  ultimately show ?thesis
    using p' map_of_delete_nth [OF _ i(1)] i(2) ik by auto
qed

text \<open>
  C37. A leaf is a map from keys to record identifiers: inserting updates the map at the key,
  adds one pair and keeps all others, or fails with \<^verbatim>\<open>ErrPageFull\<close> when a 16-byte entry does not
  fit; searching is the lookup in the map; deleting a present key of a leaf without repeated keys
  removes it from the map, and deleting an absent key fails with \<^verbatim>\<open>ErrKeyNotFound\<close>.
\<close>

theorem leaf_refines_map:
  assumes "node_ok 8 p"
  shows "(if HasSpaceFor p 16 then
       \<exists>p'. Insert p k v = Ok p' \<and> node_ok 8 p' \<and> map_of (pairs p') = (map_of (pairs p))(k \<mapsto> v) \<and>
         mset (pairs p') = add_mset (k, v) (mset (pairs p))
     else Insert p k v = Err ErrPageFull) \<and>
    Search p k = Ok (case map_of (pairs p) k of None \<Rightarrow> (0, False) | Some r \<Rightarrow> (r, True)) \<and>
    (if map_of (pairs p) k = None then Delete p k = Err ErrKeyNotFound
     else \<exists>p'. Delete p k = Ok p' \<and> node_ok 8 p' \<and> Suc (numEntries p') = numEntries p \<and>
       (distinct (map fst (pairs p)) \<longrightarrow> map_of (pairs p') = (map_of (pairs p))(k := None)))"
proof (intro conjI)
  show "if HasSpaceFor p 16 then
       \<exists>p'. Insert p k v = Ok p' \<and> node_ok 8 p' \<and> map_of (pairs p') = (map_of (pairs p))(k \<mapsto> v) \<and>
         mset (pairs p') = add_mset (k, v) (mset (pairs p))
     else Insert p k v = Err ErrPageFull"
    using Insert_map [OF assms, of k v] Insert_spec(2) [OF assms, of k v] by auto
  show "if map_of (pairs p) k = None then Delete p k = Err ErrKeyNotFound
     else \<exists>p'. Delete p k = Ok p' \<and> node_ok 8 p' \<and> Suc (numEntries p') = numEntries p \<and>
       (distinct (map fst (pairs p)) \<longrightarrow> map_of (pairs p') = (map_of (pairs p))(k := None))"
    using Delete_map [OF assms, of k] Delete_spec(2) [OF assms, of k] by (auto simp: map_of_eq_None_iff)
qed (rule Search_spec [OF assms])

theorem leaf_refines_map_witness:
  "\<exists>p'. Delete (pageWith (NewLeafPage 7) [row 1 2, row 3 4, row 5 6]) 3 = Ok p' \<and>
     map_of (pairs p') = [1 \<mapsto> 2, 5 \<mapsto> 6] \<and>
     Search (pageWith (NewLeafPage 7) [row 1 2, row 3 4, row 5 6]) 3 = Ok (4, True)"
proof -
  let ?p = "pageWith (NewLeafPage 7) [row 1 2, row 3 4, row 5 6]"
  have ok: "node_ok 8 ?p" and ps: "pairs ?p = [(1, 2), (3, 4), (5, 6)]"
    using leafWith_node_ok [of "[row 1 2, row 3 4, row 5 6]" 7] leafWith_spec(2) [of "[row 1 2, row 3 4, row 5 6]" 7]
    by (simp_all add: pairs_def EncodeInt64_le_sint del: EncodeInt64_le)
  show ?thesis
    using leaf_refines_map [OF ok, of 3 0] by (auto simp: ps fun_upd_twist intro!: ext)
qed

section \<open>Splitting, merging and redistribution\<close>

lemma keys_append: "entries r = entries p @ entries q \<Longrightarrow> keys K r = keys K p @ keys K q"
  by (simp add: keys_def)

lemma sorted_split_keys:
  assumes "sorted (ks @ ls)" "ls \<noteq> []"
  shows "\<forall>k \<in> set ks. k \<le> hd ls" "\<forall>k \<in> set ls. hd ls \<le> k"
  using assms by (cases ls; auto simp: sorted_append)+

text \<open>
  C38. Splitting a leaf of \<open>n\<close> entries, \<open>n\<close> at least 2, loses and duplicates nothing: the old page
  keeps the first \<open>n div 2\<close> entries in order, the new page gets the rest, the separator is the
  first key of the new page and bounds both halves, and the new page is linked into the leaf chain
  right after the old one.
\<close>

theorem split_leaf_partition:
  assumes "node_ok K p" "2 \<le> numEntries p"
  shows "\<exists>sep q p'. splitLeaf p (NewLeafPage v) = Ok (sep, q, p') \<and> node_ok K p' \<and> node_ok K q \<and>
    entries p' @ entries q = entries p \<and> numEntries p' = numEntries p div 2 \<and> sep = hd (keys K q) \<and>
    (\<forall>k \<in> set (keys K p'). k \<le> sep) \<and> (\<forall>k \<in> set (keys K q). sep \<le> k) \<and>
    header p' = (ID p, PageType p, PrevLeafPageID p, v) \<and> header q = (v, LeafPage, ID p, NextLeafPageID p)"
proof -
  define mid where "mid = numEntries p div 2"
  obtain p' q where s: "splitLeaf p (NewLeafPage v) = Ok (keys K p ! mid, q, p')" "node_ok K p'" "node_ok K q"
      "entries p' = take mid (entries p)" "entries q = drop mid (entries p)"
      "header p' = (ID p, PageType p, PrevLeafPageID p, v)" "header q = (v, LeafPage, ID p, NextLeafPageID p)"
    using splitLeaf_spec [OF assms, of v] by (auto simp: mid_def)
  have cat: "entries p' @ entries q = entries p" using s(4,5) by simp
  have ks: "keys K p = keys K p' @ keys K q" using keys_append [OF cat [symmetric]] .
  have n: "numEntries p' = mid" "mid < numEntries p"
    using s(4) length_entries [of p'] assms(2) by (auto simp: mid_def)
  then have ne: "keys K q \<noteq> []"
    using arg_cong [OF ks, of length] by (metis add_0_right length_keys less_irrefl list.size(3) length_append)
  then have hd: "keys K p ! mid = hd (keys K q)"
    using n ks by (simp add: nth_append hd_conv_nth)
  have "sorted (keys K p' @ keys K q)" using assms(1) ks by (simp add: node_ok_def)
  from sorted_split_keys [OF this ne] show ?thesis
    using s cat n hd by (auto simp: mid_def)
qed

theorem split_leaf_partition_witness:
  "\<exists>sep q p'. splitLeaf (pageWith (NewLeafPage 7) [row 1 2, row 3 4, row 5 6]) (NewLeafPage 9) = Ok (sep, q, p') \<and>
     entries p' @ entries q = [row 1 2, row 3 4, row 5 6] \<and> numEntries p' = 1 \<and> NextLeafPageID p' = 9"
proof -
  let ?p = "pageWith (NewLeafPage 7) [row 1 2, row 3 4, row 5 6]"
  have ok: "node_ok 8 ?p" "entries ?p = [row 1 2, row 3 4, row 5 6]" "numEntries ?p = 3"
    using leafWith_node_ok [of "[row 1 2, row 3 4, row 5 6]" 7] leafWith_spec(2) [of "[row 1 2, row 3 4, row 5 6]" 7]
      leafWith_numEntries [of "[row 1 2, row 3 4, row 5 6]" 7]
    by (simp_all add: EncodeInt64_le_sint del: EncodeInt64_le)
  show ?thesis
    using split_leaf_partition [OF ok(1), of 9] ok(2,3) by (auto simp: header_def)
qed

text \<open>
  Merging undoes splitting: merging the two halves of a split leaf gives back a page with the
  entries, the identifier and both neighbours of the original leaf, and empties the other page.
\<close>

lemma merge_undoes_split:
  assumes "node_ok K p" "2 \<le> numEntries p"
  shows "\<exists>sep q p' r s. splitLeaf p (NewLeafPage v) = Ok (sep, q, p') \<and> mergeLeaf p' q = Ok (r, s) \<and>
    entries r = entries p \<and> header r = header p \<and> node_ok K r \<and> entries s = []"
proof -
  obtain p' q where s: "splitLeaf p (NewLeafPage v) = Ok (keys K p ! (numEntries p div 2), q, p')"
      "node_ok K p'" "node_ok K q" "entries p' = take (numEntries p div 2) (entries p)"
      "entries q = drop (numEntries p div 2) (entries p)"
      "header p' = (ID p, PageType p, PrevLeafPageID p, v)" "header q = (v, LeafPage, ID p, NextLeafPageID p)"
    using splitLeaf_spec [OF assms, of v] by blast
  have wf: "wf_page p'" "wf_page q" and "fits (entries p' @ entries q)"
    using s assms(1) wf_page_fits by (auto simp: node_ok_def)
  from mergeLeaf_spec [OF this] obtain r t where r: "mergeLeaf p' q = Ok (r, t)" "wf_page r"
      "entries r = entries p" "header r = (ID p', PageType p', PrevLeafPageID p', NextLeafPageID q)" "entries t = []"
    using s(4,5) by auto
  have "node_ok K r" using assms(1) r(2,3) by (simp add: node_ok_def keys_def)
  moreover have "header r = header p" using r(4) s(6,7) by (simp add: header_def)
  ultimately show ?thesis using s(1) r by blast
qed

lemma map_split_nth: "i < length xs \<Longrightarrow> map f (take i xs) @ f (xs ! i) # map f (drop (Suc i) xs) = map f xs"
  by (metis id_take_nth_drop list.simps(9) map_append)

text \<open>
  Splitting an internal page moves the middle separator up and loses no child: the children of
  the two pages are those of the original in order, the separators of the old page, the separator
  that moves up and the separators of the new page are those of the original in order, and both
  pages are in order.
\<close>

lemma split_internal_partition:
  assumes "node_ok K p" "2 \<le> numEntries p"
  shows "\<exists>sep q p'. splitInternal p r = Ok (sep, q, p') \<and> node_ok K p' \<and> node_ok K q \<and>
    childIDs K p' @ childIDs K q = childIDs K p \<and> keys K p' @ sep # keys K q = keys K p \<and>
    ID p' = ID p \<and> ID q = ID r \<and> PageType q = InternalPage"
proof -
  define mid where "mid = numEntries p div 2"
  obtain p' q where s: "splitInternal p r = Ok (keys K p ! mid, q, p')" "node_ok K p'" "node_ok K q"
      "entries p' = take mid (entries p)" "entries q = drop (Suc mid) (entries p)"
      "header p' = header p" "header q = (ID r, InternalPage, childOf K (entries p ! mid), 0)"
    using splitInternal_spec [OF assms, of r] by (auto simp: mid_def)
  have mid: "mid < length (entries p)" using assms(2) by (auto simp: mid_def)
  show ?thesis
    using s mid map_split_nth [OF mid, of "take K"] map_split_nth [OF mid, of "childOf K"] by (auto simp: childIDs_def Leftmost_header keys_def header_def [of p'] header_def [of q] header_def [of p])
qed

lemma keys_childIDs_internal:
  assumes "length s = K"
  shows "entries l' = entries l @ (s @ PutUint64 (LeftmostChildPageID r)) # entries r \<Longrightarrow>
      LeftmostChildPageID l' = LeftmostChildPageID l \<Longrightarrow>
      keys K l' = keys K l @ s # keys K r \<and> childIDs K l' = childIDs K l @ childIDs K r"
  using assms by (simp add: keys_def childIDs_def)

text \<open>
  An internal page from separator keys and child identifiers, for the instances.
\<close>

definition internalWith :: "PageID \<Rightarrow> PageID \<Rightarrow> (int64 \<times> PageID) list \<Rightarrow> Page" where
  "internalWith v c cs = pageWith (NewInternalPage v c) (map (\<lambda>(k, i). EncodeInt64 k @ PutUint64 i) cs)"

lemma internalWith_spec:
  assumes "length cs \<le> 203"
  shows "wf_page (internalWith v c cs)" "header (internalWith v c cs) = (v, InternalPage, c, 0)"
    and "entries (internalWith v c cs) = map (\<lambda>(k, i). EncodeInt64 k @ PutUint64 i) cs"
proof -
  let ?es = "map (\<lambda>(k, i). EncodeInt64 k @ PutUint64 i) cs"
  have "uniform 8 ?es" by (auto simp: uniform_def)
  then have "fits (entries (NewInternalPage v c) @ ?es)"
    using assms by (simp add: NewInternalPage_spec fits_def dataBytes_uniform)
  from pageWith_spec [OF NewInternalPage_spec(1) this]
  show "wf_page (internalWith v c cs)" "header (internalWith v c cs) = (v, InternalPage, c, 0)"
    "entries (internalWith v c cs) = ?es"
    by (simp_all add: NewInternalPage_spec internalWith_def)
qed

lemma internalWith_children:
  assumes "length cs \<le> 203"
  shows "keys 8 (internalWith v c cs) = map (EncodeInt64 \<circ> fst) cs" "childIDs 8 (internalWith v c cs) = c # map snd cs"
    and "uniform 8 (entries (internalWith v c cs))" "numEntries (internalWith v c cs) = length cs"
proof -
  note s = internalWith_spec [OF assms, of v c]
  show "keys 8 (internalWith v c cs) = map (EncodeInt64 \<circ> fst) cs"
    by (auto simp: keys_def s)
  show "childIDs 8 (internalWith v c cs) = c # map snd cs"
    by (auto simp: childIDs_def s Leftmost_header)
  show "uniform 8 (entries (internalWith v c cs))" by (auto simp: s uniform_def)
  show "numEntries (internalWith v c cs) = length cs" by (metis s(3) length_entries length_map)
qed

text \<open>
  Merging an internal page into its left neighbour brings the separator of the two down
  between them: the children are those of the left page followed by those of the right page, the
  separators those of the left page, the parent's separator and those of the right page.
\<close>

lemma merge_internal_concat:
  assumes "wf_page l" "wf_page r" "length s = K" "uniform K (entries l)" "uniform K (entries r)"
    and "numEntries l + numEntries r < 4075 div (K + 12)"
  shows "\<exists>l'. mergeInternal l r s = Ok l' \<and> wf_page l' \<and> header l' = header l \<and>
    keys K l' = keys K l @ s # keys K r \<and> childIDs K l' = childIDs K l @ childIDs K r"
proof -
  let ?es = "entries l @ (s @ PutUint64 (LeftmostChildPageID r)) # entries r"
  have uni: "uniform K ?es" using assms(3-5) by simp
  have "length ?es \<le> 4075 div (K + 12)" using assms(6) by simp
  then have "length ?es * (K + 12) \<le> 4075"
    by (metis (no_types) div_times_less_eq_dividend mult_le_mono1 order_trans)
  then have "fits ?es"
    using dataBytes_uniform [OF uni] by (simp add: fits_def algebra_simps)
  from mergeInternal_spec [OF assms(1,2) this] show ?thesis
    using keys_childIDs_internal [OF assms(3)] by (metis Leftmost_header)
qed

text \<open>
  Borrowing an entry between neighbouring leaves moves one entry across the boundary and
  nothing else: the entries of the two pages in order stay the same, both pages stay well formed
  with their headers, and the new separator is the first key of the right page.
\<close>

lemma redistribute_leaf_preserves:
  assumes "node_ok K l" "node_ok K r" "2 \<le> numEntries l" "2 \<le> numEntries r"
    and "HasSpaceFor l (K + 8)" "HasSpaceFor r (K + 8)"
  shows "(\<exists>sep l' r'. redistributeFromLeft r l = Ok (sep, r', l') \<and> wf_page l' \<and> wf_page r' \<and>
      entries l' @ entries r' = entries l @ entries r \<and> numEntries r' = numEntries r + 1 \<and>
      sep = hd (keys K r') \<and> header l' = header l \<and> header r' = header r) \<and>
    (\<exists>sep l' r'. redistributeFromRight l r = Ok (sep, l', r') \<and> wf_page l' \<and> wf_page r' \<and>
      entries l' @ entries r' = entries l @ entries r \<and> numEntries l' = numEntries l + 1 \<and>
      sep = hd (keys K r') \<and> header l' = header l \<and> header r' = header r)"
proof -
  have wf: "wf_page l" "wf_page r" and uni: "uniform K (entries l)" "uniform K (entries r)"
    using assms by (auto simp: node_ok_def)
  have ne: "entries l \<noteq> []" "entries r \<noteq> []" "tl (entries r) \<noteq> []"
    using assms(3,4) length_entries [of l] length_entries [of r] by (auto simp flip: length_greater_0_conv)
  have len: "length (last (entries l)) = K + 8" "length (hd (entries r)) = K + 8"
    using uni ne by (auto simp: uniform_def)
  have fit: "fits (last (entries l) # entries r)" "fits (entries l @ [hd (entries r)])"
    using assms(5,6) len by (auto simp: HasSpaceFor_iff wf fits_def dataBytes_def)
  obtain r1 l1 where 1: "redistributeFromLeft r l = Ok (take K (last (entries l)), r1, l1)" "wf_page r1" "wf_page l1"
      "header r1 = header r" "header l1 = header l" "entries l1 = butlast (entries l)"
      "entries r1 = last (entries l) # entries r"
    using redistributeFromLeft_spec [OF wf(2,1) _ uni(1) fit(1)] assms(3) by auto
  obtain l2 r2 where 2: "redistributeFromRight l r = Ok (keys K r ! 1, l2, r2)" "wf_page l2" "wf_page r2"
      "header l2 = header l" "header r2 = header r" "entries r2 = tl (entries r)"
      "entries l2 = entries l @ [hd (entries r)]"
    using redistributeFromRight_spec [OF wf(1) assms(2,4) fit(2)] by auto
  have n: "numEntries r1 = numEntries r + 1" "numEntries l2 = numEntries l + 1"
    using 1(7) 2(7) length_entries [of r1] length_entries [of l2] by simp_all
  have h: "take K (last (entries l)) = hd (keys K r1)" "keys K r ! 1 = hd (keys K r2)"
    using 1(7) 2(6) ne(2,3) by (cases "entries r"; simp add: keys_def hd_map hd_conv_nth)+
  show ?thesis
    using 1 2 n h ne by auto
qed

end
