(* ===== verification/Storage.thy ===== *)
theory Storage
  imports Page_Layout
begin

text \<open>
  \<^verbatim>\<open>internal/storage/file.go\<close>: the page manager over an operating-system file, and the Go heap of
  page objects. Pages are passed around as pointers in the program, so a page is an address into
  \<open>objs\<close>; reading a page from disk allocates a new object.
\<close>

section \<open>The file\<close>

text \<open>
  The part of \<^verbatim>\<open>os.File\<close> the program uses. \<open>content\<close> is what a read returns, \<open>durable\<close> what the last
  \<^verbatim>\<open>fsync\<close> has pushed to stable storage, \<open>unsynced\<close> the writes since then, with their offsets. \<open>faults\<close> is the
  fate of the coming system calls: an empty list or \<open>None\<close> lets the call through, \<open>Some k\<close> makes it fail, a
  write after \<open>k\<close> bytes.
\<close>

record osfile =
  content :: "byte list"
  cursor :: nat
  closed :: bool
  durable :: "byte list"
  unsynced :: "(nat \<times> byte list) list"
  faults :: "nat option list"

text \<open>A system call: refused on a closed file, failing if the schedule says so.\<close>

definition syscall :: "(osfile, 'a) op \<Rightarrow> (nat \<Rightarrow> osfile \<Rightarrow> osfile) \<Rightarrow> (osfile, 'a) op" where
  "syscall act onFault f =
     (if closed f then (Err ErrClosed, f)
      else case faults f of
        [] \<Rightarrow> act f
      | None # fs \<Rightarrow> act (f\<lparr>faults := fs\<rparr>)
      | Some k # fs \<Rightarrow> (Err EIO, onFault k (f\<lparr>faults := fs\<rparr>)))"

text \<open>Writing past the end fills the gap with zero bytes.\<close>

definition overwrite :: "byte list \<Rightarrow> nat \<Rightarrow> byte list \<Rightarrow> byte list" where
  "overwrite c pos bs =
     (let c' = c @ replicate (pos + length bs - length c) 0 in blit c' pos bs)"

definition fileSeek :: "int64 \<Rightarrow> (osfile, unit) op" where
  "fileSeek off =
     syscall (\<lambda>f. if sint off < 0 then (Err EINVAL, f) else (Ok (), f\<lparr>cursor := nat (sint off)\<rparr>)) (\<lambda>_ f. f)"

text \<open>\<^verbatim>\<open>io.ReadFull\<close> into a page-sized buffer.\<close>

definition fileReadFull :: "nat \<Rightarrow> (osfile, byte list) op" where
  "fileReadFull n =
     syscall (\<lambda>f.
       let bs = sub (content f) (cursor f) n;
           f' = f\<lparr>cursor := cursor f + length bs\<rparr> in
       if length bs = n then (Ok bs, f')
       else if bs = [] then (Err EOF, f') else (Err ErrUnexpectedEOF, f')) (\<lambda>_ f. f)"

definition fileWrite :: "byte list \<Rightarrow> (osfile, unit) op" where
  "fileWrite bs =
     (let put = (\<lambda>bs f. f\<lparr>content := overwrite (content f) (cursor f) bs, cursor := cursor f + length bs,
                          unsynced := unsynced f @ [(cursor f, bs)]\<rparr>) in
      syscall (\<lambda>f. (Ok (), put bs f)) (\<lambda>k f. put (take k bs) f))"

definition fileSync :: "(osfile, unit) op" where
  "fileSync = syscall (\<lambda>f. (Ok (), f\<lparr>durable := content f, unsynced := []\<rparr>)) (\<lambda>_ f. f)"

definition fileClose :: "(osfile, unit) op" where
  "fileClose = syscall (\<lambda>f. (Ok (), f\<lparr>closed := True\<rparr>)) (\<lambda>_ f. f\<lparr>closed := True\<rparr>)"

text \<open>
  What the disk may hold after the power has failed. A write that was not synced may have reached it in full, in part
  or not at all, before or after a later one; nothing is assumed about that: only a file with no such write
  is sure to come back as it was.
\<close>

definition afterPowerCut :: "osfile \<Rightarrow> byte list \<Rightarrow> bool" where
  "afterPowerCut f disk \<longleftrightarrow> (unsynced f = [] \<longrightarrow> disk = durable f)"

section \<open>The page manager\<close>

record PageManager =
  pm_file :: osfile
  nextPageID :: PageID
  pageReads :: uint64
  pageWrites :: uint64
  syncCalls :: uint64

type_synonym addr = nat

text \<open>The state a page manager lives in: the page objects of the Go heap and the manager.\<close>

record world =
  objs :: "Page list"
  pm :: PageManager

definition withFile :: "(osfile, 'a) op \<Rightarrow> ('w world_scheme, 'a) op" where
  "withFile act w =
     (case act (pm_file (pm w)) of (r, f) \<Rightarrow> (r, w\<lparr>pm := (pm w)\<lparr>pm_file := f\<rparr>\<rparr>))"

definition newObj :: "Page \<Rightarrow> ('w world_scheme, addr) op" where
  "newObj p w = (Ok (length (objs w)), w\<lparr>objs := objs w @ [p]\<rparr>)"

text \<open>A page field access through a pointer, and an in-place change of the page it points to.\<close>

definition deref :: "addr \<Rightarrow> ('w world_scheme, Page) op" where
  "deref a w = (if a < length (objs w) then (Ok (objs w ! a), w) else (Panic, w))"

definition assign :: "addr \<Rightarrow> Page \<Rightarrow> ('w world_scheme, unit) op" where
  "assign a p w = (Ok (), w\<lparr>objs := (objs w)[a := p]\<rparr>)"

definition storage_Open :: "osfile res \<Rightarrow> PageManager res" where
  "storage_Open opened =
     rbind opened (\<lambda>f.
     case syscall (\<lambda>f. (Ok (length (content f)), f)) (\<lambda>_ f. f) f of
       (r, f) \<Rightarrow> rbind r (\<lambda>sz.
         let pageCount = sz div PageSize in
         Ok \<lparr>pm_file = f, nextPageID = word_of_nat pageCount, pageReads = 0, pageWrites = 0, syncCalls = 0\<rparr>))"

definition pm_Close :: "('w world_scheme, unit) op" where
  "pm_Close = withFile fileClose"

definition AllocatePageID :: "('w world_scheme, PageID) op" where
  "AllocatePageID w =
     (Ok (nextPageID (pm w)), w\<lparr>pm := (pm w)\<lparr>nextPageID := nextPageID (pm w) + 1\<rparr>\<rparr>)"

definition AllocatePage :: "('w world_scheme, addr) op" where
  "AllocatePage = sbind AllocatePageID (\<lambda>v. newObj (NewLeafPage v))"

definition ReadPage :: "PageID \<Rightarrow> ('w world_scheme, addr) op" where
  "ReadPage v =
     sbind (smod (\<lambda>w. w\<lparr>pm := (pm w)\<lparr>pageReads := pageReads (pm w) + 1\<rparr>\<rparr>)) (\<lambda>_.
     let offset = v * PageSize in
     sbind (withFile (fileSeek offset)) (\<lambda>_.
     sbind (withFile (fileReadFull PageSize)) (\<lambda>bs.
     newObj \<lparr>ID = v, Data = bs\<rparr>)))"

definition WritePage :: "addr \<Rightarrow> ('w world_scheme, unit) op" where
  "WritePage a =
     sbind (smod (\<lambda>w. w\<lparr>pm := (pm w)\<lparr>pageWrites := pageWrites (pm w) + 1\<rparr>\<rparr>)) (\<lambda>_.
     sbind (deref a) (\<lambda>p.
     let offset = ID p * PageSize in
     sbind (withFile (fileSeek offset)) (\<lambda>_.
     withFile (fileWrite (Data p)))))"

definition pm_Sync :: "('w world_scheme, unit) op" where
  "pm_Sync =
     sbind (smod (\<lambda>w. w\<lparr>pm := (pm w)\<lparr>syncCalls := syncCalls (pm w) + 1\<rparr>\<rparr>)) (\<lambda>_. withFile fileSync)"

definition PageReads :: "'w world_scheme \<Rightarrow> uint64" where
  "PageReads w = pageReads (pm w)"

definition PageWrites :: "'w world_scheme \<Rightarrow> uint64" where
  "PageWrites w = pageWrites (pm w)"

definition SyncCalls :: "'w world_scheme \<Rightarrow> uint64" where
  "SyncCalls w = syncCalls (pm w)"

definition pm_ResetStats :: "('w world_scheme, unit) op" where
  "pm_ResetStats = smod (\<lambda>w. w\<lparr>pm := (pm w)\<lparr>pageReads := 0, pageWrites := 0, syncCalls := 0\<rparr>\<rparr>)"

definition PageCount :: "'w world_scheme \<Rightarrow> PageID" where
  "PageCount w = nextPageID (pm w)"

definition SetNextPageID :: "PageID \<Rightarrow> ('w world_scheme, unit) op" where
  "SetNextPageID v = smod (\<lambda>w. w\<lparr>pm := (pm w)\<lparr>nextPageID := v\<rparr>\<rparr>)"

end
