(* ===== verification/Storage_Spec.thy ===== *)
theory Storage_Spec
  imports Storage
begin

text \<open>
  The page manager as a store of pages: reads return the bytes of the last write to the same
  page, a write leaves every other page alone, and only a sync moves bytes to stable storage.
\<close>

section \<open>Vocabulary\<close>

text \<open>A page identifier whose byte offset is a non-negative 64-bit file offset.\<close>

definition valid_id :: "PageID \<Rightarrow> bool" where
  "valid_id v \<longleftrightarrow> unat v < 2 ^ 51"

definition diskPage :: "'w world_scheme \<Rightarrow> PageID \<Rightarrow> byte list option" where
  "diskPage w v =
     (let c = content (pm_file (pm w)); off = unat v * PageSize in
      if valid_id v \<and> off + PageSize \<le> length c then Some (sub c off PageSize) else None)"

text \<open>An open file within the range of an \<^verbatim>\<open>int64\<close> offset whose coming system calls succeed.\<close>

definition quiet :: "'w world_scheme \<Rightarrow> bool" where
  "quiet w \<longleftrightarrow> \<not> closed (pm_file (pm w)) \<and> faults (pm_file (pm w)) = [] \<and> length (content (pm_file (pm w))) \<le> 2 ^ 63"

definition durableBytes :: "'w world_scheme \<Rightarrow> byte list" where
  "durableBytes w = durable (pm_file (pm w))"

definition fileBytes :: "'w world_scheme \<Rightarrow> byte list" where
  "fileBytes w = content (pm_file (pm w))"

section \<open>File lemmas\<close>

lemma syscall_quiet: "\<not> closed f \<Longrightarrow> faults f = [] \<Longrightarrow> syscall act onf f = act f"
  by (simp add: syscall_def)

lemma offset_sint:
  assumes "valid_id v"
  shows "sint (v * PageSize :: int64) = int (unat v * PageSize)"
proof -
  have small: "unat v * PageSize < 2 ^ 63" using assms by (simp add: valid_id_def)
  have "unat (v * PageSize) = unat v * PageSize"
    using small by (simp add: unat_word_ariths)
  then have "uint (v * PageSize) = int (unat v * PageSize)"
    by (metis of_nat_unat)
  with small show ?thesis
    by (simp add: sint_uint signed_take_bit_int_eq_self del: of_nat_mult of_nat_unat)
qed

lemma fileSeek_page:
  assumes "valid_id v" "\<not> closed f" "faults f = []"
  shows "fileSeek (v * PageSize) f = (Ok (), f\<lparr>cursor := unat v * PageSize\<rparr>)"
  using assms by (simp add: fileSeek_def syscall_quiet offset_sint del: of_nat_mult of_nat_unat)

lemma sub_overwrite_same [simp]: "sub (overwrite c pos bs) pos (length bs) = bs"
  by (simp add: overwrite_def Let_def byte_simps)

lemma length_overwrite: "length (overwrite c pos bs) = max (length c) (pos + length bs)"
  by (simp add: overwrite_def Let_def)

lemma sub_append_left: "a + n \<le> length c \<Longrightarrow> sub (c @ d) a n = sub c a n"
  by (simp add: sub_def)

lemma sub_overwrite_other:
  assumes "a + n \<le> length c" "a + n \<le> pos \<or> pos + length bs \<le> a"
  shows "sub (overwrite c pos bs) a n = sub c a n"
  using assms by (auto simp: overwrite_def Let_def byte_simps sub_append_left)

lemma page_slots_apart:
  assumes "u \<noteq> v"
  shows "unat u * PageSize + PageSize \<le> unat v * PageSize \<or> unat v * PageSize + PageSize \<le> unat (u :: PageID) * PageSize"
proof -
  have "unat u < unat v \<or> unat v < unat u"
    using assms by (simp add: word_unat_eq_iff neq_iff)
  then show ?thesis by auto
qed

section \<open>Reading and writing pages\<close>

lemma ReadPage_spec:
  assumes q: "quiet w" and d: "diskPage w v = Some bs"
  shows "\<exists>w'. ReadPage v w = (Ok (length (objs w)), w') \<and> objs w' = objs w @ [\<lparr>ID = v, Data = bs\<rparr>] \<and>
    quiet w' \<and> fileBytes w' = fileBytes w \<and> durableBytes w' = durableBytes w \<and>
    nextPageID (pm w') = nextPageID (pm w) \<and> pageReads (pm w') = pageReads (pm w) + 1 \<and>
    pageWrites (pm w') = pageWrites (pm w) \<and> world.more w' = world.more w"
proof -
  have v: "valid_id v" and in_range: "unat v * PageSize + PageSize \<le> length (content (pm_file (pm w)))"
    and bs: "bs = sub (content (pm_file (pm w))) (unat v * PageSize) PageSize"
    using d by (auto simp: diskPage_def Let_def split: if_splits)
  have "length bs = PageSize" using in_range by (simp add: bs length_sub)
  then show ?thesis
    using q v bs
    by (simp add: ReadPage_def exec_simps withFile_def fileSeek_page fileReadFull_def syscall_quiet quiet_def
        newObj_def sbind_def Let_def fileBytes_def durableBytes_def)
qed

lemma ReadPage_missing:
  assumes q: "quiet w" and v: "valid_id v" and d: "diskPage w v = None"
  shows "\<exists>w' e. ReadPage v w = (Err e, w') \<and> (e = EOF \<or> e = ErrUnexpectedEOF) \<and> objs w' = objs w \<and>
    fileBytes w' = fileBytes w"
proof -
  have "length (sub (content (pm_file (pm w))) (unat v * PageSize) PageSize) \<noteq> PageSize"
    using d v by (auto simp: diskPage_def Let_def sub_def split: if_splits)
  then show ?thesis
    using q v
    by (auto simp: ReadPage_def exec_simps withFile_def fileSeek_page fileReadFull_def syscall_quiet quiet_def
        sbind_def Let_def fileBytes_def)
qed

lemma WritePage_spec:
  assumes q: "quiet w" and a: "a < length (objs w)" and p: "objs w ! a = p"
    and v: "valid_id (ID p)" and len: "length (Data p) = PageSize"
  shows "\<exists>w'. WritePage a w = (Ok (), w') \<and> objs w' = objs w \<and> quiet w' \<and>
    diskPage w' (ID p) = Some (Data p) \<and>
    (\<forall>u bs. u \<noteq> ID p \<longrightarrow> diskPage w u = Some bs \<longrightarrow> diskPage w' u = Some bs) \<and>
    durableBytes w' = durableBytes w \<and> nextPageID (pm w') = nextPageID (pm w) \<and>
    pageReads (pm w') = pageReads (pm w) \<and> pageWrites (pm w') = pageWrites (pm w) + 1 \<and>
    world.more w' = world.more w \<and> length (fileBytes w') = max (length (fileBytes w)) (Suc (unat (ID p)) * PageSize)"
proof -
  let ?c = "content (pm_file (pm w))" and ?off = "unat (ID p) * PageSize"
  let ?c' = "overwrite ?c ?off (Data p)"
  have own: "sub ?c' ?off PageSize = Data p" "?off + PageSize \<le> length ?c'"
    using sub_overwrite_same [of ?c ?off "Data p"] len by (simp_all add: length_overwrite)
  have other: "sub ?c' (unat u * PageSize) PageSize = sub ?c (unat u * PageSize) PageSize"
    if "u \<noteq> ID p" "unat u * PageSize + PageSize \<le> length ?c" for u
    using page_slots_apart [OF that(1)] that(2) len by (intro sub_overwrite_other) auto
  have small: "length ?c' \<le> 2 ^ 63" using q v len by (simp add: quiet_def length_overwrite valid_id_def)
  show ?thesis
    using q a p v len own other small
    by (auto simp: WritePage_def exec_simps deref_def withFile_def fileSeek_page fileWrite_def syscall_quiet
        quiet_def sbind_def Let_def durableBytes_def fileBytes_def diskPage_def length_overwrite split: if_splits)
qed

lemma pm_Sync_spec:
  assumes "quiet w"
  shows "\<exists>w'. pm_Sync w = (Ok (), w') \<and> objs w' = objs w \<and> quiet w' \<and> fileBytes w' = fileBytes w \<and>
    durableBytes w' = fileBytes w \<and> nextPageID (pm w') = nextPageID (pm w) \<and> world.more w' = world.more w \<and>
    unsynced (pm_file (pm w')) = []"
  using assms
  by (simp add: pm_Sync_def exec_simps withFile_def fileSync_def syscall_quiet quiet_def durableBytes_def fileBytes_def)

lemma diskPage_fileBytes: "fileBytes w' = fileBytes w \<Longrightarrow> diskPage w' = diskPage w"
  by (simp add: fun_eq_iff diskPage_def fileBytes_def)

end
