(* ===== verification/Pool.thy ===== *)
theory Pool
  imports Storage_Spec "HOL-Library.AList"
begin

text \<open>
  \<^verbatim>\<open>internal/buffer/pool.go\<close>: the write-back LRU cache. The recency list of \<^verbatim>\<open>container/list\<close> is a
  list of elements, front first, each with a handle that stands for its \<^verbatim>\<open>*list.Element\<close>; the map
  \<^verbatim>\<open>items\<close> is an association list from page identifiers to handles. Cached pages are addresses
  of page objects, so a page changed through a pointer changes in the cache.
\<close>

section \<open>State\<close>

record entry =
  e_pageID :: PageID
  e_page :: addr
  e_dirty :: bool

type_synonym elem = nat

record Pool =
  capacity :: int
  items :: "(PageID \<times> elem) list"
  lru :: "(elem \<times> entry) list"
  nextElem :: elem
  hits :: uint64
  misses :: uint64
  evictions :: uint64
  dirtyFlushes :: uint64

text \<open>A page manager with an optional pool in front of it: \<^verbatim>\<open>pool == nil\<close> is \<open>None\<close>.\<close>

record store = world +
  pool :: "Pool option"

definition NewPool :: "int \<Rightarrow> Pool" where
  "NewPool cap =
     \<lparr>capacity = (if cap < 1 then 1 else cap), items = [], lru = [], nextElem = 0,
      hits = 0, misses = 0, evictions = 0, dirtyFlushes = 0\<rparr>"

section \<open>The recency list\<close>

definition MoveToFront :: "elem \<Rightarrow> (elem \<times> entry) list \<Rightarrow> (elem \<times> entry) list" where
  "MoveToFront h l = (case map_of l h of None \<Rightarrow> l | Some e \<Rightarrow> (h, e) # filter (\<lambda>x. fst x \<noteq> h) l)"

definition RemoveElem :: "elem \<Rightarrow> (elem \<times> entry) list \<Rightarrow> (elem \<times> entry) list" where
  "RemoveElem h l = filter (\<lambda>x. fst x \<noteq> h) l"

text \<open>A change of the entry an element holds, through \<^verbatim>\<open>elem.Value.(*entry)\<close>.\<close>

definition setElem :: "elem \<Rightarrow> (entry \<Rightarrow> entry) \<Rightarrow> (elem \<times> entry) list \<Rightarrow> (elem \<times> entry) list" where
  "setElem h f l = map (\<lambda>(k, e). (k, if k = h then f e else e)) l"

section \<open>Operations\<close>

text \<open>A method on a pool: a nil receiver panics.\<close>

definition withPool :: "(Pool \<Rightarrow> ('s store_scheme, 'a) op) \<Rightarrow> ('s store_scheme, 'a) op" where
  "withPool f = (\<lambda>w. case pool w of None \<Rightarrow> (Panic, w) | Some p \<Rightarrow> f p w)"

definition updPool :: "(Pool \<Rightarrow> Pool) \<Rightarrow> ('s store_scheme, unit) op" where
  "updPool g = withPool (\<lambda>p. smod (\<lambda>w. w\<lparr>pool := Some (g p)\<rparr>))"

definition pushFront :: "PageID \<Rightarrow> addr \<Rightarrow> bool \<Rightarrow> ('s store_scheme, unit) op" where
  "pushFront v a d =
     updPool (\<lambda>p. p\<lparr>lru := (nextElem p, \<lparr>e_pageID = v, e_page = a, e_dirty = d\<rparr>) # lru p,
                     items := AList.update v (nextElem p) (items p),
                     nextElem := nextElem p + 1\<rparr>)"

definition evictIfFull :: "('s store_scheme, unit) op" where
  "evictIfFull =
     withPool (\<lambda>p.
       if int (length (items p)) < capacity p then sret ()
       else if items p = [] then sret ()
       else if lru p = [] then sret ()
       else
         (case last (lru p) of (h, e) \<Rightarrow>
           sbind (if e_dirty e then
                    sbind (WritePage (e_page e)) (\<lambda>_.
                    updPool (\<lambda>p. p\<lparr>dirtyFlushes := dirtyFlushes p + 1\<rparr>))
                  else sret ()) (\<lambda>_.
           updPool (\<lambda>p. p\<lparr>lru := RemoveElem h (lru p), items := AList.delete (e_pageID e) (items p),
                           evictions := evictions p + 1\<rparr>))))"

definition GetPage :: "PageID \<Rightarrow> ('s store_scheme, addr) op" where
  "GetPage v =
     withPool (\<lambda>p.
       case map_of (items p) v of
         Some h \<Rightarrow>
           sbind (updPool (\<lambda>p. p\<lparr>lru := MoveToFront h (lru p), hits := hits p + 1\<rparr>)) (\<lambda>_.
           case map_of (lru p) h of None \<Rightarrow> slift Panic | Some e \<Rightarrow> sret (e_page e))
       | None \<Rightarrow>
           sbind (updPool (\<lambda>p. p\<lparr>misses := misses p + 1\<rparr>)) (\<lambda>_.
           sbind (ReadPage v) (\<lambda>pg.
           sbind evictIfFull (\<lambda>_.
           sbind (pushFront v pg False) (\<lambda>_.
           sret pg)))))"

definition Put :: "PageID \<Rightarrow> addr \<Rightarrow> ('s store_scheme, unit) op" where
  "Put v pg =
     withPool (\<lambda>p.
       case map_of (items p) v of
         Some h \<Rightarrow>
           updPool (\<lambda>p. p\<lparr>lru := MoveToFront h (setElem h (\<lambda>e. e\<lparr>e_page := pg, e_dirty := True\<rparr>) (lru p))\<rparr>)
       | None \<Rightarrow>
           sbind evictIfFull (\<lambda>_. pushFront v pg True))"

definition MarkDirty :: "PageID \<Rightarrow> ('s store_scheme, unit) op" where
  "MarkDirty v =
     withPool (\<lambda>p.
       case map_of (items p) v of
         None \<Rightarrow> sret ()
       | Some h \<Rightarrow> updPool (\<lambda>p. p\<lparr>lru := setElem h (\<lambda>e. e\<lparr>e_dirty := True\<rparr>) (lru p)\<rparr>))"

definition FlushPage :: "PageID \<Rightarrow> ('s store_scheme, unit) op" where
  "FlushPage v =
     withPool (\<lambda>p.
       case map_of (items p) v of
         None \<Rightarrow> sret ()
       | Some h \<Rightarrow>
           (case map_of (lru p) h of
              None \<Rightarrow> slift Panic
            | Some e \<Rightarrow>
                if \<not> e_dirty e then sret ()
                else
                  sbind (WritePage (e_page e)) (\<lambda>_.
                  updPool (\<lambda>p. p\<lparr>dirtyFlushes := dirtyFlushes p + 1,
                                  lru := setElem h (\<lambda>e. e\<lparr>e_dirty := False\<rparr>) (lru p)\<rparr>))))"

text \<open>
  \<^verbatim>\<open>for id := range p.items\<close> visits the cached pages in an order Go leaves open: the order is the
  argument \<open>ord\<close>.
\<close>

fun flushDirty :: "PageID list \<Rightarrow> ('s store_scheme, unit) op" where
  "flushDirty [] = sret ()"
| "flushDirty (v # vs) = sbind (FlushPage v) (\<lambda>_. flushDirty vs)"

definition pool_Sync :: "PageID list \<Rightarrow> ('s store_scheme, unit) op" where
  "pool_Sync ord = sbind (flushDirty ord) (\<lambda>_. pm_Sync)"

definition pool_Close :: "PageID list \<Rightarrow> ('s store_scheme, unit) op" where
  "pool_Close ord = (\<lambda>w.
     case flushDirty ord w of
       (Err e, w') \<Rightarrow> (Err e, snd (pm_Close w'))
     | (Ok _, w') \<Rightarrow> pm_Close w'
     | (Panic, w') \<Rightarrow> (Panic, w')
     | (Hang, w') \<Rightarrow> (Hang, w'))"

definition pool_ResetStats :: "('s store_scheme, unit) op" where
  "pool_ResetStats = updPool (\<lambda>p. p\<lparr>hits := 0, misses := 0, evictions := 0, dirtyFlushes := 0\<rparr>)"

definition CacheHits :: "Pool \<Rightarrow> uint64" where
  "CacheHits p = hits p"

definition CacheMisses :: "Pool \<Rightarrow> uint64" where
  "CacheMisses p = misses p"

definition Evictions :: "Pool \<Rightarrow> uint64" where
  "Evictions p = evictions p"

definition DirtyFlushes :: "Pool \<Rightarrow> uint64" where
  "DirtyFlushes p = dirtyFlushes p"

end
