(* ===== verification/Pool_Spec.thy ===== *)
theory Pool_Spec
  imports Pool
begin

text \<open>
  The pool as a bounded map from page identifiers to cached entries, its structural invariant,
  and the view of storage through it: a cached page is read from the cache, any other page from
  disk. The operations act on the map as expected and leave the view of every page that has not
  been changed behind the pool's back.
\<close>

section \<open>The pool as a map\<close>

definition cached :: "Pool \<Rightarrow> PageID \<Rightarrow> entry option" where
  "cached p v = (case map_of (items p) v of None \<Rightarrow> None | Some h \<Rightarrow> map_of (lru p) h)"

definition pool_ok :: "Pool \<Rightarrow> bool" where
  "pool_ok p \<longleftrightarrow>
     1 \<le> capacity p \<and> int (length (items p)) \<le> capacity p \<and>
     distinct (map fst (items p)) \<and> distinct (map fst (lru p)) \<and>
     set (items p) = (\<lambda>(h, e). (e_pageID e, h)) ` set (lru p) \<and>
     (\<forall>(h, e) \<in> set (lru p). h < nextElem p)"

text \<open>No page waits to be written and no write waits to be synced.\<close>

definition all_synced :: "'s store_scheme \<Rightarrow> bool" where
  "all_synced w \<longleftrightarrow> unsynced (pm_file (pm w)) = [] \<and> (\<forall>p. pool w = Some p \<longrightarrow> (\<forall>x \<in> set (lru p). \<not> e_dirty (snd x)))"

lemma pool_ok_NewPool: "pool_ok (NewPool c)"
  by (simp add: pool_ok_def NewPool_def)

lemma lru_unique:
  assumes ok: "pool_ok p" and in1: "(h, e) \<in> set (lru p)" and in2: "(k, d) \<in> set (lru p)"
  shows "h = k \<Longrightarrow> e = d" and "e_pageID e = e_pageID d \<Longrightarrow> h = k \<and> e = d"
proof -
  have dl: "distinct (map fst (lru p))" and di: "distinct (map fst (items p))"
    and st: "set (items p) = (\<lambda>(h, e). (e_pageID e, h)) ` set (lru p)"
    using ok by (simp_all add: pool_ok_def)
  show same: "e = d" if "h = k" using that in1 in2 dl eq_key_imp_eq_value by metis
  assume eq: "e_pageID e = e_pageID d"
  have "(e_pageID e, h) \<in> set (items p)" "(e_pageID e, k) \<in> set (items p)"
    using in1 in2 eq unfolding st by force+
  then have "h = k" using di eq_key_imp_eq_value by metis
  with same show "h = k \<and> e = d" by simp
qed

lemma items_iff:
  assumes "pool_ok p"
  shows "map_of (items p) v = Some h \<longleftrightarrow> (\<exists>e. (h, e) \<in> set (lru p) \<and> e_pageID e = v)"
proof -
  have "map_of (items p) v = Some h \<longleftrightarrow> (v, h) \<in> (\<lambda>(h, e). (e_pageID e, h)) ` set (lru p)"
    using assms by (simp add: pool_ok_def)
  then show ?thesis by force
qed

lemma cached_iff:
  assumes ok: "pool_ok p"
  shows "cached p v = Some e \<longleftrightarrow> (\<exists>h. (h, e) \<in> set (lru p) \<and> e_pageID e = v)"
proof
  have lru: "map_of (lru p) h = Some e \<longleftrightarrow> (h, e) \<in> set (lru p)" for h e
    using ok by (simp add: pool_ok_def)
  show "\<exists>h. (h, e) \<in> set (lru p) \<and> e_pageID e = v" if c: "cached p v = Some e"
  proof -
    from c obtain h where h: "map_of (items p) v = Some h" "(h, e) \<in> set (lru p)"
      by (auto simp: cached_def lru split: option.splits)
    from h(1) obtain d where "(h, d) \<in> set (lru p)" "e_pageID d = v"
      using items_iff [OF ok] by blast
    with h(2) lru_unique(1) [OF ok] show ?thesis by blast
  qed
  show "cached p v = Some e" if "\<exists>h. (h, e) \<in> set (lru p) \<and> e_pageID e = v"
  proof -
    from that obtain h where h: "(h, e) \<in> set (lru p)" "e_pageID e = v" by blast
    then have "map_of (items p) v = Some h" using items_iff [OF ok] by blast
    with h(1) show ?thesis by (simp add: cached_def lru)
  qed
qed

lemma items_None_iff: "pool_ok p \<Longrightarrow> map_of (items p) v = None \<longleftrightarrow> cached p v = None"
  using cached_iff [of p v] items_iff [of p v] by (cases "map_of (items p) v"; cases "cached p v") auto

lemma cached_pageID: "pool_ok p \<Longrightarrow> cached p v = Some e \<Longrightarrow> e_pageID e = v"
  by (auto simp: cached_iff)

lemma cached_ext:
  assumes "pool_ok p" "pool_ok q" "\<And>e. (\<exists>h. (h, e) \<in> set (lru p)) \<longleftrightarrow> (\<exists>h. (h, e) \<in> set (lru q))"
  shows "cached p = cached q"
proof
  fix v
  have "cached p v = Some e \<longleftrightarrow> cached q v = Some e" for e
    using assms by (auto simp: cached_iff)
  then show "cached p v = cached q v"
    by (metis not_None_eq)
qed

subsection \<open>Promotion\<close>

lemma MoveToFront_set:
  assumes "distinct (map fst l)"
  shows "set (MoveToFront h l) = set l" "distinct (map fst (MoveToFront h l))"
  using assms
  by (auto simp: MoveToFront_def distinct_map_filter split: option.splits dest: map_of_SomeD eq_key_imp_eq_value)

lemma pool_ok_touch:
  assumes "pool_ok p"
  shows "pool_ok (p\<lparr>lru := MoveToFront h (lru p), hits := n\<rparr>)"
    and "cached (p\<lparr>lru := MoveToFront h (lru p), hits := n\<rparr>) = cached p"
proof -
  show ok: "pool_ok (p\<lparr>lru := MoveToFront h (lru p), hits := n\<rparr>)"
    using assms MoveToFront_set [of "lru p" h] by (simp add: pool_ok_def)
  show "cached (p\<lparr>lru := MoveToFront h (lru p), hits := n\<rparr>) = cached p"
    using assms by (intro cached_ext [OF ok assms]) (simp add: MoveToFront_set pool_ok_def)
qed

subsection \<open>Change of an entry\<close>

lemma setElem_fst [simp]: "map fst (setElem h f l) = map fst l"
  by (simp add: setElem_def comp_def case_prod_beta)

lemma setElem_set: "(k, e) \<in> set (setElem h f l) \<longleftrightarrow> (\<exists>d. (k, d) \<in> set l \<and> e = (if k = h then f d else d))"
  by (force simp: setElem_def image_iff)

lemma pool_ok_setElem:
  assumes ok: "pool_ok p" and f: "\<And>e. e_pageID (f e) = e_pageID e" and v: "map_of (items p) v = Some h"
  defines "q \<equiv> p\<lparr>lru := setElem h f (lru p)\<rparr>"
  shows "pool_ok q" and "cached q = (cached p)(v := map_option f (cached p v))"
proof -
  have "(\<lambda>(k, e). (e_pageID e, k)) ` set (setElem h f (lru p)) = (\<lambda>(k, e). (e_pageID e, k)) ` set (lru p)"
    by (force simp: setElem_def f image_image image_iff)
  then show okq: "pool_ok q"
    using ok by (auto simp: pool_ok_def q_def setElem_set)
  obtain d where d: "(h, d) \<in> set (lru p)" "e_pageID d = v"
    using v items_iff [OF ok] by blast
  have cv: "cached p v = Some d" using d cached_iff [OF ok] by blast
  have own: "k = h \<and> c = d" if "(k, c) \<in> set (lru p)" "e_pageID c = v" for k c
    using lru_unique(2) [OF ok that(1) d(1)] that(2) d(2) by simp
  have handle: "c = d" if "(h, c) \<in> set (lru p)" for c
    using lru_unique(1) [OF ok that d(1)] by simp
  show "cached q = (cached p)(v := map_option f (cached p v))"
  proof
    fix u
    show "cached q u = ((cached p)(v := map_option f (cached p v))) u"
    proof (cases "u = v")
      case True
      have "(h, f d) \<in> set (lru q)" "e_pageID (f d) = v"
        using d f by (auto simp: q_def setElem_set)
      then have "cached q v = Some (f d)" using cached_iff [OF okq] by blast
      with True cv show ?thesis by simp
    next
      case False
      have "(k, e) \<in> set (lru q) \<and> e_pageID e = u \<longleftrightarrow> (k, e) \<in> set (lru p) \<and> e_pageID e = u" for k e
        using False d f by (cases "k = h") (auto simp: q_def setElem_set dest: handle)
      then have "cached q u = Some e \<longleftrightarrow> cached p u = Some e" for e
        by (simp add: cached_iff [OF okq] cached_iff [OF ok])
      with False show ?thesis by (metis fun_upd_other not_None_eq)
    qed
  qed
qed

subsection \<open>Adding and removing entries\<close>

lemma AList_update_new: "map_of al k = None \<Longrightarrow> AList.update k v al = al @ [(k, v)]"
  by (induction al) (auto split: if_splits)

lemma pool_ok_push:
  assumes ok: "pool_ok p" and v: "cached p (e_pageID e) = None" and room: "int (length (items p)) < capacity p"
  defines "q \<equiv> p\<lparr>lru := (nextElem p, e) # lru p, items := AList.update (e_pageID e) (nextElem p) (items p),
                  nextElem := nextElem p + 1\<rparr>"
  shows "pool_ok q" and "cached q = (cached p)(e_pageID e \<mapsto> e)"
proof -
  let ?v = "e_pageID e" and ?h = "nextElem p"
  have none: "map_of (items p) ?v = None" using v items_None_iff [OF ok] by simp
  then have upd: "items q = items p @ [(?v, ?h)]" "?v \<notin> fst ` set (items p)"
    by (simp_all add: q_def AList_update_new map_of_eq_None_iff)
  have fresh: "?h \<notin> fst ` set (lru p)"
    using ok by (auto simp: pool_ok_def)
  show okq: "pool_ok q"
    using ok upd fresh room by (auto simp: pool_ok_def q_def AList_update_new [OF none])
  show "cached q = (cached p)(?v \<mapsto> e)"
  proof
    fix u
    have absent: "e_pageID d \<noteq> ?v" if "(k, d) \<in> set (lru p)" for k d
      using that v cached_iff [OF ok, of ?v d] by auto
    have "set (lru q) = insert (?h, e) (set (lru p))" by (simp add: q_def)
    then have "cached q u = Some d \<longleftrightarrow> ((cached p)(?v \<mapsto> e)) u = Some d" for d
      using absent by (cases "u = ?v") (auto simp: cached_iff [OF okq] cached_iff [OF ok])
    then show "cached q u = ((cached p)(?v \<mapsto> e)) u" by (metis not_None_eq)
  qed
qed

lemma AList_delete_filter: "AList.delete k al = filter (\<lambda>x. fst x \<noteq> k) al"
  by (auto simp: AList.delete_eq intro: filter_cong)

lemma pool_ok_remove:
  fixes n :: uint64
  assumes ok: "pool_ok p" and e: "(h, e) \<in> set (lru p)"
  defines "q \<equiv> p\<lparr>lru := RemoveElem h (lru p), items := AList.delete (e_pageID e) (items p), evictions := n\<rparr>"
  shows "pool_ok q" and "cached q = (cached p)(e_pageID e := None)"
    and "int (length (items q)) < capacity q"
proof -
  let ?v = "e_pageID e"
  have lru: "(k, d) \<in> set (lru q) \<longleftrightarrow> (k, d) \<in> set (lru p) \<and> e_pageID d \<noteq> ?v" for k d
    using lru_unique [OF ok _ e, of k d] by (auto simp: q_def RemoveElem_def)
  have items: "set (items q) = {x \<in> set (items p). fst x \<noteq> ?v}"
    by (auto simp: q_def AList_delete_filter)
  have st: "set (items p) = (\<lambda>(h, e). (e_pageID e, h)) ` set (lru p)"
    using ok by (simp add: pool_ok_def)
  have "(?v, h) \<in> set (items p)" using e unfolding st by force
  then have "length (items q) < length (items p)"
    unfolding q_def by (simp add: AList_delete_filter) (rule length_filter_less, auto)
  with ok show room: "int (length (items q)) < capacity q"
    by (auto simp: pool_ok_def q_def)
  have "set (items q) = (\<lambda>(h, e). (e_pageID e, h)) ` set (lru q)"
    unfolding items st using lru by (force simp: image_iff)
  moreover have "distinct (map fst (items q))" "distinct (map fst (lru q))"
    using ok by (simp_all add: pool_ok_def q_def AList_delete_filter RemoveElem_def distinct_map_filter)
  ultimately show okq: "pool_ok q"
    using ok room lru by (auto simp: pool_ok_def q_def)
  show "cached q = (cached p)(?v := None)"
  proof
    fix u
    have "cached q u = Some d \<longleftrightarrow> ((cached p)(?v := None)) u = Some d" for d
      using lru by (auto simp: cached_iff [OF okq] cached_iff [OF ok])
    then show "cached q u = ((cached p)(?v := None)) u" by (metis not_None_eq)
  qed
qed

lemma pool_counters [simp]:
  "pool_ok (p\<lparr>misses := n\<rparr>) = pool_ok p" "cached (p\<lparr>misses := n\<rparr>) = cached p"
  "pool_ok (p\<lparr>dirtyFlushes := n\<rparr>) = pool_ok p" "cached (p\<lparr>dirtyFlushes := n\<rparr>) = cached p"
  "pool_ok (p\<lparr>hits := n\<rparr>) = pool_ok p" "cached (p\<lparr>hits := n\<rparr>) = cached p"
  by (simp_all add: pool_ok_def cached_def fun_eq_iff split: option.splits)

section \<open>The view through the pool\<close>

definition cachedIn :: "'s store_scheme \<Rightarrow> PageID \<Rightarrow> entry option" where
  "cachedIn w v = (case pool w of None \<Rightarrow> None | Some p \<Rightarrow> cached p v)"

definition view :: "'s store_scheme \<Rightarrow> PageID \<Rightarrow> Page option" where
  "view w v =
     (case cachedIn w v of
        Some e \<Rightarrow> Some (objs w ! e_page e)
      | None \<Rightarrow> map_option (\<lambda>bs. \<lparr>ID = v, Data = bs\<rparr>) (diskPage w v))"

text \<open>
  The state of a store in which the pages in \<open>T\<close> may have been changed in memory without having
  been written: the file is open and quiet, the pool is in order, cached objects are page images
  of the page they are filed under, and every clean cached page outside \<open>T\<close> equals its disk image.
\<close>

definition page_image :: "Page \<Rightarrow> bool" where
  "page_image p \<longleftrightarrow> valid_id (ID p) \<and> length (Data p) = PageSize"

definition entry_ok :: "'s store_scheme \<Rightarrow> PageID set \<Rightarrow> PageID \<Rightarrow> entry \<Rightarrow> bool" where
  "entry_ok w T v e \<longleftrightarrow>
     e_page e < length (objs w) \<and> ID (objs w ! e_page e) = v \<and> page_image (objs w ! e_page e) \<and>
     (v \<notin> T \<longrightarrow> \<not> e_dirty e \<longrightarrow> diskPage w v = Some (Data (objs w ! e_page e)))"

definition store_ok :: "PageID set \<Rightarrow> 's store_scheme \<Rightarrow> bool" where
  "store_ok T w \<longleftrightarrow>
     quiet w \<and> (\<forall>p. pool w = Some p \<longrightarrow> pool_ok p) \<and> (\<forall>v e. cachedIn w v = Some e \<longrightarrow> entry_ok w T v e)"

text \<open>Every page visible outside \<open>T\<close> stays as it is, and no existing page object changes.\<close>

definition keeps :: "PageID set \<Rightarrow> 's store_scheme \<Rightarrow> 's store_scheme \<Rightarrow> bool" where
  "keeps T w w' \<longleftrightarrow>
     (\<forall>v q. v \<notin> T \<longrightarrow> view w v = Some q \<longrightarrow> view w' v = Some q) \<and>
     (\<exists>os. objs w' = objs w @ os) \<and> nextPageID (pm w') = nextPageID (pm w) \<and>
     store.more w' = store.more w \<and> (pool w = None \<longleftrightarrow> pool w' = None)"

lemma keeps_refl [simp]: "keeps T w w"
  by (simp add: keeps_def)

lemma keeps_trans: "keeps T w w' \<Longrightarrow> keeps T w' w'' \<Longrightarrow> keeps T w w''"
  by (auto simp: keeps_def)

lemma keeps_insert:
  assumes "keeps T w w1" "keeps (insert v T) w1 w2" "\<And>q. v \<notin> T \<Longrightarrow> view w v = Some q \<Longrightarrow> view w2 v = Some q"
  shows "keeps T w w2"
proof -
  have "view w2 u = Some q" if "u \<notin> T" "view w u = Some q" for u q
    using assms that by (cases "u = v") (auto simp: keeps_def)
  with assms(1,2) show ?thesis by (auto simp: keeps_def)
qed

lemma keeps_mono: "keeps T w w' \<Longrightarrow> T \<subseteq> U \<Longrightarrow> keeps U w w'"
  by (auto simp: keeps_def)

lemma keeps_nth: "keeps T w w' \<Longrightarrow> a < length (objs w) \<Longrightarrow> objs w' ! a = objs w ! a"
  by (auto simp: keeps_def nth_append)

lemma keeps_len: "keeps T w w' \<Longrightarrow> length (objs w) \<le> length (objs w')"
  by (auto simp: keeps_def)

lemma diskPage_image: "diskPage w v = Some bs \<Longrightarrow> valid_id v \<and> length bs = PageSize"
  by (auto simp: diskPage_def Let_def length_sub split: if_splits)

lemma view_image: "store_ok T w \<Longrightarrow> view w v = Some p \<Longrightarrow> ID p = v \<and> page_image p"
  by (auto simp: view_def store_ok_def entry_ok_def page_image_def split: option.splits dest: diskPage_image)

lemma store_ok_mono: "store_ok T w \<Longrightarrow> T \<subseteq> U \<Longrightarrow> store_ok U w"
  by (auto simp: store_ok_def entry_ok_def)

text \<open>
  A cached page that was changed in memory, is marked clean and differs from its disk image: whether a reader
  sees the changes depends on the pool. The repair of a tree leaves such pages behind when it merges two pages
  into one and drops the other. \<open>known\<close> are the pages that read the same with and without the pool.
\<close>

definition stale :: "'s store_scheme \<Rightarrow> PageID set" where
  "stale w = {v. \<exists>e. cachedIn w v = Some e \<and> \<not> e_dirty e \<and> diskPage w v \<noteq> Some (Data (objs w ! e_page e))}"

definition sound :: "'s store_scheme \<Rightarrow> bool" where
  "sound w \<longleftrightarrow> store_ok (stale w) w"

definition known :: "'s store_scheme \<Rightarrow> PageID \<Rightarrow> Page option" where
  "known w v = (if v \<in> stale w then None else view w v)"

lemma store_ok_sound: "store_ok T w \<longleftrightarrow> sound w \<and> stale w \<subseteq> T"
  by (auto simp: sound_def store_ok_def entry_ok_def stale_def)

lemma soundI: "store_ok T w \<Longrightarrow> sound w"
  by (simp add: store_ok_sound)

lemma known_view: "known w v = Some p \<longleftrightarrow> v \<notin> stale w \<and> view w v = Some p"
  by (simp add: known_def)

lemma known_image: "sound w \<Longrightarrow> known w v = Some p \<Longrightarrow> ID p = v \<and> page_image p"
  using view_image [of "stale w" w v p] by (simp add: sound_def known_view)

lemma sound_quiet: "sound w \<Longrightarrow> quiet w"
  by (simp add: sound_def store_ok_def)

lemma poolless_known: "pool w = None \<Longrightarrow> known w = view w \<and> stale w = {}"
  by (simp add: known_def stale_def cachedIn_def fun_eq_iff)

lemma more_split: "world.more w' = world.more w \<Longrightarrow> pool w' = pool w \<and> store.more w' = store.more (w :: 's store_scheme)"
  by (cases w; cases w') simp

end
