(* ===== verification/Store.thy ===== *)
theory Store
  imports Pool_Spec
begin

text \<open>
  The read and write paths shared by the tree and the heap (\<^verbatim>\<open>readPage\<close> and \<^verbatim>\<open>writePage\<close> of
  \<^verbatim>\<open>btree.go\<close> and \<^verbatim>\<open>heap.go\<close>), and the contract they meet with and without a pool.
\<close>

section \<open>Definitions\<close>

definition readPage :: "PageID \<Rightarrow> ('s store_scheme, addr) op" where
  "readPage v = (\<lambda>w. if pool w \<noteq> None then GetPage v w else ReadPage v w)"

definition writePage :: "addr \<Rightarrow> ('s store_scheme, unit) op" where
  "writePage a = (\<lambda>w.
     if pool w \<noteq> None then sbind (deref a) (\<lambda>p. Put (ID p) a) w else WritePage a w)"

definition store_Sync :: "PageID list \<Rightarrow> ('s store_scheme, unit) op" where
  "store_Sync ord = (\<lambda>w. if pool w \<noteq> None then pool_Sync ord w else pm_Sync w)"

definition store_Close :: "PageID list \<Rightarrow> ('s store_scheme, unit) op" where
  "store_Close ord = (\<lambda>w. if pool w \<noteq> None then pool_Close ord w else pm_Close w)"

section \<open>Eviction\<close>

lemma evictIfFull_room:
  "pool w = Some p \<Longrightarrow> int (length (items p)) < capacity p \<Longrightarrow> evictIfFull w = (Ok (), w)"
  by (simp add: evictIfFull_def withPool_def exec_simps)

lemma diskPage_pool [simp]: "diskPage (w\<lparr>pool := x\<rparr>) = diskPage w"
  by (simp add: fun_eq_iff diskPage_def)

lemma quiet_pool [simp]: "quiet (w\<lparr>pool := x\<rparr>) = quiet w"
  by (simp add: quiet_def)

text \<open>
  Dropping a cached page whose disk image is current, after the disk may have gained pages and
  changed at that page only.
\<close>

lemma drop_cached:
  fixes w w1 :: "'s store_scheme" and m n :: uint64
  assumes ok: "store_ok T w" and p: "pool w = Some p" and e: "(h, e) \<in> set (lru p)"
    and w1: "objs w1 = objs w" "quiet w1" "nextPageID (pm w1) = nextPageID (pm w)" "store.more w1 = store.more w"
    and other: "\<And>u bs. u \<noteq> e_pageID e \<Longrightarrow> diskPage w u = Some bs \<Longrightarrow> diskPage w1 u = Some bs"
    and own: "e_pageID e \<notin> T \<Longrightarrow> diskPage w1 (e_pageID e) = Some (Data (objs w ! e_page e))"
  defines "q \<equiv> p\<lparr>dirtyFlushes := m, lru := RemoveElem h (lru p), items := AList.delete (e_pageID e) (items p), evictions := n\<rparr>"
  defines "w' \<equiv> w1\<lparr>pool := Some q\<rparr>"
  shows "store_ok T w' \<and> keeps T w w' \<and> int (length (items q)) < capacity q \<and>
    (\<forall>v. cached p v = None \<longrightarrow> cached q v = None)"
proof -
  let ?v = "e_pageID e"
  have pok: "pool_ok p" using ok p by (simp add: store_ok_def)
  let ?p0 = "p\<lparr>dirtyFlushes := m\<rparr>"
  have rm: "pool_ok q" "cached q = (cached p)(?v := None)" "int (length (items q)) < capacity q"
    using pool_ok_remove [of ?p0 h e n] pok e by (simp_all add: q_def)
  have cv: "cached p ?v = Some e" using cached_iff [OF pok] e by blast
  have in_w: "entry_ok w T u d" if "cached p u = Some d" for u d
    using ok p that by (simp add: store_ok_def cachedIn_def)
  have cw': "cachedIn w' u = (if u = ?v then None else cached p u)" for u
    by (simp add: cachedIn_def w'_def rm(2))
  have w': "diskPage w' = diskPage w1" "objs w' = objs w"
    using w1(1) by (simp_all add: w'_def)
  have "entry_ok w' T u d" if "cachedIn w' u = Some d" for u d
    using that in_w [of u d] other [of u] by (auto simp: cw' entry_ok_def w' split: if_splits)
  then have "store_ok T w'"
    using rm(1) w1(2) by (simp add: store_ok_def w'_def)
  moreover have "view w' u = Some x" if "u \<notin> T" "view w u = Some x" for u x
  proof (cases "u = ?v")
    case True
    then have "x = objs w ! e_page e" "ID x = u"
      using that(2) cv in_w [OF cv] by (auto simp: view_def cachedIn_def p entry_ok_def)
    with True own that(1) show ?thesis
      by (simp add: view_def cw' w')
  next
    case False
    with that(2) other [OF False] show ?thesis
      by (auto simp: view_def cw' cachedIn_def [of w] p w' split: option.splits)
  qed
  ultimately show ?thesis
    using rm w1 p by (simp add: keeps_def w'_def)
qed

lemma evictIfFull_spec:
  fixes w :: "'s store_scheme"
  assumes ok: "store_ok T w" and p: "pool w = Some p"
  shows "\<exists>w' q. evictIfFull w = (Ok (), w') \<and> store_ok T w' \<and> keeps T w w' \<and> objs w' = objs w \<and>
    pool w' = Some q \<and> int (length (items q)) < capacity q \<and> (\<forall>v. cached p v = None \<longrightarrow> cached q v = None)"
proof (cases "int (length (items p)) < capacity p")
  case True
  with ok p show ?thesis by (auto simp: evictIfFull_room)
next
  case False
  have pok: "pool_ok p" using ok p by (simp add: store_ok_def)
  have ne: "items p \<noteq> []" using pok False by (auto simp: pool_ok_def)
  then have "lru p \<noteq> []" using pok by (auto simp: pool_ok_def)
  then obtain h e where l: "last (lru p) = (h, e)" "(h, e) \<in> set (lru p)"
    by (metis last_in_set surj_pair)
  have ev: "evictIfFull w = sbind (if e_dirty e then
        sbind (WritePage (e_page e)) (\<lambda>_. updPool (\<lambda>p. p\<lparr>dirtyFlushes := dirtyFlushes p + 1\<rparr>)) else sret ())
      (\<lambda>_. updPool (\<lambda>p. p\<lparr>lru := RemoveElem h (lru p), items := AList.delete (e_pageID e) (items p),
                       evictions := evictions p + 1\<rparr>)) w"
    using False ne \<open>lru p \<noteq> []\<close> l p by (simp add: evictIfFull_def withPool_def)
  have "cachedIn w (e_pageID e) = Some e"
    using l(2) cached_iff [OF pok] p by (auto simp: cachedIn_def)
  then have eok: "entry_ok w T (e_pageID e) e" using ok by (simp add: store_ok_def)
  let ?q = "\<lambda>m. p\<lparr>dirtyFlushes := m, lru := RemoveElem h (lru p), items := AList.delete (e_pageID e) (items p),
      evictions := evictions p + 1\<rparr>"
  show ?thesis
  proof (cases "e_dirty e")
    case True
    obtain w1 where w1: "WritePage (e_page e) w = (Ok (), w1)" "objs w1 = objs w" "quiet w1"
        "diskPage w1 (e_pageID e) = Some (Data (objs w ! e_page e))"
        "\<And>u bs. u \<noteq> e_pageID e \<Longrightarrow> diskPage w u = Some bs \<Longrightarrow> diskPage w1 u = Some bs"
        "nextPageID (pm w1) = nextPageID (pm w)" "world.more w1 = world.more w"
      using WritePage_spec [of w "e_page e"] eok ok
      by (auto simp: entry_ok_def page_image_def store_ok_def)
    have m: "pool w1 = Some p" "store.more w1 = store.more w"
      using more_split [OF w1(7)] p by simp_all
    have "evictIfFull w = (Ok (), w1\<lparr>pool := Some (?q (dirtyFlushes p + 1))\<rparr>)"
      unfolding ev using True w1(1) m(1) by (simp add: sbind_def updPool_def withPool_def exec_simps)
    with drop_cached [OF ok p l(2) w1(2,3,6) m(2) w1(5,4), where m = "dirtyFlushes p + 1" and n = "evictions p + 1"] w1(2)
    show ?thesis by auto
  next
    case clean: False
    have own: "diskPage w (e_pageID e) = Some (Data (objs w ! e_page e))" if "e_pageID e \<notin> T"
      using eok clean that by (simp add: entry_ok_def)
    have q: "quiet w" using ok by (simp add: store_ok_def)
    have "evictIfFull w = (Ok (), w\<lparr>pool := Some (?q (dirtyFlushes p))\<rparr>)"
      unfolding ev using clean p by (simp add: sbind_def updPool_def withPool_def exec_simps)
    with drop_cached [OF ok p l(2) refl q refl refl _ own, where m = "dirtyFlushes p" and n = "evictions p + 1"]
    show ?thesis by auto
  qed
qed

section \<open>Reading\<close>

lemma view_cached: "cachedIn w v = Some e \<Longrightarrow> view w v = Some (objs w ! e_page e)"
  by (simp add: view_def)

text \<open>The page read has the view's content, and reading disturbs no page outside \<open>T\<close>.\<close>

definition read_contract :: "PageID set \<Rightarrow> PageID \<Rightarrow> Page \<Rightarrow> 's store_scheme \<Rightarrow> addr \<Rightarrow> 's store_scheme \<Rightarrow> bool" where
  "read_contract T v p w a w' \<longleftrightarrow>
     store_ok T w' \<and> keeps T w w' \<and> a < length (objs w') \<and> objs w' ! a = p"

lemma GetPage_hit:
  assumes ok: "store_ok T w" and p: "pool w = Some p" and c: "cached p v = Some e"
  shows "\<exists>w'. GetPage v w = (Ok (e_page e), w') \<and> read_contract T v (objs w ! e_page e) w (e_page e) w'"
proof -
  have pok: "pool_ok p" using ok p by (simp add: store_ok_def)
  obtain h where h: "map_of (items p) v = Some h" "map_of (lru p) h = Some e"
    using c by (auto simp: cached_def split: option.splits)
  define q where "q = p\<lparr>lru := MoveToFront h (lru p), hits := hits p + 1\<rparr>"
  have q: "pool_ok q" "cached q = cached p"
    using pool_ok_touch [OF pok] by (simp_all add: q_def)
  have cin: "cachedIn (w\<lparr>pool := Some q\<rparr>) = cachedIn w"
    using p q by (simp add: fun_eq_iff cachedIn_def)
  have eok: "entry_ok (w\<lparr>pool := Some q\<rparr>) T = entry_ok w T"
    by (simp add: fun_eq_iff entry_ok_def)
  have vw: "view (w\<lparr>pool := Some q\<rparr>) = view w"
    by (simp add: fun_eq_iff view_def cin split: option.splits)
  have "GetPage v w = (Ok (e_page e), w\<lparr>pool := Some q\<rparr>)"
    using p h by (simp add: GetPage_def withPool_def updPool_def sbind_def exec_simps q_def)
  moreover have "store_ok T (w\<lparr>pool := Some q\<rparr>)"
    using ok q(1) by (simp add: store_ok_def cin eok)
  moreover have "e_page e < length (objs w)"
    using ok p c by (auto simp: store_ok_def cachedIn_def entry_ok_def)
  ultimately show ?thesis
    using p by (simp add: read_contract_def keeps_def vw)
qed

text \<open>Adding an object to the heap, or a clean disk image to the pool, changes no view.\<close>

lemma ReadPage_store:
  assumes ok: "store_ok T w" and d: "diskPage w v = Some bs"
  shows "\<exists>w'. ReadPage v w = (Ok (length (objs w)), w') \<and> store_ok T w' \<and> keeps T w w' \<and>
    objs w' = objs w @ [\<lparr>ID = v, Data = bs\<rparr>] \<and> pool w' = pool w \<and> diskPage w' = diskPage w"
proof -
  obtain w' where w': "ReadPage v w = (Ok (length (objs w)), w')" "objs w' = objs w @ [\<lparr>ID = v, Data = bs\<rparr>]"
      "quiet w'" "fileBytes w' = fileBytes w" "nextPageID (pm w') = nextPageID (pm w)" "world.more w' = world.more w"
    using ReadPage_spec [OF _ d] ok by (auto simp: store_ok_def)
  have dk: "diskPage w' = diskPage w" using w'(4) by (rule diskPage_fileBytes)
  have m: "pool w' = pool w" "store.more w' = store.more w" using more_split [OF w'(6)] by simp_all
  have cin: "cachedIn w' = cachedIn w" by (simp add: fun_eq_iff cachedIn_def m)
  have old: "entry_ok w T u e" if "cachedIn w u = Some e" for u e
    using ok that by (simp add: store_ok_def)
  have eok: "entry_ok w' T u e" if "cachedIn w u = Some e" for u e
    using old [OF that] by (auto simp: entry_ok_def dk w'(2) nth_append)
  then have "store_ok T w'"
    using ok w'(3) by (simp add: store_ok_def cin m)
  moreover have "view w' u = Some x" if "view w u = Some x" for u x
    using that old by (auto simp: view_def cin dk w'(2) nth_append entry_ok_def split: option.splits)
  ultimately show ?thesis
    using w' dk m by (simp add: keeps_def)
qed

lemma push_spec:
  assumes ok: "store_ok T w" and p: "pool w = Some p" and room: "int (length (items p)) < capacity p"
    and none: "cached p v = None" and a: "a < length (objs w)" "ID (objs w ! a) = v" "page_image (objs w ! a)"
    and clean: "\<not> d \<Longrightarrow> v \<notin> T \<Longrightarrow> diskPage w v = Some (Data (objs w ! a))"
  shows "\<exists>w'. pushFront v a d w = (Ok (), w') \<and> store_ok (if d then T - {v} else T) w' \<and> keeps (insert v T) w w' \<and>
    view w' v = Some (objs w ! a) \<and> objs w' = objs w"
proof -
  define e where "e = \<lparr>e_pageID = v, e_page = a, e_dirty = d\<rparr>"
  define q where "q = p\<lparr>lru := (nextElem p, e) # lru p, items := AList.update v (nextElem p) (items p),
      nextElem := nextElem p + 1\<rparr>"
  define w' where "w' = w\<lparr>pool := Some q\<rparr>"
  have pok: "pool_ok p" using ok p by (simp add: store_ok_def)
  have q: "pool_ok q" "cached q = (cached p)(v \<mapsto> e)"
    using pool_ok_push [OF pok, of e] none room by (simp_all add: e_def q_def)
  have cin: "cachedIn w' = (cachedIn w)(v \<mapsto> e)"
    by (simp add: fun_eq_iff cachedIn_def w'_def q p)
  have dk: "diskPage w' = diskPage w" "objs w' = objs w" by (simp_all add: w'_def)
  have "entry_ok w' (if d then T - {v} else T) u x" if "cachedIn w' u = Some x" for u x
    using that ok a clean by (auto simp: cin entry_ok_def dk e_def store_ok_def split: if_splits)
  then have "store_ok (if d then T - {v} else T) w'"
    using q ok by (simp add: store_ok_def w'_def)
  moreover have "pushFront v a d w = (Ok (), w')"
    using p by (simp add: pushFront_def updPool_def withPool_def exec_simps w'_def q_def e_def)
  moreover have "view w' v = Some (objs w ! a)" "u \<noteq> v \<Longrightarrow> view w' u = view w u" for u
    by (simp_all add: view_def cin dk e_def split: option.splits)
  ultimately show ?thesis
    using p by (auto simp: keeps_def w'_def)
qed

lemma GetPage_miss:
  assumes ok: "store_ok T w" and p: "pool w = Some p" and c: "cached p v = None" and vw: "view w v = Some x"
  shows "\<exists>a w'. GetPage v w = (Ok a, w') \<and> read_contract T v x w a w'"
proof -
  let ?w0 = "w\<lparr>pool := Some (p\<lparr>misses := misses p + 1\<rparr>)\<rparr>"
  have pok: "pool_ok p" using ok p by (simp add: store_ok_def)
  have cin: "cachedIn ?w0 = cachedIn w" by (simp add: fun_eq_iff cachedIn_def p)
  have w0: "store_ok T ?w0" "keeps T w ?w0"
    using ok p by (auto simp: store_ok_def keeps_def view_def cin entry_ok_def split: option.splits)
  obtain bs where bs: "diskPage w v = Some bs" "x = \<lparr>ID = v, Data = bs\<rparr>"
    using vw c p by (auto simp: view_def cachedIn_def)
  obtain w1 where w1: "ReadPage v ?w0 = (Ok (length (objs w)), w1)" "store_ok T w1" "keeps T ?w0 w1"
      "objs w1 = objs w @ [x]" "pool w1 = Some (p\<lparr>misses := misses p + 1\<rparr>)" "diskPage w1 = diskPage w"
    using ReadPage_store [OF w0(1), of v bs] bs by auto
  obtain w2 q where w2: "evictIfFull w1 = (Ok (), w2)" "store_ok T w2" "keeps T w1 w2" "objs w2 = objs w1"
      "pool w2 = Some q" "int (length (items q)) < capacity q" "cached q v = None"
    using evictIfFull_spec [OF w1(2,5)] c by auto
  have "view w2 v = Some x" if "v \<notin> T"
    using that vw w0(2) w1(3) w2(3) by (auto simp: keeps_def)
  then have clean: "diskPage w2 v = Some bs" if "v \<notin> T"
    using that w2(5,7) bs by (auto simp: view_def cachedIn_def)
  have a: "length (objs w) < length (objs w2)" "objs w2 ! length (objs w) = x" "page_image x"
    using w1(4) w2(4) diskPage_image [OF bs(1)] bs(2) by (simp_all add: page_image_def)
  obtain w3 where w3: "pushFront v (length (objs w)) False w2 = (Ok (), w3)" "store_ok T w3"
      "keeps (insert v T) w2 w3" "view w3 v = Some x" "objs w3 = objs w2"
    using push_spec [OF w2(2,5,6,7), of "length (objs w)" False] a clean bs(2) by auto
  have "GetPage v w = (Ok (length (objs w)), w3)"
    using p c w1(1) w2(1) w3(1) items_None_iff [OF pok, of v]
    by (simp add: GetPage_def withPool_def updPool_def sbind_def exec_simps)
  moreover have "keeps T w w3"
  proof (rule keeps_insert)
    show "keeps T w w2" using w0(2) w1(3) w2(3) by (blast intro: keeps_trans)
  qed (use w3 vw in auto)
  ultimately show ?thesis
    using w3 a by (simp add: read_contract_def)
qed

section \<open>Writing\<close>

text \<open>
  After a write the page is visible under its identifier and is no longer at risk; every other
  page outside \<open>T\<close> is untouched.
\<close>

definition write_contract :: "PageID set \<Rightarrow> addr \<Rightarrow> 's store_scheme \<Rightarrow> 's store_scheme \<Rightarrow> bool" where
  "write_contract T a w w' \<longleftrightarrow>
     (let p = objs w ! a in
      store_ok (T - {ID p}) w' \<and> keeps (insert (ID p) T) w w' \<and> view w' (ID p) = Some p \<and> objs w' = objs w)"

lemma Put_cached:
  assumes ok: "store_ok T w" and p: "pool w = Some p" and c: "cached p v = Some e"
    and a: "a < length (objs w)" "ID (objs w ! a) = v" "page_image (objs w ! a)"
  shows "\<exists>w'. Put v a w = (Ok (), w') \<and> write_contract T a w w'"
proof -
  let ?f = "\<lambda>e. e\<lparr>e_page := a, e_dirty := True\<rparr>"
  have pok: "pool_ok p" using ok p by (simp add: store_ok_def)
  obtain h where h: "map_of (items p) v = Some h"
    using c by (auto simp: cached_def split: option.splits)
  define p1 where "p1 = p\<lparr>lru := setElem h ?f (lru p)\<rparr>"
  define q where "q = p1\<lparr>lru := MoveToFront h (lru p1)\<rparr>"
  have "q = p1\<lparr>lru := MoveToFront h (lru p1), hits := hits p1\<rparr>" by (simp add: q_def)
  then have q: "pool_ok q" "cached q = (cached p)(v \<mapsto> ?f e)"
    using pool_ok_setElem [OF pok, where f = ?f and v = v and h = h] h c pool_ok_touch [where p = p1 and h = h and n = "hits p1"] by (simp_all add: p1_def)
  define w' where "w' = w\<lparr>pool := Some q\<rparr>"
  have cin: "cachedIn w' = (cachedIn w)(v \<mapsto> ?f e)"
    by (simp add: fun_eq_iff cachedIn_def w'_def q p)
  have dk: "diskPage w' = diskPage w" "objs w' = objs w" by (simp_all add: w'_def)
  have "entry_ok w' (T - {v}) u x" if "cachedIn w' u = Some x" for u x
    using that ok a by (auto simp: cin entry_ok_def dk store_ok_def split: if_splits)
  then have "store_ok (T - {v}) w'"
    using q ok by (simp add: store_ok_def w'_def)
  moreover have "Put v a w = (Ok (), w')"
    using p h by (simp add: Put_def updPool_def withPool_def exec_simps w'_def q_def p1_def)
  moreover have "view w' v = Some (objs w ! a)" "u \<noteq> v \<Longrightarrow> view w' u = view w u" for u
    by (simp_all add: view_def cin dk split: option.splits)
  ultimately show ?thesis
    using p a(2) by (auto simp: write_contract_def Let_def keeps_def w'_def)
qed

lemma Put_new:
  assumes ok: "store_ok T w" and p: "pool w = Some p" and c: "cached p v = None"
    and a: "a < length (objs w)" "ID (objs w ! a) = v" "page_image (objs w ! a)"
  shows "\<exists>w'. Put v a w = (Ok (), w') \<and> write_contract T a w w'"
proof -
  have pok: "pool_ok p" using ok p by (simp add: store_ok_def)
  obtain w1 q where w1: "evictIfFull w = (Ok (), w1)" "store_ok T w1" "keeps T w w1" "objs w1 = objs w"
      "pool w1 = Some q" "int (length (items q)) < capacity q" "cached q v = None"
    using evictIfFull_spec [OF ok p] c by auto
  obtain w2 where w2: "pushFront v a True w1 = (Ok (), w2)" "store_ok (T - {v}) w2" "keeps (insert v T) w1 w2"
      "view w2 v = Some (objs w1 ! a)" "objs w2 = objs w1"
    using push_spec [OF w1(2,5,6,7), of a True] a w1(4) by auto
  have "Put v a w = (Ok (), w2)"
    using p c w1(1) w2(1) items_None_iff [OF pok, of v] by (simp add: Put_def withPool_def sbind_def)
  moreover have "keeps (insert v T) w w2"
    using keeps_mono [OF w1(3)] w2(3) keeps_trans by blast
  ultimately show ?thesis
    using w1(4) w2 a(2) by (auto simp: write_contract_def Let_def)
qed

lemma WritePage_store:
  assumes ok: "store_ok T w" and p: "pool w = None" and a: "a < length (objs w)" "page_image (objs w ! a)"
  shows "\<exists>w'. WritePage a w = (Ok (), w') \<and> write_contract T a w w'"
proof -
  let ?p = "objs w ! a"
  obtain w' where w': "WritePage a w = (Ok (), w')" "objs w' = objs w" "quiet w'"
      "diskPage w' (ID ?p) = Some (Data ?p)"
      "\<forall>u bs. u \<noteq> ID ?p \<longrightarrow> diskPage w u = Some bs \<longrightarrow> diskPage w' u = Some bs"
      "nextPageID (pm w') = nextPageID (pm w)" "world.more w' = world.more w"
    using WritePage_spec [OF _ a(1) refl] ok a(2) by (auto simp: store_ok_def page_image_def)
  have m: "pool w' = None" "store.more w' = store.more w" using more_split [OF w'(7)] p by simp_all
  have vw: "view x = (\<lambda>u. map_option (\<lambda>bs. \<lparr>ID = u, Data = bs\<rparr>) (diskPage x u))" if "pool x = None"
    for x :: "'a store_scheme"
    using that by (simp add: fun_eq_iff view_def cachedIn_def)
  have "store_ok (T - {ID ?p}) w'" using w'(3) m(1) by (simp add: store_ok_def cachedIn_def)
  moreover have "keeps (insert (ID ?p) T) w w'"
    using w' m p by (auto simp: keeps_def vw)
  moreover have "view w' (ID ?p) = Some ?p" using w'(4) m(1) by (simp add: vw)
  ultimately show ?thesis using w'(1,2) by (auto simp: write_contract_def Let_def)
qed

section \<open>The contract of the read and write paths\<close>

lemma readPage_spec:
  assumes ok: "store_ok T w" and vw: "view w v = Some p"
  shows "\<exists>a w'. readPage v w = (Ok a, w') \<and> read_contract T v p w a w'"
proof (cases "pool w")
  case None
  then obtain bs where bs: "diskPage w v = Some bs" "p = \<lparr>ID = v, Data = bs\<rparr>"
    using vw by (auto simp: view_def cachedIn_def)
  with None ReadPage_store [OF ok bs(1)] show ?thesis
    by (auto simp: readPage_def read_contract_def)
next
  case (Some q)
  show ?thesis
  proof (cases "cached q v")
    case None
    with GetPage_miss [OF ok Some None vw] Some show ?thesis by (simp add: readPage_def)
  next
    case hit: (Some e)
    then have "p = objs w ! e_page e" using vw Some by (simp add: view_def cachedIn_def)
    with GetPage_hit [OF ok Some hit] Some show ?thesis by (auto simp: readPage_def)
  qed
qed

lemma writePage_spec:
  assumes ok: "store_ok T w" and a: "a < length (objs w)" "page_image (objs w ! a)"
  shows "\<exists>w'. writePage a w = (Ok (), w') \<and> write_contract T a w w'"
proof (cases "pool w")
  case None
  with WritePage_store [OF ok None a] show ?thesis by (simp add: writePage_def)
next
  case (Some q)
  then have wr: "writePage a w = Put (ID (objs w ! a)) a w"
    using a by (simp add: writePage_def sbind_def deref_def)
  show ?thesis
    unfolding wr using Put_cached [OF ok Some _ a(1) refl a(2)] Put_new [OF ok Some _ a(1) refl a(2)]
    by (cases "cached q (ID (objs w ! a))") auto
qed

text \<open>A page changed in memory through a pointer is at risk until it is written.\<close>

lemma assign_spec:
  assumes ok: "store_ok T w" and a: "a < length (objs w)"
    and p: "ID p = ID (objs w ! a)" "length (Data p) = PageSize" "valid_id (ID p)"
  defines "w' \<equiv> w\<lparr>objs := (objs w)[a := p]\<rparr>"
  shows "assign a p w = (Ok (), w')" "store_ok (insert (ID p) T) w'"
    and "v \<noteq> ID p \<Longrightarrow> view w' v = view w v"
proof -
  show "assign a p w = (Ok (), w')" by (simp add: assign_def w'_def)
  have cin: "cachedIn w' = cachedIn w" by (simp add: fun_eq_iff cachedIn_def w'_def)
  have dk: "diskPage w' = diskPage w" by (simp add: fun_eq_iff diskPage_def w'_def)
  have ob: "objs w' = (objs w)[a := p]" by (simp add: w'_def)
  have "entry_ok w' (insert (ID p) T) u e" if "cachedIn w u = Some e" for u e
  proof -
    have "entry_ok w T u e" using ok that by (simp add: store_ok_def)
    then show ?thesis
      using p a by (cases "e_page e = a") (auto simp: entry_ok_def dk ob page_image_def)
  qed
  then show "store_ok (insert (ID p) T) w'"
    using ok by (simp add: store_ok_def cin) (simp add: w'_def quiet_def)
  have same: "e_page e \<noteq> a" if "cachedIn w v = Some e" "v \<noteq> ID p" for e
    using ok that p(1) by (auto simp: store_ok_def entry_ok_def)
  show "v \<noteq> ID p \<Longrightarrow> view w' v = view w v"
    using same by (auto simp: view_def cin dk ob split: option.splits)
qed

lemma newObj_spec:
  fixes p :: Page
  assumes ok: "store_ok T w"
  defines "w' \<equiv> w\<lparr>objs := objs w @ [p]\<rparr>"
  shows "newObj p w = (Ok (length (objs w)), w')" "store_ok T w'" "keeps T w w'" "view w' = view w"
proof -
  show "newObj p w = (Ok (length (objs w)), w')" by (simp add: newObj_def w'_def)
  have cin: "cachedIn w' = cachedIn w" by (simp add: fun_eq_iff cachedIn_def w'_def)
  have dk: "diskPage w' = diskPage w" by (simp add: fun_eq_iff diskPage_def w'_def)
  have ob: "objs w' = objs w @ [p]" by (simp add: w'_def)
  have old: "entry_ok w T u e" if "cachedIn w u = Some e" for u e
    using ok that by (simp add: store_ok_def)
  then have "entry_ok w' T u e" if "cachedIn w u = Some e" for u e
    using old [OF that] by (auto simp: entry_ok_def dk ob nth_append)
  then show "store_ok T w'"
    using ok by (simp add: store_ok_def cin) (simp add: w'_def quiet_def)
  show vw: "view w' = view w"
  proof
    fix v
    show "view w' v = view w v"
      using old [of v] by (auto simp: view_def cin dk ob nth_append entry_ok_def split: option.splits)
  qed
  show "keeps T w w'" by (simp add: keeps_def vw) (simp add: w'_def)
qed

section \<open>Flushing\<close>

lemma FlushPage_spec:
  fixes w :: "'s store_scheme"
  assumes ok: "store_ok T w" and p: "pool w = Some p"
  shows "\<exists>w' q. FlushPage v w = (Ok (), w') \<and> store_ok T w' \<and> keeps T w w' \<and> objs w' = objs w \<and> pool w' = Some q \<and>
    cached q = (cached p)(v := map_option (\<lambda>e. e\<lparr>e_dirty := False\<rparr>) (cached p v))"
proof (cases "cached p v")
  case None
  have "pool_ok p" using ok p by (simp add: store_ok_def)
  with None have "FlushPage v w = (Ok (), w)"
    using p items_None_iff [of p v] by (simp add: FlushPage_def withPool_def exec_simps)
  with ok p None show ?thesis by (auto simp: fun_upd_idem)
next
  case (Some e)
  let ?f = "\<lambda>e. e\<lparr>e_dirty := False\<rparr> :: entry"
  have pok: "pool_ok p" using ok p by (simp add: store_ok_def)
  obtain h where h: "map_of (items p) v = Some h" "map_of (lru p) h = Some e"
    using Some by (auto simp: cached_def split: option.splits)
  have eok: "entry_ok w T v e" using ok p Some by (simp add: store_ok_def cachedIn_def)
  show ?thesis
  proof (cases "e_dirty e")
    case False
    then have "FlushPage v w = (Ok (), w)" "?f e = e"
      using p h by (simp_all add: FlushPage_def withPool_def exec_simps)
    with ok p Some show ?thesis by (auto simp: fun_upd_idem)
  next
    case True
    obtain w1 where w1: "WritePage (e_page e) w = (Ok (), w1)" "objs w1 = objs w" "quiet w1"
        "diskPage w1 v = Some (Data (objs w ! e_page e))"
        "\<And>u bs. u \<noteq> v \<Longrightarrow> diskPage w u = Some bs \<Longrightarrow> diskPage w1 u = Some bs"
        "nextPageID (pm w1) = nextPageID (pm w)" "world.more w1 = world.more w"
      using WritePage_spec [of w "e_page e"] eok ok by (auto simp: entry_ok_def page_image_def store_ok_def)
    have m: "pool w1 = Some p" "store.more w1 = store.more w"
      using more_split [OF w1(7)] p by simp_all
    define p1 where "p1 = p\<lparr>dirtyFlushes := dirtyFlushes p + 1\<rparr>"
    define q where "q = p1\<lparr>lru := setElem h ?f (lru p1)\<rparr>"
    define w' where "w' = w1\<lparr>pool := Some q\<rparr>"
    have q: "pool_ok q" "cached q = (cached p)(v \<mapsto> ?f e)"
      using pool_ok_setElem [where p = p1 and f = ?f and v = v and h = h] pok h Some
      by (simp_all add: p1_def q_def)
    have fl: "FlushPage v w = (Ok (), w')"
      using p h True w1(1) m(1)
      by (simp add: FlushPage_def withPool_def updPool_def sbind_def exec_simps w'_def q_def p1_def)
    have cin: "cachedIn w' = (cachedIn w)(v \<mapsto> ?f e)"
      by (simp add: fun_eq_iff cachedIn_def w'_def q p)
    have dk: "diskPage w' = diskPage w1" "objs w' = objs w" using w1(2) by (simp_all add: w'_def)
    have "entry_ok w' T u x" if "cachedIn w' u = Some x" for u x
      using that ok eok w1(4,5) by (auto simp: cin entry_ok_def dk store_ok_def split: if_splits)
    then have "store_ok T w'" using q w1(3) by (simp add: store_ok_def w'_def)
    moreover have "view w' u = Some x" if "view w u = Some x" for u x
      using that w1(5) p Some by (cases "u = v") (auto simp: view_def cin dk cachedIn_def [of w] split: option.splits)
    ultimately show ?thesis
      using fl q w1(2,6) m(2) Some p by (auto simp: keeps_def w'_def)
  qed
qed

lemma flushDirty_spec:
  fixes w :: "'s store_scheme"
  assumes "store_ok T w" "pool w = Some p"
  shows "\<exists>w' q. flushDirty ord w = (Ok (), w') \<and> store_ok T w' \<and> keeps T w w' \<and> objs w' = objs w \<and> pool w' = Some q \<and>
    (\<forall>v e. cached q v = Some e \<longrightarrow> v \<in> set ord \<longrightarrow> \<not> e_dirty e) \<and>
    (\<forall>v. (cached q v = None) = (cached p v = None)) \<and>
    (\<forall>v e. cached p v = Some e \<longrightarrow> \<not> e_dirty e \<longrightarrow> cached q v = Some e)"
  using assms
proof (induction ord arbitrary: w p)
  case Nil
  then show ?case by (auto simp: exec_simps)
next
  case (Cons u ord)
  obtain w1 q1 where w1: "FlushPage u w = (Ok (), w1)" "store_ok T w1" "keeps T w w1" "objs w1 = objs w"
      "pool w1 = Some q1" "cached q1 = (cached p)(u := map_option (\<lambda>e. e\<lparr>e_dirty := False\<rparr>) (cached p u))"
    using FlushPage_spec [OF Cons.prems, of u] by blast
  obtain w2 q2 where w2: "flushDirty ord w1 = (Ok (), w2)" "store_ok T w2" "keeps T w1 w2" "objs w2 = objs w1"
      "pool w2 = Some q2" "\<forall>v e. cached q2 v = Some e \<longrightarrow> v \<in> set ord \<longrightarrow> \<not> e_dirty e"
      "\<forall>v. (cached q2 v = None) = (cached q1 v = None)"
      "\<forall>v e. cached q1 v = Some e \<longrightarrow> \<not> e_dirty e \<longrightarrow> cached q2 v = Some e"
    using Cons.IH [OF w1(2,5)] by blast
  have run: "flushDirty (u # ord) w = (Ok (), w2)" using w1(1) w2(1) by (simp add: sbind_def)
  have same: "e\<lparr>e_dirty := False\<rparr> = e" if "\<not> e_dirty e" for e :: entry using that by simp
  have own: "\<not> e_dirty e" if "cached q2 u = Some e" for e
  proof -
    have "cached q1 u \<noteq> None" using w2(7) [rule_format, of u] that by auto
    then obtain d where "cached q1 u = Some (d\<lparr>e_dirty := False\<rparr>)"
      using w1(6) by (cases "cached p u") auto
    with w2(8) that show ?thesis by fastforce
  qed
  have clean: "\<forall>v e. cached q2 v = Some e \<longrightarrow> v \<in> set (u # ord) \<longrightarrow> \<not> e_dirty e"
    using own w2(6) by auto
  have none: "\<forall>v. (cached q2 v = None) = (cached p v = None)"
    unfolding w2(7) [rule_format] w1(6) by simp
  have kept: "\<forall>v e. cached p v = Some e \<longrightarrow> \<not> e_dirty e \<longrightarrow> cached q2 v = Some e"
  proof (intro allI impI)
    fix v e assume v: "cached p v = Some e" "\<not> e_dirty e"
    then have "cached q1 v = Some e" using w1(6) same [OF v(2)] by auto
    with v(2) w2(8) show "cached q2 v = Some e" by blast
  qed
  have ob: "objs w2 = objs w" using w1(4) w2(4) by simp
  show ?case
    using run w2(2) keeps_trans [OF w1(3) w2(3)] ob w2(5) clean none kept by blast
qed

end
