(* ===== verification/BTree.thy ===== *)
theory BTree
  imports Store Node_Split
begin

text \<open>
  \<^verbatim>\<open>internal/btree/btree.go\<close>: the persistent B+ tree over the page store. A page variable of the
  code is an address; \<open>mutate\<close> is a change of the page in place. The descent and the scan follow
  pointers found on disk and may run forever on a damaged file: they take fuel, one unit per page.
\<close>

section \<open>State\<close>

record BTree = store +
  rootID :: PageID
  entrySize :: uint16
  unique :: bool
  pageSplits :: uint64
  pageMerges :: uint64

section \<open>In-place changes\<close>

definition mutate :: "addr \<Rightarrow> (Page \<Rightarrow> Page res) \<Rightarrow> ('w world_scheme, unit) op" where
  "mutate a f = sbind (deref a) (\<lambda>p. sbind (slift (f p)) (assign a))"

text \<open>A change of two page objects, with a result.\<close>

definition mutate2 :: "addr \<Rightarrow> addr \<Rightarrow> (Page \<Rightarrow> Page \<Rightarrow> ('r \<times> Page \<times> Page) res) \<Rightarrow> ('w world_scheme, 'r) op" where
  "mutate2 a b f =
     sbind (deref a) (\<lambda>p. sbind (deref b) (\<lambda>q.
     sbind (slift (f p q)) (\<lambda>(r, p', q').
     sbind (assign a p') (\<lambda>_. sbind (assign b q') (\<lambda>_. sret r)))))"

section \<open>Opening\<close>

definition btree_WithBufferPool :: "int \<Rightarrow> BTree \<Rightarrow> BTree" where
  "btree_WithBufferPool cap t = t\<lparr>pool := Some (NewPool cap)\<rparr>"

definition openRoot :: "(BTree, PageID) op" where
  "openRoot =
     sbind (sget PageCount) (\<lambda>n.
     if n = 0 then
       sbind (SetNextPageID 1) (\<lambda>_.
       sbind AllocatePage (\<lambda>firstLeaf.
       sbind (deref firstLeaf) (\<lambda>leafPage.
       sbind (newObj (NewMetadataPage 0 (ID leafPage))) (\<lambda>metaPage.
       sbind (writePage metaPage) (\<lambda>_.
       sbind (writePage firstLeaf) (\<lambda>_.
       sret (ID leafPage)))))))
     else
       sbind (readPage 0) (\<lambda>metaPage.
       sbind (deref metaPage) (\<lambda>p.
       sret (RootPageID p))))"

text \<open>
  \<open>opened\<close> is what \<^verbatim>\<open>os.OpenFile\<close> returns for the path; an option is the capacity given to
  \<^verbatim>\<open>WithBufferPool\<close>.
\<close>

definition openWith :: "osfile res \<Rightarrow> uint16 \<Rightarrow> bool \<Rightarrow> int list \<Rightarrow> BTree res" where
  "openWith opened es uniq opts =
     rbind (storage_Open opened) (\<lambda>m.
     let t = \<lparr>objs = [], pm = m, pool = None, rootID = 0, entrySize = es, unique = uniq,
              pageSplits = 0, pageMerges = 0\<rparr>;
         t = fold btree_WithBufferPool opts t in
     case openRoot t of (r, t') \<Rightarrow> rbind r (\<lambda>root. Ok (t'\<lparr>rootID := root\<rparr>)))"

definition btree_Open :: "osfile res \<Rightarrow> int list \<Rightarrow> BTree res" where
  "btree_Open opened opts = openWith opened 16 False opts"

definition OpenUnique :: "osfile res \<Rightarrow> int list \<Rightarrow> BTree res" where
  "OpenUnique opened opts = openWith opened 16 True opts"

definition BTree_Sync :: "PageID list \<Rightarrow> (BTree, unit) op" where
  "BTree_Sync ord = store_Sync ord"

definition BTree_Close :: "PageID list \<Rightarrow> (BTree, unit) op" where
  "BTree_Close ord = store_Close ord"

section \<open>Descent\<close>

fun descend :: "nat \<Rightarrow> byte list \<Rightarrow> addr \<Rightarrow> PageID list \<Rightarrow> (BTree, addr \<times> PageID list) op" where
  "descend 0 encodedKey a ancestors =
     sbind (deref a) (\<lambda>p. if PageType p = InternalPage then slift Hang else sret (a, ancestors))"
| "descend (Suc fuel) encodedKey a ancestors =
     sbind (deref a) (\<lambda>p.
     if PageType p = InternalPage then
       sbind (slift (findChildPageID p encodedKey)) (\<lambda>childID.
       sbind (readPage childID) (\<lambda>b.
       descend fuel encodedKey b (ancestors @ [ID p])))
     else sret (a, ancestors))"

definition findLeafWithPath :: "nat \<Rightarrow> byte list \<Rightarrow> (BTree, addr \<times> PageID list) op" where
  "findLeafWithPath fuel encodedKey =
     sbind (sget rootID) (\<lambda>r. sbind (readPage r) (\<lambda>a. descend fuel encodedKey a []))"

section \<open>Search and scan\<close>

text \<open>\<^verbatim>\<open>Search\<close> reports a read error as a key that is not there.\<close>

definition BTree_Search :: "nat \<Rightarrow> int64 \<Rightarrow> (BTree, int64 \<times> bool) op" where
  "BTree_Search fuel key = (\<lambda>t.
     let encodedKey = EncodeInt64 key in
     case findLeafWithPath fuel encodedKey t of
       (Err _, t') \<Rightarrow> (Ok (0, False), t')
     | (Ok (leaf, _), t') \<Rightarrow> sbind (deref leaf) (\<lambda>p. slift (Search p key)) t'
     | (Panic, t') \<Rightarrow> (Panic, t')
     | (Hang, t') \<Rightarrow> (Hang, t'))"

record ScanResult =
  sr_Key :: int64
  sr_RecordID :: int64

text \<open>
  The inner loop from slot \<open>idx\<close> with \<open>m\<close> slots left: the results so far, and whether a key past
  the end was met.
\<close>

fun scanLeaf :: "Page \<Rightarrow> int64 \<Rightarrow> nat \<Rightarrow> nat \<Rightarrow> ScanResult list \<Rightarrow> (ScanResult list \<times> bool) res" where
  "scanLeaf p endKey idx 0 results = Ok (results, False)"
| "scanLeaf p endKey idx (Suc m) results =
     rbind (GetEntry p (word_of_nat idx)) (\<lambda>entry.
     rbind (entryPrefix p (word_of_nat idx) 8) (\<lambda>keyBytes.
     rbind (DecodeInt64 keyBytes) (\<lambda>key.
     if endKey <s key then Ok (results, True)
     else
       rbind (sliceFrom entry 8) (\<lambda>valueBytes.
       rbind (DecodeInt64 valueBytes) (\<lambda>value.
       scanLeaf p endKey (Suc idx) m (results @ [\<lparr>sr_Key = key, sr_RecordID = value\<rparr>]))))))"

fun scanChain :: "nat \<Rightarrow> addr \<Rightarrow> int64 \<Rightarrow> nat \<Rightarrow> ScanResult list \<Rightarrow> (BTree, ScanResult list) op" where
  "scanChain 0 leaf endKey idx results = slift Hang"
| "scanChain (Suc fuel) leaf endKey idx results =
     sbind (deref leaf) (\<lambda>p.
     sbind (slift (scanLeaf p endKey idx (numEntries p - idx) results)) (\<lambda>(results, done).
     if done then sret results
     else
       let nextID = NextLeafPageID p in
       if nextID = 0 then sret results
       else sbind (readPage nextID) (\<lambda>leaf. scanChain fuel leaf endKey 0 results)))"

definition BTree_Scan :: "nat \<Rightarrow> nat \<Rightarrow> int64 \<Rightarrow> int64 \<Rightarrow> (BTree, ScanResult list) op" where
  "BTree_Scan fuel scanFuel startKey endKey =
     (if endKey <s startKey then sfail ErrInvalidRange
      else
        let encodedStart = EncodeInt64 startKey in
        sbind (findLeafWithPath fuel encodedStart) (\<lambda>(leaf, _).
        sbind (deref leaf) (\<lambda>p.
        sbind (slift (findKeyIndex p encodedStart)) (\<lambda>(idx, _).
        scanChain scanFuel leaf endKey (unat idx) []))))"

section \<open>Insertion\<close>

definition updateNextLeafPrevLink :: "addr \<Rightarrow> (BTree, unit) op" where
  "updateNextLeafPrevLink newLeaf =
     sbind (deref newLeaf) (\<lambda>np.
     let nextID = NextLeafPageID np in
     if nextID = 0 then sret ()
     else
       sbind (readPage nextID) (\<lambda>nextLeaf.
       sbind (mutate nextLeaf (\<lambda>p. Ok (SetPrevLeafPageID p (ID np)))) (\<lambda>_.
       writePage nextLeaf)))"

text \<open>The insertion of a separator entry into a page at the place \<^verbatim>\<open>findKeyIndex\<close> gives.\<close>

definition insertSeparator :: "byte list \<Rightarrow> byte list \<Rightarrow> Page \<Rightarrow> Page res" where
  "insertSeparator separatorKey entryBytes p =
     rbind (findKeyIndex p separatorKey) (\<lambda>(idx, _). InsertEntry p idx entryBytes)"

function propagateSplit :: "addr \<Rightarrow> addr \<Rightarrow> byte list \<Rightarrow> PageID list \<Rightarrow> (BTree, unit) op" where
  "propagateSplit p newPage separatorKey ancestors =
     sbind (deref p) (\<lambda>pp.
     sbind (deref newPage) (\<lambda>np.
     let entryBytes = separatorKey @ encodeChildID (ID np) in
     if ancestors = [] then
       sbind AllocatePage (\<lambda>newRootPage.
       sbind (deref newRootPage) (\<lambda>rp.
       sbind (slift (InsertEntry (NewInternalPage (ID rp) (ID pp)) 0 entryBytes)) (\<lambda>rootPage.
       sbind (newObj rootPage) (\<lambda>newRoot.
       sbind (writePage newRoot) (\<lambda>_.
       sbind (newObj (NewMetadataPage 0 (ID rootPage))) (\<lambda>metaPage.
       sbind (writePage metaPage) (\<lambda>_.
       smod (\<lambda>t. t\<lparr>rootID := ID rootPage\<rparr>))))))))
     else
       let parentID = last ancestors; remaining = butlast ancestors in
       sbind (readPage parentID) (\<lambda>parent.
       sbind (deref parent) (\<lambda>qp.
       if HasSpaceFor qp (length entryBytes) then
         sbind (mutate parent (insertSeparator separatorKey entryBytes)) (\<lambda>_.
         writePage parent)
       else
         sbind AllocatePage (\<lambda>newParent.
         sbind (if PageType qp = InternalPage
                then mutate2 newParent parent (\<lambda>r q. splitInternal q r)
                else sbind (mutate2 newParent parent (\<lambda>r q. splitLeaf q r)) (\<lambda>s.
                     sbind (updateNextLeafPrevLink newParent) (\<lambda>_. sret s))) (\<lambda>parentSeparator.
         sbind (smod (\<lambda>t. t\<lparr>pageSplits := pageSplits t + 1\<rparr>)) (\<lambda>_.
         sbind (if CompareKeys separatorKey parentSeparator \<ge> 0
                then mutate newParent (insertSeparator separatorKey entryBytes)
                else mutate parent (insertSeparator separatorKey entryBytes)) (\<lambda>_.
         sbind (writePage parent) (\<lambda>_.
         sbind (writePage newParent) (\<lambda>_.
         propagateSplit parent newParent parentSeparator remaining))))))))))"
  by pat_completeness auto
termination
  by (relation "measure (\<lambda>(p, n, s, anc). length anc)") auto

declare propagateSplit.simps [simp del]

definition BTree_Insert :: "nat \<Rightarrow> int64 \<Rightarrow> int64 \<Rightarrow> (BTree, unit) op" where
  "BTree_Insert fuel key recordID =
     (let encodedKey = EncodeInt64 key in
      sbind (findLeafWithPath fuel encodedKey) (\<lambda>(leaf, ancestors).
      sbind (deref leaf) (\<lambda>lp.
      sbind (sget unique) (\<lambda>u.
      sbind (if u then
               sbind (slift (findKeyIndex lp encodedKey)) (\<lambda>(_, found).
               if found then sfail ErrDuplicateKey else sret ())
             else sret ()) (\<lambda>_.
      case Insert lp key recordID of
        Ok lp' \<Rightarrow> sbind (assign leaf lp') (\<lambda>_. writePage leaf)
      | Panic \<Rightarrow> slift Panic
      | Hang \<Rightarrow> slift Hang
      | Err e \<Rightarrow>
          if e \<noteq> ErrPageFull then sfail e
          else
            sbind AllocatePage (\<lambda>newLeaf.
            sbind (mutate2 newLeaf leaf (\<lambda>r q. splitLeaf q r)) (\<lambda>separatorKey.
            sbind (smod (\<lambda>t. t\<lparr>pageSplits := pageSplits t + 1\<rparr>)) (\<lambda>_.
            sbind (updateNextLeafPrevLink newLeaf) (\<lambda>_.
            sbind (if CompareKeys encodedKey separatorKey \<ge> 0
                   then mutate newLeaf (\<lambda>p. Insert p key recordID)
                   else mutate leaf (\<lambda>p. Insert p key recordID)) (\<lambda>_.
            sbind (writePage leaf) (\<lambda>_.
            sbind (writePage newLeaf) (\<lambda>_.
            propagateSplit leaf newLeaf separatorKey ancestors))))))))))))"

end
