(* ===== verification/Page_Store.thy ===== *)
theory Page_Store
  imports Store
begin

text \<open>
  The interface between the page store and its clients. A client reasons with a symbolic state:
  which page every identifier denotes, which page every pointer it holds points to, and which
  pages it has changed in memory without writing them. The locale \<open>page_store\<close> states what a
  pair of read and write operations promises in these terms; it is interpreted on the read and
  write paths of the tree and the heap, with or without a pool, and on the page manager itself.
\<close>

section \<open>Symbolic states\<close>

text \<open>
  \<open>V\<close> gives pages of the store outside the unwritten ones \<open>T\<close>, \<open>H\<close> the pages the known pointers
  point to, \<open>N\<close> the next identifier to hand out and \<open>X\<close> the fields of the client. Nothing is said of the pages
  outside \<open>V\<close>.
\<close>

definition st ::
    "PageID set \<Rightarrow> (PageID \<rightharpoonup> Page) \<Rightarrow> (addr \<rightharpoonup> Page) \<Rightarrow> PageID \<Rightarrow> 's \<Rightarrow> 's store_scheme \<Rightarrow> bool" where
  "st T V H N X w \<longleftrightarrow>
     store_ok (T \<union> - dom V) w \<and> (\<forall>v p. v \<notin> T \<longrightarrow> V v = Some p \<longrightarrow> view w v = Some p) \<and>
     (\<forall>a p. H a = Some p \<longrightarrow> a < length (objs w) \<and> objs w ! a = p) \<and>
     nextPageID (pm w) = N \<and> store.more w = X"

lemma st_store_ok: "st T V H N X w \<Longrightarrow> store_ok (T \<union> - dom V) w"
  and st_next: "st T V H N X w \<Longrightarrow> nextPageID (pm w) = N"
  and st_more: "st T V H N X w \<Longrightarrow> store.more w = X"
  and st_view: "st T V H N X w \<Longrightarrow> v \<notin> T \<Longrightarrow> V v = Some p \<Longrightarrow> view w v = Some p"
  and st_obj: "st T V H N X w \<Longrightarrow> H a = Some p \<Longrightarrow> a < length (objs w) \<and> objs w ! a = p"
  by (simp_all add: st_def)

lemma st_sound: "st T V H N X w \<Longrightarrow> sound w"
  by (rule soundI [OF st_store_ok])

lemma st_image: "st T V H N X w \<Longrightarrow> v \<notin> T \<Longrightarrow> V v = Some p \<Longrightarrow> ID p = v \<and> page_image p"
  by (rule view_image [OF st_store_ok st_view])

lemma st_le_known: "st {} V H N X w \<Longrightarrow> V \<subseteq>\<^sub>m known w"
  by (auto simp: st_def map_le_def known_def store_ok_sound)

lemma st_forget:
  assumes s: "st T V H N X w" and le: "V' \<subseteq>\<^sub>m V" "H' \<subseteq>\<^sub>m H"
  shows "st T V' H' N X w"
proof -
  have V: "V v = Some p" if "V' v = Some p" for v p using le(1) that unfolding map_le_def by (metis domI)
  have H: "H a = Some p" if "H' a = Some p" for a p using le(2) that unfolding map_le_def by (metis domI)
  have "T \<union> - dom V \<subseteq> T \<union> - dom V'" using V by auto
  from store_ok_mono [OF st_store_ok [OF s] this] show ?thesis using s V H by (simp add: st_def)
qed

text \<open>The unwritten pages can be given up.\<close>

lemma st_drop: "st T V H N X w \<Longrightarrow> st {} (V |` (- T)) H N X w"
  unfolding st_def by (auto simp: restrict_map_def dom_def elim: store_ok_mono split: if_splits)

lemma st_agree:
  assumes "st T V H N X w" "\<And>v. v \<notin> T \<Longrightarrow> V' v = V v"
  shows "st T V' H N X w"
proof -
  have "T \<union> - dom V' = T \<union> - dom V" using assms(2) by auto
  with assms show ?thesis by (simp add: st_def)
qed

lemma st_keeps:
  assumes "st T V H N X w" "keeps (T \<union> - dom V) w w'" "store_ok (T \<union> - dom V) w'"
  shows "st T V H N X w'"
proof -
  have "a < length (objs w') \<and> objs w' ! a = p" if "H a = Some p" for a p
    using st_obj [OF assms(1) that] keeps_nth [OF assms(2)] keeps_len [OF assms(2)] by auto
  with assms show ?thesis by (auto simp: st_def keeps_def)
qed

lemma st_initial:
  assumes "sound w"
  shows "st {} (known w) Map.empty (nextPageID (pm w)) (store.more w) w"
proof -
  have "store_ok ({} \<union> - dom (known w)) w" using assms by (auto simp: store_ok_sound known_def)
  then show ?thesis by (simp add: st_def known_view)
qed

lemma st_pointer:
  "sound w \<Longrightarrow> a < length (objs w) \<Longrightarrow> st {} (known w) [a \<mapsto> objs w ! a] (nextPageID (pm w)) (store.more w) w"
  using st_initial [of w] by (simp add: st_def)

lemma st_initial_keeps:
  assumes "sound w" "keeps (stale w) w w'" "store_ok (stale w) w'"
  shows "st {} (known w) Map.empty (nextPageID (pm w)) (store.more w) w'"
proof (rule st_keeps [OF st_initial [OF assms(1)]])
  have "stale w \<subseteq> {} \<union> - dom (known w)" by (auto simp: known_def)
  then show "keeps ({} \<union> - dom (known w)) w w'" "store_ok ({} \<union> - dom (known w)) w'"
    using keeps_mono [OF assms(2)] store_ok_mono [OF assms(3)] by blast+
qed

section \<open>Pointers\<close>

lemma deref_rule: "st T V H N X w \<Longrightarrow> H a = Some p \<Longrightarrow> deref a w = (Ok p, w)"
  by (auto simp: deref_def st_def)

lemma assign_rule:
  assumes s: "st T V H N X w" and a: "H a = Some p"
    and p': "ID p' = ID p" "length (Data p') = PageSize" "valid_id (ID p)"
  shows "\<exists>w'. assign a p' w = (Ok (), w') \<and> st (insert (ID p) T) V (H(a \<mapsto> p')) N X w' \<and> pool w' = pool w"
proof -
  let ?w = "w\<lparr>objs := (objs w)[a := p']\<rparr>"
  have a': "a < length (objs w)" "objs w ! a = p" using st_obj [OF s a] by simp_all
  have 1: "assign a p' w = (Ok (), ?w)" "store_ok (insert (ID p) T \<union> - dom V) ?w"
    and 2: "v \<noteq> ID p \<Longrightarrow> view ?w v = view w v" for v
    using assign_spec [OF st_store_ok [OF s] a'(1), of p'] a'(2) p' by simp_all
  have "st (insert (ID p) T) V (H(a \<mapsto> p')) N X ?w"
    unfolding st_def using s 1(2) 2 a'(1) by (auto simp: st_def nth_list_update)
  with 1 show ?thesis by simp
qed

lemma newObj_rule:
  assumes s: "st T V H N X w"
  shows "\<exists>a w'. newObj p w = (Ok a, w') \<and> H a = None \<and> st T V (H(a \<mapsto> p)) N X w' \<and> pool w' = pool w"
proof -
  let ?w = "w\<lparr>objs := objs w @ [p]\<rparr>" and ?a = "length (objs w)"
  note n = newObj_spec [OF st_store_ok [OF s], of p]
  have "H ?a = None" using st_obj [OF s, of ?a] by (cases "H ?a") auto
  moreover have "st T V H N X ?w" using st_keeps [OF s n(3,2)] .
  then have "st T V (H(?a \<mapsto> p)) N X ?w" by (simp add: st_def)
  ultimately show ?thesis using n(1) by auto
qed

lemma world_eq_intro:
  fixes w w' :: "'s store_scheme"
  assumes "objs w' = objs w" "pool w' = pool w" "pm_file (pm w') = pm_file (pm w)"
  shows "store_ok T w' = store_ok T w" "view w' = view w" "sound w' = sound w" "known w' = known w"
proof -
  have "cachedIn w' = cachedIn w" by (simp add: fun_eq_iff cachedIn_def assms)
  moreover have "diskPage w' = diskPage w" by (simp add: fun_eq_iff diskPage_def assms)
  moreover have "quiet w' = quiet w" by (simp add: quiet_def assms)
  ultimately show "store_ok T w' = store_ok T w" "view w' = view w" "sound w' = sound w" "known w' = known w"
    using assms by (simp_all add: store_ok_def entry_ok_def sound_def stale_def known_def fun_eq_iff view_def split: option.splits)
qed

lemma AllocatePageID_rule:
  assumes s: "st T V H N X w"
  shows "\<exists>w'. AllocatePageID w = (Ok N, w') \<and> st T V H (N + 1) X w' \<and> pool w' = pool w"
proof -
  let ?w = "w\<lparr>pm := (pm w)\<lparr>nextPageID := N + 1\<rparr>\<rparr>"
  have "st T V H (N + 1) X ?w"
    using s world_eq_intro [of ?w w] by (simp add: st_def)
  moreover have "AllocatePageID w = (Ok N, ?w)"
    using st_next [OF s] by (simp add: AllocatePageID_def)
  ultimately show ?thesis by simp
qed

lemma SetNextPageID_rule:
  assumes s: "st T V H N X w"
  shows "\<exists>w'. SetNextPageID M w = (Ok (), w') \<and> st T V H M X w' \<and> pool w' = pool w"
proof -
  let ?w = "w\<lparr>pm := (pm w)\<lparr>nextPageID := M\<rparr>\<rparr>"
  have "st T V H M X ?w" using s world_eq_intro [of ?w w] by (simp add: st_def)
  then show ?thesis by (simp add: SetNextPageID_def exec_simps)
qed

lemma AllocatePage_rule:
  assumes s: "st T V H N X w"
  shows "\<exists>a w'. AllocatePage w = (Ok a, w') \<and> H a = None \<and> st T V (H(a \<mapsto> NewLeafPage N)) (N + 1) X w' \<and>
    pool w' = pool w"
proof -
  obtain w1 where w1: "AllocatePageID w = (Ok N, w1)" "st T V H (N + 1) X w1" "pool w1 = pool w"
    using AllocatePageID_rule [OF s] by blast
  obtain a w2 where "newObj (NewLeafPage N) w1 = (Ok a, w2)" "H a = None"
      "st T V (H(a \<mapsto> NewLeafPage N)) (N + 1) X w2" "pool w2 = pool w1"
    using newObj_rule [OF w1(2)] by blast
  then show ?thesis using w1 by (auto simp: AllocatePage_def sbind_def)
qed

lemma client_rule:
  fixes w w' :: "'s store_scheme"
  assumes "st T V H N X w" "objs w' = objs w" "pool w' = pool w" "pm w' = pm w"
  shows "st T V H N (store.more w') w'"
  using assms world_eq_intro [of w' w] by (simp add: st_def)

section \<open>The interface\<close>

locale page_store =
  fixes mode :: "'s store_scheme \<Rightarrow> bool"
    and rd :: "PageID \<Rightarrow> ('s store_scheme, addr) op"
    and wr :: "addr \<Rightarrow> ('s store_scheme, unit) op"
  assumes mode_pool: "(pool w = None) = (pool w' = None) \<Longrightarrow> mode w = mode w'"
    and rd_law: "mode w \<Longrightarrow> store_ok T w \<Longrightarrow> view w v = Some p \<Longrightarrow>
      \<exists>a w'. rd v w = (Ok a, w') \<and> read_contract T v p w a w'"
    and wr_law: "mode w \<Longrightarrow> store_ok T w \<Longrightarrow> a < length (objs w) \<Longrightarrow> page_image (objs w ! a) \<Longrightarrow>
      \<exists>w'. wr a w = (Ok (), w') \<and> write_contract T a w w'"
begin

lemma read_rule:
  assumes m: "mode w" and s: "st T V H N X w" and v: "v \<notin> T" "V v = Some p"
  shows "\<exists>a w'. rd v w = (Ok a, w') \<and> st T V (H(a \<mapsto> p)) N X w' \<and> H \<subseteq>\<^sub>m H(a \<mapsto> p) \<and> mode w'"
proof -
  obtain a w' where r: "rd v w = (Ok a, w')" "read_contract (T \<union> - dom V) v p w a w'"
    using rd_law [OF m st_store_ok [OF s] st_view [OF s v]] by blast
  then have "st T V H N X w'" "a < length (objs w')" "objs w' ! a = p"
    using st_keeps [OF s] by (simp_all add: read_contract_def)
  then have "st T V (H(a \<mapsto> p)) N X w'" "H \<subseteq>\<^sub>m H(a \<mapsto> p)" by (auto simp: st_def map_le_def)
  moreover have "mode w'" using m r(2) mode_pool [of w w'] by (simp add: read_contract_def keeps_def)
  ultimately show ?thesis using r(1) by blast
qed

lemma write_rule:
  assumes m: "mode w" and s: "st T V H N X w" and a: "H a = Some p" "page_image p"
  shows "\<exists>w'. wr a w = (Ok (), w') \<and> st (T - {ID p}) (V(ID p \<mapsto> p)) H N X w' \<and> mode w'"
proof -
  have a': "a < length (objs w)" "objs w ! a = p" using st_obj [OF s a(1)] by simp_all
  obtain w' where w': "wr a w = (Ok (), w')" "write_contract (T \<union> - dom V) a w w'"
    using wr_law [OF m st_store_ok [OF s] a'(1)] a' a(2) by auto
  then have k: "store_ok ((T \<union> - dom V) - {ID p}) w'" "keeps (insert (ID p) (T \<union> - dom V)) w w'" "view w' (ID p) = Some p" "objs w' = objs w"
    using a'(2) by (auto simp: write_contract_def Let_def)
  have T: "(T \<union> - dom V) - {ID p} = (T - {ID p}) \<union> - dom (V(ID p \<mapsto> p))" by auto
  have "st (T - {ID p}) (V(ID p \<mapsto> p)) H N X w'"
    using s k(2-4) k(1) [unfolded T] by (auto simp: st_def keeps_def simp del: dom_fun_upd)
  moreover have "mode w'" using m k(2) mode_pool [of w w'] by (simp add: keeps_def)
  ultimately show ?thesis using w'(1) by blast
qed

text \<open>What was written is what is read, and every other page reads as before.\<close>

lemma write_then_read:
  assumes "mode w" "st T V H N X w" "H a = Some p" "page_image p" "v \<notin> T - {ID p}"
    and "v = ID p \<and> q = p \<or> v \<noteq> ID p \<and> V v = Some q"
  shows "\<exists>b w'. sbind (wr a) (\<lambda>_. rd v) w = (Ok b, w') \<and> st (T - {ID p}) (V(ID p \<mapsto> p)) (H(b \<mapsto> q)) N X w' \<and> mode w'"
proof -
  obtain w1 where w1: "wr a w = (Ok (), w1)" "st (T - {ID p}) (V(ID p \<mapsto> p)) H N X w1" "mode w1"
    using write_rule [OF assms(1-4)] by blast
  have "(V(ID p \<mapsto> p)) v = Some q" using assms(6) by auto
  then obtain b w2 where "rd v w1 = (Ok b, w2)" "st (T - {ID p}) (V(ID p \<mapsto> p)) (H(b \<mapsto> q)) N X w2" "mode w2"
    using read_rule [OF w1(3,2) assms(5)] by blast
  with w1(1) show ?thesis by (metis sbind_Ok)
qed

text \<open>Read a page, change it in place, write it back.\<close>

lemma modify_rule:
  assumes m: "mode w" and s: "st T V H N X w" and v: "v \<notin> T" "V v = Some p"
    and f: "f p = Ok p'" "ID p' = v" "page_image p'"
  shows "\<exists>a w'. sbind (rd v) (\<lambda>a. sbind (sbind (deref a) (\<lambda>p. sbind (slift (f p)) (assign a))) (\<lambda>_. wr a)) w = (Ok (), w') \<and>
    st T (V(v \<mapsto> p')) (H(a \<mapsto> p')) N X w' \<and> mode w'"
proof -
  obtain a w1 where w1: "rd v w = (Ok a, w1)" "st T V (H(a \<mapsto> p)) N X w1" "mode w1"
    using read_rule [OF m s v] by blast
  have p: "ID p = v" using view_image [OF st_store_ok [OF s] st_view [OF s v]] by simp
  obtain w2 where w2: "assign a p' w1 = (Ok (), w2)" "st (insert v T) V (H(a \<mapsto> p')) N X w2" "pool w2 = pool w1"
    using assign_rule [OF w1(2) fun_upd_same, of p'] f p unfolding page_image_def fun_upd_upd by auto
  have m2: "mode w2" using w1(3) mode_pool [of w1 w2] w2(3) by simp
  have T: "insert v T - {v} = T" using v(1) by auto
  obtain w3 where w3: "wr a w2 = (Ok (), w3)" "st T (V(v \<mapsto> p')) (H(a \<mapsto> p')) N X w3" "mode w3"
    using write_rule [OF m2 w2(2) fun_upd_same f(3)] unfolding f(2) T by blast
  have "deref a w1 = (Ok p, w1)" using deref_rule [OF w1(2)] by simp
  then have "sbind (rd v) (\<lambda>a. sbind (sbind (deref a) (\<lambda>p. sbind (slift (f p)) (assign a))) (\<lambda>_. wr a)) w = (Ok (), w3)"
    using w1(1) w2(1) w3(1) f(1) by (simp add: exec_simps)
  with w3(2,3) show ?thesis by blast
qed

end

section \<open>The providers\<close>

text \<open>The read and write paths of the tree and the heap, whatever the pool.\<close>

interpretation cached: page_store "\<lambda>_. True" readPage writePage
  by unfold_locales (simp_all add: readPage_spec writePage_spec)

text \<open>The page manager, as the composite tree uses it.\<close>

interpretation direct: page_store "\<lambda>w. pool w = None" ReadPage WritePage
proof
  fix w :: "'s store_scheme" and T v p
  assume "pool w = None" "store_ok T w" "view w v = Some p"
  then show "\<exists>a w'. ReadPage v w = (Ok a, w') \<and> read_contract T v p w a w'"
    using readPage_spec [of T w v p] by (simp add: readPage_def)
qed (auto simp: WritePage_store)

end
