(* ===== verification/Tree_Shape.thy ===== *)
theory Tree_Shape
  imports Node_Spec
begin

text \<open>
  The shape of a B+ tree, free of pages and bytes: leaves with key-value pairs, internal nodes with
  separators and children, each with the identifier of its page. Order between separators and
  subtrees, equal depth of the leaves, and how these survive when a subtree is replaced or a node is
  split. A path to a subtree is a list of frames, nearest parent first.
\<close>

section \<open>Trees\<close>

datatype ('k, 'v) gtree =
    Leaf PageID "('k \<times> 'v) list"
  | Node PageID "'k list" "('k, 'v) gtree list"

fun tid :: "('k, 'v) gtree \<Rightarrow> PageID" where
  "tid (Leaf i kvs) = i"
| "tid (Node i ss cs) = i"

fun contents :: "('k, 'v) gtree \<Rightarrow> ('k \<times> 'v) list" where
  "contents (Leaf i kvs) = kvs"
| "contents (Node i ss cs) = concat (map contents cs)"

fun leafIDs :: "('k, 'v) gtree \<Rightarrow> PageID list" where
  "leafIDs (Leaf i kvs) = [i]"
| "leafIDs (Node i ss cs) = concat (map leafIDs cs)"

fun leafList :: "('k, 'v) gtree \<Rightarrow> (PageID \<times> ('k \<times> 'v) list) list" where
  "leafList (Leaf i kvs) = [(i, kvs)]"
| "leafList (Node i ss cs) = concat (map leafList cs)"

fun innerIDs :: "('k, 'v) gtree \<Rightarrow> PageID list" where
  "innerIDs (Leaf i kvs) = []"
| "innerIDs (Node i ss cs) = i # concat (map innerIDs cs)"

text \<open>Keys and separators together.\<close>

fun allkeys :: "('k, 'v) gtree \<Rightarrow> 'k set" where
  "allkeys (Leaf i kvs) = fst ` set kvs"
| "allkeys (Node i ss cs) = set ss \<union> (\<Union>c \<in> set cs. allkeys c)"

text \<open>A node has one child more than separators; all leaves are at the same depth \<open>h\<close>.\<close>

fun balanced :: "('k, 'v) gtree \<Rightarrow> nat \<Rightarrow> bool" where
  "balanced (Leaf i kvs) h \<longleftrightarrow> h = 0"
| "balanced (Node i ss cs) h \<longleftrightarrow> length cs = Suc (length ss) \<and> 0 < h \<and> (\<forall>c \<in> set cs. balanced c (h - 1))"

text \<open>
  Keys ascend, and separator \<open>j\<close> lies above everything in child \<open>j\<close> and not above anything in child
  \<open>j + 1\<close>.
\<close>

fun ordered :: "('k::linorder, 'v) gtree \<Rightarrow> bool" where
  "ordered (Leaf i kvs) \<longleftrightarrow> sorted_wrt (<) (map fst kvs)"
| "ordered (Node i ss cs) \<longleftrightarrow>
     length cs = Suc (length ss) \<and> sorted_wrt (<) ss \<and> (\<forall>c \<in> set cs. ordered c) \<and>
     (\<forall>j < length ss. (\<forall>k \<in> allkeys (cs ! j). k < ss ! j) \<and> (\<forall>k \<in> allkeys (cs ! Suc j). ss ! j \<le> k))"

lemma fst_contents: "fst ` set (contents t) \<subseteq> allkeys t"
  by (induction t) auto

section \<open>Order\<close>

lemma sorted_wrt_less_nth: "sorted_wrt (<) ss \<Longrightarrow> i < j \<Longrightarrow> j < length ss \<Longrightarrow> ss ! i < (ss ! j :: 'k::linorder)"
  by (rule sorted_wrt_nth_less)

lemma sorted_wrt_less_nth_le: "sorted_wrt (<) ss \<Longrightarrow> i \<le> j \<Longrightarrow> j < length ss \<Longrightarrow> ss ! i \<le> (ss ! j :: 'k::linorder)"
  using sorted_wrt_less_nth [of ss i j] by (cases "i = j") (auto simp: less_imp_le)

text \<open>Everything in an earlier child is below, everything in a later child not below a separator.\<close>

lemma ordered_below:
  assumes "ordered (Node i ss cs)" "j \<le> m" "m < length ss" "k \<in> allkeys (cs ! j)"
  shows "k < ss ! m"
proof -
  have "k < ss ! j" using assms by simp
  also have "\<dots> \<le> ss ! m" using assms by (intro sorted_wrt_less_nth_le) simp_all
  finally show ?thesis .
qed

lemma ordered_above:
  assumes "ordered (Node i ss cs)" "m < j" "j \<le> length ss" "k \<in> allkeys (cs ! j)"
  shows "ss ! m \<le> k"
proof -
  obtain n where n: "j = Suc n" using assms(2) by (cases j) auto
  then have "ss ! n \<le> k" using assms by auto
  moreover have "ss ! m \<le> ss ! n" using assms n by (intro sorted_wrt_less_nth_le) auto
  ultimately show ?thesis by simp
qed

lemma sorted_contents:
  "ordered t \<Longrightarrow> sorted_wrt (<) (map fst (contents t))"
proof (induction t)
  case (Node i ss cs)
  have "sorted_wrt (<) (map fst (concat (map contents (take n cs))))" if "n \<le> length cs" for n
    using that
  proof (induction n)
    case (Suc n)
    have take: "take (Suc n) cs = take n cs @ [cs ! n]" using Suc.prems by (simp add: take_Suc_conv_app_nth)
    have "x < y" if x: "x \<in> fst ` set (concat (map contents (take n cs)))" and y: "y \<in> fst ` set (contents (cs ! n))" for x y
    proof -
      obtain c where c: "c \<in> set (take n cs)" "x \<in> fst ` set (contents c)" using x by auto
      then obtain j where j: "j < n" "c = cs ! j" by (auto simp: in_set_conv_nth)
      have "x < ss ! j" "ss ! j \<le> y"
        using ordered_below [OF Node.prems, of j j x] ordered_above [OF Node.prems, of j n y] j c Suc.prems y
          Node.prems fst_contents by fastforce+
      then show ?thesis by simp
    qed
    moreover have "sorted_wrt (<) (map fst (contents (cs ! n)))"
      using Node.IH [of "cs ! n"] Node.prems Suc.prems by simp
    ultimately show ?case using Suc by (simp add: take sorted_wrt_append)
  qed simp
  from this [of "length cs"] show ?case by simp
qed simp

lemma distinct_contents: "ordered t \<Longrightarrow> distinct (map fst (contents t))"
  by (drule sorted_contents) (simp add: strict_sorted_iff)

section \<open>Paths\<close>

text \<open>A node on the path: its identifier, separators and children, and the child the path goes to.\<close>

type_synonym ('k, 'v) frame = "PageID \<times> 'k list \<times> ('k, 'v) gtree list \<times> nat"

fun plug :: "('k, 'v) gtree \<Rightarrow> ('k, 'v) frame list \<Rightarrow> ('k, 'v) gtree" where
  "plug t [] = t"
| "plug t ((i, ss, cs, j) # fs) = plug (Node i ss (cs[j := t])) fs"

lemma plug_append: "plug t (fs @ gs) = plug (plug t fs) gs"
  by (induction fs arbitrary: t) auto

fun frames_ok :: "('k, 'v) frame list \<Rightarrow> bool" where
  "frames_ok [] \<longleftrightarrow> True"
| "frames_ok ((i, ss, cs, j) # fs) \<longleftrightarrow> length cs = Suc (length ss) \<and> j < length cs \<and> frames_ok fs"

lemma frames_ok_append: "frames_ok (fs @ gs) \<longleftrightarrow> frames_ok fs \<and> frames_ok gs"
  by (induction fs rule: frames_ok.induct) auto

text \<open>Keys in \<open>S\<close> may stand at the end of the path: they respect every separator along it.\<close>

fun within :: "('k::linorder, 'v) frame list \<Rightarrow> 'k set \<Rightarrow> bool" where
  "within [] S \<longleftrightarrow> True"
| "within ((i, ss, cs, j) # fs) S \<longleftrightarrow>
     (j < length ss \<longrightarrow> (\<forall>k \<in> S. k < ss ! j)) \<and> (0 < j \<longrightarrow> (\<forall>k \<in> S. ss ! (j - 1) \<le> k)) \<and> within fs S"

lemma within_Un: "within fs (A \<union> B) \<longleftrightarrow> within fs A \<and> within fs B"
  by (induction fs A rule: within.induct) auto

lemma within_mono: "within fs A \<Longrightarrow> B \<subseteq> A \<Longrightarrow> within fs B"
  by (metis sup.absorb_iff1 within_Un)

definition siblings :: "('k, 'v) gtree list \<Rightarrow> nat \<Rightarrow> ('k, 'v) gtree list" where
  "siblings cs j = take j cs @ drop (Suc j) cs"

fun ctx_ordered :: "('k::linorder, 'v) frame list \<Rightarrow> bool" where
  "ctx_ordered [] \<longleftrightarrow> True"
| "ctx_ordered ((i, ss, cs, j) # fs) \<longleftrightarrow>
     length cs = Suc (length ss) \<and> j < length cs \<and> sorted_wrt (<) ss \<and> (\<forall>c \<in> set (siblings cs j). ordered c) \<and>
     (\<forall>m < length ss. (m \<noteq> j \<longrightarrow> (\<forall>k \<in> allkeys (cs ! m). k < ss ! m)) \<and>
        (Suc m \<noteq> j \<longrightarrow> (\<forall>k \<in> allkeys (cs ! Suc m). ss ! m \<le> k))) \<and>
     within fs (set ss \<union> (\<Union>c \<in> set (siblings cs j). allkeys c)) \<and> ctx_ordered fs"

lemma set_update_siblings: "j < length cs \<Longrightarrow> set (cs[j := t]) = insert t (set (siblings cs j))"
  by (auto simp: siblings_def upd_conv_take_nth_drop)

text \<open>A condition on the entries of a list around index \<open>j\<close>, with that entry replaced.\<close>

lemma all_but_hole:
  assumes "j \<le> n" "\<And>m. P' m \<longleftrightarrow> (if m = j then U else P m)" "\<And>m. Q' m \<longleftrightarrow> (if Suc m = j then L else Q m)"
  shows "(\<forall>m < n. P' m \<and> Q' m) \<longleftrightarrow>
    (\<forall>m < n. (m \<noteq> j \<longrightarrow> P m) \<and> (Suc m \<noteq> j \<longrightarrow> Q m)) \<and> (j < n \<longrightarrow> U) \<and> (0 < j \<longrightarrow> L)" (is "?l \<longleftrightarrow> ?r")
proof
  assume l: ?l
  have "L" if "0 < j"
    using l assms(1) assms(3) [of "j - 1"] that by (metis Suc_diff_1 lessI less_le_trans)
  with l show ?r unfolding assms(2,3) by metis
next
  assume r: ?r
  show ?l
  proof (intro allI impI)
    fix m assume "m < n"
    with r show "P' m \<and> Q' m" unfolding assms(2,3) by (metis zero_less_Suc)
  qed
qed

lemma ordered_Node_update:
  assumes "j < length cs"
  shows "ordered (Node i ss (cs[j := t])) \<longleftrightarrow>
    length cs = Suc (length ss) \<and> sorted_wrt (<) ss \<and> (\<forall>c \<in> set (siblings cs j). ordered c) \<and> ordered t \<and>
     (\<forall>m < length ss. (m \<noteq> j \<longrightarrow> (\<forall>k \<in> allkeys (cs ! m). k < ss ! m)) \<and>
        (Suc m \<noteq> j \<longrightarrow> (\<forall>k \<in> allkeys (cs ! Suc m). ss ! m \<le> k))) \<and>
    (j < length ss \<longrightarrow> (\<forall>k \<in> allkeys t. k < ss ! j)) \<and> (0 < j \<longrightarrow> (\<forall>k \<in> allkeys t. ss ! (j - 1) \<le> k))"
  (is "?L \<longleftrightarrow> ?len \<and> ?srt \<and> ?sib \<and> ordered t \<and> ?oth \<and> ?up \<and> ?lo")
proof -
  have a: "(\<forall>m < length ss. (\<forall>k \<in> allkeys (cs[j := t] ! m). k < ss ! m) \<and> (\<forall>k \<in> allkeys (cs[j := t] ! Suc m). ss ! m \<le> k))
      \<longleftrightarrow> ?oth \<and> ?up \<and> ?lo" if ?len
  proof (rule all_but_hole)
    show "j \<le> length ss" using assms that by simp
    show "(\<forall>k \<in> allkeys (cs[j := t] ! m). k < ss ! m) \<longleftrightarrow>
        (if m = j then \<forall>k \<in> allkeys t. k < ss ! j else \<forall>k \<in> allkeys (cs ! m). k < ss ! m)" for m
      using assms by (cases "m = j") simp_all
    show "(\<forall>k \<in> allkeys (cs[j := t] ! Suc m). ss ! m \<le> k) \<longleftrightarrow>
        (if Suc m = j then \<forall>k \<in> allkeys t. ss ! (j - 1) \<le> k else \<forall>k \<in> allkeys (cs ! Suc m). ss ! m \<le> k)" for m
      using assms by (cases "Suc m = j") auto
  qed
  have b: "(\<forall>c \<in> set (cs[j := t]). ordered c) \<longleftrightarrow> ?sib \<and> ordered t"
    using set_update_siblings [OF assms, of t] by auto
  show ?thesis
    by (cases ?len) (simp_all only: ordered.simps length_list_update a b simp_thms conj_assoc)
qed

lemma allkeys_Node_update:
  "j < length cs \<Longrightarrow> allkeys (Node i ss (cs[j := t])) = allkeys t \<union> (set ss \<union> (\<Union>c \<in> set (siblings cs j). allkeys c))"
  using set_update_siblings [of j cs t] by auto

lemma plug_ordered:
  "frames_ok fs \<Longrightarrow> ordered (plug t fs) \<longleftrightarrow> ordered t \<and> within fs (allkeys t) \<and> ctx_ordered fs"
proof (induction t fs rule: plug.induct)
  case (2 t i ss cs j fs)
  then have j: "j < length cs" and ok: "frames_ok fs" by auto
  show ?case
    using "2.IH" [OF ok] j
    unfolding plug.simps ordered_Node_update [OF j] allkeys_Node_update [OF j] within_Un within.simps ctx_ordered.simps
    by blast
qed simp

lemma ctx_ordered_frames_ok: "ctx_ordered fs \<Longrightarrow> frames_ok fs"
  by (induction fs rule: frames_ok.induct) auto

text \<open>Lists collected along the tree, before and after the end of the path.\<close>

fun lefts :: "(('k, 'v) gtree \<Rightarrow> 'a list) \<Rightarrow> ('k, 'v) frame list \<Rightarrow> 'a list" where
  "lefts f [] = []"
| "lefts f ((i, ss, cs, j) # fs) = lefts f fs @ concat (map f (take j cs))"

fun rights :: "(('k, 'v) gtree \<Rightarrow> 'a list) \<Rightarrow> ('k, 'v) frame list \<Rightarrow> 'a list" where
  "rights f [] = []"
| "rights f ((i, ss, cs, j) # fs) = concat (map f (drop (Suc j) cs)) @ rights f fs"

lemma plug_contents: "frames_ok fs \<Longrightarrow> contents (plug t fs) = lefts contents fs @ contents t @ rights contents fs"
  by (induction t fs rule: plug.induct) (auto simp: upd_conv_take_nth_drop)

lemma plug_leafIDs: "frames_ok fs \<Longrightarrow> leafIDs (plug t fs) = lefts leafIDs fs @ leafIDs t @ rights leafIDs fs"
  by (induction t fs rule: plug.induct) (auto simp: upd_conv_take_nth_drop)

lemma plug_leafList: "frames_ok fs \<Longrightarrow> leafList (plug t fs) = lefts leafList fs @ leafList t @ rights leafList fs"
  by (induction t fs rule: plug.induct) (auto simp: upd_conv_take_nth_drop)

lemma leafList_split: "leafIDs t = map fst (leafList t)" "contents t = concat (map snd (leafList t))"
proof -
  show "leafIDs t = map fst (leafList t)"
  proof (induction t)
    case (Node i ss cs)
    then have "map leafIDs cs = map (\<lambda>c. map fst (leafList c)) cs" by auto
    then show ?case by (simp only: leafIDs.simps leafList.simps map_concat map_map comp_def)
  qed simp
  show "contents t = concat (map snd (leafList t))"
  proof (induction t)
    case (Node i ss cs)
    then show ?case by (simp, induction cs) simp_all
  qed simp
qed

lemma rights_leafList: "rights contents fs = concat (map snd (rights leafList fs))"
  and lefts_leafList: "lefts contents fs = concat (map snd (lefts leafList fs))"
proof -
  have *: "concat (map contents cs) = concat (map snd (concat (map leafList cs)))" for cs :: "('k, 'v) gtree list"
    by (induction cs) (simp_all add: leafList_split(2))
  show "rights contents fs = concat (map snd (rights leafList fs))"
    by (induction fs rule: frames_ok.induct) (simp_all add: *)
  show "lefts contents fs = concat (map snd (lefts leafList fs))"
    by (induction fs rule: frames_ok.induct) (simp_all add: *)
qed

definition ids :: "('k, 'v) gtree \<Rightarrow> PageID list" where
  "ids t = leafIDs t @ innerIDs t"

lemma ids_simps [simp]: "ids (Leaf i kvs) = [i]" "set (ids (Node i ss cs)) = insert i (\<Union>c \<in> set cs. set (ids c))"
  "mset (ids (Node i ss cs)) = add_mset i (\<Sum>c\<leftarrow>cs. mset (ids c))"
proof -
  show "mset (ids (Node i ss cs)) = add_mset i (\<Sum>c\<leftarrow>cs. mset (ids c))"
    by (simp add: ids_def mset_concat comp_def sum_list_addf add.commute)
qed (auto simp: ids_def)

lemma tid_in_ids: "tid t \<in> set (ids t)"
  by (cases t) auto

fun ctx_ids :: "('k, 'v) frame list \<Rightarrow> PageID list" where
  "ctx_ids [] = []"
| "ctx_ids ((i, ss, cs, j) # fs) = i # concat (map ids (siblings cs j)) @ ctx_ids fs"

lemma plug_ids: "frames_ok fs \<Longrightarrow> mset (ids (plug t fs)) = mset (ids t @ ctx_ids fs)"
proof (induction t fs rule: plug.induct)
  case (2 t i ss cs j fs)
  then show ?case
    by (simp add: upd_conv_take_nth_drop siblings_def mset_concat comp_def ac_simps)
qed simp

fun ctx_balanced :: "('k, 'v) frame list \<Rightarrow> nat \<Rightarrow> bool" where
  "ctx_balanced [] g \<longleftrightarrow> True"
| "ctx_balanced ((i, ss, cs, j) # fs) g \<longleftrightarrow>
     length cs = Suc (length ss) \<and> j < length cs \<and> (\<forall>c \<in> set (siblings cs j). balanced c g) \<and> ctx_balanced fs (Suc g)"

lemma plug_balanced:
  "frames_ok fs \<Longrightarrow> balanced (plug t fs) (g + length fs) \<longleftrightarrow> balanced t g \<and> ctx_balanced fs g"
proof (induction t fs arbitrary: g rule: plug.induct)
  case (2 t i ss cs j fs)
  then show ?case
    using "2.IH" [of "Suc g"] set_update_siblings [of j cs t] by auto
qed simp

lemma plug_depth: "balanced (plug t fs) h \<Longrightarrow> frames_ok fs \<Longrightarrow> length fs \<le> h"
proof (induction t fs rule: plug.induct)
  case (2 t i ss cs j fs)
  let ?n = "Node i ss (cs[j := t])"
  have le: "length fs \<le> h" and fo: "frames_ok fs" using 2 by auto
  have "balanced (plug ?n fs) (h - length fs + length fs)" using 2 le by simp
  then have "balanced ?n (h - length fs)" using plug_balanced [OF fo] by blast
  then show ?case by simp
qed simp

section \<open>Routing a key\<close>

lemma in_set_drop_nth: "x \<in> set (drop n xs) \<Longrightarrow> \<exists>m. n + m < length xs \<and> x = xs ! (n + m)"
  by (auto simp: in_set_conv_nth) (metis add.commute less_diff_conv)

definition routed :: "'k::linorder \<Rightarrow> ('k, 'v) frame list \<Rightarrow> bool" where
  "routed k fs \<longleftrightarrow> (\<forall>(i, ss, cs, j) \<in> set fs. j = upperIdx ss k)"

lemma routed_within: "ctx_ordered fs \<Longrightarrow> routed k fs \<Longrightarrow> within fs {k}"
proof (induction fs rule: frames_ok.induct)
  case (2 i ss cs j fs)
  then have j: "j = upperIdx ss k" "sorted ss" by (auto simp: routed_def strict_sorted_iff)
  have "k < ss ! j" if "j < length ss" using upperIdx_iff [OF j(2) that, of k] j(1) by simp
  moreover have "ss ! (j - 1) \<le> k" if "0 < j"
    using upperIdx_iff [OF j(2), of "j - 1" k] upperIdx_le [of ss k] that j(1) by simp
  ultimately show ?case using 2 by (simp add: routed_def)
qed simp

text \<open>What lies beside the path is below or above a key the path leads to.\<close>

lemma within_beside:
  assumes "ctx_ordered fs" "within fs {k}"
  shows "(\<forall>x \<in> fst ` set (lefts contents fs). x < k) \<and> (\<forall>x \<in> fst ` set (rights contents fs). k < x)"
  using assms
proof (induction fs rule: frames_ok.induct)
  case (2 i ss cs j fs)
  then have len: "length cs = Suc (length ss)" and j: "j < length cs" by auto
  have left: "x < k" if "m < j" "x \<in> allkeys (cs ! m)" for m x
  proof -
    have "x < ss ! m" using 2 that len j by simp
    also have "ss ! m \<le> ss ! (j - 1)" using 2 that len j by (intro sorted_wrt_less_nth_le) auto
    also have "\<dots> \<le> k" using 2 that by simp
    finally show ?thesis .
  qed
  have right: "k < x" if m: "j < m" "m < length cs" "x \<in> allkeys (cs ! m)" for m x
  proof -
    obtain n where n: "m = Suc n" using m by (cases m) auto
    have "k < ss ! j" using 2 m len by simp
    also have "ss ! j \<le> ss ! n" using 2 m len n by (intro sorted_wrt_less_nth_le) auto
    also have "\<dots> \<le> x" using 2 m len n by auto
    finally show ?thesis .
  qed
  have "x < k" if "c \<in> set (take j cs)" "x \<in> fst ` set (contents c)" for c x
    using that left fst_contents [of c] j by (fastforce simp: in_set_conv_nth)
  moreover have "k < x" if c: "c \<in> set (drop (Suc j) cs)" "x \<in> fst ` set (contents c)" for c x
  proof -
    obtain m where "c = cs ! (Suc j + m)" "Suc j + m < length cs" using in_set_drop_nth [OF c(1)] by blast
    then show ?thesis using right [of "Suc j + m" x] c(2) fst_contents [of c] by auto
  qed
  ultimately have "\<forall>x \<in> fst ` set (concat (map contents (take j cs))). x < k"
      "\<forall>x \<in> fst ` set (concat (map contents (drop (Suc j) cs))). k < x"
    by (simp_all add: image_iff) blast+
  moreover have "(\<forall>x \<in> fst ` set (lefts contents fs). x < k) \<and> (\<forall>x \<in> fst ` set (rights contents fs). k < x)"
    using 2 by simp
  ultimately show ?case by (simp add: image_Un ball_Un)
qed simp

lemma within_not_beside:
  assumes "ctx_ordered fs" "within fs {k}"
  shows "k \<notin> fst ` set (lefts contents fs) \<and> k \<notin> fst ` set (rights contents fs)"
  using within_beside [OF assms] by blast

lemma map_of_plug:
  assumes "ctx_ordered fs" "within fs {k}"
  shows "map_of (contents (plug t fs)) k = map_of (contents t) k"
  using within_not_beside [OF assms] plug_contents [OF ctx_ordered_frames_ok [OF assms(1)], of t]
  by (simp add: map_add_def map_of_eq_None_iff [THEN iffD2] split: option.splits)

section \<open>Splitting\<close>

text \<open>The subtree at the end of a path is about to be replaced by two, with a separator.\<close>

definition above :: "('k::linorder, 'v) frame list \<Rightarrow> 'k \<Rightarrow> bool" where
  "above fs s \<longleftrightarrow> (case fs of [] \<Rightarrow> True | (i, ss, cs, j) # _ \<Rightarrow> 0 < j \<longrightarrow> ss ! (j - 1) < s)"

definition split_ready :: "('k::linorder, 'v) frame list \<Rightarrow> ('k, 'v) gtree \<Rightarrow> 'k \<Rightarrow> ('k, 'v) gtree \<Rightarrow> bool" where
  "split_ready fs l s r \<longleftrightarrow>
     ordered l \<and> ordered r \<and> (\<forall>k \<in> allkeys l. k < s) \<and> (\<forall>k \<in> allkeys r. s \<le> k) \<and>
     within fs (insert s (allkeys l \<union> allkeys r)) \<and> above fs s \<and> ctx_ordered fs"

definition twoAt :: "nat \<Rightarrow> 'a \<Rightarrow> 'a \<Rightarrow> 'a list \<Rightarrow> 'a list" where
  "twoAt j l r cs = take j cs @ l # r # drop (Suc j) cs"

lemma set_twoAt: "j < length cs \<Longrightarrow> set (twoAt j l r cs) = {l, r} \<union> set (siblings cs j)" for cs :: "('k, 'v) gtree list"
  by (auto simp: twoAt_def siblings_def)

lemma length_twoAt [simp]: "j < length cs \<Longrightarrow> length (twoAt j l r cs) = Suc (length cs)"
  by (simp add: twoAt_def)

lemma nth_twoAt:
  "j < length cs \<Longrightarrow> m \<le> length cs \<Longrightarrow>
   twoAt j l r cs ! m = (if m < j then cs ! m else if m = j then l else if m = Suc j then r else cs ! (m - 1))"
  by (auto simp: twoAt_def nth_append nth_Cons' min_def Suc_diff_Suc numeral_2_eq_2)

lemma sorted_wrt_insert_nth:
  assumes "sorted_wrt (<) ss" "j \<le> length ss" "0 < j \<Longrightarrow> ss ! (j - 1) < s" "j < length ss \<Longrightarrow> s < ss ! j"
  shows "sorted_wrt (<) (insert_nth j s (ss :: 'k::linorder list))"
proof -
  have "x < s" if x: "x \<in> set (take j ss)" for x
  proof -
    obtain m where m: "m < j" "x = ss ! m" using x by (auto simp: in_set_conv_nth)
    then have "ss ! m \<le> ss ! (j - 1)" using assms by (intro sorted_wrt_less_nth_le) auto
    with m assms(3) show ?thesis by auto
  qed
  moreover have "s < x" if x: "x \<in> set (drop j ss)" for x
  proof -
    obtain m where m: "j + m < length ss" "x = ss ! (j + m)" using in_set_drop_nth [OF x] by blast
    then have "ss ! j \<le> ss ! (j + m)" using assms by (intro sorted_wrt_less_nth_le) auto
    with m assms(4) show ?thesis by auto
  qed
  moreover have "sorted_wrt (<) (take j ss @ drop j ss)" using assms(1) by simp
  then have "sorted_wrt (<) (take j ss)" "sorted_wrt (<) (drop j ss)" "\<forall>x \<in> set (take j ss). \<forall>y \<in> set (drop j ss). x < y"
    unfolding sorted_wrt_append by simp_all
  ultimately show ?thesis by (simp add: insert_nth_def sorted_wrt_append)
qed

text \<open>The parent with both halves in place, whether or not it still fits a page.\<close>

lemma grown_ordered:
  assumes "split_ready ((i, ss, cs, j) # fs) l s r"
  shows "ordered (Node i (insert_nth j s ss) (twoAt j l r cs))"
    and "within fs (allkeys (Node i (insert_nth j s ss) (twoAt j l r cs)))" "ctx_ordered fs"
proof -
  let ?S = "insert_nth j s ss" and ?C = "twoAt j l r cs"
  have c: "length cs = Suc (length ss)" "j < length cs" "sorted_wrt (<) ss" "\<forall>c \<in> set (siblings cs j). ordered c"
      "ordered l" "ordered r" "\<forall>k \<in> allkeys l. k < s" "\<forall>k \<in> allkeys r. s \<le> k"
      "\<And>m k. m < length ss \<Longrightarrow> m \<noteq> j \<Longrightarrow> k \<in> allkeys (cs ! m) \<Longrightarrow> k < ss ! m"
      "\<And>m k. m < length ss \<Longrightarrow> Suc m \<noteq> j \<Longrightarrow> k \<in> allkeys (cs ! Suc m) \<Longrightarrow> ss ! m \<le> k"
      "0 < j \<Longrightarrow> ss ! (j - 1) < s" "j < length ss \<Longrightarrow> s < ss ! j"
      "\<And>k. j < length ss \<Longrightarrow> k \<in> allkeys l \<union> allkeys r \<Longrightarrow> k < ss ! j"
      "\<And>k. 0 < j \<Longrightarrow> k \<in> allkeys l \<union> allkeys r \<Longrightarrow> ss ! (j - 1) \<le> k"
    using assms by (auto simp: split_ready_def above_def)
  have len: "length ?C = Suc (length ?S)" using c by simp
  have "(\<forall>k \<in> allkeys (?C ! m). k < ?S ! m) \<and> (\<forall>k \<in> allkeys (?C ! Suc m). ?S ! m \<le> k)" if m: "m < length ?S" for m
  proof -
    consider "Suc m < j" | "Suc m = j" | "m = j" | n where "m = Suc n" "j \<le> n"
      by (metis less_Suc_eq_le linorder_cases not_less_eq Suc_lessI lessE)
    then show ?thesis
    proof cases
      case 1
      with c m show ?thesis by (simp add: nth_twoAt nth_insert_nth)
    next
      case 2
      with c(1,2) m c(9) [of m] c(14) show ?thesis by (auto simp: nth_twoAt nth_insert_nth)
    next
      case 3
      with c m show ?thesis by (simp add: nth_twoAt nth_insert_nth)
    next
      case 4
      with c(1,2) m c(9) [of n] c(10) [of n] c(13) show ?thesis
        by (cases "n = j") (auto simp: nth_twoAt nth_insert_nth)
    qed
  qed
  moreover have "sorted_wrt (<) ?S" using c by (intro sorted_wrt_insert_nth) auto
  moreover have "\<forall>c \<in> set ?C. ordered c" using c set_twoAt [of j cs l r] by auto
  ultimately show "ordered (Node i ?S ?C)" using len by simp
  have "allkeys (Node i ?S ?C) = insert s (allkeys l \<union> allkeys r) \<union> (set ss \<union> (\<Union>c \<in> set (siblings cs j). allkeys c))"
    using c(2) set_twoAt [of j cs l r] by (auto simp: set_insert_nth)
  then show "within fs (allkeys (Node i ?S ?C))"
    using assms within_Un [of fs "insert s (allkeys l \<union> allkeys r)" "set ss \<union> (\<Union>c \<in> set (siblings cs j). allkeys c)"]
    by (simp only: split_ready_def within.simps ctx_ordered.simps simp_thms)
  show "ctx_ordered fs" using assms by (simp add: split_ready_def)
qed

text \<open>A node on a path split at its separator \<open>m\<close>.\<close>

lemma halves_ready:
  assumes o: "ordered (Node i ss cs)" and w: "within fs (allkeys (Node i ss cs))" "ctx_ordered fs"
    and m: "0 < m" "m < length ss"
  shows "split_ready fs (Node i (take m ss) (take (Suc m) cs)) (ss ! m) (Node n (drop (Suc m) ss) (drop (Suc m) cs))"
    (is "split_ready fs ?l ?s ?r")
proof -
  have len: "length cs = Suc (length ss)" and srt: "sorted_wrt (<) ss" using o by simp_all
  have "ordered ?l" "ordered ?r"
    using o m by (auto simp: sorted_wrt_take sorted_wrt_drop dest: in_set_takeD in_set_dropD)
  moreover have "k < ?s" if k: "k \<in> allkeys ?l" for k
  proof -
    consider x where "x < m" "k = ss ! x" | x where "x \<le> m" "k \<in> allkeys (cs ! x)"
      using k m len by (auto simp: in_set_conv_nth less_Suc_eq_le)
    then show ?thesis
      using sorted_wrt_less_nth [OF srt _ m(2)] ordered_below [OF o _ m(2)] by cases auto
  qed
  moreover have "?s \<le> k" if k: "k \<in> allkeys ?r" for k
  proof -
    consider x where "Suc m + x < length ss" "k = ss ! (Suc m + x)" | x where "Suc m + x < length cs" "k \<in> allkeys (cs ! (Suc m + x))"
      using k by (auto dest!: in_set_drop_nth)
    then show ?thesis
    proof cases
      case 1
      then show ?thesis using sorted_wrt_less_nth_le [OF srt, of m "Suc m + x"] by simp
    next
      case 2
      then show ?thesis using ordered_above [OF o, of m "Suc m + x" k] len by simp
    qed
  qed
  moreover have "insert ?s (allkeys ?l \<union> allkeys ?r) \<subseteq> allkeys (Node i ss cs)"
    using m by (auto dest: in_set_takeD in_set_dropD)
  then have "within fs (insert ?s (allkeys ?l \<union> allkeys ?r))" by (rule within_mono [OF w(1)])
  moreover have "above fs ?s"
  proof (cases fs)
    case (Cons f gs)
    obtain i' us ds j where f: "f = (i', us, ds, j)" by (cases f)
    have "ss ! 0 \<in> allkeys (Node i ss cs)" using nth_mem [of 0 ss] order.strict_trans [OF m] by simp
    then have "0 < j \<Longrightarrow> us ! (j - 1) \<le> ss ! 0" using w(1) by (simp add: Cons f)
    moreover have "ss ! 0 < ?s" using srt m by (intro sorted_wrt_less_nth) auto
    ultimately show ?thesis by (auto simp: above_def Cons f)
  qed (simp add: above_def)
  ultimately show ?thesis using w(2) by (simp add: split_ready_def)
qed

lemma new_root_ordered: "split_ready [] l s r \<Longrightarrow> ordered (Node n [s] [l, r])"
  by (simp add: split_ready_def)

end
