(* ===== verification/Tree_Rep.thy ===== *)
theory Tree_Rep
  imports BTree Page_Store Tree_Shape
begin

text \<open>
  Trees in pages: when the pages of a store represent a tree, that changes elsewhere keep it, and
  that the descent of \<^verbatim>\<open>btree.go\<close> reaches the leaf the separators point to.
\<close>

section \<open>Representation\<close>

type_synonym btree = "(byte list, byte list) gtree"
type_synonym bframe = "(byte list, byte list) frame"

definition entryOf :: "byte list \<times> byte list \<Rightarrow> byte list" where
  "entryOf kv = fst kv @ snd kv"

definition leaf_page :: "nat \<Rightarrow> Page \<Rightarrow> (byte list \<times> byte list) list \<Rightarrow> bool" where
  "leaf_page K p kvs \<longleftrightarrow>
     node_ok K p \<and> PageType p = LeafPage \<and> entries p = map entryOf kvs \<and> (\<forall>kv \<in> set kvs. length (fst kv) = K)"

definition node_page :: "nat \<Rightarrow> Page \<Rightarrow> byte list list \<Rightarrow> PageID list \<Rightarrow> bool" where
  "node_page K p ss vs \<longleftrightarrow> node_ok K p \<and> PageType p = InternalPage \<and> keys K p = ss \<and> childIDs K p = vs"

fun rep :: "nat \<Rightarrow> (PageID \<rightharpoonup> Page) \<Rightarrow> btree \<Rightarrow> bool" where
  "rep K V (Leaf i kvs) \<longleftrightarrow> (\<exists>p. V i = Some p \<and> leaf_page K p kvs)"
| "rep K V (Node i ss cs) \<longleftrightarrow> (\<exists>p. V i = Some p \<and> node_page K p ss (map tid cs)) \<and> (\<forall>c \<in> set cs. rep K V c)"

fun rep_ctx :: "nat \<Rightarrow> (PageID \<rightharpoonup> Page) \<Rightarrow> bframe list \<Rightarrow> PageID \<Rightarrow> bool" where
  "rep_ctx K V [] v \<longleftrightarrow> True"
| "rep_ctx K V ((i, ss, cs, j) # fs) v \<longleftrightarrow>
     (\<exists>p. V i = Some p \<and> node_page K p ss ((map tid cs)[j := v])) \<and>
     (\<forall>c \<in> set (siblings cs j). rep K V c) \<and> rep_ctx K V fs i"

lemma plug_rep: "frames_ok fs \<Longrightarrow> rep K V (plug t fs) \<longleftrightarrow> rep K V t \<and> rep_ctx K V fs (tid t)"
proof (induction t fs rule: plug.induct)
  case (2 t i ss cs j fs)
  then show ?case
    using "2.IH" set_update_siblings [of j cs t] by (auto simp: map_update)
qed simp

text \<open>Two pages a leaf cannot tell apart: links may differ.\<close>

definition same_leaf :: "Page option \<Rightarrow> Page option \<Rightarrow> bool" where
  "same_leaf x y \<longleftrightarrow> x = y \<or> (\<exists>p q. x = Some p \<and> y = Some q \<and> PageType p = LeafPage \<and> PageType q = LeafPage \<and>
     wf_page q \<and> entries q = entries p)"

lemma same_leaf_refl [simp]: "same_leaf x x"
  by (simp add: same_leaf_def)

lemma rep_frame:
  assumes "rep K V t" "\<And>i. i \<in> set (ids t) \<Longrightarrow> same_leaf (V i) (V' i)"
  shows "rep K V' t"
  using assms
proof (induction t)
  case (Leaf i kvs)
  then show ?case by (auto simp: same_leaf_def leaf_page_def node_ok_def keys_def)
next
  case (Node i ss cs)
  obtain p where p: "V i = Some p" "node_page K p ss (map tid cs)" using Node.prems(1) by auto
  then have "V' i = Some p"
    using Node.prems(2) [of i] by (auto simp: same_leaf_def node_page_def PageType_defs)
  with p Node show ?case by auto
qed

lemma rep_ctx_frame:
  assumes "rep_ctx K V fs v" "\<And>i. i \<in> set (ctx_ids fs) \<Longrightarrow> same_leaf (V i) (V' i)"
  shows "rep_ctx K V' fs v"
  using assms
proof (induction fs arbitrary: v rule: ctx_ids.induct)
  case (2 i ss cs j fs)
  obtain p where p: "V i = Some p" "node_page K p ss ((map tid cs)[j := v])" using "2.prems"(1) by auto
  then have "V' i = Some p"
    using "2.prems"(2) [of i] by (auto simp: same_leaf_def node_page_def PageType_defs)
  moreover have "rep K V' c" if "c \<in> set (siblings cs j)" for c
    using that "2.prems" by (intro rep_frame [of K V c V']) auto
  ultimately show ?case using 2 p by auto
qed simp

lemma leaf_page_keys: "leaf_page K p kvs \<Longrightarrow> keys K p = map fst kvs"
  by (auto simp: leaf_page_def keys_def entryOf_def)

lemma leaf_page_numEntries: "leaf_page K p kvs \<Longrightarrow> numEntries p = length kvs"
  by (metis leaf_page_def length_entries length_map)

lemma node_page_length: "node_page K p ss vs \<Longrightarrow> length vs = Suc (length ss) \<and> numEntries p = length ss"
  by (auto simp: node_page_def childIDs_def)

lemma rep_ids_view: "rep K V t \<Longrightarrow> i \<in> set (ids t) \<Longrightarrow> V i \<noteq> None"
  by (induction t) (auto simp: ids_def)

section \<open>The leaf chain\<close>

text \<open>The leaves \<open>vs\<close> are linked both ways, between a leaf \<open>l\<close> before and \<open>r\<close> after (0 for none).\<close>

fun chain :: "(PageID \<rightharpoonup> Page) \<Rightarrow> PageID \<Rightarrow> PageID list \<Rightarrow> PageID \<Rightarrow> bool" where
  "chain V l [] r \<longleftrightarrow> True"
| "chain V l (v # vs) r \<longleftrightarrow>
     (\<exists>p. V v = Some p \<and> PrevLeafPageID p = l \<and> NextLeafPageID p = hd (vs @ [r])) \<and> chain V v vs r"

lemma chain_append: "chain V l (xs @ ys) r \<longleftrightarrow> chain V l xs (hd (ys @ [r])) \<and> chain V (last (l # xs)) ys r"
  by (induction xs arbitrary: l) (auto simp: hd_append)

lemma chain_cong: "(\<And>v. v \<in> set vs \<Longrightarrow> V v = V' v) \<Longrightarrow> chain V l vs r = chain V' l vs r"
  by (induction vs arbitrary: l) auto

section \<open>Descent\<close>

lemma rep_child:
  assumes "rep K V (Node i ss cs)" "balanced (Node i ss cs) h"
  shows "upperIdx ss k < length cs" "rep K V (cs ! upperIdx ss k)" "balanced (cs ! upperIdx ss k) (h - 1)"
  using assms upperIdx_le [of ss k] by (auto simp: less_Suc_eq_le)

lemma descend_spec:
  assumes "st T V H N X w" "rep K V t" "balanced t h" "h \<le> fuel" "H a = Some p" "V (tid t) = Some p"
    and "set (ids t) \<inter> T = {}"
  shows "\<exists>b q i kvs fs H' w'. descend fuel k a anc w = (Ok (b, anc @ rev (map fst fs)), w') \<and>
    st T V H' N X w' \<and> H \<subseteq>\<^sub>m H' \<and> H' b = Some q \<and> V i = Some q \<and> leaf_page K q kvs \<and>
    t = plug (Leaf i kvs) fs \<and> frames_ok fs \<and> routed k fs \<and> length fs = h"
  using assms
proof (induction t arbitrary: fuel h w H a p anc)
  case (Leaf i kvs)
  then have "descend fuel k a anc w = (Ok (a, anc), w)"
    using deref_rule [OF Leaf.prems(1,5)]
    by (cases fuel) (auto simp: exec_simps leaf_page_def PageType_defs)
  with Leaf.prems show ?case
    by (intro exI [of _ a] exI [of _ p] exI [of _ i] exI [of _ kvs] exI [of _ "[]"]) (auto simp: routed_def)
next
  case (Node i ss cs)
  let ?j = "upperIdx ss k"
  have p: "node_page K p ss (map tid cs)" using Node.prems(2,6) by auto
  obtain f where f: "fuel = Suc f" "h - 1 \<le> f" "0 < h" using Node.prems(3,4) by (cases fuel) auto
  note c = rep_child [OF Node.prems(2,3), of k]
  have mem: "cs ! ?j \<in> set cs" using c(1) by simp
  have find: "findChildPageID p k = Ok (tid (cs ! ?j))"
    using p c(1) findChildPageID_childIDs [of K p k] by (simp add: node_page_def)
  obtain q where q: "V (tid (cs ! ?j)) = Some q" using c(2) by (cases "cs ! ?j") auto
  have notT: "tid (cs ! ?j) \<notin> T" "set (ids (cs ! ?j)) \<inter> T = {}"
    using Node.prems(7) mem tid_in_ids [of "cs ! ?j"] by auto
  obtain b w1 where w1: "readPage (tid (cs ! ?j)) w = (Ok b, w1)" "st T V (H(b \<mapsto> q)) N X w1" "H \<subseteq>\<^sub>m H(b \<mapsto> q)"
    using cached.read_rule [OF TrueI Node.prems(1) notT(1) q] by blast
  obtain d r i' kvs fs H' w' where d: "descend f k b (anc @ [i]) w1 = (Ok (d, (anc @ [i]) @ rev (map fst fs)), w')"
      "st T V H' N X w'" "H(b \<mapsto> q) \<subseteq>\<^sub>m H'" "H' d = Some r" "V i' = Some r" "leaf_page K r kvs"
      "cs ! ?j = plug (Leaf i' kvs) fs" "frames_ok fs" "routed k fs" "length fs = h - 1"
    using Node.IH [OF mem w1(2) c(2,3) f(2) fun_upd_same q notT(2), where anc = "anc @ [i]"] by blast
  have idp: "ID p = i"
    using st_image [OF Node.prems(1), of i p] Node.prems(6,7) by simp
  have "descend fuel k a anc w = (Ok (d, anc @ rev (map fst (fs @ [(i, ss, cs, ?j)]))), w')"
    using deref_rule [OF Node.prems(1,5)] p f(1) find w1(1) d(1)
    by (simp add: exec_simps node_page_def idp)
  moreover have "Node i ss cs = plug (Leaf i' kvs) (fs @ [(i, ss, cs, ?j)])"
    using d(7) c(1) by (simp add: plug_append list_update_id flip: d(7))
  moreover have "routed k (fs @ [(i, ss, cs, ?j)])" "frames_ok (fs @ [(i, ss, cs, ?j)])"
    using d(8,9) c(1) Node.prems(3) by (auto simp: routed_def frames_ok_append)
  moreover have "H \<subseteq>\<^sub>m H'" using map_le_trans [OF w1(3) d(3)] .
  moreover have "length (fs @ [(i, ss, cs, ?j)]) = h" using d(10) f(3) by simp
  ultimately show ?case using d(2,4,5,6) by blast
qed

end
