(* ===== verification/Tree_Search.thy ===== *)
theory Tree_Search
  imports Tree_Rep
begin

text \<open>
  The invariant of the tree and \<^verbatim>\<open>Search\<close> of \<^verbatim>\<open>btree.go\<close>: the lookup in the rows of the tree, for a tree of
  any height, with or without a pool of any capacity.
\<close>

section \<open>The invariant\<close>

text \<open>Pages \<open>V\<close> hold a tree \<open>t\<close> of height \<open>h\<close> with \<open>K\<close>-byte keys, with identifiers below \<open>N\<close>.\<close>

definition tree_in :: "nat \<Rightarrow> nat \<Rightarrow> btree \<Rightarrow> (PageID \<rightharpoonup> Page) \<Rightarrow> PageID \<Rightarrow> bool" where
  "tree_in K h t V N \<longleftrightarrow>
     rep K V t \<and> ordered t \<and> balanced t h \<and> distinct (ids t) \<and> (\<forall>i \<in> set (ids t). i \<noteq> 0 \<and> i < N) \<and>
     chain V 0 (leafIDs t) 0 \<and> (\<exists>m. V 0 = Some m \<and> RootPageID m = tid t)"

definition tree_inv :: "nat \<Rightarrow> nat \<Rightarrow> btree \<Rightarrow> BTree \<Rightarrow> bool" where
  "tree_inv K h t w \<longleftrightarrow> sound w \<and> tree_in K h t (known w) (nextPageID (pm w)) \<and> rootID w = tid t"

lemma map_le_Some: "V \<subseteq>\<^sub>m V' \<Longrightarrow> V v = Some p \<Longrightarrow> V' v = Some p"
  by (metis domI map_le_def)

lemma chain_mono: "chain V l vs r \<Longrightarrow> V \<subseteq>\<^sub>m V' \<Longrightarrow> chain V' l vs r"
  by (induction vs arbitrary: l) (auto dest: map_le_Some)

lemma rep_mono:
  assumes "rep K V t" "V \<subseteq>\<^sub>m V'"
  shows "rep K V' t"
proof (rule rep_frame [OF assms(1)])
  fix i assume "i \<in> set (ids t)"
  then obtain p where "V i = Some p" using rep_ids_view [OF assms(1)] by auto
  with map_le_Some [OF assms(2)] show "same_leaf (V i) (V' i)" by simp
qed

lemma tree_in_mono: "tree_in K h t V N \<Longrightarrow> V \<subseteq>\<^sub>m V' \<Longrightarrow> tree_in K h t V' N"
  by (auto simp: tree_in_def intro: chain_mono rep_mono map_le_Some)

lemma more_fields:
  fixes w w' :: BTree
  assumes "store.more w' = store.more w"
  shows "rootID w' = rootID w" "entrySize w' = entrySize w" "unique w' = unique w"
    "pageSplits w' = pageSplits w" "pageMerges w' = pageMerges w"
  using assms by (cases w; cases w'; simp)+

text \<open>A step that keeps all pages keeps the tree.\<close>

lemma tree_inv_st:
  assumes "tree_inv K h t w" "st {} (known w) H (nextPageID (pm w)) (store.more w) w'"
  shows "tree_inv K h t w'"
  using assms tree_in_mono [OF _ st_le_known [OF assms(2)]] more_fields [OF st_more [OF assms(2)]]
  by (simp add: tree_inv_def st_sound st_next [OF assms(2)])

lemma findLeafWithPath_spec:
  assumes inv: "tree_inv K h t w" and fuel: "h \<le> fuel"
  shows "\<exists>b q i kvs fs H w'. findLeafWithPath fuel k w = (Ok (b, rev (map fst fs)), w') \<and>
    st {} (known w) H (nextPageID (pm w)) (store.more w) w' \<and> H b = Some q \<and> known w i = Some q \<and> leaf_page K q kvs \<and>
    t = plug (Leaf i kvs) fs \<and> ctx_ordered fs \<and> within fs {k} \<and> length fs = h"
proof -
  let ?V = "known w"
  have t: "rep K ?V t" "ordered t" "balanced t h" "rootID w = tid t"
    using inv by (simp_all add: tree_inv_def tree_in_def)
  have s: "st {} ?V Map.empty (nextPageID (pm w)) (store.more w) w"
    using inv by (simp add: tree_inv_def st_initial)
  obtain p where p: "?V (tid t) = Some p" using t(1) by (cases t) auto
  obtain a w1 where w1: "readPage (tid t) w = (Ok a, w1)" "st {} ?V [a \<mapsto> p] (nextPageID (pm w)) (store.more w) w1"
    using cached.read_rule [OF TrueI s _ p] by blast
  obtain b q i kvs fs H w' where d: "descend fuel k a [] w1 = (Ok (b, rev (map fst fs)), w')"
      "st {} ?V H (nextPageID (pm w)) (store.more w) w'" "H b = Some q" "?V i = Some q" "leaf_page K q kvs"
      "t = plug (Leaf i kvs) fs" "frames_ok fs" "routed k fs" "length fs = h"
    using descend_spec [OF w1(2) t(1,3) fuel fun_upd_same p, where anc = "[]" and k = k] by auto
  have "ctx_ordered fs" using t(2) d(6) plug_ordered [OF d(7)] by blast
  then have "within fs {k}" using routed_within d(8) by blast
  moreover have "findLeafWithPath fuel k w = (Ok (b, rev (map fst fs)), w')"
    using w1(1) d(1) t(4) by (simp add: findLeafWithPath_def exec_simps)
  ultimately show ?thesis using d \<open>ctx_ordered fs\<close> by blast
qed

section \<open>Rows\<close>

text \<open>The decoded key-record pairs of the tree, in key order.\<close>

definition rowsOf :: "(byte list \<times> byte list) list \<Rightarrow> (int64 \<times> int64) list" where
  "rowsOf kvs = map (\<lambda>(k, v). (dec64 k, dec64 v)) kvs"

definition rows :: "btree \<Rightarrow> (int64 \<times> int64) list" where
  "rows t = rowsOf (contents t)"

lemma rowsOf_append [simp]: "rowsOf (xs @ ys) = rowsOf xs @ rowsOf ys"
  by (simp add: rowsOf_def)

lemma map_of_rowsOf:
  "\<forall>kv \<in> set kvs. length (fst kv) = 8 \<Longrightarrow> map_of (rowsOf kvs) k = map_option dec64 (map_of kvs (EncodeInt64 k))"
proof (induction kvs)
  case (Cons kv kvs)
  obtain k' v where kv: "kv = (k', v)" by (cases kv)
  have "dec64 k' = k \<longleftrightarrow> k' = EncodeInt64 k"
    using Cons.prems kv Encode_dec64 [of k'] by auto
  with Cons kv show ?case by (auto simp: rowsOf_def)
qed (simp add: rowsOf_def)

lemma leaf_page_pairs:
  assumes "leaf_page 8 p kvs"
  shows "pairs p = rowsOf kvs"
proof -
  have "pairOf (entryOf kv) = (dec64 (fst kv), dec64 (snd kv))" if "length (fst kv) = 8" for kv
    using that by (simp add: pairOf_def entryOf_def dec64_def)
  with assms show ?thesis by (auto simp: leaf_page_def pairs_def rowsOf_def case_prod_beta)
qed

lemma rep_key_length: "rep K V t \<Longrightarrow> \<forall>kv \<in> set (contents t). length (fst kv) = K"
  by (induction t) (auto simp: leaf_page_def)

section \<open>Search\<close>

lemma BTree_Search_spec:
  assumes inv: "tree_inv 8 h t w" and fuel: "h \<le> fuel"
  shows "\<exists>w'. BTree_Search fuel k w = (Ok (case map_of (rows t) k of None \<Rightarrow> (0, False) | Some v \<Rightarrow> (v, True)), w') \<and>
    tree_inv 8 h t w' \<and> nextPageID (pm w') = nextPageID (pm w) \<and> store.more w' = store.more w"
proof -
  obtain b q i kvs fs H w' where f: "findLeafWithPath fuel (EncodeInt64 k) w = (Ok (b, rev (map fst fs)), w')"
      "st {} (known w) H (nextPageID (pm w)) (store.more w) w'" "H b = Some q" "leaf_page 8 q kvs"
      "t = plug (Leaf i kvs) fs" "ctx_ordered fs" "within fs {EncodeInt64 k}"
    using findLeafWithPath_spec [OF inv fuel] by blast
  have "\<forall>kv \<in> set kvs. length (fst kv) = 8" using f(4) by (simp add: leaf_page_def)
  moreover have "\<forall>kv \<in> set (contents t). length (fst kv) = 8"
    using inv by (auto simp: tree_inv_def tree_in_def dest: rep_key_length)
  ultimately have same: "map_of (rows t) k = map_of (pairs q) k"
    using map_of_plug [OF f(6,7), of "Leaf i kvs"] f(5)
    by (simp add: rows_def leaf_page_pairs [OF f(4)] map_of_rowsOf)
  have "Search q k = Ok (case map_of (pairs q) k of None \<Rightarrow> (0, False) | Some v \<Rightarrow> (v, True))"
    using f(4) by (intro Search_spec) (simp add: leaf_page_def)
  then have "BTree_Search fuel k w = (Ok (case map_of (rows t) k of None \<Rightarrow> (0, False) | Some v \<Rightarrow> (v, True)), w')"
    using f(1) deref_rule [OF f(2,3)] by (simp add: BTree_Search_def exec_simps same)
  with tree_inv_st [OF inv f(2)] st_next [OF f(2)] st_more [OF f(2)] show ?thesis by blast
qed

section \<open>Leaves in key order\<close>

lemma rep_leafList: "rep K V t \<Longrightarrow> (i, kvs) \<in> set (leafList t) \<Longrightarrow> \<exists>p. V i = Some p \<and> leaf_page K p kvs"
  by (induction t) auto


lemma leafList_ids: "(i, kvs) \<in> set (leafList t) \<Longrightarrow> i \<in> set (ids t)"
  using leafList_split(1) [of t] by (force simp: ids_def)


end
