(* ===== verification/Occupancy.thy ===== *)
theory Occupancy
  imports Tree_Shape
begin

text \<open>
  How full the pages of a tree are: every page but the root holds at least \<open>m\<close> entries, and an internal root at
  least one separator. Such a tree has a height logarithmic in its number of rows.
\<close>

section \<open>Half-full trees\<close>

text \<open>
  What a split leaves at least in both halves: a page of \<open>K\<close>-byte keys has room for \<open>4075 div (K + 12)\<close> entries.
\<close>

definition minRows :: "nat \<Rightarrow> nat" where
  "minRows K = (4075 div (K + 12) - 1) div 2"

lemma minRows_values [simp]: "minRows 8 = 101" "minRows 16 = 72"
  by (simp_all add: minRows_def)

lemma minRows_pos: "K \<le> 16 \<Longrightarrow> 0 < minRows K"
proof -
  assume "K \<le> 16"
  then have "4075 div 28 \<le> 4075 div (K + 12)" by (intro div_le_mono2) auto
  then show ?thesis by (simp add: minRows_def)
qed

lemma minRows_full:
  assumes "4075 < Suc n * (K + 12)"
  shows "minRows K \<le> (n - 1) div 2"
proof -
  have "4075 div (K + 12) < Suc n" using assms by (simp add: div_less_iff_less_mult)
  then show ?thesis unfolding minRows_def by (intro div_le_mono) simp
qed

text \<open>Splitting a full page in the middle and adding an entry to one of the halves.\<close>

lemma split_halves:
  assumes "4075 < Suc n * (K + 12)" "2 \<le> n" "m = n div 2 \<or> m = Suc (n div 2)"
  shows "minRows K \<le> m" "m + Suc (minRows K) \<le> Suc n"
  using minRows_full [OF assms(1)] assms(2,3) by auto

section \<open>Trees of half-full pages\<close>

fun half :: "nat \<Rightarrow> ('k, 'v) gtree \<Rightarrow> bool" where
  "half m (Leaf i kvs) \<longleftrightarrow> m \<le> length kvs"
| "half m (Node i ss cs) \<longleftrightarrow> m \<le> length ss \<and> (\<forall>c \<in> set cs. half m c)"

fun filled :: "nat \<Rightarrow> ('k, 'v) gtree \<Rightarrow> bool" where
  "filled m (Leaf i kvs) \<longleftrightarrow> True"
| "filled m (Node i ss cs) \<longleftrightarrow> ss \<noteq> [] \<and> (\<forall>c \<in> set cs. half m c)"

fun ctx_filled :: "nat \<Rightarrow> ('k, 'v) frame list \<Rightarrow> bool" where
  "ctx_filled m [] \<longleftrightarrow> True"
| "ctx_filled m ((i, ss, cs, j) # fs) \<longleftrightarrow>
     ss \<noteq> [] \<and> (fs \<noteq> [] \<longrightarrow> m \<le> length ss) \<and> (\<forall>c \<in> set (siblings cs j). half m c) \<and> ctx_filled m fs"

lemma half_filled: "0 < m \<Longrightarrow> half m t \<Longrightarrow> filled m t"
  by (cases t) auto

lemma plug_filled:
  assumes "frames_ok fs" "0 < m"
  shows "filled m (plug x fs) \<longleftrightarrow> (if fs = [] then filled m x else half m x \<and> ctx_filled m fs)"
  using assms
proof (induction x fs rule: plug.induct)
  case (2 x i ss cs j fs)
  then show ?case by (auto simp: set_update_siblings)
qed simp

section \<open>The height\<close>

lemma children_rows: "(\<And>c. c \<in> set cs \<Longrightarrow> n \<le> length (contents c)) \<Longrightarrow> n * length cs \<le> length (concat (map contents cs))"
  by (induction cs) (force simp: add_mono)+

text \<open>A half-full tree of height \<open>h\<close> has at least \<open>(m + 1) ^ h\<close> leaves of at least \<open>m\<close> rows.\<close>

lemma half_rows:
  "balanced t h \<Longrightarrow> half m t \<Longrightarrow> m * Suc m ^ h \<le> length (contents t)"
proof (induction t arbitrary: h)
  case (Node i ss cs)
  obtain g where h: "h = Suc g" using Node.prems(1) by (cases h) auto
  have "m * Suc m ^ h = m * Suc m ^ g * Suc m" by (simp add: h algebra_simps)
  also have "\<dots> \<le> m * Suc m ^ g * length cs" using Node.prems by (intro mult_le_mono2) simp
  also have "\<dots> \<le> length (concat (map contents cs))" using Node h by (intro children_rows) auto
  finally show ?case by simp
qed simp

lemma filled_rows:
  assumes "balanced t (Suc h)" "filled m t"
  shows "2 * m * Suc m ^ h \<le> length (contents t)"
proof -
  obtain i ss cs where t: "t = Node i ss cs" using assms(1) by (cases t) auto
  have "2 \<le> length cs" using assms by (cases ss) (auto simp: t)
  have "2 * m * Suc m ^ h = m * Suc m ^ h * 2" by simp
  also have "\<dots> \<le> m * Suc m ^ h * length cs" using \<open>2 \<le> length cs\<close> by (intro mult_le_mono2)
  also have "\<dots> \<le> length (concat (map contents cs))" using assms by (intro children_rows half_rows) (simp_all add: t)
  finally show ?thesis by (simp add: t)
qed

end
