(* ===== verification/Tree_Grow.thy ===== *)
theory Tree_Grow
  imports Tree_Search Occupancy
begin

text \<open>
  The growth of a tree in pages: what \<^verbatim>\<open>propagateSplit\<close> finds when a page has been split, and that
  each of its three outcomes (the parent takes the new child, the parent is split in turn, a new root)
  gives a tree again or the same situation one level up.
\<close>

section \<open>Lists\<close>

lemma insert_nth_take: "j \<le> m \<Longrightarrow> m \<le> length xs \<Longrightarrow> insert_nth j x (take m xs) = take (Suc m) (insert_nth j x xs)"
  by (simp add: insert_nth_def min_def drop_take Suc_diff_le)

lemma take_insert_nth: "m \<le> j \<Longrightarrow> j \<le> length xs \<Longrightarrow> take m (insert_nth j x xs) = take m xs"
  by (simp add: insert_nth_def min_def)

lemma drop_insert_nth: "j \<le> m \<Longrightarrow> m \<le> length xs \<Longrightarrow> drop (Suc m) (insert_nth j x xs) = drop m xs"
  by (simp add: insert_nth_def Suc_diff_le)

lemma insert_nth_drop: "m \<le> j \<Longrightarrow> j \<le> length xs \<Longrightarrow> insert_nth (j - m) x (drop m xs) = drop m (insert_nth j x xs)"
  by (simp add: insert_nth_def take_drop)

lemma lowerIdx_unique:
  assumes "sorted ks" "j \<le> length ks" "0 < j \<Longrightarrow> ks ! (j - 1) < t" "j < length ks \<Longrightarrow> t < ks ! j"
  shows "lowerIdx ks t = j"
proof (rule antisym)
  show "lowerIdx ks t \<le> j"
    using assms lowerIdx_le [of ks t] lowerIdx_ge_iff [OF assms(1), of j t] by (cases "j < length ks") auto
  show "j \<le> lowerIdx ks t"
    using assms lowerIdx_iff [OF assms(1), of "j - 1" t] by (cases j) auto
qed

lemma next_id_less:
  fixes N :: PageID
  assumes "N + 1 \<noteq> 0"
  shows "N < N + 1"
  using assms unatSuc [of N] by (simp add: word_less_nat_alt add.commute)

section \<open>Pages\<close>

lemma HasSpaceFor_uniform:
  assumes "wf_page p" "uniform K (entries p)"
  shows "HasSpaceFor p (K + 8) \<longleftrightarrow> Suc (numEntries p) * (K + 12) \<le> 4075" "numEntries p * (K + 12) \<le> 4075"
  using wf_page_fits [OF assms(1)] dataBytes_uniform [OF assms(2)]
  by (auto simp: HasSpaceFor_iff [OF assms(1)] fits_def algebra_simps)

lemma node_page_space:
  assumes "node_page K p ss vs"
  shows "HasSpaceFor p (K + 8) \<longleftrightarrow> Suc (length ss) * (K + 12) \<le> 4075" "length ss * (K + 12) \<le> 4075"
  using HasSpaceFor_uniform [of p K] assms node_page_length [OF assms] by (simp_all add: node_page_def node_ok_def)

lemma wf_page_data: "wf_page p \<Longrightarrow> length (Data p) = PageSize"
  by (simp add: wf_page_def)

lemma page_image_header: "wf_page p \<Longrightarrow> valid_id (ID p) \<Longrightarrow> page_image p"
  by (simp add: page_image_def wf_page_data)

lemma insertSeparator_spec:
  assumes n: "node_page K p ss vs" and s: "length s = K" and sp: "HasSpaceFor p (K + 8)" and j: "lowerIdx ss s = j"
  shows "\<exists>p'. insertSeparator s (s @ encodeChildID v) p = Ok p' \<and> header p' = header p \<and>
    node_page K p' (insert_nth j s ss) (insert_nth (Suc j) v vs)"
proof -
  let ?e = "s @ encodeChildID v"
  have ok: "node_ok K p" "wf_page p" and ks: "keys K p = ss" "childIDs K p = vs" and ty: "PageType p = InternalPage"
    using n by (auto simp: node_page_def node_ok_def)
  have le: "lowerIdx ss s \<le> numEntries p" using lowerIdx_le [of ss s] node_page_length [OF n] by simp
  then have idx: "unat (word_of_nat (lowerIdx ss s) :: uint16) = lowerIdx ss s"
    using wf_page_numEntries [OF ok(2)] by (simp add: unat_of_nat_small)
  have len: "length ?e = K + 8" using s by (simp add: encodeChildID_def)
  have uni: "uniform K (entries p)" using ok(1) by (simp add: node_ok_def)
  then have "dataBytes (insert_nth (lowerIdx ss s) ?e (entries p)) = Suc (numEntries p) * (K + 8)"
    using dataBytes_uniform [of K "insert_nth (lowerIdx ss s) ?e (entries p)"] len by simp
  then have "fits (insert_nth (lowerIdx ss s) ?e (entries p))"
    using HasSpaceFor_uniform(1) [OF ok(2) uni] sp by (simp add: fits_def algebra_simps)
  then obtain p' where p': "InsertEntry p (word_of_nat (lowerIdx ss s)) ?e = Ok p'" "wf_page p'" "header p' = header p"
      "entries p' = insert_nth (lowerIdx ss s) ?e (entries p)"
    using InsertEntry_spec [OF ok(2), of "word_of_nat (lowerIdx ss s)" ?e] idx le by auto
  have "take K ?e = s" using s by simp
  then have "node_ok K p'" "keys K p' = insert_nth j s ss"
    using node_ok_insert [OF ok(1) p'(2) len] p'(4) ks(1) j by (auto simp: keys_def map_insert_nth)
  moreover have "childIDs K p' = insert_nth (Suc j) v vs"
    using p'(4) ks(2) s j Leftmost_header [of p'] Leftmost_header [of p] p'(3)
    by (auto simp: childIDs_def encodeChildID_def insert_nth_def take_map drop_map)
  moreover have "PageType p' = InternalPage" using p'(3) ty by (simp add: header_def)
  moreover have "insertSeparator s ?e p = Ok p'"
    using findKeyIndex_spec [OF ok(1), of s] p'(1) ks(1) by (simp add: insertSeparator_def)
  ultimately show ?thesis using p'(3) by (auto simp: node_page_def)
qed

lemma splitInternal_page:
  assumes n: "node_page K p ss vs" and two: "2 \<le> length ss"
  defines "mid \<equiv> length ss div 2"
  shows "\<exists>p1 p2. splitInternal p r = Ok (ss ! mid, p2, p1) \<and>
    node_page K p1 (take mid ss) (take (Suc mid) vs) \<and> node_page K p2 (drop (Suc mid) ss) (drop (Suc mid) vs) \<and>
    header p1 = header p \<and> ID p2 = ID r"
proof -
  have ok: "node_ok K p" and ks: "keys K p = ss" "childIDs K p = vs" and ty: "PageType p = InternalPage"
    using n by (auto simp: node_page_def)
  have num: "numEntries p = length ss" using node_page_length [OF n] by simp
  obtain p1 p2 where s: "splitInternal p r = Ok (keys K p ! mid, p2, p1)" "node_ok K p1" "node_ok K p2"
      "entries p1 = take mid (entries p)" "entries p2 = drop (Suc mid) (entries p)"
      "header p1 = header p" "header p2 = (ID r, InternalPage, childOf K (entries p ! mid), 0)"
    using splitInternal_spec [OF ok, of r] two num by (auto simp: mid_def)
  have mid: "mid < length (entries p)" using two num by (simp add: mid_def)
  have "childIDs K p1 = take (Suc mid) vs"
    using s(4,6) ks(2) Leftmost_header [of p1] Leftmost_header [of p] by (auto simp: childIDs_def take_map)
  moreover have "LeftmostChildPageID p2 = childOf K (entries p ! mid)" using s(7) by (simp add: Leftmost_header)
  then have "childIDs K p2 = drop (Suc mid) vs"
    using s(5) ks(2) mid by (auto simp: childIDs_def drop_map simp flip: Cons_nth_drop_Suc)
  moreover have "keys K p1 = take mid ss" "keys K p2 = drop (Suc mid) ss"
    using s(4,5) ks(1) by (auto simp: keys_def take_map drop_map)
  moreover have "PageType p1 = InternalPage" "PageType p2 = InternalPage" "ID p2 = ID r"
    using s(6,7) ty by (auto simp: header_def)
  ultimately show ?thesis using s ks(1) by (auto simp: node_page_def)
qed

text \<open>A full parent is split first, then the separator goes into the half it belongs to.\<close>

lemma split_full_page:
  assumes n: "node_page K p ss vs" and full: "\<not> HasSpaceFor p (K + 8)" and K: "K \<le> 16"
  defines "mid \<equiv> length ss div 2"
  obtains p1 p2 where "splitInternal p r = Ok (ss ! mid, p2, p1)"
    "node_page K p1 (take mid ss) (take (Suc mid) vs)" "node_page K p2 (drop (Suc mid) ss) (drop (Suc mid) vs)"
    "header p1 = header p" "ID p2 = ID r" "HasSpaceFor p1 (K + 8)" "HasSpaceFor p2 (K + 8)" "0 < mid" "mid < length ss"
    "\<And>m. m = mid \<or> m = Suc mid \<Longrightarrow> minRows K \<le> m \<and> m + minRows K \<le> length ss"
proof -
  have big: "4075 < Suc (length ss) * (K + 12)" using full node_page_space(1) [OF n] by simp
  have two: "2 \<le> length ss"
  proof (rule ccontr)
    assume "\<not> 2 \<le> length ss"
    then have "Suc (length ss) * (K + 12) \<le> 2 * 28" using K by (intro mult_le_mono) auto
    with big show False by simp
  qed
  then have mid: "0 < mid" "mid < length ss" by (auto simp: mid_def)
  have halves: "minRows K \<le> m \<and> m + minRows K \<le> length ss" if "m = mid \<or> m = Suc mid" for m
    using split_halves [OF big two, of m] that by (simp add: mid_def)
  obtain p1 p2 where s: "splitInternal p r = Ok (ss ! mid, p2, p1)"
      "node_page K p1 (take mid ss) (take (Suc mid) vs)" "node_page K p2 (drop (Suc mid) ss) (drop (Suc mid) vs)"
      "header p1 = header p" "ID p2 = ID r"
    using splitInternal_page [OF n two, of r] by (auto simp: mid_def)
  have "Suc (length (take mid ss)) * (K + 12) \<le> length ss * (K + 12)"
    "Suc (length (drop (Suc mid) ss)) * (K + 12) \<le> length ss * (K + 12)"
    using mid by (intro mult_le_mono1; simp)+
  then have "HasSpaceFor p1 (K + 8)" "HasSpaceFor p2 (K + 8)"
    using node_page_space(1) [OF s(2)] node_page_space(1) [OF s(3)] node_page_space(2) [OF n] by auto
  from that [OF s this mid halves] show thesis .
qed

text \<open>The separator belongs to the right half exactly when it is not below the one that moves up.\<close>

lemma separator_right:
  fixes v :: PageID
  assumes n: "node_page K p (drop (Suc mid) ss) (drop (Suc mid) vs)" and K: "length s = K" "HasSpaceFor p (K + 8)"
    and srt: "sorted_wrt (<) ss" and j: "j \<le> length ss" "0 < j \<Longrightarrow> ss ! (j - 1) < s" "j < length ss \<Longrightarrow> s < ss ! j"
    and vs: "length vs = Suc (length ss)" and right: "mid < j"
  shows "CompareKeys s (ss ! mid) \<ge> 0" and "\<exists>q. insertSeparator s (s @ encodeChildID v) p = Ok q \<and> header q = header p \<and>
    node_page K q (drop (Suc mid) (insert_nth j s ss)) (drop (Suc mid) (insert_nth (Suc j) v vs))"
proof -
  have "ss ! mid \<le> ss ! (j - 1)" using srt right j(1) by (intro sorted_wrt_less_nth_le) auto
  then have "ss ! mid < s" using j(2) right by auto
  then show "CompareKeys s (ss ! mid) \<ge> 0" by (simp add: CompareKeys_def bytes_Compare_order not_less less_imp_le)
  have "sorted ss" using srt by (simp add: strict_sorted_iff)
  then have "lowerIdx (drop (Suc mid) ss) s = j - Suc mid"
    using right j by (intro lowerIdx_unique) (auto simp: sorted_wrt_drop Suc_diff_Suc numeral_2_eq_2)
  moreover have "insert_nth (j - Suc mid) s (drop (Suc mid) ss) = drop (Suc mid) (insert_nth j s ss)"
    "insert_nth (Suc (j - Suc mid)) v (drop (Suc mid) vs) = drop (Suc mid) (insert_nth (Suc j) v vs)"
    using right j(1) vs insert_nth_drop [of "Suc mid" j ss s] insert_nth_drop [of "Suc mid" "Suc j" vs v]
    by (simp_all add: Suc_diff_Suc Suc_diff_le)
  ultimately show "\<exists>q. insertSeparator s (s @ encodeChildID v) p = Ok q \<and> header q = header p \<and>
      node_page K q (drop (Suc mid) (insert_nth j s ss)) (drop (Suc mid) (insert_nth (Suc j) v vs))"
    using insertSeparator_spec [OF n K, of "j - Suc mid" v] by auto
qed

lemma separator_left:
  fixes v :: PageID
  assumes n: "node_page K p (take mid ss) (take (Suc mid) vs)" and K: "length s = K" "HasSpaceFor p (K + 8)"
    and srt: "sorted_wrt (<) ss" and j: "0 < j \<Longrightarrow> ss ! (j - 1) < s" "j < length ss \<Longrightarrow> s < ss ! j"
    and vs: "length vs = Suc (length ss)" and left: "j \<le> mid" "mid < length ss"
  shows "\<not> CompareKeys s (ss ! mid) \<ge> 0" and "\<exists>q. insertSeparator s (s @ encodeChildID v) p = Ok q \<and> header q = header p \<and>
    node_page K q (take (Suc mid) (insert_nth j s ss)) (take (Suc (Suc mid)) (insert_nth (Suc j) v vs))"
proof -
  have "ss ! j \<le> ss ! mid" using srt left by (intro sorted_wrt_less_nth_le) auto
  then have "s < ss ! mid" using j(2) left by (meson le_less_trans less_le_trans)
  then show "\<not> CompareKeys s (ss ! mid) \<ge> 0" by (simp add: CompareKeys_def bytes_Compare_order)
  have "sorted ss" using srt by (simp add: strict_sorted_iff)
  then have "lowerIdx (take mid ss) s = j"
    using left j by (intro lowerIdx_unique) (auto simp: sorted_wrt_take)
  moreover have "insert_nth j s (take mid ss) = take (Suc mid) (insert_nth j s ss)"
    "insert_nth (Suc j) v (take (Suc mid) vs) = take (Suc (Suc mid)) (insert_nth (Suc j) v vs)"
    using left vs insert_nth_take [of j mid ss s] insert_nth_take [of "Suc j" "Suc mid" vs v] by simp_all
  ultimately show "\<exists>q. insertSeparator s (s @ encodeChildID v) p = Ok q \<and> header q = header p \<and>
      node_page K q (take (Suc mid) (insert_nth j s ss)) (take (Suc (Suc mid)) (insert_nth (Suc j) v vs))"
    using insertSeparator_spec [OF n K, of j v] by auto
qed

lemma splitInsert_page:
  fixes v :: PageID
  assumes n: "node_page K p ss vs" and full: "\<not> HasSpaceFor p (K + 8)" and K: "length s = K" "K \<le> 16"
    and srt: "sorted_wrt (<) ss" and j: "j \<le> length ss" "0 < j \<Longrightarrow> ss ! (j - 1) < s" "j < length ss \<Longrightarrow> s < ss ! j"
  defines "SS \<equiv> insert_nth j s ss" and "VS \<equiv> insert_nth (Suc j) v vs"
  shows "\<exists>m p1 p2 q1 q2. splitInternal p r = Ok (SS ! m, p2, p1) \<and> 0 < m \<and> m < length SS \<and>
    minRows K \<le> m \<and> m + Suc (minRows K) \<le> length SS \<and>
    (if CompareKeys s (SS ! m) \<ge> 0 then insertSeparator s (s @ encodeChildID v) p2 = Ok q2 \<and> q1 = p1
     else insertSeparator s (s @ encodeChildID v) p1 = Ok q1 \<and> q2 = p2) \<and>
    node_page K q1 (take m SS) (take (Suc m) VS) \<and> node_page K q2 (drop (Suc m) SS) (drop (Suc m) VS) \<and>
    header p1 = header p \<and> header q1 = header p \<and> ID p2 = ID r \<and> ID q2 = ID r \<and> wf_page p1 \<and> wf_page p2"
proof -
  define mid where "mid = length ss div 2"
  obtain p1 p2 where s: "splitInternal p r = Ok (ss ! mid, p2, p1)"
      "node_page K p1 (take mid ss) (take (Suc mid) vs)" "node_page K p2 (drop (Suc mid) ss) (drop (Suc mid) vs)"
      "header p1 = header p" "ID p2 = ID r" and room: "HasSpaceFor p1 (K + 8)" "HasSpaceFor p2 (K + 8)"
    and mid: "0 < mid" "mid < length ss"
    and halves: "\<And>m. m = mid \<or> m = Suc mid \<Longrightarrow> minRows K \<le> m \<and> m + minRows K \<le> length ss"
    by (rule split_full_page [OF n full K(2), of r, folded mid_def]) (rule that)
  have vs: "length vs = Suc (length ss)" using node_page_length [OF n] by simp
  have wf: "wf_page p1" "wf_page p2" using s(2,3) by (simp_all add: node_page_def node_ok_def)
  show ?thesis
  proof (cases "mid < j")
    case True
    note right = separator_right [OF s(3) K(1) room(2) srt j vs True]
    obtain q where q: "insertSeparator s (s @ encodeChildID v) p2 = Ok q" "header q = header p2"
        "node_page K q (drop (Suc mid) SS) (drop (Suc mid) VS)" using right(2) [of v] unfolding SS_def VS_def by blast
    have eq: "take mid ss = take mid SS" "take (Suc mid) vs = take (Suc mid) VS" "SS ! mid = ss ! mid"
      using True j(1) vs take_insert_nth [of mid j ss s] take_insert_nth [of "Suc mid" "Suc j" vs v] nth_insert_nth [of j ss mid s]
      by (simp_all add: SS_def VS_def)
    then show ?thesis using s q wf mid halves [of mid] right(1) header_same [OF q(2)]
      by (intro exI [of _ mid] exI [of _ p1] exI [of _ p2] exI [of _ p1] exI [of _ q]) (auto simp: SS_def)
  next
    case False
    then have jm: "j \<le> mid" by simp
    note left = separator_left [OF s(2) K(1) room(1) srt j(2,3) vs jm mid(2)]
    obtain q where q: "insertSeparator s (s @ encodeChildID v) p1 = Ok q" "header q = header p1"
        "node_page K q (take (Suc mid) SS) (take (Suc (Suc mid)) VS)" using left(2) [of v] unfolding SS_def VS_def by blast
    have eq: "drop (Suc mid) ss = drop (Suc (Suc mid)) SS" "drop (Suc mid) vs = drop (Suc (Suc mid)) VS" "SS ! Suc mid = ss ! mid"
      using jm mid j(1) vs drop_insert_nth [of j "Suc mid" ss s] drop_insert_nth [of "Suc j" "Suc mid" vs v]
        nth_insert_nth [of j ss "Suc mid" s] by (simp_all add: SS_def VS_def)
    then show ?thesis using s q wf mid halves [of "Suc mid"] left(1) header_same [OF q(2)]
      by (intro exI [of _ "Suc mid"] exI [of _ p1] exI [of _ p2] exI [of _ q] exI [of _ p2]) (auto simp: SS_def)
  qed
qed

section \<open>A split on its way up\<close>

definition split_in ::
    "nat \<Rightarrow> nat \<Rightarrow> bframe list \<Rightarrow> btree \<Rightarrow> byte list \<Rightarrow> btree \<Rightarrow> (PageID \<rightharpoonup> Page) \<Rightarrow> PageID \<Rightarrow> bool" where
  "split_in K g fs l s r V N \<longleftrightarrow>
     split_ready fs l s r \<and> length s = K \<and> rep K V l \<and> rep K V r \<and> rep_ctx K V fs (tid l) \<and>
     balanced l g \<and> balanced r g \<and> ctx_balanced fs g \<and>
     distinct (ids l @ ids r @ ctx_ids fs) \<and> (\<forall>i \<in> set (ids l @ ids r @ ctx_ids fs). i \<noteq> 0 \<and> i < N) \<and>
     chain V 0 (lefts leafIDs fs @ leafIDs l @ leafIDs r @ rights leafIDs fs) 0"

lemma rep_agree: "rep K V t \<Longrightarrow> (\<And>x. x \<in> set (ids t) \<Longrightarrow> V' x = V x) \<Longrightarrow> rep K V' t"
  by (erule rep_frame) simp

lemma ctx_leafIDs: "set (lefts leafIDs fs) \<union> set (rights leafIDs fs) \<subseteq> set (ctx_ids fs)"
proof (induction fs rule: frames_ok.induct)
  case (2 i ss cs j fs)
  then show ?case by (auto simp: siblings_def ids_def)
qed simp

lemma leafIDs_ids: "set (leafIDs t) \<subseteq> set (ids t)"
  by (simp add: ids_def)

lemma tid_plug_last: "tid (plug t fs) = (if fs = [] then tid t else fst (last fs))"
  by (induction t fs rule: plug.induct) auto

lemma concat_twoAt: "concat (map f (twoAt j l r cs)) = concat (map f (take j cs)) @ f l @ f r @ concat (map f (drop (Suc j) cs))"
  by (simp add: twoAt_def)

lemma mset_ids_twoAt:
  "mset (concat (map ids (twoAt j l r cs))) = mset (ids l @ ids r @ concat (map ids (siblings cs j)))"
  by (simp add: concat_twoAt siblings_def ac_simps)

lemma set_ids_Node: "set (ids (Node i ss cs)) = insert i (set (concat (map ids cs)))"
  by auto

lemma mset_ids_Node: "mset (ids (Node i ss cs)) = add_mset i (mset (concat (map ids cs)))"
  by (simp add: mset_concat comp_def)

lemma map_tid_twoAt:
  assumes "j < length cs" "tid r = v"
  shows "insert_nth (Suc j) v ((map tid cs)[j := tid l]) = map tid (twoAt j l r cs)"
  using assms by (simp add: twoAt_def insert_nth_def upd_conv_take_nth_drop take_map drop_map min_def)

text \<open>Facts about the parent frame with both halves in place.\<close>

lemma split_in_parent:
  assumes s: "split_in K g ((i, ss, cs, j) # fs) l s r V N"
  defines "SS \<equiv> insert_nth j s ss" and "CS \<equiv> twoAt j l r cs"
  shows "ordered (Node i SS CS)" "within fs (allkeys (Node i SS CS))" "ctx_ordered fs"
    and "balanced (Node i SS CS) (Suc g)" "ctx_balanced fs (Suc g)"
    and "\<forall>c \<in> set CS. rep K V c" "rep_ctx K V fs i"
    and "distinct (i # concat (map ids CS) @ ctx_ids fs)" "\<forall>v \<in> set (i # concat (map ids CS) @ ctx_ids fs). v \<noteq> 0 \<and> v < N"
    and "chain V 0 (lefts leafIDs fs @ concat (map leafIDs CS) @ rights leafIDs fs) 0"
    and "length CS = Suc (length SS)"
proof -
  have rd: "split_ready ((i, ss, cs, j) # fs) l s r" and len: "length cs = Suc (length ss)" "j < length cs"
    using s by (auto simp: split_in_def split_ready_def)
  show "ordered (Node i SS CS)" "within fs (allkeys (Node i SS CS))" "ctx_ordered fs"
    using grown_ordered [OF rd] by (simp_all add: SS_def CS_def)
  show lc: "length CS = Suc (length SS)" using len by (simp add: SS_def CS_def)
  have mem: "set CS = {l, r} \<union> set (siblings cs j)" using set_twoAt [OF len(2)] by (simp add: CS_def)
  show "balanced (Node i SS CS) (Suc g)" "ctx_balanced fs (Suc g)" "\<forall>c \<in> set CS. rep K V c" "rep_ctx K V fs i"
    using s lc mem by (auto simp: split_in_def)
  have ms: "mset (i # concat (map ids CS) @ ctx_ids fs) = mset (ids l @ ids r @ ctx_ids ((i, ss, cs, j) # fs))"
    using mset_ids_twoAt [of j l r cs] by (simp add: CS_def)
  show "distinct (i # concat (map ids CS) @ ctx_ids fs)"
    using mset_eq_imp_distinct_iff [OF ms] s by (simp only: split_in_def)
  show "\<forall>v \<in> set (i # concat (map ids CS) @ ctx_ids fs). v \<noteq> 0 \<and> v < N"
    unfolding mset_eq_setD [OF ms] using s unfolding split_in_def by blast
  show "chain V 0 (lefts leafIDs fs @ concat (map leafIDs CS) @ rights leafIDs fs) 0"
    using s by (simp add: split_in_def CS_def concat_twoAt)
qed

text \<open>The parent had room: the tree is complete.\<close>

lemma grown_tree:
  assumes s: "split_in K g ((i, ss, cs, j) # fs) l s r V N"
    and q: "node_page K q (insert_nth j s ss) (map tid (twoAt j l r cs))"
    and root: "V 0 = Some m" "RootPageID m = tid (plug l ((i, ss, cs, j) # fs))"
  shows "tree_in K (Suc g + length fs) (plug (Node i (insert_nth j s ss) (twoAt j l r cs)) fs) (V(i \<mapsto> q)) N"
proof -
  let ?SS = "insert_nth j s ss" and ?CS = "twoAt j l r cs" and ?V = "V(i \<mapsto> q)"
  note p = split_in_parent [OF s]
  have fo: "frames_ok fs" using p(3) by (rule ctx_ordered_frames_ok)
  have d: "i \<notin> set (concat (map ids ?CS))" "i \<notin> set (ctx_ids fs)" "i \<noteq> 0" using p(8,9) by auto
  have "rep K ?V c" if c: "c \<in> set ?CS" for c
  proof (rule rep_frame [of K V])
    show "rep K V c" using p(6) c by blast
    show "same_leaf (V x) (?V x)" if "x \<in> set (ids c)" for x using d(1) c that by auto
  qed
  moreover have "rep_ctx K ?V fs i"
    using d(2) by (intro rep_ctx_frame [OF p(7)]) auto
  ultimately have "rep K ?V (plug (Node i ?SS ?CS) fs)"
    using plug_rep [OF fo] q by simp
  moreover have "ordered (plug (Node i ?SS ?CS) fs)" using plug_ordered [OF fo] p(1-3) by blast
  moreover have "balanced (plug (Node i ?SS ?CS) fs) (Suc g + length fs)" using plug_balanced [OF fo] p(4,5) by blast
  moreover have ms: "mset (ids (plug (Node i ?SS ?CS) fs)) = mset (i # concat (map ids ?CS) @ ctx_ids fs)"
    using plug_ids [OF fo, of "Node i ?SS ?CS"] mset_ids_Node [of i ?SS ?CS] by simp
  have "distinct (ids (plug (Node i ?SS ?CS) fs))" using mset_eq_imp_distinct_iff [OF ms] p(8) by blast
  moreover have "\<forall>v \<in> set (ids (plug (Node i ?SS ?CS) fs)). v \<noteq> 0 \<and> v < N" unfolding mset_eq_setD [OF ms] by (rule p(9))
  moreover have "chain ?V 0 (leafIDs (plug (Node i ?SS ?CS) fs)) 0"
  proof -
    have "x \<noteq> i" if "x \<in> set (lefts leafIDs fs @ concat (map leafIDs ?CS) @ rights leafIDs fs)" for x
      using that d ctx_leafIDs [of fs] leafIDs_ids by fastforce
    then have "chain ?V 0 (lefts leafIDs fs @ concat (map leafIDs ?CS) @ rights leafIDs fs) 0"
      using p(10) by (subst chain_cong [of _ ?V V]) auto
    then show ?thesis using plug_leafIDs [OF fo, of "Node i ?SS ?CS"] by simp
  qed
  moreover have "?V 0 = Some m" "RootPageID m = tid (plug (Node i ?SS ?CS) fs)"
    using root d(3) by (simp_all add: tid_plug_last)
  ultimately show ?thesis by (auto simp: tree_in_def)
qed

text \<open>Cutting the children of a node in two keeps the pages and the leaves it has below it.\<close>

lemma mset_ids_halves:
  "mset (ids (Node i s1 (take m cs)) @ ids (Node k s2 (drop m cs)) @ xs) = mset (k # i # concat (map ids cs) @ xs)"
proof -
  have "mset (concat (map ids (take m cs))) + mset (concat (map ids (drop m cs))) = mset (concat (map ids cs))"
    using arg_cong [OF append_take_drop_id [of m cs], of "\<lambda>cs. mset (concat (map ids cs))"]
    by (simp only: map_append concat_append mset_append)
  then show ?thesis
    by (simp only: mset_append mset_ids_Node mset.simps) (simp only: union_mset_add_mset_left union_mset_add_mset_right flip: add.assoc)
qed

lemma leafIDs_halves: "leafIDs (Node i s1 (take m cs)) @ leafIDs (Node k s2 (drop m cs)) = concat (map leafIDs cs)"
  using arg_cong [OF append_take_drop_id [of m cs], of "\<lambda>cs. concat (map leafIDs cs)"]
  by (simp only: leafIDs.simps map_append concat_append)

lemma separator_lengths:
  assumes s: "split_in K g ((i, ss, cs, j) # fs) l s r V N" and k: "k \<in> set (insert_nth j s ss)"
  shows "length k = K"
proof -
  obtain x where "node_page K x ss ((map tid cs)[j := tid l])" using s by (auto simp: split_in_def)
  then have "length k' = K" if "k' \<in> set ss" for k'
    using that by (auto simp: node_page_def keys_def node_ok_def uniform_def)
  with k s show ?thesis by (auto simp: set_insert_nth split_in_def)
qed

text \<open>The number of a new page is neither the metadata page nor in use.\<close>

lemma ids_below_next:
  assumes "\<forall>x \<in> set xs. x \<noteq> 0 \<and> x < N" "N \<noteq> 0" "N + 1 \<noteq> (0 :: PageID)"
  shows "\<forall>x \<in> set (N # xs). x \<noteq> 0 \<and> x < N + 1"
  using assms(1,2) next_id_less [OF assms(3)] by (auto intro: order.strict_trans)

text \<open>The parent was full: the same situation one level up.\<close>

lemma split_in_up:
  assumes s: "split_in K g ((i, ss, cs, j) # fs) l s r V N"
    and m: "0 < m" "m < length (insert_nth j s ss)" and N: "N \<noteq> 0" "N + 1 \<noteq> 0"
  defines "SS \<equiv> insert_nth j s ss" and "CS \<equiv> twoAt j l r cs"
  assumes q1: "node_page K q1 (take m SS) (map tid (take (Suc m) CS))"
    and q2: "node_page K q2 (drop (Suc m) SS) (map tid (drop (Suc m) CS))"
  shows "split_in K (Suc g) fs (Node i (take m SS) (take (Suc m) CS)) (SS ! m) (Node N (drop (Suc m) SS) (drop (Suc m) CS))
    (V(i \<mapsto> q1, N \<mapsto> q2)) (N + 1)"
proof -
  let ?V = "V(i \<mapsto> q1, N \<mapsto> q2)"
  let ?l = "Node i (take m SS) (take (Suc m) CS)" and ?r = "Node N (drop (Suc m) SS) (drop (Suc m) CS)"
  note p = split_in_parent [OF s, folded SS_def CS_def]
  have lenm: "m < length SS" using m by (simp add: SS_def)
  have d: "i \<notin> set (concat (map ids CS))" "i \<notin> set (ctx_ids fs)" "i \<noteq> 0" "i < N" using p(8,9) by auto
  have n: "N \<notin> set (i # concat (map ids CS) @ ctx_ids fs)" using p(9) by blast
  have same: "?V x = V x" if "x \<in> set (concat (map ids CS) @ ctx_ids fs)" for x using that d n by auto
  have kids: "rep K ?V c" if c: "c \<in> set CS" for c
  proof (rule rep_agree [of K V])
    show "rep K V c" using p(6) c by blast
    show "?V x = V x" if "x \<in> set (ids c)" for x using c that by (intro same) auto
  qed
  have "rep K ?V ?l" "rep K ?V ?r"
    using kids q1 q2 d n by (auto dest: in_set_takeD in_set_dropD)
  moreover have "rep_ctx K ?V fs (tid ?l)"
    using same by (auto intro: rep_ctx_frame [OF p(7)])
  moreover have "split_ready fs ?l (SS ! m) ?r" by (rule halves_ready [OF p(1-3) m(1) lenm])
  moreover have "length (SS ! m) = K" using lenm by (intro separator_lengths [OF s]) (simp add: SS_def)
  moreover have "balanced ?l (Suc g)" "balanced ?r (Suc g)"
    using p(4) p(11) lenm by (auto dest: in_set_takeD in_set_dropD)
  moreover have ms: "mset (ids ?l @ ids ?r @ ctx_ids fs) = mset (N # i # concat (map ids CS) @ ctx_ids fs)"
    by (rule mset_ids_halves)
  have "distinct (ids ?l @ ids ?r @ ctx_ids fs)"
    using mset_eq_imp_distinct_iff [OF ms] p(8) n by simp
  moreover have "\<forall>x \<in> set (ids ?l @ ids ?r @ ctx_ids fs). x \<noteq> 0 \<and> x < N + 1"
    unfolding mset_eq_setD [OF ms] by (rule ids_below_next [OF p(9) N])
  moreover have "chain ?V 0 (lefts leafIDs fs @ concat (map leafIDs CS) @ rights leafIDs fs) 0 =
      chain V 0 (lefts leafIDs fs @ concat (map leafIDs CS) @ rights leafIDs fs) 0"
    using ctx_leafIDs [of fs] by (intro chain_cong same) (auto simp: ids_def)
  then have "chain ?V 0 (lefts leafIDs fs @ leafIDs ?l @ leafIDs ?r @ rights leafIDs fs) 0"
    using p(10) leafIDs_halves [of i "take m SS" "Suc m" CS N "drop (Suc m) SS"] by (simp only: append_assoc [symmetric])
  ultimately show ?thesis using p(5) by (simp add: split_in_def)
qed

text \<open>The root was split: a new root.\<close>

lemma split_in_root:
  assumes s: "split_in K g [] l s r V N" and N: "N \<noteq> 0" "N + 1 \<noteq> 0"
    and q: "node_page K q [s] [tid l, tid r]" and m: "RootPageID m = N"
  shows "tree_in K (Suc g) (Node N [s] [l, r]) (V(N \<mapsto> q, 0 \<mapsto> m)) (N + 1)"
proof -
  let ?V = "V(N \<mapsto> q, 0 \<mapsto> m)"
  have i: "x \<noteq> 0 \<and> x < N" if "x \<in> set (ids l) \<union> set (ids r)" for x using s that by (auto simp: split_in_def)
  have same: "?V x = V x" if "x \<in> set (ids l) \<union> set (ids r)" for x using i [OF that] by auto
  have "rep K V l" "rep K V r" using s by (simp_all add: split_in_def)
  then have "rep K ?V l" "rep K ?V r"
    using rep_agree [of K V l ?V] rep_agree [of K V r ?V] same by blast+
  moreover have "ordered (Node N [s] [l, r])" using s new_root_ordered unfolding split_in_def by blast
  moreover have "chain ?V 0 (leafIDs l @ leafIDs r) 0"
  proof -
    have "?V x = V x" if "x \<in> set (leafIDs l @ leafIDs r)" for x
      using that leafIDs_ids [of l] leafIDs_ids [of r] by (intro same) auto
    then have "chain ?V 0 (leafIDs l @ leafIDs r) 0 = chain V 0 (leafIDs l @ leafIDs r) 0" by (rule chain_cong)
    then show ?thesis using s by (simp add: split_in_def)
  qed
  moreover have ms: "mset (ids (Node N [s] [l, r])) = mset (N # ids l @ ids r)"
    by (simp only: mset_ids_Node) simp
  have "distinct (ids (Node N [s] [l, r]))"
    using mset_eq_imp_distinct_iff [OF ms] s i by (auto simp: split_in_def)
  moreover have "\<forall>x \<in> set (ids (Node N [s] [l, r])). x \<noteq> 0 \<and> x < N + 1"
  proof -
    have "N < N + 1" using next_id_less [OF N(2)] .
    then show ?thesis unfolding mset_eq_setD [OF ms] using i N(1) by fastforce
  qed
  ultimately show ?thesis using s q m N(1) by (simp add: tree_in_def split_in_def)
qed

end
