(* ===== verification/Tree_Insert.thy ===== *)
theory Tree_Insert
  imports Tree_Grow
begin

text \<open>
  Insertion in \<^verbatim>\<open>btree.go\<close>: the propagation of a split from a leaf to the root and \<^verbatim>\<open>Insert\<close> itself,
  executed symbolically over the page-store interface, for trees of any height.
\<close>

section \<open>Changes in place\<close>

lemma mutate_rule:
  assumes s: "st T V H N X w" and a: "H a = Some p" and f: "f p = Ok p'" "ID p' = ID p" "wf_page p'" "valid_id (ID p)"
  shows "\<exists>w'. mutate a f w = (Ok (), w') \<and> st (insert (ID p) T) V (H(a \<mapsto> p')) N X w'"
proof -
  obtain w' where "assign a p' w = (Ok (), w')" "st (insert (ID p) T) V (H(a \<mapsto> p')) N X w'"
    using assign_rule [OF s a f(2) wf_page_data [OF f(3)] f(4)] by blast
  then show ?thesis using deref_rule [OF s a] f(1) by (simp add: mutate_def exec_simps)
qed

lemma mutate2_rule:
  assumes s: "st T V H N X w" and ab: "H a = Some p" "H b = Some q" "a \<noteq> b"
    and f: "f p q = Ok (x, p', q')" "ID p' = ID p" "ID q' = ID q" "wf_page p'" "wf_page q'" "valid_id (ID p)" "valid_id (ID q)"
  shows "\<exists>w'. mutate2 a b f w = (Ok x, w') \<and> st (insert (ID q) (insert (ID p) T)) V (H(a \<mapsto> p', b \<mapsto> q')) N X w'"
proof -
  obtain w1 where w1: "assign a p' w = (Ok (), w1)" "st (insert (ID p) T) V (H(a \<mapsto> p')) N X w1"
    using assign_rule [OF s ab(1) f(2) wf_page_data [OF f(4)] f(6)] by blast
  have "(H(a \<mapsto> p')) b = Some q" using ab by simp
  from assign_rule [OF w1(2) this f(3) wf_page_data [OF f(5)] f(7)] obtain w2 where
    "assign b q' w1 = (Ok (), w2)" "st (insert (ID q) (insert (ID p) T)) V (H(a \<mapsto> p', b \<mapsto> q')) N X w2"
    by blast
  then show ?thesis
    using deref_rule [OF s ab(1)] deref_rule [OF s ab(2)] f(1) w1(1) by (simp add: mutate2_def exec_simps)
qed

lemma write_rule_clean:
  assumes "st T V H N X w" "H a = Some p" "wf_page p" "valid_id (ID p)"
  shows "\<exists>w'. writePage a w = (Ok (), w') \<and> st (T - {ID p}) (V(ID p \<mapsto> p)) H N X w'"
  using cached.write_rule [OF TrueI assms(1,2) page_image_header [OF assms(3,4)]] by blast

lemma valid_id_less: "valid_id N \<Longrightarrow> i \<le> N \<Longrightarrow> valid_id i"
  by (simp add: valid_id_def word_le_nat_alt)

lemma valid_id_succ: "unat N + 1 < 2 ^ 51 \<Longrightarrow> N + 1 \<noteq> 0 \<and> unat (N + 1) = unat N + 1 \<and> valid_id N" for N :: PageID
proof -
  assume a: "unat N + 1 < 2 ^ 51"
  then have "unat (N + 1) = unat N + 1" by (simp add: unat_word_ariths)
  moreover from this have "N + 1 \<noteq> 0" by (metis add_is_0 unat_0 zero_neq_one)
  ultimately show ?thesis using a by (simp add: valid_id_def)
qed

lemma setSplits_rule:
  fixes w :: BTree
  assumes "st T V H N X w"
  shows "\<exists>w' X'. smod (\<lambda>t. t\<lparr>pageSplits := pageSplits t + 1\<rparr>) w = (Ok (), w') \<and> st T V H N X' w' \<and>
    rootID w' = rootID w \<and> unique w' = unique w \<and> entrySize w' = entrySize w"
  using client_rule [OF assms, of "w\<lparr>pageSplits := pageSplits w + 1\<rparr>"] by (auto simp: exec_simps)

lemma setRoot_rule:
  fixes w :: BTree
  assumes "st T V H N X w"
  shows "\<exists>w' X'. smod (\<lambda>t. t\<lparr>rootID := v\<rparr>) w = (Ok (), w') \<and> st T V H N X' w' \<and>
    rootID w' = v \<and> unique w' = unique w \<and> entrySize w' = entrySize w"
  using client_rule [OF assms, of "w\<lparr>rootID := v\<rparr>"] by (auto simp: exec_simps)

section \<open>A new root\<close>

lemma newRoot_page:
  assumes "length s = K" "K \<le> 16"
  shows "\<exists>q. InsertEntry (NewInternalPage N v) 0 (s @ encodeChildID u) = Ok q \<and> node_page K q [s] [v, u] \<and> ID q = N"
proof -
  let ?e = "s @ encodeChildID u"
  note n = NewInternalPage_spec [of N v]
  have "fits (?e # entries (NewInternalPage N v))"
    using assms n(2) by (simp add: fits_def dataBytes_def encodeChildID_def)
  then obtain q where q: "InsertEntry (NewInternalPage N v) 0 ?e = Ok q" "wf_page q"
      "header q = (N, InternalPage, v, 0)" "entries q = [?e]"
    using prependOne_spec [OF n(1)] n by auto
  have "node_page K q [s] [v, u]"
    using q assms by (auto simp: node_page_def node_ok_def keys_def childIDs_def encodeChildID_def Leftmost_header header_def [of q])
  then show ?thesis using q by (auto simp: header_def)
qed

lemma NewMetadataPage_image: "valid_id v \<Longrightarrow> page_image (NewMetadataPage v r) \<and> ID (NewMetadataPage v r) = v"
  by (simp add: page_image_def NewMetadataPage_def SetRootPageID_def SetPageType_def zeroPage_def)

lemma propagate_root:
  assumes s: "st {} V H N X w" and sp: "split_in K g [] l s r V N" and K: "K \<le> 16"
    and a: "H a = Some pl" "ID pl = tid l" "H b = Some pr" "ID pr = tid r" and N: "unat N + 1 < 2 ^ 51" "N \<noteq> 0"
  shows "\<exists>w'. propagateSplit a b s [] w = (Ok (), w') \<and> tree_inv K (Suc g) (Node N [s] [l, r]) w' \<and>
    nextPageID (pm w') = N + 1 \<and> unique w' = unique w \<and> entrySize w' = entrySize w"
proof -
  have len: "length s = K" using sp by (simp add: split_in_def)
  note N' = valid_id_succ [OF N(1)]
  obtain q where q: "InsertEntry (NewInternalPage N (tid l)) 0 (s @ encodeChildID (tid r)) = Ok q"
      "node_page K q [s] [tid l, tid r]" "ID q = N"
    using newRoot_page [OF len K] by blast
  have wf: "wf_page q" using q(2) by (simp add: node_page_def node_ok_def)
  let ?m = "NewMetadataPage 0 N"
  have m: "page_image ?m" "ID ?m = 0" "RootPageID ?m = N"
    using NewMetadataPage_image [of 0 N] RootPageID_NewMetadataPage by (auto simp: valid_id_def)
  obtain c w1 where w1: "AllocatePage w = (Ok c, w1)" "st {} V (H(c \<mapsto> NewLeafPage N)) (N + 1) X w1"
    using AllocatePage_rule [OF s] by blast
  obtain d w2 where w2: "newObj q w1 = (Ok d, w2)" "st {} V (H(c \<mapsto> NewLeafPage N, d \<mapsto> q)) (N + 1) X w2"
    using newObj_rule [OF w1(2)] by blast
  obtain w3 where w3: "writePage d w2 = (Ok (), w3)" "st {} (V(N \<mapsto> q)) (H(c \<mapsto> NewLeafPage N, d \<mapsto> q)) (N + 1) X w3"
    using write_rule_clean [OF w2(2), of d q] wf N' q(3) by auto
  obtain e w4 where w4: "newObj ?m w3 = (Ok e, w4)"
      "st {} (V(N \<mapsto> q)) (H(c \<mapsto> NewLeafPage N, d \<mapsto> q, e \<mapsto> ?m)) (N + 1) X w4"
    using newObj_rule [OF w3(2)] by blast
  obtain w5 where w5: "writePage e w4 = (Ok (), w5)"
      "st {} (V(N \<mapsto> q, 0 \<mapsto> ?m)) (H(c \<mapsto> NewLeafPage N, d \<mapsto> q, e \<mapsto> ?m)) (N + 1) X w5"
    using cached.write_rule [OF TrueI w4(2), of e ?m] m(1,2) by auto
  obtain w6 X' where w6: "smod (\<lambda>t. t\<lparr>rootID := N\<rparr>) w5 = (Ok (), w6)"
      "st {} (V(N \<mapsto> q, 0 \<mapsto> ?m)) (H(c \<mapsto> NewLeafPage N, d \<mapsto> q, e \<mapsto> ?m)) (N + 1) X' w6"
      "rootID w6 = N" "unique w6 = unique w5" "entrySize w6 = entrySize w5"
    using setRoot_rule [OF w5(2), of N] by blast
  have "deref c w1 = (Ok (NewLeafPage N), w1)" using deref_rule [OF w1(2)] by simp
  moreover have "ID (NewLeafPage N) = N" using NewLeafPage_spec(3) [of N] by (simp add: header_def)
  ultimately have run: "propagateSplit a b s [] w = (Ok (), w6)"
    using deref_rule [OF s a(1)] deref_rule [OF s a(3)] w1(1) q(1,3) w2(1) w3(1) w4(1) w5(1) w6(1) a(2,4)
    by (simp add: propagateSplit.simps exec_simps)
  have "tree_in K (Suc g) (Node N [s] [l, r]) (V(N \<mapsto> q, 0 \<mapsto> ?m)) (N + 1)"
    using split_in_root [OF sp N(2) _ q(2) m(3)] N' by blast
  then have "tree_inv K (Suc g) (Node N [s] [l, r]) w6"
    using tree_in_mono [OF _ st_le_known [OF w6(2)]] w6(3) st_sound [OF w6(2)] st_next [OF w6(2)]
    by (simp add: tree_inv_def)
  moreover have "store.more w5 = store.more w" using st_more [OF w5(2)] st_more [OF s] by simp
  ultimately show ?thesis using run st_next [OF w6(2)] w6 more_fields [of w5 w] by simp
qed

section \<open>One level up\<close>

lemma propagate_parent:
  assumes s: "st {} V H N X w" and a: "H a = Some pl" "H b = Some pr" "ID pr = v" and q: "V i = Some q"
  shows "\<exists>c w1. st {} V (H(c \<mapsto> q)) N X w1 \<and> propagateSplit a b s (anc @ [i]) w =
    (if HasSpaceFor q (length (s @ encodeChildID v)) then
       sbind (mutate c (insertSeparator s (s @ encodeChildID v))) (\<lambda>_. writePage c) w1
     else
       sbind AllocatePage (\<lambda>newParent.
         sbind (if PageType q = InternalPage
                then mutate2 newParent c (\<lambda>r q. splitInternal q r)
                else sbind (mutate2 newParent c (\<lambda>r q. splitLeaf q r)) (\<lambda>s.
                     sbind (updateNextLeafPrevLink newParent) (\<lambda>_. sret s))) (\<lambda>parentSeparator.
         sbind (smod (\<lambda>t. t\<lparr>pageSplits := pageSplits t + 1\<rparr>)) (\<lambda>_.
         sbind (if CompareKeys s parentSeparator \<ge> 0
                then mutate newParent (insertSeparator s (s @ encodeChildID v))
                else mutate c (insertSeparator s (s @ encodeChildID v))) (\<lambda>_.
         sbind (writePage c) (\<lambda>_.
         sbind (writePage newParent) (\<lambda>_.
         propagateSplit c newParent parentSeparator anc)))))) w1)"
proof -
  obtain c w1 where w1: "readPage i w = (Ok c, w1)" "st {} V (H(c \<mapsto> q)) N X w1"
    using cached.read_rule [OF TrueI s _ q] by blast
  have dc: "deref c w1 = (Ok q, w1)" using deref_rule [OF w1(2)] by simp
  show ?thesis
    unfolding a(3) [symmetric] using w1 deref_rule [OF s a(1)] deref_rule [OF s a(2)] dc
    by (intro exI [of _ c] exI [of _ w1]) (simp add: propagateSplit.simps [of a b s "anc @ [i]"] Let_def exec_simps)
qed

text \<open>The new entry goes into one of the two halves of a page, neither of them written yet.\<close>

lemma half_rule:
  assumes s: "st {i, N} V H M X w" and H: "H a = Some p1" "H b = Some p2" and ab: "b \<noteq> a"
    and half: "if right then ins p2 = Ok q2 \<and> q1 = p1 else ins p1 = Ok q1 \<and> q2 = p2"
    and wf: "wf_page q1" "wf_page q2" and ids: "ID p1 = i" "ID q1 = i" "ID p2 = N" "ID q2 = N" "valid_id i" "valid_id N"
  shows "\<exists>w' H'. (if right then mutate b ins else mutate a ins) w = (Ok (), w') \<and> st {i, N} V H' M X w' \<and> H' a = Some q1 \<and> H' b = Some q2"
proof (cases right)
  case True
  obtain w' where w': "mutate b ins w = (Ok (), w')" "st (insert N {i, N}) V (H(b \<mapsto> q2)) M X w'"
    using mutate_rule [OF s H(2), of ins q2] True half ids wf by auto
  have "insert N {i, N} = {i, N}" by auto
  with w' True half ab H(1) show ?thesis by (intro exI [of _ w'] exI [of _ "H(b \<mapsto> q2)"]) auto
next
  case False
  obtain w' where w': "mutate a ins w = (Ok (), w')" "st (insert i {i, N}) V (H(a \<mapsto> q1)) M X w'"
    using mutate_rule [OF s H(1), of ins q1] False half ids wf by auto
  have "insert i {i, N} = {i, N}" by auto
  with w' False half ab H(2) show ?thesis by (intro exI [of _ w'] exI [of _ "H(a \<mapsto> q1)"]) auto
qed

text \<open>The pages of a full parent: allocate, split, count, insert, write; \<open>F\<close> is what follows.\<close>

lemma split_parent_rule:
  assumes s: "st {} V H N X w" and c: "H c = Some q" "ID q = i" "valid_id i" and N: "valid_id N"
    and sp: "splitInternal q (NewLeafPage N) = Ok (sep, p2, p1)" "wf_page p1" "wf_page p2" "wf_page q1" "wf_page q2"
    and half: "if CompareKeys s sep \<ge> 0 then ins p2 = Ok q2 \<and> q1 = p1 else ins p1 = Ok q1 \<and> q2 = p2"
    and ids: "ID p1 = i" "ID q1 = i" "ID p2 = N" "ID q2 = N"
  shows "\<exists>d w' H' X'. (\<forall>F. sbind AllocatePage (\<lambda>d. sbind (mutate2 d c (\<lambda>r q. splitInternal q r)) (\<lambda>ps.
      sbind (smod (\<lambda>t. t\<lparr>pageSplits := pageSplits t + 1\<rparr>)) (\<lambda>_.
      sbind (if CompareKeys s ps \<ge> 0 then mutate d ins else mutate c ins) (\<lambda>_.
      sbind (writePage c) (\<lambda>_. sbind (writePage d) (\<lambda>_. F d ps)))))) w = (F d sep :: (BTree, unit) op) w') \<and>
    st {} (V(i \<mapsto> q1, N \<mapsto> q2)) H' (N + 1) X' w' \<and> H' c = Some q1 \<and> H' d = Some q2 \<and>
    rootID w' = rootID w \<and> unique w' = unique w \<and> entrySize w' = entrySize w"
proof -
  let ?L = "NewLeafPage N"
  have idL: "ID ?L = N" using NewLeafPage_spec(3) [of N] by (simp add: header_def)
  obtain d w2 where w2: "AllocatePage w = (Ok d, w2)" "H d = None" "st {} V (H(d \<mapsto> ?L)) (N + 1) X w2"
    using AllocatePage_rule [OF s] by blast
  have dc: "d \<noteq> c" using w2(2) c(1) by auto
  obtain w3 where w3: "mutate2 d c (\<lambda>r q. splitInternal q r) w2 = (Ok sep, w3)" "st {i, N} V (H(d \<mapsto> ?L, d \<mapsto> p2, c \<mapsto> p1)) (N + 1) X w3"
    using mutate2_rule [OF w2(3), of d ?L c q "\<lambda>r q. splitInternal q r" sep p2 p1] dc sp ids idL c N by auto
  obtain w4 X4 where w4: "smod (\<lambda>t. t\<lparr>pageSplits := pageSplits t + 1\<rparr>) w3 = (Ok (), w4)"
      "st {i, N} V (H(d \<mapsto> ?L, d \<mapsto> p2, c \<mapsto> p1)) (N + 1) X4 w4"
      "rootID w4 = rootID w3" "unique w4 = unique w3" "entrySize w4 = entrySize w3"
    using setSplits_rule [OF w3(2)] by blast
  have H4: "(H(d \<mapsto> ?L, d \<mapsto> p2, c \<mapsto> p1)) c = Some p1" "(H(d \<mapsto> ?L, d \<mapsto> p2, c \<mapsto> p1)) d = Some p2" using dc by simp_all
  obtain w5 H5 where w5: "(if CompareKeys s sep \<ge> 0 then mutate d ins else mutate c ins) w4 = (Ok (), w5)"
      "st {i, N} V H5 (N + 1) X4 w5" "H5 c = Some q1" "H5 d = Some q2"
    using half_rule [OF w4(2) H4 dc half sp(4,5) ids c(3) N] by blast
  obtain w6 where w6: "writePage c w5 = (Ok (), w6)" "st ({i, N} - {i}) (V(i \<mapsto> q1)) H5 (N + 1) X4 w6"
    using write_rule_clean [OF w5(2,3) sp(4)] ids c by auto
  obtain w7 where w7: "writePage d w6 = (Ok (), w7)" "st ({i, N} - {i} - {N}) (V(i \<mapsto> q1, N \<mapsto> q2)) H5 (N + 1) X4 w7"
    using write_rule_clean [OF w6(2) w5(4) sp(5)] ids N by auto
  have T: "{i, N} - {i} - {N} = {}" by auto
  have "store.more w3 = store.more w" "store.more w7 = store.more w4"
    using st_more [OF w3(2)] st_more [OF s] st_more [OF w7(2)] st_more [OF w4(2)] by simp_all
  then have keep: "rootID w7 = rootID w" "unique w7 = unique w" "entrySize w7 = entrySize w"
    using w4(3-5) more_fields [of w3 w] more_fields [of w7 w4] by simp_all
  show ?thesis
    by (rule exI [of _ d], rule exI [of _ w7], rule exI [of _ H5], rule exI [of _ X4])
      (use w2(1) w3(1) w4(1) w5(1,3,4) w6(1) w7 [unfolded T] keep in \<open>simp add: sbind_Ok\<close>)
qed

text \<open>What the frame of the parent says about its page and the place of the new separator.\<close>

lemma split_in_parent_page:
  assumes sp: "split_in K g ((i, ss, cs, j) # fs) l s r V N"
  obtains q where "V i = Some q" "node_page K q ss ((map tid cs)[j := tid l])"
    and "sorted_wrt (<) ss" "j \<le> length ss" "0 < j \<Longrightarrow> ss ! (j - 1) < s" "j < length ss \<Longrightarrow> s < ss ! j" "j < length cs"
    and "i \<noteq> 0" "i < N" "length s = K" "lowerIdx ss s = j"
proof -
  have p: "sorted_wrt (<) ss" "j \<le> length ss" "0 < j \<Longrightarrow> ss ! (j - 1) < s" "j < length ss \<Longrightarrow> s < ss ! j" "j < length cs"
      "i \<noteq> 0" "i < N" "length s = K"
    using sp by (auto simp: split_in_def split_ready_def above_def)
  have "lowerIdx ss s = j" using p by (intro lowerIdx_unique) (auto simp: strict_sorted_iff)
  with p that sp show ?thesis by (auto simp: split_in_def)
qed

lemma propagate_room:
  assumes s: "st {} V H N X w" and sp: "split_in K g ((i, ss, cs, j) # fs) l s r V N"
    and a: "H a = Some pl" "H b = Some pr" "ID pr = tid r" and q: "V i = Some q" "HasSpaceFor q (K + 8)"
    and root: "V 0 = Some m" "RootPageID m = tid (plug l ((i, ss, cs, j) # fs))"
    and N: "valid_id N" "rootID w = tid (plug l ((i, ss, cs, j) # fs))"
  shows "\<exists>w'. propagateSplit a b s (rev (map fst fs) @ [i]) w = (Ok (), w') \<and>
    tree_inv K (Suc g + length fs) (plug (Node i (insert_nth j s ss) (twoAt j l r cs)) fs) w' \<and>
    nextPageID (pm w') = N \<and> store.more w' = store.more w"
proof -
  obtain q0 where p: "V i = Some q0" "node_page K q0 ss ((map tid cs)[j := tid l])" "j < length cs" "i < N" "length s = K"
      "lowerIdx ss s = j"
    using split_in_parent_page [OF sp] by metis
  with q(1) have np: "node_page K q ss ((map tid cs)[j := tid l])" by simp
  let ?e = "s @ encodeChildID (tid r)"
  have len: "length ?e = K + 8" using p(5) by (simp add: encodeChildID_def)
  obtain c w1 where w1: "st {} V (H(c \<mapsto> q)) N X w1"
      "propagateSplit a b s (rev (map fst fs) @ [i]) w = sbind (mutate c (insertSeparator s ?e)) (\<lambda>_. writePage c) w1"
    using propagate_parent [OF s a q(1), of s "rev (map fst fs)"] q(2) len by (simp only: if_True) blast
  obtain q' where q': "insertSeparator s ?e q = Ok q'" "header q' = header q"
      "node_page K q' (insert_nth j s ss) (map tid (twoAt j l r cs))"
    using insertSeparator_spec [OF np p(5) q(2) p(6), of "tid r"] map_tid_twoAt [OF p(3), of r "tid r" l] by auto
  have ids: "ID q = i" "ID q' = i" using st_image [OF s _ q(1)] header_same [OF q'(2)] by auto
  have wf: "wf_page q'" "valid_id i" using q'(3) N(1) p(4) valid_id_less by (auto simp: node_page_def node_ok_def)
  obtain w2 where w2: "mutate c (insertSeparator s ?e) w1 = (Ok (), w2)" "st {i} V (H(c \<mapsto> q')) N X w2"
    using mutate_rule [OF w1(1), of c q "insertSeparator s ?e" q'] q'(1) ids wf by auto
  obtain w3 where w3: "writePage c w2 = (Ok (), w3)" "st {} (V(i \<mapsto> q')) (H(c \<mapsto> q')) N X w3"
    using write_rule_clean [OF w2(2), of c q'] wf ids by auto
  have "tree_in K (Suc g + length fs) (plug (Node i (insert_nth j s ss) (twoAt j l r cs)) fs) (V(i \<mapsto> q')) N"
    using grown_tree [OF sp q'(3) root] .
  moreover have more: "store.more w3 = store.more w" using st_more [OF w3(2)] st_more [OF s] by simp
  moreover have "rootID w3 = tid (plug (Node i (insert_nth j s ss) (twoAt j l r cs)) fs)"
    using more_fields [OF more] N(2) by (simp add: tid_plug_last)
  ultimately show ?thesis
    using w1(2) w2(1) w3 tree_in_mono [OF _ st_le_known [OF w3(2)]] st_next [OF w3(2)] st_sound [OF w3(2)]
    by (simp add: tree_inv_def exec_simps)
qed

lemma propagate_full:
  assumes s: "st {} V H N X w" and sp: "split_in K g ((i, ss, cs, j) # fs) l s r V N" and K: "K \<le> 16"
    and a: "H a = Some pl" "H b = Some pr" "ID pr = tid r" and q: "V i = Some q" "\<not> HasSpaceFor q (K + 8)"
    and N: "valid_id N"
  defines "SS \<equiv> insert_nth j s ss" and "CS \<equiv> twoAt j l r cs"
  shows "\<exists>m c d q1 q2 H' X' w'. propagateSplit a b s (rev (map fst fs) @ [i]) w = propagateSplit c d (SS ! m) (rev (map fst fs)) w' \<and>
    st {} (V(i \<mapsto> q1, N \<mapsto> q2)) H' (N + 1) X' w' \<and> H' c = Some q1 \<and> ID q1 = i \<and> H' d = Some q2 \<and> ID q2 = N \<and>
    0 < m \<and> m < length SS \<and> minRows K \<le> m \<and> m + Suc (minRows K) \<le> length SS \<and> node_page K q1 (take m SS) (map tid (take (Suc m) CS)) \<and>
    node_page K q2 (drop (Suc m) SS) (map tid (drop (Suc m) CS)) \<and>
    rootID w' = rootID w \<and> unique w' = unique w \<and> entrySize w' = entrySize w"
proof -
  obtain q0 where p: "V i = Some q0" "node_page K q0 ss ((map tid cs)[j := tid l])"
      "sorted_wrt (<) ss" "j \<le> length ss" "0 < j \<Longrightarrow> ss ! (j - 1) < s" "j < length ss \<Longrightarrow> s < ss ! j" "j < length cs"
      "i < N" "length s = K"
    using split_in_parent_page [OF sp] by metis
  with q(1) have np: "node_page K q ss ((map tid cs)[j := tid l])" by simp
  let ?e = "s @ encodeChildID (tid r)" and ?L = "NewLeafPage N"
  have len: "length ?e = K + 8" using p(9) by (simp add: encodeChildID_def)
  have ty: "PageType q = InternalPage" and idq: "ID q = i" and idL: "ID ?L = N"
    using np st_image [OF s _ q(1)] NewLeafPage_spec(3) [of N] by (auto simp: node_page_def header_def)
  have vs: "insert_nth (Suc j) (tid r) ((map tid cs)[j := tid l]) = map tid CS"
    using map_tid_twoAt [OF p(7)] by (simp add: CS_def)
  obtain m p1 p2 q1 q2 where sp1: "splitInternal q ?L = Ok (SS ! m, p2, p1)" "0 < m" "m < length SS"
      "if CompareKeys s (SS ! m) \<ge> 0 then insertSeparator s ?e p2 = Ok q2 \<and> q1 = p1
       else insertSeparator s ?e p1 = Ok q1 \<and> q2 = p2"
      "node_page K q1 (take m SS) (map tid (take (Suc m) CS))" "node_page K q2 (drop (Suc m) SS) (map tid (drop (Suc m) CS))"
      "header p1 = header q" "header q1 = header q" "ID p2 = N" "ID q2 = N" "wf_page p1" "wf_page p2"
      "minRows K \<le> m" "m + Suc (minRows K) \<le> length SS"
    using splitInsert_page [OF np q(2) p(9) K p(3-6), where v = "tid r" and r = ?L] unfolding SS_def [symmetric] vs idL
    by (auto simp: take_map drop_map)
  have ids: "ID p1 = i" "ID q1 = i" using header_same [OF sp1(7)] header_same [OF sp1(8)] idq by auto
  have wf: "wf_page q1" "wf_page q2" using sp1(5,6) by (simp_all add: node_page_def node_ok_def)
  have vi: "valid_id i" using N p(8) valid_id_less by auto
  obtain c w1 where w1: "st {} V (H(c \<mapsto> q)) N X w1"
      "propagateSplit a b s (rev (map fst fs) @ [i]) w =
        sbind AllocatePage (\<lambda>d. sbind (mutate2 d c (\<lambda>r q. splitInternal q r)) (\<lambda>ps.
         sbind (smod (\<lambda>t. t\<lparr>pageSplits := pageSplits t + 1\<rparr>)) (\<lambda>_.
         sbind (if CompareKeys s ps \<ge> 0 then mutate d (insertSeparator s ?e) else mutate c (insertSeparator s ?e)) (\<lambda>_.
         sbind (writePage c) (\<lambda>_. sbind (writePage d) (\<lambda>_. propagateSplit c d ps (rev (map fst fs)))))))) w1"
    using propagate_parent [OF s a q(1), of s "rev (map fst fs)"] q(2) len ty by (simp only: if_False if_True simp_thms) blast
  obtain d w7 H5 X4 where run: "\<And>F. sbind AllocatePage (\<lambda>d. sbind (mutate2 d c (\<lambda>r q. splitInternal q r)) (\<lambda>ps.
      sbind (smod (\<lambda>t. t\<lparr>pageSplits := pageSplits t + 1\<rparr>)) (\<lambda>_.
      sbind (if CompareKeys s ps \<ge> 0 then mutate d (insertSeparator s ?e) else mutate c (insertSeparator s ?e)) (\<lambda>_.
      sbind (writePage c) (\<lambda>_. sbind (writePage d) (\<lambda>_. F d ps)))))) w1 = (F d (SS ! m) :: (BTree, unit) op) w7"
    and w7: "st {} (V(i \<mapsto> q1, N \<mapsto> q2)) H5 (N + 1) X4 w7" "H5 c = Some q1" "H5 d = Some q2"
      "rootID w7 = rootID w1" "unique w7 = unique w1" "entrySize w7 = entrySize w1"
    using split_parent_rule [OF w1(1) fun_upd_same idq vi N sp1(1,11,12) wf, where ins = "insertSeparator s ?e",
        OF sp1(4) ids sp1(9,10)] by blast
  have "propagateSplit a b s (rev (map fst fs) @ [i]) w = propagateSplit c d (SS ! m) (rev (map fst fs)) w7" unfolding w1(2) by (rule run)
  moreover have "store.more w1 = store.more w" using st_more [OF w1(1)] st_more [OF s] by simp
  ultimately show ?thesis using w7 more_fields [of w1 w] ids(2) sp1(2,3,5,6,10,13,14) by (simp only:) blast
qed

section \<open>All the way\<close>

text \<open>
  What the propagation of a split leaves: a tree with the contents around and in the two halves, at most one level higher,
  with at most one new page per level, and half full if the halves and the rest were.
\<close>

definition propagated :: "nat \<Rightarrow> nat \<Rightarrow> bframe list \<Rightarrow> btree \<Rightarrow> btree \<Rightarrow> PageID \<Rightarrow> BTree \<Rightarrow> BTree \<Rightarrow> nat \<Rightarrow> btree \<Rightarrow> bool" where
  "propagated K g fs l r N w w' h' t' \<longleftrightarrow> tree_inv K h' t' w' \<and>
     contents t' = lefts contents fs @ contents l @ contents r @ rights contents fs \<and>
     (h' = g + length fs \<or> h' = Suc (g + length fs)) \<and>
     unat (nextPageID (pm w')) \<le> unat N + length fs + 1 \<and> unique w' = unique w \<and> entrySize w' = entrySize w \<and>
     (half (minRows K) l \<longrightarrow> half (minRows K) r \<longrightarrow> ctx_filled (minRows K) fs \<longrightarrow> filled (minRows K) t')"

lemma contents_beside_two:
  "lefts contents fs @ concat (map contents (twoAt j l r cs)) @ rights contents fs =
   lefts contents ((i, ss, cs, j) # fs) @ contents l @ contents r @ rights contents ((i, ss, cs, j) # fs)"
  by (simp add: concat_twoAt)

lemma half_children:
  assumes "j < length cs" "half m l" "half m r" "ctx_filled m ((i, ss, cs, j) # fs)"
  shows "\<forall>c \<in> set (twoAt j l r cs). half m c" "\<forall>c \<in> set (take k (twoAt j l r cs)). half m c" "\<forall>c \<in> set (drop k (twoAt j l r cs)). half m c"
proof -
  show all: "\<forall>c \<in> set (twoAt j l r cs). half m c" using assms set_twoAt [OF assms(1), of l r] by auto
  show "\<forall>c \<in> set (take k (twoAt j l r cs)). half m c" "\<forall>c \<in> set (drop k (twoAt j l r cs)). half m c"
    using all by (meson in_set_takeD in_set_dropD)+
qed

lemma propagated_room:
  assumes inv: "tree_inv K (Suc g + length fs) (plug (Node i (insert_nth j s ss) (twoAt j l r cs)) fs) w'" and fo: "frames_ok fs"
    and j: "j < length cs" and K: "K \<le> 16" and w': "nextPageID (pm w') = N" "store.more w' = store.more w"
  shows "propagated K g ((i, ss, cs, j) # fs) l r N w w' (Suc g + length fs) (plug (Node i (insert_nth j s ss) (twoAt j l r cs)) fs)"
proof -
  let ?t = "plug (Node i (insert_nth j s ss) (twoAt j l r cs)) fs"
  have "contents ?t = lefts contents ((i, ss, cs, j) # fs) @ contents l @ contents r @ rights contents ((i, ss, cs, j) # fs)"
    unfolding contents_beside_two [symmetric] using plug_contents [OF fo, of "Node i (insert_nth j s ss) (twoAt j l r cs)"] by simp
  moreover have "filled (minRows K) ?t" if full: "half (minRows K) l" "half (minRows K) r" "ctx_filled (minRows K) ((i, ss, cs, j) # fs)"
  proof -
    have "insert_nth j s ss \<noteq> []" "minRows K \<le> length ss \<Longrightarrow> minRows K \<le> length (insert_nth j s ss)" by (simp_all add: insert_nth_def [of j s ss])
    with half_children(1) [OF j full] full(3) show ?thesis by (auto simp: plug_filled [OF fo minRows_pos [OF K]])
  qed
  ultimately show ?thesis using inv w'(1) more_fields [OF w'(2)] by (simp add: propagated_def)
qed

lemma propagated_up:
  assumes up: "propagated K (Suc g) fs (Node i (take n SS) (take (Suc n) (twoAt j l r cs))) (Node N (drop (Suc n) SS) (drop (Suc n) (twoAt j l r cs)))
      (N + 1) w1 w' h' t'" (is "propagated _ _ _ ?l ?r _ _ _ _ _")
    and j: "j < length cs" and n: "n < length SS" "minRows K \<le> n" "n + Suc (minRows K) \<le> length SS"
    and N: "unat (N + 1) = unat N + 1" and w1: "unique w1 = unique w" "entrySize w1 = entrySize w"
  shows "propagated K g ((i, ss, cs, j) # fs) l r N w w' h' t'"
proof -
  have "contents ?l @ contents ?r = concat (map contents (twoAt j l r cs))"
    using arg_cong [OF append_take_drop_id [of "Suc n" "twoAt j l r cs"], of "\<lambda>cs. concat (map contents cs)"]
    by (simp only: contents.simps map_append concat_append)
  moreover have "contents t' = lefts contents fs @ (contents ?l @ contents ?r) @ rights contents fs" using up by (simp add: propagated_def)
  ultimately have "contents t' = lefts contents ((i, ss, cs, j) # fs) @ contents l @ contents r @ rights contents ((i, ss, cs, j) # fs)"
    unfolding contents_beside_two [symmetric] by (simp only:)
  moreover have "filled (minRows K) t'" if full: "half (minRows K) l" "half (minRows K) r" "ctx_filled (minRows K) ((i, ss, cs, j) # fs)"
  proof -
    have "half (minRows K) ?l" "half (minRows K) ?r" using half_children(2,3) [OF j full, of "Suc n"] n by simp_all
    with up full(3) show ?thesis by (simp add: propagated_def)
  qed
  ultimately show ?thesis using up N w1 by (auto simp: propagated_def)
qed

lemma propagateSplit_spec:
  assumes "st {} V H N X w" "split_in K g fs l s r V N" "K \<le> 16"
    and "H a = Some pl" "ID pl = tid l" "H b = Some pr" "ID pr = tid r"
    and "unat N + length fs + 1 < 2 ^ 51" "N \<noteq> 0"
    and "V 0 = Some m" "RootPageID m = tid (plug l fs)" "rootID w = tid (plug l fs)"
  shows "\<exists>w' t' h'. propagateSplit a b s (rev (map fst fs)) w = (Ok (), w') \<and> propagated K g fs l r N w w' h' t'"
  using assms
proof (induction fs arbitrary: g l s r V H N X w a b pl pr)
  case Nil
  have N: "unat N + 1 < 2 ^ 51" using Nil.prems(8) by simp
  obtain w' where "propagateSplit a b s [] w = (Ok (), w')" "tree_inv K (Suc g) (Node N [s] [l, r]) w'"
      "nextPageID (pm w') = N + 1" "unique w' = unique w" "entrySize w' = entrySize w"
    using propagate_root [OF Nil.prems(1-7) N Nil.prems(9)] by blast
  with valid_id_succ [OF N] show ?case
    by (intro exI [of _ w'] exI [of _ "Node N [s] [l, r]"] exI [of _ "Suc g"]) (simp add: propagated_def)
next
  case (Cons f fs)
  obtain i ss cs j where f: "f = (i, ss, cs, j)" by (cases f)
  note sp = Cons.prems(2) [unfolded f]
  note root = Cons.prems(11,12) [unfolded f]
  have N: "unat N + 1 < 2 ^ 51" using Cons.prems(8) by simp
  note N' = valid_id_succ [OF N]
  let ?SS = "insert_nth j s ss" and ?CS = "twoAt j l r cs"
  have fo: "frames_ok fs" using split_in_parent(3) [OF sp] by (rule ctx_ordered_frames_ok)
  obtain q where q: "V i = Some q" "j < length cs" "i \<noteq> 0" using split_in_parent_page [OF sp] by metis
  show ?case
  proof (cases "HasSpaceFor q (K + 8)")
    case True
    obtain w' where w': "propagateSplit a b s (rev (map fst fs) @ [i]) w = (Ok (), w')"
        "tree_inv K (Suc g + length fs) (plug (Node i ?SS ?CS) fs) w'" "nextPageID (pm w') = N" "store.more w' = store.more w"
      using propagate_room [OF Cons.prems(1) sp Cons.prems(4,6,7) q(1) True Cons.prems(10) root(1) _ root(2)] N' by blast
    have "propagateSplit a b s (rev (map fst (f # fs))) w = (Ok (), w')" using w'(1) by (simp add: f)
    with propagated_room [OF w'(2) fo q(2) Cons.prems(3) w'(3,4)] show ?thesis unfolding f by blast
  next
    case False
    obtain n c d q1 q2 H' X' w1 where w1:
        "propagateSplit a b s (rev (map fst fs) @ [i]) w = propagateSplit c d (?SS ! n) (rev (map fst fs)) w1"
        "st {} (V(i \<mapsto> q1, N \<mapsto> q2)) H' (N + 1) X' w1" "H' c = Some q1" "ID q1 = i" "H' d = Some q2" "ID q2 = N"
        "0 < n" "n < length ?SS" "node_page K q1 (take n ?SS) (map tid (take (Suc n) ?CS))"
        "node_page K q2 (drop (Suc n) ?SS) (map tid (drop (Suc n) ?CS))"
        "rootID w1 = rootID w" "unique w1 = unique w" "entrySize w1 = entrySize w" "minRows K \<le> n" "n + Suc (minRows K) \<le> length ?SS"
      using propagate_full [OF Cons.prems(1) sp Cons.prems(3,4,6,7) q(1) False] N' by blast
    let ?l = "Node i (take n ?SS) (take (Suc n) ?CS)" and ?r = "Node N (drop (Suc n) ?SS) (drop (Suc n) ?CS)"
    have up: "split_in K (Suc g) fs ?l (?SS ! n) ?r (V(i \<mapsto> q1, N \<mapsto> q2)) (N + 1)"
      using split_in_up [OF sp w1(7,8) Cons.prems(9) _ w1(9,10)] N' by blast
    have V0: "(V(i \<mapsto> q1, N \<mapsto> q2)) 0 = Some m" using q(3) Cons.prems(9,10) by simp
    have tids: "RootPageID m = tid (plug ?l fs)" "rootID w1 = tid (plug ?l fs)" using root w1(11) by (simp_all add: tid_plug_last)
    have N1: "unat (N + 1) + length fs + 1 < 2 ^ 51" "N + 1 \<noteq> 0" using Cons.prems(8) N' by simp_all
    have ids: "ID q1 = tid ?l" "ID q2 = tid ?r" using w1(4,6) by simp_all
    obtain w' t' h' where w': "propagateSplit c d (?SS ! n) (rev (map fst fs)) w1 = (Ok (), w')" "propagated K (Suc g) fs ?l ?r (N + 1) w1 w' h' t'"
      using Cons.IH [OF w1(2) up Cons.prems(3) w1(3) ids(1) w1(5) ids(2) N1 V0 tids] by blast
    have "propagateSplit a b s (rev (map fst (f # fs))) w = (Ok (), w')" using w1(1) w'(1) by (simp add: f)
    with propagated_up [OF w'(2) q(2) w1(8,14,15) _ w1(12,13)] N' show ?thesis unfolding f by blast
  qed
qed

end
