(* ===== verification/Leaf_Insert.thy ===== *)
theory Leaf_Insert
  imports Tree_Insert
begin

text \<open>
  Insertion at the leaf and what follows it, once for every kind of key: the locale \<open>leaf_insert\<close>
  states what a routine that inserts into a single leaf promises, and its lemmas carry the insertion
  through the leaf split, the repair of the leaf chain and the propagation of the split.
\<close>

section \<open>Links\<close>

lemma leaf_page_relink:
  assumes "leaf_page K p kvs"
  shows "leaf_page K (SetPrevLeafPageID p v) kvs" "wf_page (SetPrevLeafPageID p v)"
    "header (SetPrevLeafPageID p v) = (ID p, LeafPage, v, NextLeafPageID p)"
  using assms SetPrevLeaf_spec [of p v]
  by (auto simp: leaf_page_def node_ok_def keys_def header_def)

lemma header_fields:
  "header p = (i, t, l, r) \<longleftrightarrow> ID p = i \<and> PageType p = t \<and> PrevLeafPageID p = l \<and> NextLeafPageID p = r"
  by (simp add: header_def)

text \<open>The chain after leaf \<open>i\<close> has been split into \<open>i\<close> and \<open>n\<close> and the leaf after them relinked.\<close>

lemma chain_split:
  assumes ch: "chain V 0 (xs @ i # ys) 0" and d: "distinct (xs @ i # ys)" "n \<notin> set (xs @ i # ys)"
    and q1: "PrevLeafPageID q1 = PrevLeafPageID p" "NextLeafPageID q1 = n" and p: "V i = Some p"
    and q2: "PrevLeafPageID q2 = i" "NextLeafPageID q2 = NextLeafPageID p"
    and q3: "ys \<noteq> [] \<Longrightarrow> V (hd ys) = Some p3 \<and> V3 = V(hd ys \<mapsto> q3) \<and> PrevLeafPageID q3 = n \<and> NextLeafPageID q3 = NextLeafPageID p3"
    and V3: "ys = [] \<Longrightarrow> V3 = V"
  shows "chain (V3(i \<mapsto> q1, n \<mapsto> q2)) 0 (xs @ i # n # ys) 0"
proof -
  let ?V = "V3(i \<mapsto> q1, n \<mapsto> q2)"
  have c: "chain V 0 xs i" "PrevLeafPageID p = last (0 # xs)" "NextLeafPageID p = hd (ys @ [0])" "chain V i ys 0"
    using ch p by (auto simp: chain_append)
  have "V3 v = V v" if "v \<in> set xs" for v
    using q3 V3 d that by (cases ys) auto
  then have "chain ?V 0 xs i"
    using c(1) d by (subst chain_cong [of xs ?V V]) auto
  moreover have "chain ?V n ys 0"
  proof (cases ys)
    case (Cons y zs)
    note q = q3 [simplified Cons, simplified]
    have "chain ?V y zs 0" using c(4) d q Cons by (subst chain_cong [of zs ?V V]) auto
    with c(4) q d Cons show ?thesis by auto
  qed simp
  moreover have "i \<noteq> n" using d by auto
  ultimately show ?thesis using c(2,3) q1 q2 by (auto simp: chain_append)
qed

section \<open>Replacing a leaf\<close>

lemma plug_leaf_ids:
  assumes "frames_ok fs" "distinct (ids (plug (Leaf i kvs) fs))"
  shows "i \<notin> set (ctx_ids fs)" "distinct (ctx_ids fs)"
    "set (ids (plug (Leaf i kvs) fs)) = insert i (set (ctx_ids fs))"
  using mset_eq_imp_distinct_iff [OF plug_ids [OF assms(1), of "Leaf i kvs"]] assms(2)
    mset_eq_setD [OF plug_ids [OF assms(1), of "Leaf i kvs"]] by auto

lemma distinct_leafIDs: "distinct (ids t) \<Longrightarrow> distinct (leafIDs t)"
  by (simp add: ids_def)

lemma tree_in_update_leaf:
  assumes t: "tree_in K h (plug (Leaf i kvs) fs) V N" and fo: "frames_ok fs" and p: "V i = Some p"
    and p': "leaf_page K p' kvs'" "header p' = header p"
    and o: "sorted_wrt (<) (map fst kvs')" "within fs (fst ` set kvs')"
  shows "tree_in K h (plug (Leaf i kvs') fs) (V(i \<mapsto> p')) N"
proof -
  let ?t = "plug (Leaf i kvs) fs" and ?t' = "plug (Leaf i kvs') fs" and ?V = "V(i \<mapsto> p')"
  have a: "rep K V ?t" "ordered ?t" "balanced ?t h" "distinct (ids ?t)" "\<forall>x \<in> set (ids ?t). x \<noteq> 0 \<and> x < N"
      "chain V 0 (leafIDs ?t) 0" "\<exists>m. V 0 = Some m \<and> RootPageID m = tid ?t"
    using t by (auto simp: tree_in_def)
  note i = plug_leaf_ids [OF fo a(4)]
  have ids: "set (ids ?t') = set (ids ?t)" "distinct (ids ?t')"
    using mset_eq_setD [of "ids ?t'" "ids ?t"] mset_eq_imp_distinct_iff [of "ids ?t'" "ids ?t"]
      plug_ids [OF fo, of "Leaf i kvs"] plug_ids [OF fo, of "Leaf i kvs'"] a(4) by auto
  have "rep_ctx K V fs i" using a(1) plug_rep [OF fo] by simp
  then have "rep_ctx K ?V fs i" using i(1) by (auto intro: rep_ctx_frame)
  then have "rep K ?V ?t'" using plug_rep [OF fo] p'(1) by simp
  moreover have "ordered ?t'" using a(2) plug_ordered [OF fo] o by auto
  moreover have "length fs \<le> h" using plug_depth [OF a(3) fo] .
  then have "balanced ?t' h"
    using plug_balanced [OF fo, of "Leaf i kvs" "h - length fs"] plug_balanced [OF fo, of "Leaf i kvs'" "h - length fs"] a(3)
    by auto
  moreover have "chain ?V 0 (leafIDs ?t') 0"
  proof -
    have l: "leafIDs ?t' = lefts leafIDs fs @ i # rights leafIDs fs" "leafIDs ?t = leafIDs ?t'"
      using plug_leafIDs [OF fo] by auto
    have "chain ?V l xs r = chain V l xs r" for l xs r
      using p header_same [OF p'(2)] by (induction xs arbitrary: l) auto
    then show ?thesis using a(6) l by simp
  qed
  moreover have "?V 0 = V 0" "tid ?t' = tid ?t" using a(5) i(3) by (auto simp: tid_plug_last)
  ultimately show ?thesis using a(5,7) ids by (simp add: tree_in_def)
qed

section \<open>A split leaf\<close>

lemma next_leaf:
  assumes t: "tree_in K h (plug (Leaf i kvs) fs) V N" and fo: "frames_ok fs" and p: "V i = Some p"
  shows "NextLeafPageID p = hd (rights leafIDs fs @ [0])"
    and "rights leafIDs fs \<noteq> [] \<Longrightarrow> \<exists>p3 us. V (hd (rights leafIDs fs)) = Some p3 \<and> leaf_page K p3 us \<and>
      hd (rights leafIDs fs) \<in> set (ctx_ids fs) \<and> hd (rights leafIDs fs) \<noteq> 0 \<and> hd (rights leafIDs fs) < N"
proof -
  let ?t = "plug (Leaf i kvs) fs" and ?ys = "rights leafIDs fs"
  have l: "leafIDs ?t = lefts leafIDs fs @ i # ?ys" using plug_leafIDs [OF fo] by auto
  show "NextLeafPageID p = hd (?ys @ [0])" using t p by (auto simp: tree_in_def l chain_append)
  assume ne: "?ys \<noteq> []"
  then have y: "hd ?ys \<in> set (leafIDs ?t)" using l by auto
  then obtain us where "(hd ?ys, us) \<in> set (leafList ?t)" by (auto simp: leafList_split)
  then have "\<exists>p3. V (hd ?ys) = Some p3 \<and> leaf_page K p3 us" using t rep_leafList by (auto simp: tree_in_def)
  moreover have "hd ?ys \<in> set (ids ?t)" using y leafIDs_ids by blast
  then have "hd ?ys \<noteq> 0" "hd ?ys < N" using t by (auto simp: tree_in_def)
  moreover have "hd ?ys \<in> set (ctx_ids fs)" using ctx_leafIDs [of fs] ne by auto
  ultimately show "\<exists>p3 us. V (hd ?ys) = Some p3 \<and> leaf_page K p3 us \<and> hd ?ys \<in> set (ctx_ids fs) \<and> hd ?ys \<noteq> 0 \<and> hd ?ys < N"
    by blast
qed

lemma sorted_cut:
  assumes "sorted_wrt (<) (map fst kvs)" "m < length kvs"
  shows "\<forall>x \<in> fst ` set (take m kvs). x < fst (kvs ! m)" "\<forall>x \<in> fst ` set (drop m kvs). fst (kvs ! m) \<le> (x :: 'k::linorder)"
proof -
  have nth: "fst (kvs ! a) < fst (kvs ! b)" if "a < b" "b < length kvs" for a b
    using sorted_wrt_less_nth [OF assms(1), of a b] that by simp
  show "\<forall>x \<in> fst ` set (take m kvs). x < fst (kvs ! m)"
  proof
    fix x assume "x \<in> fst ` set (take m kvs)"
    then obtain n where "n < m" "x = fst (kvs ! n)" by (force simp: in_set_conv_nth)
    with nth [of n m] assms(2) show "x < fst (kvs ! m)" by simp
  qed
  show "\<forall>x \<in> fst ` set (drop m kvs). fst (kvs ! m) \<le> x"
  proof
    fix x assume "x \<in> fst ` set (drop m kvs)"
    then obtain y where y: "y \<in> set (drop m kvs)" "x = fst y" by auto
    then obtain n where "m + n < length kvs" "y = kvs ! (m + n)" using in_set_drop_nth by metis
    with y(2) nth [of m "m + n"] show "fst (kvs ! m) \<le> x" by (cases n) auto
  qed
qed

text \<open>A leaf on a path cut before its row \<open>m\<close>.\<close>

lemma leaf_halves_ready:
  assumes us: "sorted_wrt (<) (map fst us)" "within fs (fst ` set us)" and co: "ctx_ordered fs" and m: "0 < m" "m < length us"
  shows "split_ready fs (Leaf i (take m us)) (fst (us ! m)) (Leaf n (drop m us))"
proof -
  let ?s = "fst (us ! m)"
  have "\<forall>x \<in> fst ` set (take m us). x < ?s" "\<forall>x \<in> fst ` set (drop m us). ?s \<le> x"
    using sorted_cut [OF us(1) m(2)] by blast+
  moreover have "sorted_wrt (<) (map fst (take m us))" "sorted_wrt (<) (map fst (drop m us))"
    using us(1) by (simp_all add: sorted_wrt_take sorted_wrt_drop flip: take_map drop_map)
  moreover have "within fs (insert ?s (fst ` set (take m us) \<union> fst ` set (drop m us)))"
    using m(2) by (intro within_mono [OF us(2)]) (auto dest: in_set_takeD in_set_dropD)
  moreover have "above fs ?s"
  proof (cases fs)
    case (Cons f gs)
    obtain i' ss cs j where f: "f = (i', ss, cs, j)" by (cases f)
    have "fst (us ! 0) \<in> fst ` set us" using m nth_mem [of 0 us] order.strict_trans [OF m] by blast
    then have "0 < j \<Longrightarrow> ss ! (j - 1) \<le> fst (us ! 0)" using us(2) by (auto simp: Cons f)
    moreover have "fst (us ! 0) < ?s" using sorted_wrt_less_nth [OF us(1), of 0 m] m nth_map [of 0 us fst] order.strict_trans [OF m] by simp
    ultimately show ?thesis by (auto simp: above_def Cons f)
  qed (simp add: above_def)
  ultimately show ?thesis using co by (simp add: split_ready_def)
qed

text \<open>The pages around a split leaf hold the same rows after the next leaf was relinked.\<close>

lemma relinked_same:
  assumes x: "x \<noteq> i" "x \<noteq> N"
    and next_page: "ys \<noteq> [] \<Longrightarrow> \<exists>us. leaf_page K p3 us"
    and V3: "ys = [] \<Longrightarrow> V3 = V" "ys \<noteq> [] \<Longrightarrow> V (hd ys) = Some p3 \<and> V3 = V(hd ys \<mapsto> SetPrevLeafPageID p3 v)"
  shows "same_leaf (V x) ((V3(i \<mapsto> q1, N \<mapsto> q2)) x)"
proof (cases "ys \<noteq> [] \<and> x = hd ys")
  case True
  obtain us where u: "leaf_page K p3 us" using next_page True by auto
  have "(V3(i \<mapsto> q1, N \<mapsto> q2)) x = Some (SetPrevLeafPageID p3 v)" using V3(2) True x by auto
  then show ?thesis
    using True V3(2) u leaf_page_relink [OF u, of v] by (auto simp: same_leaf_def leaf_page_def)
next
  case False
  then have "(V3(i \<mapsto> q1, N \<mapsto> q2)) x = V x" using x V3 by (cases "ys = []") auto
  then show ?thesis by simp
qed

text \<open>The two halves of a leaf, with the leaf after them relinked: ready to be propagated.\<close>

lemma split_in_leaf:
  assumes t: "tree_in K h (plug (Leaf i kvs) fs) V N" and co: "ctx_ordered fs" and h: "length fs = h"
    and p: "V i = Some p" and N: "N \<noteq> 0" "N + 1 \<noteq> 0"
    and us: "sorted_wrt (<) (map fst us)" "within fs (fst ` set us)" "\<forall>kv \<in> set us. length (fst kv) = K"
    and m: "0 < m" "m < length us"
    and q1: "leaf_page K q1 (take m us)" "header q1 = (i, LeafPage, PrevLeafPageID p, N)"
    and q2: "leaf_page K q2 (drop m us)" "header q2 = (N, LeafPage, i, NextLeafPageID p)"
    and V3: "rights leafIDs fs = [] \<Longrightarrow> V3 = V"
      "rights leafIDs fs \<noteq> [] \<Longrightarrow> V (hd (rights leafIDs fs)) = Some p3 \<and>
         V3 = V(hd (rights leafIDs fs) \<mapsto> SetPrevLeafPageID p3 N)"
  shows "split_in K 0 fs (Leaf i (take m us)) (fst (us ! m)) (Leaf N (drop m us)) (V3(i \<mapsto> q1, N \<mapsto> q2)) (N + 1)"
proof -
  let ?ys = "rights leafIDs fs" and ?V = "V3(i \<mapsto> q1, N \<mapsto> q2)"
  let ?l = "Leaf i (take m us)" and ?r = "Leaf N (drop m us)" and ?s = "fst (us ! m)"
  note fo = ctx_ordered_frames_ok [OF co]
  have a: "rep K V (plug (Leaf i kvs) fs)" "distinct (ids (plug (Leaf i kvs) fs))"
      "\<forall>x \<in> set (ids (plug (Leaf i kvs) fs)). x \<noteq> 0 \<and> x < N" "chain V 0 (leafIDs (plug (Leaf i kvs) fs)) 0"
      "balanced (plug (Leaf i kvs) fs) (0 + length fs)"
    using t h by (auto simp: tree_in_def)
  note i = plug_leaf_ids [OF fo a(2)]
  have lt: "x \<noteq> 0 \<and> x < N" if "x \<in> insert i (set (ctx_ids fs))" for x using a(3) i(3) that by blast
  have n: "N \<notin> insert i (set (ctx_ids fs))" using lt by blast
  note nl = next_leaf [OF t fo p]
  have leaves: "leafIDs (plug (Leaf i kvs) fs) = lefts leafIDs fs @ i # ?ys" using plug_leafIDs [OF fo] by auto
  have next_page: "?ys \<noteq> [] \<Longrightarrow> \<exists>us. leaf_page K p3 us" using nl(2) V3(2) by auto
  have same: "same_leaf (V x) (?V x)" if x: "x \<in> set (ctx_ids fs)" for x
    by (rule relinked_same [OF _ _ next_page V3]) (use x i(1) n in auto)
  have "rep_ctx K ?V fs i"
    using a(1) plug_rep [OF fo, of K V "Leaf i kvs"] same by (auto intro: rep_ctx_frame)
  moreover have "rep K ?V ?l" "rep K ?V ?r" using q1(1) q2(1) n by auto
  moreover have "split_ready fs ?l ?s ?r" by (rule leaf_halves_ready [OF us(1,2) co m])
  moreover have "length ?s = K" using us(3) m(2) by simp
  moreover have "ctx_balanced fs 0" using a(5) plug_balanced [OF fo] by blast
  moreover have "distinct (ids ?l @ ids ?r @ ctx_ids fs)" using i n by auto
  moreover have "\<forall>x \<in> set (ids ?l @ ids ?r @ ctx_ids fs). x \<noteq> 0 \<and> x < N + 1"
    using lt next_id_less [OF N(2)] N(1) by (auto intro: order.strict_trans)
  moreover have "chain ?V 0 (lefts leafIDs fs @ i # N # ?ys) 0"
  proof (rule chain_split [where p = p and ?p3.0 = p3 and ?q3.0 = "SetPrevLeafPageID p3 N"])
    show "chain V 0 (lefts leafIDs fs @ i # ?ys) 0" using a(4) leaves by simp
    show "distinct (lefts leafIDs fs @ i # ?ys)" using distinct_leafIDs [OF a(2)] leaves by simp
    show "N \<notin> set (lefts leafIDs fs @ i # ?ys)" using n ctx_leafIDs [of fs] by auto
    show "V (hd ?ys) = Some p3 \<and> V3 = V(hd ?ys \<mapsto> SetPrevLeafPageID p3 N) \<and> PrevLeafPageID (SetPrevLeafPageID p3 N) = N \<and>
        NextLeafPageID (SetPrevLeafPageID p3 N) = NextLeafPageID p3" if ne: "?ys \<noteq> []"
      using V3(2) [OF ne] next_page [OF ne] leaf_page_relink(3) [of K p3 _ N] by (auto simp: header_fields)
  qed (use p q1(2) q2(2) V3(1) in \<open>simp_all add: header_fields\<close>)
  ultimately show ?thesis by (simp add: split_in_def)
qed

text \<open>\<^verbatim>\<open>updateNextLeafPrevLink\<close> with two pages changed but not yet written.\<close>

lemma relink_rule:
  assumes s: "st T V H N X w" and b: "H b = Some p2" "H a = Some p1" and n: "NextLeafPageID p2 = hd (ys @ [0])" "ID p2 = v"
    and ys: "ys \<noteq> [] \<Longrightarrow> \<exists>p3 us. V (hd ys) = Some p3 \<and> leaf_page K p3 us \<and> hd ys \<notin> T \<and> hd ys \<noteq> 0 \<and> hd ys \<noteq> ID p1 \<and> hd ys \<noteq> v"
  shows "\<exists>w' V3 p3 H'. updateNextLeafPrevLink b w = (Ok (), w') \<and> st T V3 H' N X w' \<and>
      H' a = Some p1 \<and> H' b = Some p2 \<and> (ys = [] \<longrightarrow> V3 = V) \<and>
      (ys \<noteq> [] \<longrightarrow> V (hd ys) = Some p3 \<and> V3 = V(hd ys \<mapsto> SetPrevLeafPageID p3 v))"
proof (cases "ys = []")
  case True
  then have "updateNextLeafPrevLink b w = (Ok (), w)"
    using deref_rule [OF s b(1)] n by (simp add: updateNextLeafPrevLink_def exec_simps)
  with True s b show ?thesis by blast
next
  case False
  let ?y = "hd ys"
  obtain p3 us where p3: "V ?y = Some p3" "leaf_page K p3 us" "?y \<notin> T" "?y \<noteq> 0" "?y \<noteq> ID p1" "?y \<noteq> v"
    using ys [OF False] by blast
  let ?p = "SetPrevLeafPageID p3 v"
  have im: "ID p3 = ?y" "page_image p3" using st_image [OF s p3(3,1)] by auto
  have idp: "ID ?p = ?y" and imp: "page_image ?p"
    using leaf_page_relink(2,3) [OF p3(2), of v] im page_image_header [of ?p] by (auto simp: header_fields page_image_def)
  obtain c w1 where w1: "readPage ?y w = (Ok c, w1)" "st T V (H(c \<mapsto> p3)) N X w1" "H \<subseteq>\<^sub>m H(c \<mapsto> p3)"
    using cached.read_rule [OF TrueI s p3(3,1)] by blast
  have ca: "c \<noteq> a" "c \<noteq> b"
    using map_le_Some [OF w1(3) b(2)] map_le_Some [OF w1(3) b(1)] im(1) p3(5,6) n(2) by auto
  obtain w2 where w2: "mutate c (\<lambda>p. Ok (SetPrevLeafPageID p v)) w1 = (Ok (), w2)" "st (insert ?y T) V (H(c \<mapsto> ?p)) N X w2"
    using mutate_rule [OF w1(2), of c p3 "\<lambda>p. Ok (SetPrevLeafPageID p v)" ?p] im idp leaf_page_relink(2) [OF p3(2)]
    by (auto simp: page_image_def)
  have T: "insert ?y T - {?y} = T" using p3(3) by auto
  obtain w3 where w3: "writePage c w2 = (Ok (), w3)" "st T (V(?y \<mapsto> ?p)) (H(c \<mapsto> ?p)) N X w3"
    using cached.write_rule [OF TrueI w2(2), of c ?p] imp T unfolding idp by auto
  have "updateNextLeafPrevLink b w = (Ok (), w3)"
    using deref_rule [OF s b(1)] n False p3(4) w1(1) w2(1) w3(1) by (simp add: updateNextLeafPrevLink_def exec_simps)
  with w3(2) b ca p3(1) False show ?thesis
    by (intro exI [of _ w3] exI [of _ "V(?y \<mapsto> ?p)"] exI [of _ p3] exI [of _ "H(c \<mapsto> ?p)"]) simp
qed

text \<open>The pages of a full leaf: allocate, split, count, relink, insert, write; \<open>F\<close> is what follows.\<close>

lemma split_pages_rule:
  assumes s: "st {} V H N X w" and a: "H a = Some q" "ID q = i" "valid_id i" and N: "valid_id N" "unat N + 1 < 2 ^ 51"
    and sp: "splitLeaf q (NewLeafPage N) = Ok (sep, p2, p1)" "wf_page p1" "wf_page p2" "wf_page q1" "wf_page q2"
    and half: "if CompareKeys ek sep \<ge> 0 then ins p2 = Ok q2 \<and> q1 = p1 else ins p1 = Ok q1 \<and> q2 = p2"
    and hds: "header p1 = (i, LeafPage, l, N)" "header q1 = (i, LeafPage, l, N)"
      "header p2 = (N, LeafPage, i, hd (ys @ [0]))" "header q2 = (N, LeafPage, i, hd (ys @ [0]))"
    and ys: "ys \<noteq> [] \<Longrightarrow> \<exists>p3 us. V (hd ys) = Some p3 \<and> leaf_page K p3 us \<and> hd ys \<notin> {i, N} \<and> hd ys \<noteq> 0"
  shows "\<exists>b w' V3 p3 H' X'. (\<forall>F. sbind AllocatePage (\<lambda>newLeaf.
      sbind (mutate2 newLeaf a (\<lambda>r q. splitLeaf q r)) (\<lambda>separatorKey.
      sbind (smod (\<lambda>t. t\<lparr>pageSplits := pageSplits t + 1\<rparr>)) (\<lambda>_.
      sbind (updateNextLeafPrevLink newLeaf) (\<lambda>_.
      sbind (if CompareKeys ek separatorKey \<ge> 0 then mutate newLeaf ins else mutate a ins) (\<lambda>_.
      sbind (writePage a) (\<lambda>_.
      sbind (writePage newLeaf) (\<lambda>_. F newLeaf separatorKey))))))) w = (F b sep :: (BTree, unit) op) w') \<and>
    st {} (V3(i \<mapsto> q1, N \<mapsto> q2)) H' (N + 1) X' w' \<and> H' a = Some q1 \<and> H' b = Some q2 \<and> (ys = [] \<longrightarrow> V3 = V) \<and>
    (ys \<noteq> [] \<longrightarrow> V (hd ys) = Some p3 \<and> V3 = V(hd ys \<mapsto> SetPrevLeafPageID p3 N)) \<and>
    rootID w' = rootID w \<and> unique w' = unique w \<and> entrySize w' = entrySize w"
proof -
  let ?L = "NewLeafPage N"
  have idL: "ID ?L = N" using NewLeafPage_spec(3) [of N] by (simp add: header_def)
  have ids: "ID p1 = i" "ID q1 = i" "ID p2 = N" "ID q2 = N" using hds by (simp_all add: header_fields)
  note N' = valid_id_succ [OF N(2)]
  obtain b w2 where w2: "AllocatePage w = (Ok b, w2)" "H b = None" "st {} V (H(b \<mapsto> ?L)) (N + 1) X w2"
    using AllocatePage_rule [OF s] by blast
  have ba: "b \<noteq> a" using w2(2) a(1) by auto
  obtain w3 where w3: "mutate2 b a (\<lambda>r q. splitLeaf q r) w2 = (Ok sep, w3)" "st {i, N} V (H(b \<mapsto> ?L, b \<mapsto> p2, a \<mapsto> p1)) (N + 1) X w3"
    using mutate2_rule [OF w2(3), of b ?L a q "\<lambda>r q. splitLeaf q r" sep p2 p1] ba a sp ids idL N N' by auto
  obtain w4 X4 where w4: "smod (\<lambda>t. t\<lparr>pageSplits := pageSplits t + 1\<rparr>) w3 = (Ok (), w4)"
      "st {i, N} V (H(b \<mapsto> ?L, b \<mapsto> p2, a \<mapsto> p1)) (N + 1) X4 w4"
      "rootID w4 = rootID w3" "unique w4 = unique w3" "entrySize w4 = entrySize w3"
    using setSplits_rule [OF w3(2)] by blast
  have "\<exists>w5 V3 p3 H5. updateNextLeafPrevLink b w4 = (Ok (), w5) \<and> st {i, N} V3 H5 (N + 1) X4 w5 \<and>
      H5 a = Some p1 \<and> H5 b = Some p2 \<and> (ys = [] \<longrightarrow> V3 = V) \<and>
      (ys \<noteq> [] \<longrightarrow> V (hd ys) = Some p3 \<and> V3 = V(hd ys \<mapsto> SetPrevLeafPageID p3 N))"
    by (rule relink_rule [OF w4(2)]) (use ba hds(3) ys ids in \<open>auto simp: header_fields\<close>)
  then obtain w5 V3 p3 H5 where w5: "updateNextLeafPrevLink b w4 = (Ok (), w5)" "st {i, N} V3 H5 (N + 1) X4 w5"
      "H5 a = Some p1" "H5 b = Some p2" "ys = [] \<longrightarrow> V3 = V"
      "ys \<noteq> [] \<longrightarrow> V (hd ys) = Some p3 \<and> V3 = V(hd ys \<mapsto> SetPrevLeafPageID p3 N)"
    by blast
  obtain w6 H6 where w6: "(if CompareKeys ek sep \<ge> 0 then mutate b ins else mutate a ins) w5 = (Ok (), w6)"
      "st {i, N} V3 H6 (N + 1) X4 w6" "H6 a = Some q1" "H6 b = Some q2"
    using half_rule [OF w5(2-4) ba half sp(4,5) ids a(3) N(1)] by blast
  obtain w7 where w7: "writePage a w6 = (Ok (), w7)" "st ({i, N} - {i}) (V3(i \<mapsto> q1)) H6 (N + 1) X4 w7"
    using write_rule_clean [OF w6(2,3) sp(4)] ids a by auto
  obtain w8 where w8: "writePage b w7 = (Ok (), w8)" "st ({i, N} - {i} - {N}) (V3(i \<mapsto> q1, N \<mapsto> q2)) H6 (N + 1) X4 w8"
    using write_rule_clean [OF w7(2) w6(4) sp(5)] ids N by auto
  have T: "{i, N} - {i} - {N} = {}" by auto
  have "store.more w3 = store.more w" "store.more w8 = store.more w4"
    using st_more [OF w3(2)] st_more [OF s] st_more [OF w8(2)] st_more [OF w4(2)] by simp_all
  then have keep: "rootID w8 = rootID w" "unique w8 = unique w" "entrySize w8 = entrySize w"
    using w4(3-5) more_fields [of w3 w] more_fields [of w8 w4] by simp_all
  show ?thesis
    by (rule exI [of _ b], rule exI [of _ w8], rule exI [of _ V3], rule exI [of _ p3], rule exI [of _ H6], rule exI [of _ X4])
      (use w2(1) w3(1) w4(1) w5(1,5,6) w6(1,3,4) w7(1) w8 [unfolded T] keep in \<open>simp add: sbind_Ok\<close>)
qed

section \<open>The interface of a leaf insertion\<close>

lemma lowerIdx_drop: "m \<le> lowerIdx ks t \<Longrightarrow> lowerIdx (drop m ks) t = lowerIdx ks t - m"
  unfolding lowerIdx_def by (induction ks arbitrary: m) (auto simp: drop_Cons split: nat.splits if_splits)

lemma lowerIdx_take: "lowerIdx (take m ks) t = min m (lowerIdx ks t)"
  unfolding lowerIdx_def by (induction ks arbitrary: m) (auto simp: take_Cons split: nat.splits)

lemma sorted_insert_key:
  assumes "sorted_wrt (<) (map fst kvs)" "k \<notin> fst ` set kvs"
  shows "sorted_wrt (<) (map fst (insert_nth (lowerIdx (map fst kvs) k) (k, v) kvs))"
proof -
  let ?i = "lowerIdx (map fst kvs) k"
  have srt: "sorted (map fst kvs)" using assms(1) by (simp add: strict_sorted_iff)
  have "k < map fst kvs ! ?i" if "?i < length (map fst kvs)"
    using lowerIdx_ge_iff [OF srt that, of k] assms(2) that nth_mem [of ?i "map fst kvs"] by (auto simp: order.order_iff_strict)
  moreover have "map fst kvs ! (?i - 1) < k" if "0 < ?i"
    using lowerIdx_iff [OF srt, of "?i - 1" k] lowerIdx_le [of "map fst kvs" k] that by simp
  ultimately show ?thesis
    unfolding map_insert_nth fst_conv using assms(1) lowerIdx_le [of "map fst kvs" k] by (intro sorted_wrt_insert_nth) auto
qed

lemma insert_between:
  assumes "\<forall>x \<in> fst ` set ls. x < k" "\<forall>x \<in> fst ` set rs. k < x"
  shows "ls @ insert_nth (lowerIdx (map fst us) k) (k, v) us @ rs =
    insert_nth (lowerIdx (map fst (ls @ us @ rs)) k) (k, v) (ls @ us @ rs)"
proof -
  have "takeWhile (\<lambda>x. x < k) (map fst (ls @ us @ rs)) = map fst ls @ takeWhile (\<lambda>x. x < k) (map fst us @ map fst rs)"
    using assms(1) by (auto simp: takeWhile_append)
  moreover have "takeWhile (\<lambda>x. x < k) (map fst us @ map fst rs) = takeWhile (\<lambda>x. x < k) (map fst us)"
    using assms(2) by (cases rs) (auto simp: takeWhile_append takeWhile_eq_all_conv [THEN iffD2])
  ultimately have "lowerIdx (map fst (ls @ us @ rs)) k = length ls + lowerIdx (map fst us) k"
    by (simp add: lowerIdx_def)
  then show ?thesis using lowerIdx_le [of "map fst us" k] by (simp add: insert_nth_def)
qed

text \<open>The leaf that the separators of the tree give to a key has no room for another row.\<close>

definition full_leaf :: "nat \<Rightarrow> byte list \<Rightarrow> btree \<Rightarrow> bool" where
  "full_leaf K k t \<longleftrightarrow> (\<exists>i kvs fs. t = plug (Leaf i kvs) fs \<and> ctx_ordered fs \<and> within fs {k} \<and> 4075 < Suc (length kvs) * (K + 12))"

text \<open>
  What an insertion of \<open>k\<close> with value \<open>v\<close> into tree \<open>t\<close> leaves: a tree whose contents are the old ones with
  the row at its place in key order, with no new page if the leaf of the key has room, and otherwise at most
  one level higher and at most \<open>h + 2\<close> pages larger, and with half-full pages if it had them before.
\<close>

definition inserted ::
    "nat \<Rightarrow> ('k \<Rightarrow> byte list) \<Rightarrow> nat \<Rightarrow> btree \<Rightarrow> 'k \<Rightarrow> int64 \<Rightarrow> BTree \<Rightarrow> nat \<Rightarrow> btree \<Rightarrow> BTree \<Rightarrow> bool" where
  "inserted K enc h t k v w h' t' w' \<longleftrightarrow>
     tree_inv K h' t' w' \<and> (h' = h \<or> h' = Suc h \<and> 4075 < Suc (length (contents t)) * (K + 12)) \<and>
     (Suc (length (contents t)) * (K + 12) \<le> 4075 \<longrightarrow> nextPageID (pm w') = nextPageID (pm w)) \<and>
     (h' = h \<and> nextPageID (pm w') = nextPageID (pm w) \<or> full_leaf K (enc k) t) \<and>
     contents t' = insert_nth (lowerIdx (map fst (contents t)) (enc k)) (enc k, EncodeInt64 v) (contents t) \<and>
     unat (nextPageID (pm w')) \<le> unat (nextPageID (pm w)) + h + 2 \<and> unique w' = unique w \<and> entrySize w' = entrySize w \<and>
     (filled (minRows K) t \<longrightarrow> filled (minRows K) t')"

text \<open>What remains of an insertion once the leaf is known: \<open>ins\<close> puts the row into a single leaf.\<close>

definition insertFrom ::
    "byte list \<Rightarrow> (Page \<Rightarrow> Page res) \<Rightarrow> addr \<Rightarrow> PageID list \<Rightarrow> Page \<Rightarrow> (BTree, unit) op" where
  "insertFrom encodedKey ins leaf ancestors lp =
     (case ins lp of
        Ok lp' \<Rightarrow> sbind (assign leaf lp') (\<lambda>_. writePage leaf)
      | Panic \<Rightarrow> slift Panic
      | Hang \<Rightarrow> slift Hang
      | Err e \<Rightarrow>
          if e \<noteq> ErrPageFull then sfail e
          else
            sbind AllocatePage (\<lambda>newLeaf.
            sbind (mutate2 newLeaf leaf (\<lambda>r q. splitLeaf q r)) (\<lambda>separatorKey.
            sbind (smod (\<lambda>t. t\<lparr>pageSplits := pageSplits t + 1\<rparr>)) (\<lambda>_.
            sbind (updateNextLeafPrevLink newLeaf) (\<lambda>_.
            sbind (if CompareKeys encodedKey separatorKey \<ge> 0 then mutate newLeaf ins else mutate leaf ins) (\<lambda>_.
            sbind (writePage leaf) (\<lambda>_.
            sbind (writePage newLeaf) (\<lambda>_.
            propagateSplit leaf newLeaf separatorKey ancestors))))))))"

text \<open>A full leaf cut in the middle: both halves have room again.\<close>

lemma split_full_leaf:
  assumes q: "leaf_page K q kvs" "\<not> HasSpaceFor q (K + 8)" and K: "K \<le> 16"
  defines "mid \<equiv> length kvs div 2"
  obtains p1 p2 where "splitLeaf q (NewLeafPage N) = Ok (fst (kvs ! mid), p2, p1)"
    "leaf_page K p1 (take mid kvs)" "leaf_page K p2 (drop mid kvs)" "HasSpaceFor p1 (K + 8)" "HasSpaceFor p2 (K + 8)"
    "header p1 = (ID q, LeafPage, PrevLeafPageID q, N)" "header p2 = (N, LeafPage, ID q, NextLeafPageID q)"
    "0 < mid" "mid < length kvs" "\<And>m. m = mid \<or> m = Suc mid \<Longrightarrow> minRows K \<le> m \<and> m + minRows K \<le> length kvs"
proof -
  have ok: "node_ok K q" "uniform K (entries q)" "wf_page q" using q(1) by (auto simp: leaf_page_def node_ok_def)
  have num: "numEntries q = length kvs" using leaf_page_numEntries [OF q(1)] .
  note sp = HasSpaceFor_uniform [OF ok(3,2), unfolded num]
  have big: "4075 < Suc (length kvs) * (K + 12)" using q(2) sp(1) by simp
  have two: "2 \<le> length kvs"
  proof (rule ccontr)
    assume "\<not> 2 \<le> length kvs"
    then have "Suc (length kvs) * (K + 12) \<le> 2 * 28" using K by (intro mult_le_mono) auto
    with big show False by simp
  qed
  then have mid: "0 < mid" "mid < length kvs" by (auto simp: mid_def)
  have halves: "minRows K \<le> m \<and> m + minRows K \<le> length kvs" if "m = mid \<or> m = Suc mid" for m
    using split_halves [OF big two, of m] that by (simp add: mid_def)
  obtain p1 p2 where s: "splitLeaf q (NewLeafPage N) = Ok (keys K q ! mid, p2, p1)" "node_ok K p1" "node_ok K p2"
      "entries p1 = take mid (entries q)" "entries p2 = drop mid (entries q)"
      "header p1 = (ID q, PageType q, PrevLeafPageID q, N)" "header p2 = (N, LeafPage, ID q, NextLeafPageID q)"
    using splitLeaf_spec [OF ok(1), of N] two num by (auto simp: mid_def)
  have lp: "leaf_page K p1 (take mid kvs)" "leaf_page K p2 (drop mid kvs)"
    using s q(1) by (auto simp: leaf_page_def header_fields take_map drop_map dest: in_set_takeD in_set_dropD)
  have "Suc (length (take mid kvs)) * (K + 12) \<le> length kvs * (K + 12)" "Suc (length (drop mid kvs)) * (K + 12) \<le> length kvs * (K + 12)"
    using mid by (intro mult_le_mono1; simp)+
  then have "HasSpaceFor p1 (K + 8)" "HasSpaceFor p2 (K + 8)"
    using HasSpaceFor_uniform(1) [of p1 K] HasSpaceFor_uniform(1) [of p2 K] lp leaf_page_numEntries [OF lp(1)]
      leaf_page_numEntries [OF lp(2)] sp(2) by (auto simp: leaf_page_def node_ok_def)
  moreover have "splitLeaf q (NewLeafPage N) = Ok (fst (kvs ! mid), p2, p1)" "header p1 = (ID q, LeafPage, PrevLeafPageID q, N)"
    using s(1,6) leaf_page_keys [OF q(1)] mid q(1) by (simp_all add: leaf_page_def)
  ultimately show thesis using that lp s(7) mid halves by blast
qed

text \<open>A routine \<open>ins\<close> that puts a row for key \<open>k\<close>, encoded in \<open>K\<close> bytes, into a leaf or reports it full.\<close>

locale leaf_insert =
  fixes K :: nat and enc :: "'k \<Rightarrow> byte list" and ins :: "Page \<Rightarrow> 'k \<Rightarrow> int64 \<Rightarrow> Page res"
  assumes width: "K \<le> 16"
    and enc_length: "length (enc k) = K"
    and ins_room: "leaf_page K p us \<Longrightarrow> HasSpaceFor p (K + 8) \<Longrightarrow> \<exists>p'. ins p k v = Ok p' \<and> header p' = header p \<and>
      leaf_page K p' (insert_nth (lowerIdx (map fst us) (enc k)) (enc k, EncodeInt64 v) us)"
    and ins_full: "leaf_page K p us \<Longrightarrow> \<not> HasSpaceFor p (K + 8) \<Longrightarrow> ins p k v = Err ErrPageFull"
begin

text \<open>The row belongs to the right half exactly when its key is not below the key that moves up.\<close>

lemma row_right:
  fixes v :: int64
  assumes p: "leaf_page K p (drop mid kvs)" "HasSpaceFor p (K + 8)" and srt: "sorted_wrt (<) (map fst kvs)"
    and right: "mid < lowerIdx (map fst kvs) (enc k)"
  defines "us \<equiv> insert_nth (lowerIdx (map fst kvs) (enc k)) (enc k, EncodeInt64 v) kvs"
  shows "CompareKeys (enc k) (fst (kvs ! mid)) \<ge> 0" "us ! mid = kvs ! mid" "take mid us = take mid kvs"
    "\<exists>q. ins p k v = Ok q \<and> header q = header p \<and> leaf_page K q (drop mid us)"
proof -
  let ?i = "lowerIdx (map fst kvs) (enc k)"
  have le: "?i \<le> length kvs" using lowerIdx_le [of "map fst kvs" "enc k"] by simp
  have "sorted (map fst kvs)" using srt by (simp add: strict_sorted_iff)
  then have "fst (kvs ! mid) < enc k" using lowerIdx_iff [of "map fst kvs" mid "enc k"] right le by simp
  then show "CompareKeys (enc k) (fst (kvs ! mid)) \<ge> 0" by (simp add: CompareKeys_def bytes_Compare_order not_less less_imp_le)
  show "us ! mid = kvs ! mid" "take mid us = take mid kvs"
    using right le by (simp_all add: us_def nth_insert_nth take_insert_nth)
  have idx: "lowerIdx (map fst (drop mid kvs)) (enc k) = ?i - mid"
    using lowerIdx_drop [of mid "map fst kvs" "enc k"] right by (simp add: drop_map)
  show "\<exists>q. ins p k v = Ok q \<and> header q = header p \<and> leaf_page K q (drop mid us)"
    using ins_room [OF p, of k v] insert_nth_drop [of mid ?i kvs] right le unfolding idx us_def by auto
qed

lemma row_left:
  fixes v :: int64
  assumes p: "leaf_page K p (take mid kvs)" "HasSpaceFor p (K + 8)" and srt: "sorted_wrt (<) (map fst kvs)"
    and new: "enc k \<notin> fst ` set kvs" and left: "lowerIdx (map fst kvs) (enc k) \<le> mid" "mid < length kvs"
  defines "us \<equiv> insert_nth (lowerIdx (map fst kvs) (enc k)) (enc k, EncodeInt64 v) kvs"
  shows "\<not> CompareKeys (enc k) (fst (kvs ! mid)) \<ge> 0" "us ! Suc mid = kvs ! mid" "drop (Suc mid) us = drop mid kvs"
    "\<exists>q. ins p k v = Ok q \<and> header q = header p \<and> leaf_page K q (take (Suc mid) us)"
proof -
  let ?i = "lowerIdx (map fst kvs) (enc k)"
  have "sorted (map fst kvs)" using srt by (simp add: strict_sorted_iff)
  moreover have "fst (kvs ! mid) \<noteq> enc k" using new left(2) by (metis image_eqI nth_mem)
  ultimately have "enc k < fst (kvs ! mid)" using lowerIdx_ge_iff [of "map fst kvs" mid "enc k"] left by auto
  then show "\<not> CompareKeys (enc k) (fst (kvs ! mid)) \<ge> 0" by (simp add: CompareKeys_def bytes_Compare_order)
  show "us ! Suc mid = kvs ! mid" "drop (Suc mid) us = drop mid kvs"
    using left by (simp_all add: us_def nth_insert_nth drop_insert_nth)
  have idx: "lowerIdx (map fst (take mid kvs)) (enc k) = ?i" using left by (simp add: lowerIdx_take flip: take_map)
  show "\<exists>q. ins p k v = Ok q \<and> header q = header p \<and> leaf_page K q (take (Suc mid) us)"
    using ins_room [OF p, of k v] insert_nth_take [of ?i mid kvs] left unfolding idx us_def by auto
qed

text \<open>A full leaf is split first, then the row goes into the half it belongs to.\<close>

lemma split_then_insert:
  fixes v :: int64
  assumes q: "leaf_page K q kvs" "\<not> HasSpaceFor q (K + 8)" and new: "enc k \<notin> fst ` set kvs"
    and srt: "sorted_wrt (<) (map fst kvs)"
  defines "us \<equiv> insert_nth (lowerIdx (map fst kvs) (enc k)) (enc k, EncodeInt64 v) kvs"
  shows "\<exists>m p1 p2 q1 q2. splitLeaf q (NewLeafPage N) = Ok (fst (us ! m), p2, p1) \<and> 0 < m \<and> m < length us \<and>
    minRows K \<le> m \<and> m + minRows K \<le> length us \<and>
    (if CompareKeys (enc k) (fst (us ! m)) \<ge> 0 then ins p2 k v = Ok q2 \<and> q1 = p1 else ins p1 k v = Ok q1 \<and> q2 = p2) \<and>
    leaf_page K q1 (take m us) \<and> leaf_page K q2 (drop m us) \<and> wf_page p1 \<and> wf_page p2 \<and>
    header p1 = (ID q, LeafPage, PrevLeafPageID q, N) \<and> header q1 = header p1 \<and>
    header p2 = (N, LeafPage, ID q, NextLeafPageID q) \<and> header q2 = header p2"
proof -
  define mid where "mid = length kvs div 2"
  obtain p1 p2 where s: "splitLeaf q (NewLeafPage N) = Ok (fst (kvs ! mid), p2, p1)"
      "leaf_page K p1 (take mid kvs)" "leaf_page K p2 (drop mid kvs)" "HasSpaceFor p1 (K + 8)" "HasSpaceFor p2 (K + 8)"
      "header p1 = (ID q, LeafPage, PrevLeafPageID q, N)" "header p2 = (N, LeafPage, ID q, NextLeafPageID q)"
    and mid: "0 < mid" "mid < length kvs"
    and halves: "\<And>m. m = mid \<or> m = Suc mid \<Longrightarrow> minRows K \<le> m \<and> m + minRows K \<le> length kvs"
    by (rule split_full_leaf [OF q width, of N, folded mid_def]) (rule that)
  have wf: "wf_page p1" "wf_page p2" using s(2,3) by (simp_all add: leaf_page_def node_ok_def)
  have len: "length us = Suc (length kvs)" using lowerIdx_le [of "map fst kvs" "enc k"] by (simp add: us_def)
  show ?thesis
  proof (cases "mid < lowerIdx (map fst kvs) (enc k)")
    case True
    note right = row_right [OF s(3,5) srt True]
    note at = right(2-) [of v, folded us_def]
    obtain q2 where q2: "ins p2 k v = Ok q2" "header q2 = header p2" "leaf_page K q2 (drop mid us)" using at(3) by blast
    show ?thesis using s right(1) at(1,2) q2 len mid wf halves [of mid]
      by (intro exI [of _ mid] exI [of _ p1] exI [of _ p2] exI [of _ p1] exI [of _ q2]) simp
  next
    case False
    then have "lowerIdx (map fst kvs) (enc k) \<le> mid" by simp
    note left = row_left [OF s(2,4) srt new this mid(2)]
    note at = left(2-) [of v, folded us_def]
    obtain q1 where q1: "ins p1 k v = Ok q1" "header q1 = header p1" "leaf_page K q1 (take (Suc mid) us)" using at(3) by blast
    show ?thesis using s left(1) at(1,2) q1 len mid wf halves [of "Suc mid"]
      by (intro exI [of _ "Suc mid"] exI [of _ p1] exI [of _ p2] exI [of _ q1] exI [of _ p2]) simp
  qed
qed

text \<open>The code after a full leaf: allocate, split, count, relink, insert, write, propagate.\<close>

lemma split_path_spec:
  assumes s: "st {} V H N X w" and t: "tree_in K h (plug (Leaf i kvs) fs) V N" and co: "ctx_ordered fs" "within fs {enc k}"
    and h: "length fs = h" and a: "H a = Some q" "V i = Some q" "leaf_page K q kvs" "\<not> HasSpaceFor q (K + 8)"
    and new: "enc k \<notin> fst ` set kvs" and root: "rootID w = tid (plug (Leaf i kvs) fs)" and N: "unat N + h + 2 < 2 ^ 51" "N \<noteq> 0"
  shows "\<exists>w' t' h'. sbind AllocatePage (\<lambda>newLeaf.
      sbind (mutate2 newLeaf a (\<lambda>r q. splitLeaf q r)) (\<lambda>separatorKey.
      sbind (smod (\<lambda>t. t\<lparr>pageSplits := pageSplits t + 1\<rparr>)) (\<lambda>_.
      sbind (updateNextLeafPrevLink newLeaf) (\<lambda>_.
      sbind (if CompareKeys (enc k) separatorKey \<ge> 0
             then mutate newLeaf (\<lambda>p. ins p k v) else mutate a (\<lambda>p. ins p k v)) (\<lambda>_.
      sbind (writePage a) (\<lambda>_.
      sbind (writePage newLeaf) (\<lambda>_.
      propagateSplit a newLeaf separatorKey (rev (map fst fs))))))))) w = (Ok (), w') \<and> tree_inv K h' t' w' \<and>
    contents t' = lefts contents fs @ insert_nth (lowerIdx (map fst kvs) (enc k)) (enc k, EncodeInt64 v) kvs @ rights contents fs \<and>
    (h' = h \<or> h' = Suc h) \<and> unat (nextPageID (pm w')) \<le> unat N + h + 2 \<and> unique w' = unique w \<and> entrySize w' = entrySize w \<and>
    (ctx_filled (minRows K) fs \<longrightarrow> filled (minRows K) t')"
proof -
  let ?us = "insert_nth (lowerIdx (map fst kvs) (enc k)) (enc k, EncodeInt64 v) kvs" and ?ys = "rights leafIDs fs"
  note fo = ctx_ordered_frames_ok [OF co(1)]
  note N' = valid_id_succ [of N]
  note nl = next_leaf [OF t fo a(2)]
  have "ordered (plug (Leaf i kvs) fs)" using t by (simp add: tree_in_def)
  then have srt: "sorted_wrt (<) (map fst kvs)" and wi: "within fs (fst ` set kvs)" using plug_ordered [OF fo] by auto
  have i: "ID q = i" "i < N" "i \<noteq> 0" using st_image [OF s _ a(2)] t by (auto simp: tree_in_def mset_eq_setD [OF plug_ids [OF fo]])
  have vi: "valid_id i" "valid_id N" using valid_id_less [of N i] N' N(1) i(2) by simp_all
  obtain m p1 p2 q1 q2 where sp: "splitLeaf q (NewLeafPage N) = Ok (fst (?us ! m), p2, p1)" "0 < m" "m < length ?us"
      "if CompareKeys (enc k) (fst (?us ! m)) \<ge> 0 then ins p2 k v = Ok q2 \<and> q1 = p1 else ins p1 k v = Ok q1 \<and> q2 = p2"
      "leaf_page K q1 (take m ?us)" "leaf_page K q2 (drop m ?us)" "wf_page p1" "wf_page p2"
      "header p1 = (i, LeafPage, PrevLeafPageID q, N)" "header q1 = (i, LeafPage, PrevLeafPageID q, N)"
      "header p2 = (N, LeafPage, i, NextLeafPageID q)" "header q2 = (N, LeafPage, i, NextLeafPageID q)"
      "minRows K \<le> m" "m + minRows K \<le> length ?us"
    using split_then_insert [OF a(3,4) new srt, of N v] i(1) by auto
  have wf: "wf_page q1" "wf_page q2" using sp(5,6) by (simp_all add: leaf_page_def node_ok_def)
  have ys: "?ys \<noteq> [] \<Longrightarrow> \<exists>p3 us. V (hd ?ys) = Some p3 \<and> leaf_page K p3 us \<and> hd ?ys \<notin> {i, N} \<and> hd ?ys \<noteq> 0"
    using nl(2) plug_leaf_ids(1) [OF fo, of i kvs] t by (fastforce simp: tree_in_def)
  have N1: "unat N + 1 < 2 ^ 51" using N(1) by simp
  obtain b w8 V3 p3 H6 X4 where run: "\<And>F. sbind AllocatePage (\<lambda>newLeaf.
      sbind (mutate2 newLeaf a (\<lambda>r q. splitLeaf q r)) (\<lambda>separatorKey.
      sbind (smod (\<lambda>t. t\<lparr>pageSplits := pageSplits t + 1\<rparr>)) (\<lambda>_.
      sbind (updateNextLeafPrevLink newLeaf) (\<lambda>_.
      sbind (if CompareKeys (enc k) separatorKey \<ge> 0 then mutate newLeaf (\<lambda>p. ins p k v) else mutate a (\<lambda>p. ins p k v)) (\<lambda>_.
      sbind (writePage a) (\<lambda>_.
      sbind (writePage newLeaf) (\<lambda>_. F newLeaf separatorKey))))))) w = (F b (fst (?us ! m)) :: (BTree, unit) op) w8"
    and w8: "st {} (V3(i \<mapsto> q1, N \<mapsto> q2)) H6 (N + 1) X4 w8" "H6 a = Some q1" "H6 b = Some q2" "?ys = [] \<longrightarrow> V3 = V"
      "?ys \<noteq> [] \<longrightarrow> V (hd ?ys) = Some p3 \<and> V3 = V(hd ?ys \<mapsto> SetPrevLeafPageID p3 N)"
    and keep: "rootID w8 = rootID w" "unique w8 = unique w" "entrySize w8 = entrySize w"
    using split_pages_rule [OF s a(1) i(1) vi N1 sp(1,7,8) wf, where ins = "\<lambda>p. ins p k v", OF sp(4,9,10) sp(11,12) [unfolded nl(1)] ys] by blast
  have us: "sorted_wrt (<) (map fst ?us)" "within fs (fst ` set ?us)" "\<forall>kv \<in> set ?us. length (fst kv) = K"
    using sorted_insert_key [OF srt new] wi co(2) within_Un [of fs "fst ` set kvs" "{enc k}"] a(3) enc_length
    by (auto simp: leaf_page_def set_insert_nth)
  have split: "split_in K 0 fs (Leaf i (take m ?us)) (fst (?us ! m)) (Leaf N (drop m ?us)) (V3(i \<mapsto> q1, N \<mapsto> q2)) (N + 1)"
    using split_in_leaf [OF t co(1) h a(2) N(2) _ us sp(2,3,5,10,6,12), of V3 p3] w8(4,5) N' N1 by blast
  obtain M where M: "V 0 = Some M" "RootPageID M = tid (plug (Leaf i kvs) fs)" using t by (auto simp: tree_in_def)
  have V0: "(V3(i \<mapsto> q1, N \<mapsto> q2)) 0 = Some M" using nl(2) w8(4,5) i(3) N(2) M(1) by (cases "?ys = []") auto
  have tids: "RootPageID M = tid (plug (Leaf i (take m ?us)) fs)" "rootID w8 = tid (plug (Leaf i (take m ?us)) fs)"
    using M(2) root keep(1) by (simp_all add: tid_plug_last)
  have N2: "unat (N + 1) + length fs + 1 < 2 ^ 51" "N + 1 \<noteq> 0" using N(1) N' h by simp_all
  have ids: "ID q1 = i" "ID q2 = N" using sp(10,12) by (simp_all add: header_fields)
  obtain w' t' h' where w': "propagateSplit a b (fst (?us ! m)) (rev (map fst fs)) w8 = (Ok (), w')" "tree_inv K h' t' w'"
      "contents t' = lefts contents fs @ take m ?us @ drop m ?us @ rights contents fs" "h' = length fs \<or> h' = Suc (length fs)"
      "unat (nextPageID (pm w')) \<le> unat (N + 1) + length fs + 1" "unique w' = unique w8" "entrySize w' = entrySize w8"
      "minRows K \<le> length (take m ?us) \<longrightarrow> minRows K \<le> length (drop m ?us) \<longrightarrow> ctx_filled (minRows K) fs \<longrightarrow> filled (minRows K) t'"
    using propagateSplit_spec [OF w8(1) split width w8(2) _ w8(3) _ N2 V0 tids] ids by (auto simp: propagated_def)
  have "contents t' = lefts contents fs @ ?us @ rights contents fs"
    using w'(3) append_take_drop_id [of m ?us] by (metis append.assoc)
  moreover have "ctx_filled (minRows K) fs \<longrightarrow> filled (minRows K) t'" using w'(8) sp(3,13,14) by auto
  ultimately show ?thesis unfolding run using w' keep N' N1 h by (intro exI [of _ w'] exI [of _ t'] exI [of _ h']) simp
qed

text \<open>A leaf with room is changed in place.\<close>

lemma room_spec:
  assumes inv: "tree_inv K h (plug (Leaf i kvs) fs) w" and co: "ctx_ordered fs" "within fs {enc k}"
    and s: "st {} (known w) H (nextPageID (pm w)) (store.more w) w1" "H b = Some q" "known w i = Some q" "ID q = i" "valid_id i"
    and new: "enc k \<notin> fst ` set kvs" and lp': "header lp' = header q" "leaf_page K lp' us"
    and us: "us = insert_nth (lowerIdx (map fst kvs) (enc k)) (enc k, EncodeInt64 v) kvs"
  shows "\<exists>w'. sbind (assign b lp') (\<lambda>_. writePage b) w1 = (Ok (), w') \<and> tree_inv K h (plug (Leaf i us) fs) w' \<and>
    nextPageID (pm w') = nextPageID (pm w) \<and> store.more w' = store.more w"
proof -
  let ?N = "nextPageID (pm w)"
  note fo = ctx_ordered_frames_ok [OF co(1)]
  have t: "tree_in K h (plug (Leaf i kvs) fs) (known w) ?N" "rootID w = tid (plug (Leaf i kvs) fs)" using inv by (simp_all add: tree_inv_def)
  have wf: "wf_page lp'" "ID lp' = i" using lp' header_same [OF lp'(1)] s(4) by (auto simp: leaf_page_def node_ok_def)
  obtain w2 where w2: "assign b lp' w1 = (Ok (), w2)" "st {i} (known w) (H(b \<mapsto> lp')) ?N (store.more w) w2"
    using assign_rule [OF s(1,2), of lp'] wf s(4,5) wf_page_data by auto
  obtain w3 where w3: "writePage b w2 = (Ok (), w3)" "st {} ((known w)(i \<mapsto> lp')) (H(b \<mapsto> lp')) ?N (store.more w) w3"
    using write_rule_clean [OF w2(2), of b lp'] wf s(5) by auto
  have srt: "sorted_wrt (<) (map fst kvs)" and wi: "within fs (fst ` set kvs)" using t(1) plug_ordered [OF fo] by (auto simp: tree_in_def)
  have "tree_in K h (plug (Leaf i us) fs) ((known w)(i \<mapsto> lp')) ?N"
    using tree_in_update_leaf [OF t(1) fo s(3) lp'(2,1)] sorted_insert_key [OF srt new] wi co(2) within_Un [of fs "{enc k}"] us
    by (simp add: set_insert_nth flip: insert_is_Un)
  then have "tree_inv K h (plug (Leaf i us) fs) w3"
    using tree_in_mono [OF _ st_le_known [OF w3(2)]] st_next [OF w3(2)] st_sound [OF w3(2)] more_fields [OF st_more [OF w3(2)]] t(2)
    by (simp add: tree_inv_def tid_plug_last)
  with w2(1) w3(1) st_next [OF w3(2)] st_more [OF w3(2)] show ?thesis by (auto simp: sbind_Ok)
qed

text \<open>The whole insertion of a new key, from the leaf the descent reaches.\<close>

lemma insert_spec:
  assumes inv: "tree_inv K h t w" and fuel: "h \<le> fuel" and N: "unat (nextPageID (pm w)) + h + 2 < 2 ^ 51"
  shows "\<exists>leaf anc lp w1. findLeafWithPath fuel (enc k) w = (Ok (leaf, anc), w1) \<and> deref leaf w1 = (Ok lp, w1) \<and>
    node_ok K lp \<and> (enc k \<in> set (keys K lp) \<longleftrightarrow> enc k \<in> fst ` set (contents t)) \<and>
    tree_inv K h t w1 \<and> nextPageID (pm w1) = nextPageID (pm w) \<and> store.more w1 = store.more w \<and>
    (enc k \<notin> fst ` set (contents t) \<longrightarrow> (\<exists>w' t' h'. insertFrom (enc k) (\<lambda>p. ins p k v) leaf anc lp w1 = (Ok (), w') \<and>
      inserted K enc h t k v w h' t' w'))"
proof -
  let ?N = "nextPageID (pm w)"
  obtain b q i kvs fs H w1 where f: "findLeafWithPath fuel (enc k) w = (Ok (b, rev (map fst fs)), w1)"
      "st {} (known w) H ?N (store.more w) w1" "H b = Some q" "known w i = Some q" "leaf_page K q kvs"
      "t = plug (Leaf i kvs) fs" "ctx_ordered fs" "within fs {enc k}" "length fs = h"
    using findLeafWithPath_spec [OF inv fuel] by blast
  note fo = ctx_ordered_frames_ok [OF f(7)]
  have t: "tree_in K h (plug (Leaf i kvs) fs) (known w) ?N" "rootID w = tid (plug (Leaf i kvs) fs)"
    using inv f(6) by (simp_all add: tree_inv_def)
  have cont: "contents t = lefts contents fs @ kvs @ rights contents fs" using plug_contents [OF fo] f(6) by simp
  have mem: "enc k \<in> fst ` set kvs \<longleftrightarrow> enc k \<in> fst ` set (contents t)" using within_not_beside [OF f(7,8)] by (auto simp: cont)
  let ?us = "insert_nth (lowerIdx (map fst kvs) (enc k)) (enc k, EncodeInt64 v) kvs"
  have place: "lefts contents fs @ ?us @ rights contents fs =
      insert_nth (lowerIdx (map fst (contents t)) (enc k)) (enc k, EncodeInt64 v) (contents t)"
    unfolding cont using within_beside [OF f(7,8)] by (intro insert_between) auto
  have N': "?N \<noteq> 0" "valid_id ?N" using t(1) valid_id_succ [of ?N] N by (auto simp: tree_in_def mset_eq_setD [OF plug_ids [OF fo]])
  have more: "rootID w1 = rootID w" "unique w1 = unique w" "entrySize w1 = entrySize w" using more_fields [OF st_more [OF f(2)]] by simp_all
  have idq: "ID q = i" "valid_id i"
    using st_image [OF f(2) _ f(4)] t(1) valid_id_less [OF N'(2)] by (auto simp: tree_in_def mset_eq_setD [OF plug_ids [OF fo]])
  have keys: "keys K q = map fst kvs" "node_ok K q" using f(5) leaf_page_keys by (auto simp: leaf_page_def)
  have fill: "filled (minRows K) t \<longrightarrow> ctx_filled (minRows K) fs" "filled (minRows K) t \<longrightarrow> filled (minRows K) (plug (Leaf i ?us) fs)"
    using plug_filled [OF fo minRows_pos [OF width]] f(6) by (auto split: if_splits)
  have "\<exists>w' t' h'. insertFrom (enc k) (\<lambda>p. ins p k v) b (rev (map fst fs)) q w1 = (Ok (), w') \<and> inserted K enc h t k v w h' t' w'"
    if absent: "enc k \<notin> fst ` set (contents t)"
  proof (cases "HasSpaceFor q (K + 8)")
    case True
    have new: "enc k \<notin> fst ` set kvs" using absent mem by simp
    obtain lp' where lp': "ins q k v = Ok lp'" "header lp' = header q" "leaf_page K lp' ?us" using ins_room [OF f(5) True, of k v] by blast
    obtain w' where w': "sbind (assign b lp') (\<lambda>_. writePage b) w1 = (Ok (), w')" "tree_inv K h (plug (Leaf i ?us) fs) w'"
        "nextPageID (pm w') = ?N" "store.more w' = store.more w"
      using room_spec [OF inv [unfolded f(6)] f(7,8,2,3,4) idq new lp'(2,3) refl] by blast
    then have "inserted K enc h t k v w h (plug (Leaf i ?us) fs) w'"
      using place plug_contents [OF fo, of "Leaf i ?us"] more_fields [OF w'(4)] fill(2) by (simp add: inserted_def)
    with w'(1) lp'(1) show ?thesis unfolding insertFrom_def by auto
  next
    case False
    have full: "ins q k v = Err ErrPageFull" using ins_full [OF f(5) False] .
    have no_room: "4075 < Suc (length kvs) * (K + 12)"
      using HasSpaceFor_uniform(1) [of q K] False f(5) leaf_page_numEntries [OF f(5)] by (auto simp: leaf_page_def node_ok_def)
    then have fl: "full_leaf K (enc k) t" using f(6-8) unfolding full_leaf_def by blast
    note no_room
    also have "Suc (length kvs) * (K + 12) \<le> Suc (length (contents t)) * (K + 12)" by (intro mult_le_mono1) (simp add: cont)
    finally have big: "4075 < Suc (length (contents t)) * (K + 12)" .
    show ?thesis
      unfolding insertFrom_def full
      using big fl fill(1) split_path_spec [OF f(2) t(1) f(7,8,9,3,4,5) False _ _ N N'(1), of v] absent mem t(2) more place by (auto simp: inserted_def)
  qed
  then show ?thesis
    using f(1) deref_rule [OF f(2,3)] keys mem tree_inv_st [OF inv f(2)] st_next [OF f(2)] st_more [OF f(2)]
    by (intro exI [of _ b] exI [of _ "rev (map fst fs)"] exI [of _ q] exI [of _ w1]) simp
qed

end

end
