(* ===== verification/Tree_Ops.thy ===== *)
theory Tree_Ops
  imports Leaf_Insert
begin

text \<open>
  \<^verbatim>\<open>Insert\<close> and \<^verbatim>\<open>Open\<close> of \<^verbatim>\<open>btree.go\<close>: an insertion adds one row to the tree or reports a duplicate and
  leaves the tree as it was, and an empty file opens as the empty tree.
\<close>

section \<open>Insertion of an integer key\<close>

interpretation ints: leaf_insert 8 EncodeInt64 Insert
proof
  fix p :: Page and us and k v :: int64
  assume p: "leaf_page 8 p us"
  then have ok: "node_ok 8 p" by (simp add: leaf_page_def)
  note keys = leaf_page_keys [OF p]
  show "\<exists>p'. Insert p k v = Ok p' \<and> header p' = header p \<and>
      leaf_page 8 p' (insert_nth (lowerIdx (map fst us) (EncodeInt64 k)) (EncodeInt64 k, EncodeInt64 v) us)"
    if room: "HasSpaceFor p (8 + 8)"
  proof -
    obtain p' where p': "Insert p k v = Ok p'" "node_ok 8 p'" "header p' = header p"
        "entries p' = insert_nth (lowerIdx (map fst us) (EncodeInt64 k)) (EncodeInt64 k @ EncodeInt64 v) (entries p)"
      using Insert_spec(1) [OF ok, of k v] room keys by auto
    moreover have "PageType p' = LeafPage" using p header_same [OF p'(3)] by (simp add: leaf_page_def)
    ultimately show ?thesis using p by (auto simp: leaf_page_def map_insert_nth set_insert_nth entryOf_def)
  qed
  show "Insert p k v = Err ErrPageFull" if "\<not> HasSpaceFor p (8 + 8)"
    using Insert_spec(2) [OF ok] that by simp
qed simp_all

lemma rowsOf_insert_nth: "rowsOf (insert_nth i (EncodeInt64 k, EncodeInt64 v) kvs) = insert_nth i (k, v) (rowsOf kvs)"
  by (simp add: rowsOf_def map_insert_nth)

lemma rows_key:
  assumes "tree_inv 8 h t w"
  shows "EncodeInt64 k \<in> fst ` set (contents t) \<longleftrightarrow> k \<in> fst ` set (rows t)"
proof -
  have "\<forall>kv \<in> set (contents t). length (fst kv) = 8"
    using assms rep_key_length by (auto simp: tree_inv_def tree_in_def)
  from map_of_rowsOf [OF this, of k] show ?thesis
    unfolding rows_def by (metis map_of_eq_None_iff option.map_disc_iff)
qed

lemma BTree_Insert_from:
  "BTree_Insert fuel k v =
     sbind (findLeafWithPath fuel (EncodeInt64 k)) (\<lambda>(leaf, ancestors).
     sbind (deref leaf) (\<lambda>lp.
     sbind (sget unique) (\<lambda>u.
     sbind (if u then sbind (slift (findKeyIndex lp (EncodeInt64 k))) (\<lambda>(_, found). if found then sfail ErrDuplicateKey else sret ())
            else sret ()) (\<lambda>_.
     insertFrom (EncodeInt64 k) (\<lambda>p. Insert p k v) leaf ancestors lp))))"
  unfolding BTree_Insert_def insertFrom_def Let_def ..

lemma BTree_Insert_spec:
  assumes inv: "tree_inv 8 h t w" and fuel: "h \<le> fuel" and N: "unat (nextPageID (pm w)) + h + 2 < 2 ^ 51"
  shows "k \<notin> fst ` set (rows t) \<Longrightarrow>
      \<exists>w' t' h'. BTree_Insert fuel k v w = (Ok (), w') \<and> inserted 8 EncodeInt64 h t k v w h' t' w'"
    and "k \<in> fst ` set (rows t) \<Longrightarrow> unique w \<Longrightarrow>
      \<exists>w'. BTree_Insert fuel k v w = (Err ErrDuplicateKey, w') \<and> tree_inv 8 h t w' \<and>
        nextPageID (pm w') = nextPageID (pm w) \<and> store.more w' = store.more w"
proof -
  let ?k = "EncodeInt64 k"
  obtain leaf anc lp w1 where i: "findLeafWithPath fuel ?k w = (Ok (leaf, anc), w1)" "deref leaf w1 = (Ok lp, w1)"
      "node_ok 8 lp" "?k \<in> set (keys 8 lp) \<longleftrightarrow> k \<in> fst ` set (rows t)" "tree_inv 8 h t w1"
      "nextPageID (pm w1) = nextPageID (pm w)" "store.more w1 = store.more w"
      "k \<notin> fst ` set (rows t) \<longrightarrow> (\<exists>w' t' h'. insertFrom ?k (\<lambda>p. Insert p k v) leaf anc lp w1 = (Ok (), w') \<and>
        inserted 8 EncodeInt64 h t k v w h' t' w')"
    using ints.insert_spec [OF inv fuel N, of k v] unfolding rows_key [OF inv] by blast
  let ?i = "lowerIdx (keys 8 lp) ?k"
  have find: "findKeyIndex lp ?k = Ok (word_of_nat ?i, k \<in> fst ` set (rows t))"
    using findKeyIndex_spec [OF i(3), of ?k] lowerIdx_found [of "keys 8 lp" ?k] i(3,4) by (simp add: node_ok_def)
  have u: "unique w1 = unique w" using more_fields [OF i(7)] by simp
  show "\<exists>w' t' h'. BTree_Insert fuel k v w = (Ok (), w') \<and> inserted 8 EncodeInt64 h t k v w h' t' w'" if "k \<notin> fst ` set (rows t)"
    using i(8) that i(1,2) find u by (simp add: BTree_Insert_from exec_simps)
  show "\<exists>w'. BTree_Insert fuel k v w = (Err ErrDuplicateKey, w') \<and> tree_inv 8 h t w' \<and>
        nextPageID (pm w') = nextPageID (pm w) \<and> store.more w' = store.more w"
    if "k \<in> fst ` set (rows t)" "unique w"
    using that i(1,2,5-7) find u by (simp add: BTree_Insert_from exec_simps)
qed

section \<open>Opening\<close>

text \<open>A file as \<^verbatim>\<open>os.OpenFile\<close> returns it, holding the bytes \<open>c\<close>, all of them durable.\<close>

definition fileWith :: "byte list \<Rightarrow> osfile" where
  "fileWith c = \<lparr>content = c, cursor = 0, closed = False, durable = c, unsynced = [], faults = []\<rparr>"

definition openState :: "byte list \<Rightarrow> uint16 \<Rightarrow> bool \<Rightarrow> Pool option \<Rightarrow> BTree" where
  "openState c es u q =
     \<lparr>objs = [], pm = \<lparr>pm_file = fileWith c, nextPageID = word_of_nat (length c div PageSize), pageReads = 0, pageWrites = 0, syncCalls = 0\<rparr>,
      pool = q, rootID = 0, entrySize = es, unique = u, pageSplits = 0, pageMerges = 0\<rparr>"

lemma fold_WithBufferPool:
  assumes "q = None \<or> (\<exists>n. q = Some (NewPool n))"
  shows "\<exists>q'. fold btree_WithBufferPool opts (openState c es u q) = openState c es u q' \<and> (q' = None \<or> (\<exists>n. q' = Some (NewPool n)))"
  using assms
proof (induction opts arbitrary: q)
  case (Cons n opts)
  have "btree_WithBufferPool n (openState c es u q) = openState c es u (Some (NewPool n))"
    by (simp add: btree_WithBufferPool_def openState_def)
  with Cons.IH [of "Some (NewPool n)"] show ?case by auto
qed auto

lemma openState_ok:
  assumes "q = None \<or> (\<exists>n. q = Some (NewPool n))" "length c \<le> 2 ^ 63"
  shows "sound (openState c es u q)" and "known (openState c es u q) = (\<lambda>v. map_option (\<lambda>bs. \<lparr>ID = v, Data = bs\<rparr>) (diskPage (openState c es u q) v))"
proof -
  let ?w = "openState c es u q"
  have p: "pool ?w = q" by (simp add: openState_def)
  have none: "cachedIn ?w v = None" for v
    using assms unfolding cachedIn_def p by (auto simp: cached_def NewPool_def)
  have "quiet ?w" using assms(2) by (simp add: quiet_def openState_def fileWith_def)
  then show "sound ?w" using assms none by (intro soundI [of "{}"]) (auto simp: pool_ok_NewPool store_ok_def p)
  show "known ?w = (\<lambda>v. map_option (\<lambda>bs. \<lparr>ID = v, Data = bs\<rparr>) (diskPage ?w v))"
    using none by (simp add: fun_eq_iff known_def stale_def view_def)
qed

lemma openWith_openRoot:
  "\<exists>q. (q = None \<or> (\<exists>n. q = Some (NewPool n))) \<and> openWith (Ok (fileWith c)) es u opts =
    (case openRoot (openState c es u q) of (r, t) \<Rightarrow> rbind r (\<lambda>root. Ok (t\<lparr>rootID := root\<rparr>)))"
proof -
  obtain q where q: "fold btree_WithBufferPool opts (openState c es u None) = openState c es u q" "q = None \<or> (\<exists>n. q = Some (NewPool n))"
    using fold_WithBufferPool [of None] by blast
  have "storage_Open (Ok (fileWith c)) = Ok (pm (openState c es u None))"
    by (simp add: storage_Open_def syscall_quiet fileWith_def openState_def)
  then have "openWith (Ok (fileWith c)) es u opts =
      (case openRoot (fold btree_WithBufferPool opts (openState c es u None)) of (r, t) \<Rightarrow> rbind r (\<lambda>root. Ok (t\<lparr>rootID := root\<rparr>)))"
    by (simp add: openWith_def openState_def)
  with q show ?thesis by auto
qed

lemma tree_in_empty:
  assumes "V 0 = Some (NewMetadataPage 0 1)" "V 1 = Some (NewLeafPage 1)" "1 < N"
  shows "tree_in K 0 (Leaf 1 []) V N"
proof -
  note l = NewLeafPage_spec [of 1]
  have "leaf_page K (NewLeafPage 1) []" using l by (auto simp: leaf_page_def node_ok_def keys_def header_fields)
  with assms l show ?thesis by (auto simp: tree_in_def RootPageID_NewMetadataPage header_fields)
qed

lemma openRoot_empty:
  assumes q: "q = None \<or> (\<exists>n. q = Some (NewPool n))"
  shows "\<exists>w. openRoot (openState [] es u q) = (Ok 1, w) \<and> tree_inv K 0 (Leaf 1 []) (w\<lparr>rootID := 1\<rparr>) \<and>
    unique w = u \<and> entrySize w = es \<and> nextPageID (pm w) = 2"
proof -
  let ?w = "openState [] es u q" and ?L = "NewLeafPage 1" and ?M = "NewMetadataPage 0 1"
  let ?V = "known ?w" and ?X = "store.more ?w"
  have s: "st {} ?V Map.empty (nextPageID (pm ?w)) ?X ?w" using st_initial openState_ok(1) [OF q, of "[]"] by auto
  have l: "wf_page ?L" "ID ?L = 1" using NewLeafPage_spec [of 1] by (simp_all add: header_fields)
  have m: "page_image ?M" "ID ?M = 0" using NewMetadataPage_image [of 0 1] by (simp_all add: valid_id_def)
  obtain w1 where w1: "SetNextPageID 1 ?w = (Ok (), w1)" "st {} ?V Map.empty 1 ?X w1"
    using SetNextPageID_rule [OF s, of 1] by blast
  obtain a w2 where w2: "AllocatePage w1 = (Ok a, w2)" "st {} ?V [a \<mapsto> ?L] 2 ?X w2"
    using AllocatePage_rule [OF w1(2)] by auto
  obtain b w3 where w3: "newObj ?M w2 = (Ok b, w3)" "st {} ?V [a \<mapsto> ?L, b \<mapsto> ?M] 2 ?X w3" "[a \<mapsto> ?L] b = None"
    using newObj_rule [OF w2(2), of ?M] by blast
  then have ab: "a \<noteq> b" by auto
  obtain w4 where w4: "writePage b w3 = (Ok (), w4)" "st {} (?V(0 \<mapsto> ?M)) [a \<mapsto> ?L, b \<mapsto> ?M] 2 ?X w4"
    using cached.write_rule [OF TrueI w3(2), of b ?M] m by auto
  obtain w5 where w5: "writePage a w4 = (Ok (), w5)" "st {} (?V(0 \<mapsto> ?M, 1 \<mapsto> ?L)) [a \<mapsto> ?L, b \<mapsto> ?M] 2 ?X w5"
    using write_rule_clean [OF w4(2), of a ?L] ab l by (auto simp: valid_id_def)
  have n0: "PageCount ?w = 0" by (simp add: PageCount_def openState_def)
  have run: "openRoot ?w = (Ok 1, w5)"
    using w1(1) w2(1) deref_rule [OF w2(2), of a ?L] w3(1) w4(1) w5(1) l(2) n0 by (simp add: openRoot_def exec_simps)
  obtain X' where s6: "st {} (?V(0 \<mapsto> ?M, 1 \<mapsto> ?L)) [a \<mapsto> ?L, b \<mapsto> ?M] 2 X' (w5\<lparr>rootID := 1\<rparr>)"
    using client_rule [OF w5(2), of "w5\<lparr>rootID := 1\<rparr>"] by simp
  have "tree_in K 0 (Leaf 1 []) (?V(0 \<mapsto> ?M, 1 \<mapsto> ?L)) 2" by (intro tree_in_empty) simp_all
  then have "tree_inv K 0 (Leaf 1 []) (w5\<lparr>rootID := 1\<rparr>)"
    using tree_in_mono [OF _ st_le_known [OF s6]] st_sound [OF s6] st_next [OF s6] by (simp add: tree_inv_def)
  moreover have "unique w5 = u" "entrySize w5 = es"
    using more_fields [OF st_more [OF w5(2)]] by (simp_all add: openState_def)
  ultimately show ?thesis using run st_next [OF w5(2)] by blast
qed

lemma openWith_empty:
  "\<exists>w. openWith (Ok (fileWith [])) es u opts = Ok w \<and> tree_inv K 0 (Leaf 1 []) w \<and> unique w = u \<and> entrySize w = es \<and>
    nextPageID (pm w) = 2"
proof -
  obtain q where q: "q = None \<or> (\<exists>n. q = Some (NewPool n))" "openWith (Ok (fileWith [])) es u opts =
    (case openRoot (openState [] es u q) of (r, t) \<Rightarrow> rbind r (\<lambda>root. Ok (t\<lparr>rootID := root\<rparr>)))"
    using openWith_openRoot by blast
  with openRoot_empty [OF q(1), of es u K] show ?thesis by auto
qed

end
