(* ===== verification/Durability.thy ===== *)
theory Durability
  imports Tree_Ops
begin

text \<open>
  What reaches the disk: \<^verbatim>\<open>Sync\<close> makes every page of the store durable, \<^verbatim>\<open>Close\<close> leaves every page in the
  file, and a tree reopened from those bytes is the tree that was there.
\<close>

section \<open>Flushing the whole pool\<close>

text \<open>A walk over \<^verbatim>\<open>p.items\<close> in some order.\<close>

definition walk_of :: "PageID list \<Rightarrow> 's store_scheme \<Rightarrow> bool" where
  "walk_of ord w \<longleftrightarrow> (\<forall>p. pool w = Some p \<longrightarrow> set ord = fst ` set (items p))"

lemma cached_walk: "walk_of ord w \<Longrightarrow> pool w = Some p \<Longrightarrow> cached p v = Some e \<Longrightarrow> v \<in> set ord"
  by (auto simp: walk_of_def cached_def split: option.splits dest!: map_of_SomeD) force

lemma flush_all:
  fixes w :: "'s store_scheme"
  assumes ok: "sound w" and p: "pool w = Some p" and walk: "walk_of ord w"
  shows "\<exists>w'. flushDirty ord w = (Ok (), w') \<and> store_ok (stale w) w' \<and> keeps (stale w) w w' \<and>
    (\<forall>v q. known w v = Some q \<longrightarrow> diskPage w' v = Some (Data q)) \<and>
    (\<forall>q. pool w' = Some q \<longrightarrow> (\<forall>x \<in> set (lru q). \<not> e_dirty (snd x)))"
proof -
  obtain w' q where w': "flushDirty ord w = (Ok (), w')" "store_ok (stale w) w'" "keeps (stale w) w w'" "pool w' = Some q"
      "\<forall>v e. cached q v = Some e \<longrightarrow> v \<in> set ord \<longrightarrow> \<not> e_dirty e" "\<forall>v. (cached q v = None) = (cached p v = None)"
    using flushDirty_spec [OF ok [unfolded sound_def] p, of ord] by blast
  have "diskPage w' v = Some (Data x)" if "known w v = Some x" for v x
  proof -
    have x: "view w' v = Some x" and v: "v \<notin> stale w" using w'(3) that by (simp_all add: keeps_def known_view)
    show ?thesis
    proof (cases "cached q v")
      case None
      then show ?thesis using x w'(4) by (auto simp: view_def cachedIn_def)
    next
      case (Some e)
      then have "cached p v \<noteq> None" using w'(6) by (metis option.distinct(1))
      then have "v \<in> set ord" using cached_walk [OF walk p] by auto
      with Some w'(5) have "\<not> e_dirty e" by blast
      moreover have "entry_ok w' (stale w) v e" using w'(2,4) Some by (simp add: store_ok_def cachedIn_def)
      ultimately show ?thesis using x v Some w'(4) by (simp add: view_def cachedIn_def entry_ok_def)
    qed
  qed
  moreover have "\<not> e_dirty (snd x)" if "x \<in> set (lru q)" for x
  proof -
    have "pool_ok q" using w'(2,4) by (simp add: store_ok_def)
    then have c: "cached q (e_pageID (snd x)) = Some (snd x)" using that cached_iff [of q] by (metis prod.collapse)
    then have "cached p (e_pageID (snd x)) \<noteq> None" using w'(6) by (metis option.distinct(1))
    then show ?thesis using cached_walk [OF walk p] w'(5) c by auto
  qed
  ultimately show ?thesis using w' by auto
qed

text \<open>A system call that keeps the bytes and stays quiet keeps the store.\<close>

lemma same_store:
  fixes w w' :: "'s store_scheme"
  assumes "store_ok T w" "objs w' = objs w" "quiet w'" "fileBytes w' = fileBytes w"
    "nextPageID (pm w') = nextPageID (pm w)" "world.more w' = world.more w"
  shows "store_ok T w'" "keeps T w w'" "diskPage w' = diskPage w"
proof -
  have m: "pool w' = pool w" "store.more w' = store.more w" using more_split [OF assms(6)] by simp_all
  have c: "cachedIn w' = cachedIn w" by (simp add: fun_eq_iff cachedIn_def m)
  show d: "diskPage w' = diskPage w" using diskPage_fileBytes [OF assms(4)] .
  show "store_ok T w'" using assms(1-3) by (simp add: store_ok_def entry_ok_def c d m)
  have "view w' = view w" by (simp add: fun_eq_iff view_def c d assms(2) split: option.splits)
  then show "keeps T w w'" using assms(2,5) m by (simp add: keeps_def)
qed

lemma store_Sync_spec:
  fixes w :: "'s store_scheme"
  assumes ok: "sound w" and walk: "walk_of ord w"
  shows "\<exists>w'. store_Sync ord w = (Ok (), w') \<and> store_ok (stale w) w' \<and> keeps (stale w) w w' \<and> durableBytes w' = fileBytes w' \<and>
    (\<forall>v p. known w v = Some p \<longrightarrow> diskPage w' v = Some (Data p)) \<and> all_synced w'"
proof (cases "pool w")
  case None
  obtain w' where w': "pm_Sync w = (Ok (), w')" "objs w' = objs w" "quiet w'" "fileBytes w' = fileBytes w"
      "durableBytes w' = fileBytes w" "nextPageID (pm w') = nextPageID (pm w)" "world.more w' = world.more w" "unsynced (pm_file (pm w')) = []"
    using pm_Sync_spec [of w] sound_quiet [OF ok] by auto
  note s = same_store [OF ok [unfolded sound_def] w'(2,3,4,6,7)]
  have "\<forall>v p. known w v = Some p \<longrightarrow> diskPage w' v = Some (Data p)"
    using None by (auto simp: s(3) known_view view_def cachedIn_def)
  moreover have "all_synced w'" using w'(8) more_split [OF w'(7)] None by (simp add: all_synced_def)
  ultimately show ?thesis using w' s None by (auto simp: store_Sync_def)
next
  case (Some p)
  obtain w1 where w1: "flushDirty ord w = (Ok (), w1)" "store_ok (stale w) w1" "keeps (stale w) w w1"
      "\<forall>v q. known w v = Some q \<longrightarrow> diskPage w1 v = Some (Data q)" "\<forall>q. pool w1 = Some q \<longrightarrow> (\<forall>x \<in> set (lru q). \<not> e_dirty (snd x))"
    using flush_all [OF ok Some walk] by blast
  obtain w' where w': "pm_Sync w1 = (Ok (), w')" "objs w' = objs w1" "quiet w'" "fileBytes w' = fileBytes w1"
      "durableBytes w' = fileBytes w1" "nextPageID (pm w') = nextPageID (pm w1)" "world.more w' = world.more w1" "unsynced (pm_file (pm w')) = []"
    using pm_Sync_spec [of w1] w1(2) by (auto simp: store_ok_def)
  note s = same_store [OF w1(2) w'(2,3,4,6,7)]
  have "all_synced w'" using w'(8) w1(5) more_split [OF w'(7)] by (simp add: all_synced_def)
  moreover have "store_Sync ord w = (Ok (), w')"
    using Some w1(1) w'(1) by (simp add: store_Sync_def pool_Sync_def exec_simps)
  ultimately show ?thesis using s w1 w'(4,5) keeps_trans [OF w1(3) s(2)] by auto
qed

lemma store_Close_spec:
  fixes w :: "'s store_scheme"
  assumes ok: "sound w" and walk: "walk_of ord w"
  shows "\<exists>w'. store_Close ord w = (Ok (), w') \<and> closed (pm_file (pm w')) \<and> length (content (pm_file (pm w'))) \<le> 2 ^ 63 \<and>
    (\<forall>v p. known w v = Some p \<longrightarrow> diskPage w' v = Some (Data p))"
proof -
  have cl: "\<exists>w'. pm_Close w1 = (Ok (), w') \<and> closed (pm_file (pm w')) \<and> length (content (pm_file (pm w'))) \<le> 2 ^ 63 \<and>
      diskPage w' = diskPage w1"
    if "quiet w1" for w1 :: "'s store_scheme"
    using that by (simp add: pm_Close_def withFile_def fileClose_def syscall_quiet quiet_def diskPage_def fun_eq_iff)
  show ?thesis
  proof (cases "pool w")
    case None
    with cl [of w] ok show ?thesis by (fastforce simp: store_Close_def known_view view_def cachedIn_def dest: sound_quiet)
  next
    case (Some p)
    obtain w1 where w1: "flushDirty ord w = (Ok (), w1)" "store_ok (stale w) w1"
        "\<forall>v q. known w v = Some q \<longrightarrow> diskPage w1 v = Some (Data q)"
      using flush_all [OF ok Some walk] by blast
    with cl [of w1] Some show ?thesis by (auto simp: store_Close_def pool_Close_def store_ok_def)
  qed
qed

section \<open>Reopening\<close>

lemma openRoot_reopen:
  assumes q: "q = None \<or> (\<exists>n. q = Some (NewPool n))"
    and disk: "\<And>v p. V v = Some p \<Longrightarrow> ID p = v \<and> diskPage (openState c es u q) v = Some (Data p)"
    and t: "tree_in K h t V N" and len: "length c \<le> 2 ^ 63"
  shows "\<exists>w. openRoot (openState c es u q) = (Ok (tid t), w) \<and> tree_inv K h t (w\<lparr>rootID := tid t\<rparr>) \<and>
    unique w = u \<and> entrySize w = es \<and> nextPageID (pm w) = word_of_nat (length c div PageSize)"
proof -
  let ?w = "openState c es u q" and ?N = "word_of_nat (length c div PageSize) :: PageID"
  have fits: "Suc (unat v) * PageSize \<le> length c" if "V v = Some p" for v p
    using disk [OF that] by (auto simp: diskPage_def openState_def fileWith_def Let_def split: if_splits)
  have N: "unat ?N = length c div PageSize"
    using len by (simp add: unat_of_nat)
  have le: "V \<subseteq>\<^sub>m known ?w"
    unfolding openState_ok(2) [OF q len] map_le_def using disk by fastforce
  have lt: "v < ?N" if "V v = Some p" for v p
    using fits [OF that] by (simp add: word_less_nat_alt N less_eq_div_iff_mult_less_eq Suc_le_lessD flip: Suc_le_eq)
  have "tree_in K h t V ?N"
    using t lt rep_ids_view by (fastforce simp: tree_in_def)
  then have t': "tree_in K h t (known ?w) ?N" using tree_in_mono le by blast
  obtain m where m: "V 0 = Some m" "RootPageID m = tid t" using t by (auto simp: tree_in_def)
  have s: "st {} (known ?w) Map.empty ?N (store.more ?w) ?w"
    using st_initial [OF openState_ok(1) [OF q len, of es u]] by (simp add: openState_def)
  obtain a w1 where w1: "readPage 0 ?w = (Ok a, w1)" "st {} (known ?w) [a \<mapsto> m] ?N (store.more ?w) w1"
    using cached.read_rule [OF TrueI s, of 0 m] map_le_Some [OF le m(1)] by auto
  have "PageCount ?w \<noteq> 0" using lt [OF m(1)] by (auto simp: PageCount_def openState_def)
  then have run: "openRoot ?w = (Ok (tid t), w1)"
    using w1(1) deref_rule [OF w1(2), of a m] m(2) by (simp add: openRoot_def exec_simps)
  obtain X' where s2: "st {} (known ?w) [a \<mapsto> m] ?N X' (w1\<lparr>rootID := tid t\<rparr>)"
    using client_rule [OF w1(2), of "w1\<lparr>rootID := tid t\<rparr>"] by simp
  have "tree_inv K h t (w1\<lparr>rootID := tid t\<rparr>)"
    using tree_in_mono [OF t' st_le_known [OF s2]] st_sound [OF s2] st_next [OF s2] by (simp add: tree_inv_def)
  moreover have "unique w1 = u" "entrySize w1 = es"
    using more_fields [OF st_more [OF w1(2)]] by (simp_all add: openState_def)
  ultimately show ?thesis using run st_next [OF w1(2)] by blast
qed

lemma openWith_reopen:
  assumes inv: "tree_inv K h t w" and disk: "\<And>v p. known w v = Some p \<Longrightarrow> diskPage w' v = Some (Data p)"
    and c: "content (pm_file (pm w')) = c" "length c \<le> 2 ^ 63"
  shows "\<exists>w2. openWith (Ok (fileWith c)) es u opts = Ok w2 \<and> tree_inv K h t w2 \<and> unique w2 = u \<and> entrySize w2 = es \<and>
    nextPageID (pm w2) = word_of_nat (length c div PageSize)"
proof -
  obtain q where q: "q = None \<or> (\<exists>n. q = Some (NewPool n))" "openWith (Ok (fileWith c)) es u opts =
      (case openRoot (openState c es u q) of (r, t) \<Rightarrow> rbind r (\<lambda>root. Ok (t\<lparr>rootID := root\<rparr>)))"
    using openWith_openRoot by blast
  have t: "tree_in K h t (known w) (nextPageID (pm w))" and ok: "sound w" using inv by (simp_all add: tree_inv_def)
  have "ID p = v \<and> diskPage (openState c es u q) v = Some (Data p)" if "known w v = Some p" for v p
    using known_image [OF ok that] disk [OF that] c(1) by (simp add: diskPage_def openState_def fileWith_def)
  from openRoot_reopen [OF q(1) this t c(2)] q(2) show ?thesis by auto
qed

lemma sync_reopen:
  assumes inv: "tree_inv K h t w" and walk: "walk_of ord w"
  shows "\<exists>w'. BTree_Sync ord w = (Ok (), w') \<and> tree_inv K h t w' \<and>
    nextPageID (pm w') = nextPageID (pm w) \<and> store.more w' = store.more w \<and> all_synced w' \<and>
    (\<forall>opts. \<exists>w2. openWith (Ok (fileWith (durableBytes w'))) es u opts = Ok w2 \<and> tree_inv K h t w2 \<and> unique w2 = u \<and> entrySize w2 = es \<and>
      nextPageID (pm w2) = word_of_nat (length (durableBytes w') div PageSize))"
proof -
  have ok: "sound w" using inv by (simp add: tree_inv_def)
  obtain w' where w': "store_Sync ord w = (Ok (), w')" "store_ok (stale w) w'" "keeps (stale w) w w'" "durableBytes w' = fileBytes w'"
      "\<forall>v p. known w v = Some p \<longrightarrow> diskPage w' v = Some (Data p)" "all_synced w'"
    using store_Sync_spec [OF ok walk] by blast
  have "tree_inv K h t w'" using tree_inv_st [OF inv st_initial_keeps [OF ok w'(3,2)]] .
  moreover have "length (durableBytes w') \<le> 2 ^ 63" using w'(2,4) by (simp add: store_ok_def quiet_def fileBytes_def)
  moreover have "content (pm_file (pm w')) = durableBytes w'" using w'(4) by (simp add: fileBytes_def)
  ultimately show ?thesis
    using w'(1,3,5,6) openWith_reopen [OF inv, of w' "durableBytes w'" es u] by (simp add: BTree_Sync_def keeps_def)
qed

end
