(* ===== verification/Underflow.thy ===== *)
theory Underflow
  imports BTree
begin

text \<open>
  The deletion side of \<^verbatim>\<open>internal/btree/btree.go\<close>: \<^verbatim>\<open>Delete\<close> and the repair of underfull pages by
  redistribution or merge, up to the root. A page pointer of the code that may be \<^verbatim>\<open>nil\<close> is an
  \<^verbatim>\<open>option\<close>; using a \<^verbatim>\<open>nil\<close> one panics.
\<close>

section \<open>Optional siblings\<close>

text \<open>\<^verbatim>\<open>page.MinEntries(t.entrySize)\<close>\<close>

definition minEntries :: "(BTree, uint16) op" where
  "minEntries = sbind (sget entrySize) (\<lambda>es. slift (MinEntries es))"

text \<open>\<^verbatim>\<open>if id != 0 { page = t.readPage(id) }\<close>\<close>

definition readSibling :: "PageID \<Rightarrow> (BTree, addr option) op" where
  "readSibling i = (if i = 0 then sret None else sbind (readPage i) (\<lambda>a. sret (Some a)))"

text \<open>\<^verbatim>\<open>page != nil && page.NumEntries() > page.MinEntries(t.entrySize)\<close>\<close>

definition canLend :: "addr option \<Rightarrow> (BTree, bool) op" where
  "canLend s = (case s of
       None \<Rightarrow> sret False
     | Some a \<Rightarrow> sbind (deref a) (\<lambda>p. sbind minEntries (\<lambda>m. sret (NumEntries p > m))))"

definition needPage :: "addr option \<Rightarrow> (BTree, addr) op" where
  "needPage s = (case s of None \<Rightarrow> slift Panic | Some a \<Rightarrow> sret a)"

text \<open>\<^verbatim>\<open>parent.DeleteEntry(idx)\<close> followed by the insertion of a new separator at the same slot.\<close>

definition replaceEntry :: "uint16 \<Rightarrow> byte list \<Rightarrow> Page \<Rightarrow> Page res" where
  "replaceEntry idx entryBytes p = rbind (DeleteEntry p idx) (\<lambda>p. InsertEntry p idx entryBytes)"

text \<open>The two pointer repairs after a leaf merge: the leaf that follows \<open>a\<close> points back to it.\<close>

definition relinkNext :: "addr \<Rightarrow> (BTree, unit) op" where
  "relinkNext a =
     sbind (deref a) (\<lambda>p.
     if NextLeafPageID p = 0 then sret ()
     else
       sbind (readPage (NextLeafPageID p)) (\<lambda>b.
       sbind (mutate b (\<lambda>q. Ok (SetPrevLeafPageID q (ID p)))) (\<lambda>_.
       writePage b)))"

section \<open>Redistribution through the parent\<close>

definition redistributeLeafFromLeft :: "addr \<Rightarrow> addr \<Rightarrow> addr \<Rightarrow> (BTree, unit) op" where
  "redistributeLeafFromLeft leaf leftPage parent =
     sbind (mutate2 leaf leftPage redistributeFromLeft) (\<lambda>newSeparator.
     sbind (deref leaf) (\<lambda>lp.
     sbind (mutate parent (\<lambda>p.
       rbind (findChildIndex p (ID lp)) (\<lambda>(idx, _).
       replaceEntry idx (newSeparator @ encodeChildID (ID lp)) p))) (\<lambda>_.
     sbind (writePage leaf) (\<lambda>_.
     sbind (writePage leftPage) (\<lambda>_.
     writePage parent)))))"

definition redistributeLeafFromRight :: "addr \<Rightarrow> addr \<Rightarrow> addr \<Rightarrow> (BTree, unit) op" where
  "redistributeLeafFromRight leaf rightPage parent =
     sbind (mutate2 leaf rightPage redistributeFromRight) (\<lambda>newSeparator.
     sbind (deref rightPage) (\<lambda>rp.
     sbind (mutate parent (\<lambda>p.
       rbind (findChildIndex p (ID rp)) (\<lambda>(idx, _).
       replaceEntry idx (newSeparator @ encodeChildID (ID rp)) p))) (\<lambda>_.
     sbind (writePage leaf) (\<lambda>_.
     sbind (writePage rightPage) (\<lambda>_.
     writePage parent)))))"

definition redistributeInternalNodeFromLeft :: "addr \<Rightarrow> addr \<Rightarrow> addr \<Rightarrow> (BTree, unit) op" where
  "redistributeInternalNodeFromLeft node leftSibling grandparent =
     sbind (deref node) (\<lambda>np.
     sbind (deref grandparent) (\<lambda>gp.
     sbind (slift (findChildIndex gp (ID np))) (\<lambda>(idx, _).
     sbind (slift (entryPrefix gp idx 8)) (\<lambda>oldSeparator.
     sbind (mutate2 node leftSibling (\<lambda>n l. redistributeInternalFromLeft n l oldSeparator)) (\<lambda>newSeparator.
     sbind (mutate grandparent (replaceEntry idx (newSeparator @ encodeChildID (ID np)))) (\<lambda>_.
     sbind (writePage node) (\<lambda>_.
     sbind (writePage leftSibling) (\<lambda>_.
     writePage grandparent))))))))"

definition redistributeInternalNodeFromRight :: "addr \<Rightarrow> addr \<Rightarrow> addr \<Rightarrow> (BTree, unit) op" where
  "redistributeInternalNodeFromRight node rightSibling grandparent =
     sbind (deref rightSibling) (\<lambda>rp.
     sbind (deref grandparent) (\<lambda>gp.
     sbind (slift (findChildIndex gp (ID rp))) (\<lambda>(idx, _).
     sbind (slift (entryPrefix gp idx 8)) (\<lambda>oldSeparator.
     sbind (mutate2 node rightSibling (\<lambda>n r. redistributeInternalFromRight n r oldSeparator)) (\<lambda>newSeparator.
     sbind (mutate grandparent (replaceEntry idx (newSeparator @ encodeChildID (ID rp)))) (\<lambda>_.
     sbind (writePage node) (\<lambda>_.
     sbind (writePage rightSibling) (\<lambda>_.
     writePage grandparent))))))))"

section \<open>Internal underflow\<close>

text \<open>An empty internal root hands the tree to its only child; any other root is just written.\<close>

definition shrinkRoot :: "addr \<Rightarrow> (BTree, unit) op" where
  "shrinkRoot node =
     sbind (deref node) (\<lambda>np.
     if NumEntries np = 0 then
       let childID = LeftmostChildPageID np in
       sbind (newObj (NewMetadataPage 0 childID)) (\<lambda>metaPage.
       sbind (writePage metaPage) (\<lambda>_.
       smod (\<lambda>t. t\<lparr>rootID := childID\<rparr>)))
     else writePage node)"

definition countMerge :: "(BTree, unit) op" where
  "countMerge = smod (\<lambda>t. t\<lparr>pageMerges := pageMerges t + 1\<rparr>)"

text \<open>
  The body that \<^verbatim>\<open>mergeInternalWithLeft\<close> and \<^verbatim>\<open>mergeInternalWithRight\<close> share before
  \<^verbatim>\<open>finishInternalMerge\<close>: \<open>right\<close>, whose separator sits in \<open>grandparent\<close>, goes into \<open>left\<close>.
\<close>

definition absorbInternal :: "addr \<Rightarrow> addr \<Rightarrow> addr \<Rightarrow> (BTree, unit) op" where
  "absorbInternal left right grandparent =
     sbind (deref right) (\<lambda>rp.
     sbind (deref grandparent) (\<lambda>gp.
     sbind (slift (findChildIndex gp (ID rp))) (\<lambda>(idx, _).
     sbind (slift (entryPrefix gp idx 8)) (\<lambda>separator.
     sbind (mutate left (\<lambda>l. mergeInternal l rp separator)) (\<lambda>_.
     sbind countMerge (\<lambda>_.
     sbind (mutate grandparent (\<lambda>p. DeleteEntry p idx)) (\<lambda>_.
     writePage left)))))))"

lemma length_butlast_measure: "xs \<noteq> [] \<Longrightarrow> 3 * (length xs - Suc 0) + 2 < 3 * length xs"
  by (cases xs) auto

function (sequential)
      fixInternalUnderflow :: "addr \<Rightarrow> PageID list \<Rightarrow> (BTree, unit) op"
  and mergeInternalWithLeft :: "addr \<Rightarrow> addr \<Rightarrow> addr \<Rightarrow> PageID list \<Rightarrow> (BTree, unit) op"
  and mergeInternalWithRight :: "addr \<Rightarrow> addr option \<Rightarrow> addr \<Rightarrow> PageID list \<Rightarrow> (BTree, unit) op"
  and finishInternalMerge :: "addr \<Rightarrow> PageID list \<Rightarrow> (BTree, unit) op"
where
  "fixInternalUnderflow node ancestors =
     (if ancestors = [] then shrinkRoot node
      else
        sbind (readPage (last ancestors)) (\<lambda>grandparent.
        sbind (deref node) (\<lambda>np.
        sbind (deref grandparent) (\<lambda>gp.
        sbind (slift (findSiblingPageIDs gp np)) (\<lambda>(leftID, rightID).
        sbind (readSibling leftID) (\<lambda>leftSibling.
        sbind (readSibling rightID) (\<lambda>rightSibling.
        sbind (canLend leftSibling) (\<lambda>lendLeft.
        sbind (canLend rightSibling) (\<lambda>lendRight.
        if lendLeft then redistributeInternalNodeFromLeft node (the leftSibling) grandparent
        else if lendRight then redistributeInternalNodeFromRight node (the rightSibling) grandparent
        else (case leftSibling of
            Some l \<Rightarrow> mergeInternalWithLeft node l grandparent ancestors
          | None \<Rightarrow> mergeInternalWithRight node rightSibling grandparent ancestors))))))))))"
| "mergeInternalWithLeft node leftSibling grandparent ancestors =
     sbind (absorbInternal leftSibling node grandparent) (\<lambda>_. finishInternalMerge grandparent ancestors)"
| "mergeInternalWithRight node rightSibling grandparent ancestors =
     sbind (needPage rightSibling) (\<lambda>r.
     sbind (absorbInternal node r grandparent) (\<lambda>_. finishInternalMerge grandparent ancestors))"
| "finishInternalMerge grandparent ancestors =
     (let isRoot = length ancestors = 1 in
      sbind (deref grandparent) (\<lambda>gp.
      sbind (if isRoot then sret False else sbind minEntries (\<lambda>m. sret (NumEntries gp \<ge> m))) (\<lambda>enough.
      if enough then writePage grandparent
      else if isRoot \<and> NumEntries gp > 0 then writePage grandparent
      else if ancestors = [] then slift Panic
      else fixInternalUnderflow grandparent (butlast ancestors))))"
  by pat_completeness auto
termination
  by (relation "measure (\<lambda>x. case x of
        Inl (Inl (n, anc)) \<Rightarrow> 3 * length anc + 2
      | Inl (Inr (n, l, g, anc)) \<Rightarrow> 3 * length anc + 1
      | Inr (Inl (n, r, g, anc)) \<Rightarrow> 3 * length anc + 1
      | Inr (Inr (g, anc)) \<Rightarrow> 3 * length anc)") (auto dest: length_butlast_measure)

declare fixInternalUnderflow.simps [simp del] mergeInternalWithLeft.simps [simp del]
  mergeInternalWithRight.simps [simp del] finishInternalMerge.simps [simp del]

section \<open>Leaf underflow\<close>

text \<open>The removal of the separator of page \<open>i\<close> from its parent: \<^verbatim>\<open>findChildIndex\<close>, \<^verbatim>\<open>DeleteEntry\<close>.\<close>

definition dropChild :: "addr \<Rightarrow> PageID \<Rightarrow> (BTree, unit) op" where
  "dropChild parent i =
     mutate parent (\<lambda>p. rbind (findChildIndex p i) (\<lambda>(idx, _). DeleteEntry p idx))"

definition mergeLeafWithLeft :: "addr \<Rightarrow> addr \<Rightarrow> addr \<Rightarrow> PageID list \<Rightarrow> (BTree, unit) op" where
  "mergeLeafWithLeft leaf leftPage parent ancestors =
     sbind (deref leaf) (\<lambda>lp.
     sbind (mutate2 leftPage leaf (\<lambda>l r. rbind (mergeLeaf l r) (\<lambda>(l, r). Ok ((), l, r)))) (\<lambda>_.
     sbind countMerge (\<lambda>_.
     sbind (relinkNext leftPage) (\<lambda>_.
     sbind (dropChild parent (ID lp)) (\<lambda>_.
     sbind (writePage leftPage) (\<lambda>_.
     finishInternalMerge parent ancestors))))))"

definition mergeLeafWithRight :: "addr \<Rightarrow> addr option \<Rightarrow> addr \<Rightarrow> PageID list \<Rightarrow> (BTree, unit) op" where
  "mergeLeafWithRight leaf rightSibling parent ancestors =
     sbind (needPage rightSibling) (\<lambda>rightPage.
     sbind (deref rightPage) (\<lambda>rp.
     sbind (mutate2 leaf rightPage (\<lambda>l r. rbind (mergeLeaf l r) (\<lambda>(l, r). Ok ((), l, r)))) (\<lambda>_.
     sbind countMerge (\<lambda>_.
     sbind (relinkNext leaf) (\<lambda>_.
     sbind (dropChild parent (ID rp)) (\<lambda>_.
     sbind (writePage leaf) (\<lambda>_.
     finishInternalMerge parent ancestors)))))))"

definition fixLeafUnderflow :: "addr \<Rightarrow> PageID list \<Rightarrow> (BTree, unit) op" where
  "fixLeafUnderflow leaf ancestors =
     (if ancestors = [] then slift Panic
      else
        sbind (readPage (last ancestors)) (\<lambda>parent.
        sbind (deref leaf) (\<lambda>lp.
        sbind (readSibling (PrevLeafPageID lp)) (\<lambda>leftPage.
        sbind (readSibling (NextLeafPageID lp)) (\<lambda>rightPage.
        sbind (canLend leftPage) (\<lambda>lendLeft.
        sbind (canLend rightPage) (\<lambda>lendRight.
        if lendLeft then redistributeLeafFromLeft leaf (the leftPage) parent
        else if lendRight then redistributeLeafFromRight leaf (the rightPage) parent
        else (case leftPage of
            Some l \<Rightarrow> mergeLeafWithLeft leaf l parent ancestors
          | None \<Rightarrow> mergeLeafWithRight leaf rightPage parent ancestors))))))))"

section \<open>Deletion\<close>

definition BTree_Delete :: "nat \<Rightarrow> int64 \<Rightarrow> (BTree, unit) op" where
  "BTree_Delete fuel key =
     (let encodedKey = EncodeInt64 key in
      sbind (findLeafWithPath fuel encodedKey) (\<lambda>(leaf, ancestors).
      sbind (mutate leaf (\<lambda>p. Delete p key)) (\<lambda>_.
      if ancestors = [] then writePage leaf
      else
        sbind (deref leaf) (\<lambda>lp.
        sbind minEntries (\<lambda>m.
        if NumEntries lp \<ge> m then writePage leaf
        else fixLeafUnderflow leaf ancestors)))))"

end
