(* ===== verification/Tree_Delete.thy ===== *)
theory Tree_Delete
  imports Tree_Ops Underflow Occupancy
begin

text \<open>
  \<^verbatim>\<open>Delete\<close> of \<^verbatim>\<open>btree.go\<close> on trees of any height, whenever the leaf that loses the row stays at least
  half full or is the root, and on a key that is not there.
\<close>

section \<open>Removing a key from a sorted list\<close>

lemma filter_all: "\<forall>x \<in> set xs. P x \<Longrightarrow> filter P xs = xs"
  by (induction xs) auto

lemma delete_sorted:
  assumes srt: "sorted_wrt (<) (map fst kvs)" and k: "k \<in> fst ` set kvs"
  shows "delete_nth (lowerIdx (map fst kvs) k) kvs = filter (\<lambda>kv. fst kv \<noteq> k) kvs"
proof -
  let ?i = "lowerIdx (map fst kvs) k"
  have "?i < length kvs" and at: "fst (kvs ! ?i) = k"
    using lowerIdx_found [of "map fst kvs" k] srt k by (auto simp: strict_sorted_iff)
  then have split: "kvs = take ?i kvs @ kvs ! ?i # drop (Suc ?i) kvs" by (simp add: id_take_nth_drop)
  have "sorted_wrt (<) (map fst (take ?i kvs @ kvs ! ?i # drop (Suc ?i) kvs))" using srt split by simp
  then have "\<forall>x \<in> set (take ?i kvs). fst x \<noteq> k" "\<forall>x \<in> set (drop (Suc ?i) kvs). fst x \<noteq> k"
    using at by (auto simp: sorted_wrt_append)
  then have "filter (\<lambda>kv. fst kv \<noteq> k) (take ?i kvs @ kvs ! ?i # drop (Suc ?i) kvs) = take ?i kvs @ drop (Suc ?i) kvs"
    using at by (simp add: filter_all)
  with split show ?thesis by (simp add: delete_nth_def)
qed

lemma rows_filter:
  assumes "\<forall>kv \<in> set kvs. length (fst kv) = 8"
  shows "rowsOf (filter (\<lambda>kv. fst kv \<noteq> EncodeInt64 k) kvs) = filter (\<lambda>r. fst r \<noteq> k) (rowsOf kvs)"
  using assms
proof (induction kvs)
  case (Cons kv kvs)
  have "fst kv = EncodeInt64 k \<longleftrightarrow> dec64 (fst kv) = k" using Cons.prems Encode_dec64 [of "fst kv"] by auto
  with Cons show ?case by (simp add: rowsOf_def split_beta)
qed (simp add: rowsOf_def)

lemma map_of_filter_key: "map_of (filter (\<lambda>r. fst r \<noteq> k) rs) = (map_of rs)(k := None)"
  by (induction rs) auto

section \<open>Deletion from a leaf\<close>

lemma Delete_leaf:
  assumes p: "leaf_page 8 p kvs" and srt: "sorted_wrt (<) (map fst kvs)"
  shows "EncodeInt64 k \<in> fst ` set kvs \<Longrightarrow> \<exists>p'. Delete p k = Ok p' \<and> header p' = header p \<and>
      leaf_page 8 p' (filter (\<lambda>kv. fst kv \<noteq> EncodeInt64 k) kvs)"
    and "EncodeInt64 k \<notin> fst ` set kvs \<Longrightarrow> Delete p k = Err ErrKeyNotFound"
proof -
  have ok: "node_ok 8 p" and len: "\<forall>kv \<in> set kvs. length (fst kv) = 8" using p by (auto simp: leaf_page_def)
  have keys: "keys 8 p = map fst kvs" using leaf_page_keys [OF p] .
  have mem: "k \<in> fst ` set (pairs p) \<longleftrightarrow> EncodeInt64 k \<in> fst ` set kvs"
    unfolding leaf_page_pairs [OF p] using map_of_rowsOf [OF len, of k]
    by (metis map_of_eq_None_iff option.map_disc_iff)
  show "Delete p k = Err ErrKeyNotFound" if "EncodeInt64 k \<notin> fst ` set kvs"
    using Delete_spec(2) [OF ok] that mem by simp
  assume k: "EncodeInt64 k \<in> fst ` set kvs"
  obtain p' where p': "Delete p k = Ok p'" "node_ok 8 p'" "header p' = header p"
      "entries p' = delete_nth (lowerIdx (map fst kvs) (EncodeInt64 k)) (entries p)"
    using Delete_spec(1) [OF ok, of k] k mem keys by auto
  have "entries p' = map entryOf (filter (\<lambda>kv. fst kv \<noteq> EncodeInt64 k) kvs)"
    using p'(4) p delete_sorted [OF srt k] by (simp add: leaf_page_def delete_nth_def take_map drop_map flip: map_append)
  then have "leaf_page 8 p' (filter (\<lambda>kv. fst kv \<noteq> EncodeInt64 k) kvs)"
    using p p'(2) header_same [OF p'(3)] by (simp add: leaf_page_def)
  with p' show "\<exists>p'. Delete p k = Ok p' \<and> header p' = header p \<and> leaf_page 8 p' (filter (\<lambda>kv. fst kv \<noteq> EncodeInt64 k) kvs)"
    by blast
qed

section \<open>Deletion from the tree\<close>

text \<open>What remains of a deletion once the leaf is known: \<open>del\<close> removes the row from a single leaf.\<close>

definition deleteFrom :: "(Page \<Rightarrow> Page res) \<Rightarrow> addr \<Rightarrow> PageID list \<Rightarrow> (BTree, unit) op" where
  "deleteFrom del leaf ancestors =
     sbind (mutate leaf del) (\<lambda>_.
     if ancestors = [] then writePage leaf
     else
       sbind (deref leaf) (\<lambda>lp.
       sbind minEntries (\<lambda>m.
       if NumEntries lp \<ge> m then writePage leaf
       else fixLeafUnderflow leaf ancestors)))"

text \<open>
  A routine \<open>del\<close> that removes the row of key \<open>k\<close>, encoded in \<open>K\<close> bytes, from a leaf, in trees of entry size \<open>es\<close>
  whose leaves hold at least \<open>least\<close> rows.
\<close>

locale leaf_delete =
  fixes K :: nat and enc :: "'k \<Rightarrow> byte list" and del :: "Page \<Rightarrow> 'k \<Rightarrow> Page res" and es :: uint16 and least :: nat
  assumes del_found: "leaf_page K p kvs \<Longrightarrow> sorted_wrt (<) (map fst kvs) \<Longrightarrow> enc k \<in> fst ` set kvs \<Longrightarrow>
      \<exists>p'. del p k = Ok p' \<and> header p' = header p \<and> leaf_page K p' (filter (\<lambda>kv. fst kv \<noteq> enc k) kvs)"
    and del_missing: "leaf_page K p kvs \<Longrightarrow> sorted_wrt (<) (map fst kvs) \<Longrightarrow> enc k \<notin> fst ` set kvs \<Longrightarrow>
      del p k = Err ErrKeyNotFound"
    and min_law: "\<exists>m. MinEntries es = Ok m \<and> unat m = least" and least_pos: "0 < least"
begin

lemma delete_missing:
  assumes inv: "tree_inv K h t w" and fuel: "h \<le> fuel" and k: "enc k \<notin> fst ` set (contents t)"
  shows "\<exists>w'. sbind (findLeafWithPath fuel (enc k)) (\<lambda>(leaf, anc). deleteFrom (\<lambda>p. del p k) leaf anc) w = (Err ErrKeyNotFound, w') \<and>
    tree_inv K h t w' \<and> nextPageID (pm w') = nextPageID (pm w) \<and> store.more w' = store.more w"
proof -
  obtain b q i kvs fs H w1 where f: "findLeafWithPath fuel (enc k) w = (Ok (b, rev (map fst fs)), w1)"
      "st {} (known w) H (nextPageID (pm w)) (store.more w) w1" "H b = Some q" "known w i = Some q" "leaf_page K q kvs"
      "t = plug (Leaf i kvs) fs" "ctx_ordered fs" "within fs {enc k}" "length fs = h"
    using findLeafWithPath_spec [OF inv fuel] by blast
  note fo = ctx_ordered_frames_ok [OF f(7)]
  have "enc k \<notin> fst ` set kvs" using k plug_contents [OF fo, of "Leaf i kvs"] f(6) by auto
  moreover have "sorted_wrt (<) (map fst kvs)" using inv f(6) plug_ordered [OF fo] by (auto simp: tree_inv_def tree_in_def)
  ultimately show ?thesis
    using del_missing [OF f(5)] f(1) deref_rule [OF f(2,3)] tree_inv_st [OF inv f(2)] st_next [OF f(2)] st_more [OF f(2)]
    by (simp add: deleteFrom_def mutate_def exec_simps)
qed

text \<open>The row is gone from its leaf in memory; the page is still to be written.\<close>

lemma delete_step:
  assumes inv: "tree_inv K h t w" and fuel: "h \<le> fuel" and k: "enc k \<in> fst ` set (contents t)"
  obtains b p' i kvs us fs V H w1 w2 where "findLeafWithPath fuel (enc k) w = (Ok (b, rev (map fst fs)), w1)"
    "mutate b (\<lambda>p. del p k) w1 = (Ok (), w2)" "st {i} V H (nextPageID (pm w)) (store.more w) w2" "H b = Some p'" "V i = Some p'"
    "ID p' = i" "valid_id i" "leaf_page K p' us" "tree_in K h (plug (Leaf i us) fs) V (nextPageID (pm w))"
    "contents (plug (Leaf i us) fs) = filter (\<lambda>kv. fst kv \<noteq> enc k) (contents t)" "tid (plug (Leaf i us) fs) = rootID w"
    "t = plug (Leaf i kvs) fs" "enc k \<in> fst ` set kvs" "length kvs = Suc (length us)" "frames_ok fs" "length fs = h"
proof -
  let ?k = "enc k" and ?N = "nextPageID (pm w)" and ?del = "\<lambda>p. del p k"
  obtain b q i kvs fs H w1 where f: "findLeafWithPath fuel ?k w = (Ok (b, rev (map fst fs)), w1)"
      "st {} (known w) H ?N (store.more w) w1" "H b = Some q" "known w i = Some q" "leaf_page K q kvs"
      "t = plug (Leaf i kvs) fs" "ctx_ordered fs" "within fs {?k}" "length fs = h"
    using findLeafWithPath_spec [OF inv fuel] by blast
  note fo = ctx_ordered_frames_ok [OF f(7)]
  have t: "tree_in K h (plug (Leaf i kvs) fs) (known w) ?N" "rootID w = tid (plug (Leaf i kvs) fs)"
    using inv f(6) by (simp_all add: tree_inv_def)
  have cont: "contents t = lefts contents fs @ kvs @ rights contents fs" using plug_contents [OF fo] f(6) by simp
  have beside: "\<forall>x \<in> set (lefts contents fs). fst x \<noteq> ?k" "\<forall>x \<in> set (rights contents fs). fst x \<noteq> ?k"
    using within_not_beside [OF f(7,8)] by (metis image_eqI)+
  have mem: "?k \<in> fst ` set kvs" using beside k by (force simp: cont)
  have srt: "sorted_wrt (<) (map fst kvs)" and wi: "within fs (fst ` set kvs)"
    using t(1) plug_ordered [OF fo] by (auto simp: tree_in_def)
  let ?us = "filter (\<lambda>kv. fst kv \<noteq> ?k) kvs"
  obtain p' where p': "del q k = Ok p'" "header p' = header q" "leaf_page K p' ?us" using del_found [OF f(5) srt mem] by blast
  have im: "ID q = i" "valid_id i" using st_image [OF f(2) _ f(4)] by (auto simp: page_image_def)
  have wf: "wf_page p'" "ID p' = i" using p' header_same [OF p'(2)] im by (auto simp: leaf_page_def node_ok_def)
  obtain w2 where w2: "mutate b ?del w1 = (Ok (), w2)" "st {i} (known w) (H(b \<mapsto> p')) ?N (store.more w) w2"
    using mutate_rule [OF f(2,3), of ?del p'] p'(1) wf im by auto
  have s: "st {i} ((known w)(i \<mapsto> p')) (H(b \<mapsto> p')) ?N (store.more w) w2" by (rule st_agree [OF w2(2)]) auto
  have "tree_in K h (plug (Leaf i ?us) fs) ((known w)(i \<mapsto> p')) ?N"
  proof (rule tree_in_update_leaf [OF t(1) fo f(4) p'(3,2)])
    show "sorted_wrt (<) (map fst ?us)" using srt by (simp add: sorted_wrt_map sorted_wrt_filter)
    show "within fs (fst ` set ?us)" using wi by (rule within_mono) auto
  qed
  moreover have "contents (plug (Leaf i ?us) fs) = filter (\<lambda>kv. fst kv \<noteq> ?k) (contents t)"
    using plug_contents [OF fo, of "Leaf i ?us"] beside by (simp add: cont filter_all)
  moreover have "tid (plug (Leaf i ?us) fs) = rootID w" using t(2) by (simp add: tid_plug_last)
  moreover have "length kvs = Suc (length ?us)"
    using delete_sorted [OF srt mem] lowerIdx_found [of "map fst kvs" ?k] srt mem
    by (auto simp: strict_sorted_iff delete_nth_def simp flip: delete_sorted)
  ultimately show thesis
    by (intro that [OF f(1) w2(1) s _ _ wf(2) im(2) p'(3) _ _ _ f(6) mem _ fo f(9)]) simp_all
qed

lemma delete_spec:
  assumes inv: "tree_inv K h t w" and fuel: "h \<le> fuel" and k: "enc k \<in> fst ` set (contents t)" and es: "entrySize w = es"
    and big: "h = 0 \<or> (\<forall>(i, kvs) \<in> set (leafList t). enc k \<in> fst ` set kvs \<longrightarrow> least < length kvs)"
  shows "\<exists>w' t'. sbind (findLeafWithPath fuel (enc k)) (\<lambda>(leaf, anc). deleteFrom (\<lambda>p. del p k) leaf anc) w = (Ok (), w') \<and>
    tree_inv K h t' w' \<and> contents t' = filter (\<lambda>kv. fst kv \<noteq> enc k) (contents t) \<and> (filled least t \<longrightarrow> filled least t') \<and>
    nextPageID (pm w') = nextPageID (pm w) \<and> store.more w' = store.more w"
proof -
  let ?N = "nextPageID (pm w)"
  obtain b p' i kvs us fs V H w1 w2 where d: "findLeafWithPath fuel (enc k) w = (Ok (b, rev (map fst fs)), w1)"
    "mutate b (\<lambda>p. del p k) w1 = (Ok (), w2)" "st {i} V H ?N (store.more w) w2" "H b = Some p'" "V i = Some p'"
    "ID p' = i" "valid_id i" "leaf_page K p' us" "tree_in K h (plug (Leaf i us) fs) V ?N"
    "contents (plug (Leaf i us) fs) = filter (\<lambda>kv. fst kv \<noteq> enc k) (contents t)" "tid (plug (Leaf i us) fs) = rootID w"
    "t = plug (Leaf i kvs) fs" "enc k \<in> fst ` set kvs" "length kvs = Suc (length us)" "frames_ok fs" "length fs = h"
    by (rule delete_step [OF inv fuel k]) (rule that)
  have "wf_page p'" using d(8) by (auto simp: leaf_page_def node_ok_def)
  then obtain w3 where w3: "writePage b w2 = (Ok (), w3)" "st {} (V(i \<mapsto> p')) H ?N (store.more w) w3"
    using write_rule_clean [OF d(3,4)] d(6,7) by auto
  have V: "V(i \<mapsto> p') = V" using d(5) by auto
  have tree: "tree_inv K h (plug (Leaf i us) fs) w3"
    using tree_in_mono [OF d(9) st_le_known [OF w3(2) [unfolded V]]] st_next [OF w3(2)] st_sound [OF w3(2)]
      more_fields [OF st_more [OF w3(2)]] d(11) by (simp add: tree_inv_def)
  have leaf: "(i, kvs) \<in> set (leafList t)" using plug_leafList [OF d(15)] d(12) by simp
  then have size: "h = 0 \<or> least \<le> length us" using big d(13,14) by fastforce
  then have "filled least t \<longrightarrow> filled least (plug (Leaf i us) fs)"
    using plug_filled [OF d(15) least_pos] d(12,16) by (auto split: if_splits)
  moreover have "sbind (findLeafWithPath fuel (enc k)) (\<lambda>(leaf, anc). deleteFrom (\<lambda>p. del p k) leaf anc) w = (Ok (), w3)"
  proof (cases "h = 0")
    case True
    then show ?thesis using d(1,2,16) w3(1) by (simp add: deleteFrom_def exec_simps)
  next
    case False
    obtain m where m: "MinEntries es = Ok m" "unat m = least" using min_law by blast
    then have "m \<le> NumEntries p'" using leaf_page_numEntries [OF d(8)] size False by (simp add: word_le_nat_alt)
    moreover have "minEntries w2 = (Ok m, w2)"
      using more_fields [OF st_more [OF d(3)]] es m(1) by (simp add: minEntries_def exec_simps)
    moreover have "fs \<noteq> []" using False d(16) by auto
    ultimately show ?thesis using d(1,2) deref_rule [OF d(3,4)] w3(1) by (simp add: deleteFrom_def exec_simps)
  qed
  ultimately show ?thesis using tree d(10) st_next [OF w3(2)] st_more [OF w3(2)] by blast
qed

end

interpretation int_delete: leaf_delete 8 EncodeInt64 Delete 16 101
  by unfold_locales (simp_all add: Delete_leaf MaxMinEntries)

lemma BTree_Delete_from:
  "BTree_Delete fuel k = sbind (findLeafWithPath fuel (EncodeInt64 k)) (\<lambda>(leaf, anc). deleteFrom (\<lambda>p. Delete p k) leaf anc)"
  by (simp add: BTree_Delete_def deleteFrom_def)

lemma rows_delete:
  assumes "tree_inv 8 h t w"
  shows "rowsOf (filter (\<lambda>kv. fst kv \<noteq> EncodeInt64 k) (contents t)) = filter (\<lambda>r. fst r \<noteq> k) (rows t)"
  unfolding rows_def using assms rep_key_length by (intro rows_filter) (auto simp: tree_inv_def tree_in_def)

lemma BTree_Delete_missing:
  assumes inv: "tree_inv 8 h t w" and fuel: "h \<le> fuel" and k: "k \<notin> fst ` set (rows t)"
  shows "\<exists>w'. BTree_Delete fuel k w = (Err ErrKeyNotFound, w') \<and> tree_inv 8 h t w' \<and>
      nextPageID (pm w') = nextPageID (pm w) \<and> store.more w' = store.more w"
  using int_delete.delete_missing [OF inv fuel, of k] rows_key [OF inv, of k] k by (simp add: BTree_Delete_from)

lemma BTree_Delete_spec:
  assumes inv: "tree_inv 8 h t w" and fuel: "h \<le> fuel" and k: "k \<in> fst ` set (rows t)" and es: "entrySize w = 16"
    and big: "h = 0 \<or> (\<forall>(i, kvs) \<in> set (leafList t). EncodeInt64 k \<in> fst ` set kvs \<longrightarrow> 101 < length kvs)"
  shows "\<exists>w' t'. BTree_Delete fuel k w = (Ok (), w') \<and> tree_inv 8 h t' w' \<and> rows t' = filter (\<lambda>r. fst r \<noteq> k) (rows t) \<and>
    (filled 101 t \<longrightarrow> filled 101 t') \<and> nextPageID (pm w') = nextPageID (pm w) \<and> store.more w' = store.more w"
proof -
  have "EncodeInt64 k \<in> fst ` set (contents t)" using k rows_key [OF inv, of k] by simp
  from int_delete.delete_spec [OF inv fuel this es big] rows_delete [OF inv, of k] show ?thesis
    unfolding BTree_Delete_from rows_def by metis
qed

end
