(* ===== verification/Tree_Scan.thy ===== *)
theory Tree_Scan
  imports Tree_Search
begin

text \<open>
  Range scans along the leaf chain, once for every kind of key: the locale \<open>chain_scan\<close> states what the
  scan of a single leaf promises and how the chain is followed; its lemmas give the rows of the whole tree
  in the range, in ascending order.
\<close>

section \<open>The interface of a chain scan\<close>

text \<open>
  \<open>past k\<close>: key \<open>k\<close> lies beyond the end of the range; \<open>row\<close> decodes a row; \<open>scanIn\<close> scans the rest of a leaf and says
  whether it met the end; \<open>scanFrom\<close> follows the chain.
\<close>

locale chain_scan = page_store mode rd wr
  for mode :: "BTree \<Rightarrow> bool" and rd :: "PageID \<Rightarrow> (BTree, addr) op" and wr :: "addr \<Rightarrow> (BTree, unit) op" +
  fixes K :: nat and past :: "byte list \<Rightarrow> bool" and row :: "byte list \<times> byte list \<Rightarrow> 'r"
    and scanIn :: "Page \<Rightarrow> nat \<Rightarrow> nat \<Rightarrow> 'r list \<Rightarrow> ('r list \<times> bool) res"
    and scanFrom :: "nat \<Rightarrow> addr \<Rightarrow> nat \<Rightarrow> 'r list \<Rightarrow> (BTree, 'r list) op"
  assumes past_up: "length k = K \<Longrightarrow> length k' = K \<Longrightarrow> past k \<Longrightarrow> k \<le> k' \<Longrightarrow> past k'"
    and in_law: "leaf_page K p kvs \<Longrightarrow> idx + m = length kvs \<Longrightarrow> scanIn p idx m res =
      Ok (res @ map row (takeWhile (\<lambda>kv. \<not> past (fst kv)) (drop idx kvs)), \<exists>kv \<in> set (drop idx kvs). past (fst kv))"
    and from_law: "scanFrom (Suc fuel) a idx res =
      sbind (deref a) (\<lambda>p.
      sbind (slift (scanIn p idx (numEntries p - idx) res)) (\<lambda>(res, done).
      if done then sret res
      else let n = NextLeafPageID p in if n = 0 then sret res else sbind (rd n) (\<lambda>a. scanFrom fuel a 0 res)))"
    and find_mode: "mode w \<Longrightarrow> findLeafWithPath fuel k w = (r, w') \<Longrightarrow> mode w'"
begin

abbreviation upto :: "(byte list \<times> byte list) list \<Rightarrow> (byte list \<times> byte list) list" where
  "upto kvs \<equiv> takeWhile (\<lambda>kv. \<not> past (fst kv)) kvs"

lemma chain_spec:
  assumes "mode w" "st {} V H N X w" "H a = Some p" "leaf_page K p kvs" "V i = Some p" "chain V l (i # map fst rest) 0"
    and "\<forall>(j, us) \<in> set rest. j \<noteq> 0 \<and> (\<exists>q. V j = Some q \<and> leaf_page K q us)" "length rest < fuel" "idx \<le> length kvs"
  shows "\<exists>w' H'. scanFrom fuel a idx res w = (Ok (res @ map row (upto (drop idx kvs @ concat (map snd rest)))), w') \<and>
    st {} V H' N X w'"
  using assms
proof (induction rest arbitrary: fuel w H a p kvs i l idx res)
  case Nil
  obtain f where f: "fuel = Suc f" using Nil by (cases fuel) auto
  have "NextLeafPageID p = 0" using Nil by simp
  then have "scanFrom fuel a idx res w = (Ok (res @ map row (upto (drop idx kvs))), w)"
    using deref_rule [OF Nil.prems(2,3)] in_law [OF Nil.prems(4), of idx "numEntries p - idx" res]
      leaf_page_numEntries [OF Nil.prems(4)] Nil.prems(9)
    by (simp add: f from_law exec_simps)
  with Nil.prems(2) show ?case by auto
next
  case (Cons x rest)
  obtain f where f: "fuel = Suc f" using Cons by (cases fuel) auto
  obtain j us where x: "x = (j, us)" by (cases x)
  obtain q where q: "V j = Some q" "leaf_page K q us" "j \<noteq> 0" using Cons.prems(7) by (auto simp: x)
  have next_id: "NextLeafPageID p = j" using Cons.prems(5,6) by (simp add: x)
  let ?rs = "drop idx kvs"
  have leaf: "scanIn p idx (numEntries p - idx) res = Ok (res @ map row (upto ?rs), \<exists>kv \<in> set ?rs. past (fst kv))"
    using in_law [OF Cons.prems(4), of idx "numEntries p - idx" res] leaf_page_numEntries [OF Cons.prems(4)] Cons.prems(9) by simp
  show ?case
  proof (cases "\<exists>kv \<in> set ?rs. past (fst kv)")
    case True
    then have "scanFrom fuel a idx res w = (Ok (res @ map row (upto ?rs)), w)"
      using deref_rule [OF Cons.prems(2,3)] leaf by (simp add: f from_law exec_simps)
    with Cons.prems(2) True show ?thesis by (auto simp: takeWhile_append1)
  next
    case False
    then have all: "upto ?rs = ?rs" by (simp add: takeWhile_eq_all_conv)
    obtain b w1 where w1: "rd j w = (Ok b, w1)" "st {} V (H(b \<mapsto> q)) N X w1" "mode w1"
      using read_rule [OF Cons.prems(1,2) _ q(1)] by blast
    have "chain V i (j # map fst rest) 0" using Cons.prems(6) by (simp add: x)
    moreover have "\<forall>(j, us) \<in> set rest. j \<noteq> 0 \<and> (\<exists>q. V j = Some q \<and> leaf_page K q us)" "length rest < f"
      using Cons.prems(7,8) f by auto
    ultimately obtain w' H' where "scanFrom f b 0 (res @ map row ?rs) w1 =
        (Ok ((res @ map row ?rs) @ map row (upto (drop 0 us @ concat (map snd rest)))), w')" "st {} V H' N X w'"
      using Cons.IH [OF w1(3,2) fun_upd_same q(2,1), where fuel = f and l = i and idx = 0 and res = "res @ map row ?rs"]
      by blast
    moreover have "upto (?rs @ concat (map snd (x # rest))) = ?rs @ upto (us @ concat (map snd rest))"
      using False by (simp add: x takeWhile_append)
    ultimately show ?thesis
      using deref_rule [OF Cons.prems(2,3)] leaf False all w1(1) next_id q(3)
      by (auto simp: f from_law exec_simps)
  qed
qed

text \<open>The part of a sorted list from the first key not below \<open>s\<close> up to the end of the range.\<close>

lemma upto_filter:
  "\<forall>kv \<in> set kvs. length (fst kv) = K \<Longrightarrow> sorted_wrt (<) (map fst kvs) \<Longrightarrow> upto kvs = filter (\<lambda>kv. \<not> past (fst kv)) kvs"
proof (induction kvs)
  case (Cons kv kvs)
  have "filter (\<lambda>kv. \<not> past (fst kv)) kvs = []" if "past (fst kv)"
    using Cons.prems that past_up [of "fst kv"] by (auto simp: filter_empty_conv less_imp_le)
  with Cons show ?case by auto
qed simp

lemma range_of_contents:
  assumes kl: "\<forall>kv \<in> set (ls @ us @ rs). length (fst kv) = K"
    and srt: "sorted_wrt (<) (map fst (ls @ us @ rs))"
    and left: "\<forall>x \<in> fst ` set ls. x < s" and right: "\<forall>x \<in> fst ` set rs. s < x"
  shows "filter (\<lambda>kv. s \<le> fst kv \<and> \<not> past (fst kv)) (ls @ us @ rs) = upto (drop (lowerIdx (map fst us) s) us @ rs)"
proof -
  let ?i = "lowerIdx (map fst us) s"
  let ?lo = "ls @ take ?i us" and ?hi = "drop ?i us @ rs"
  have us: "sorted (map fst us)" using srt by (simp add: sorted_wrt_append strict_sorted_iff)
  have "fst kv < s" if "kv \<in> set (take ?i us)" for kv
  proof -
    have "fst kv \<in> set (take ?i (map fst us))" using that by (simp add: take_map)
    then show ?thesis by (auto simp: lowerIdx_def takeWhile_eq_take [symmetric] dest: set_takeWhileD)
  qed
  then have lo: "filter (\<lambda>kv. s \<le> fst kv \<and> \<not> past (fst kv)) ?lo = []" using left by (auto simp: filter_empty_conv not_le)
  have "s \<le> fst kv" if kv: "kv \<in> set ?hi" for kv
  proof (cases "kv \<in> set rs")
    case True
    then show ?thesis using right by (auto intro: less_imp_le)
  next
    case False
    then obtain m where "?i + m < length us" "kv = us ! (?i + m)" using kv in_set_drop_nth [of kv ?i us] by auto
    then show ?thesis using lowerIdx_ge_iff [OF us, of "?i + m" s] by simp
  qed
  then have hi: "filter (\<lambda>kv. s \<le> fst kv \<and> \<not> past (fst kv)) ?hi = filter (\<lambda>kv. \<not> past (fst kv)) ?hi" by (intro filter_cong) auto
  have eq: "ls @ us @ rs = ?lo @ ?hi" by simp
  have "sorted_wrt (<) (map fst ?hi)" using srt unfolding eq map_append [of _ ?lo ?hi] sorted_wrt_append by blast
  moreover have "\<forall>kv \<in> set ?hi. length (fst kv) = K" using kl by (auto dest: in_set_dropD)
  ultimately have "filter (\<lambda>kv. \<not> past (fst kv)) ?hi = upto ?hi" using upto_filter [of ?hi] by simp
  with lo hi show ?thesis unfolding eq filter_append [of _ ?lo ?hi] by simp
qed

lemma scan_spec:
  assumes inv: "tree_inv K h t w" and m: "mode w" and fuel: "h \<le> fuel" "length (leafIDs t) \<le> scanFuel"
  shows "\<exists>w'. sbind (findLeafWithPath fuel s) (\<lambda>(leaf, _).
      sbind (deref leaf) (\<lambda>p.
      sbind (slift (findKeyIndex p s)) (\<lambda>(idx, _).
      scanFrom scanFuel leaf (unat idx) []))) w =
      (Ok (map row (filter (\<lambda>kv. s \<le> fst kv \<and> \<not> past (fst kv)) (contents t))), w') \<and> tree_inv K h t w' \<and>
    nextPageID (pm w') = nextPageID (pm w) \<and> store.more w' = store.more w"
proof -
  obtain b q i kvs fs H w1 where f: "findLeafWithPath fuel s w = (Ok (b, rev (map fst fs)), w1)"
      "st {} (known w) H (nextPageID (pm w)) (store.more w) w1" "H b = Some q" "known w i = Some q" "leaf_page K q kvs"
      "t = plug (Leaf i kvs) fs" "ctx_ordered fs" "within fs {s}"
    using findLeafWithPath_spec [OF inv fuel(1)] by blast
  note fo = ctx_ordered_frames_ok [OF f(7)]
  have t: "rep K (known w) t" "ordered t" "\<forall>j \<in> set (ids t). j \<noteq> 0" "chain (known w) 0 (leafIDs t) 0"
    using inv by (auto simp: tree_inv_def tree_in_def)
  have ll: "leafList t = lefts leafList fs @ (i, kvs) # rights leafList fs" using plug_leafList [OF fo] f(6) by simp
  then have "leafIDs t = map fst (lefts leafList fs) @ i # map fst (rights leafList fs)" by (simp add: leafList_split)
  then have ch: "chain (known w) (last (0 # map fst (lefts leafList fs))) (i # map fst (rights leafList fs)) 0"
    using t(4) by (simp add: chain_append)
  have rest: "\<forall>(j, us) \<in> set (rights leafList fs). j \<noteq> 0 \<and> (\<exists>q. known w j = Some q \<and> leaf_page K q us)"
  proof (intro ballI, clarify)
    fix j us assume "(j, us) \<in> set (rights leafList fs)"
    then have "(j, us) \<in> set (leafList t)" by (simp add: ll)
    then show "j \<noteq> 0 \<and> (\<exists>q. known w j = Some q \<and> leaf_page K q us)"
      using rep_leafList [OF t(1)] leafList_ids t(3) by blast
  qed
  let ?i = "lowerIdx (map fst kvs) s"
  have "length (rights leafList fs) < scanFuel" "?i \<le> length kvs"
    using fuel(2) lowerIdx_le [of "map fst kvs" s] by (simp_all add: leafList_split ll)
  then obtain w2 H2 where sc: "scanFrom scanFuel b ?i [] w1 =
      (Ok (map row (upto (drop ?i kvs @ concat (map snd (rights leafList fs))))), w2)"
      "st {} (known w) H2 (nextPageID (pm w)) (store.more w) w2"
    using chain_spec [OF find_mode [OF m f(1)] f(2,3,5,4) ch rest, where idx = ?i and res = "[]" and fuel = scanFuel]
    by auto
  have cont: "contents t = lefts contents fs @ kvs @ rights contents fs" using plug_contents [OF fo] f(6) by simp
  have "filter (\<lambda>kv. s \<le> fst kv \<and> \<not> past (fst kv)) (contents t) = upto (drop ?i kvs @ rights contents fs)"
    unfolding cont using rep_key_length [OF t(1)] sorted_contents [OF t(2)] within_beside [OF f(7,8)]
    by (intro range_of_contents) (simp_all add: cont)
  moreover have ok: "node_ok K q" "keys K q = map fst kvs" using f(5) leaf_page_keys by (auto simp: leaf_page_def)
  have "findKeyIndex q s = Ok (word_of_nat ?i, ?i < numEntries q \<and> keys K q ! ?i = s)"
    using findKeyIndex_spec [OF ok(1), of s] ok(2) by simp
  moreover have "unat (word_of_nat ?i :: uint16) = ?i"
  proof -
    have "?i \<le> 1018" using \<open>?i \<le> length kvs\<close> leaf_page_numEntries [OF f(5)] wf_page_numEntries [of q] ok(1) by (simp add: node_ok_def)
    then show ?thesis by (simp add: unat_of_nat_small)
  qed
  ultimately have "sbind (findLeafWithPath fuel s) (\<lambda>(leaf, _). sbind (deref leaf) (\<lambda>p.
      sbind (slift (findKeyIndex p s)) (\<lambda>(idx, _). scanFrom scanFuel leaf (unat idx) []))) w =
      (Ok (map row (filter (\<lambda>kv. s \<le> fst kv \<and> \<not> past (fst kv)) (contents t))), w2)"
    using f(1) deref_rule [OF f(2,3)] sc(1) by (simp add: exec_simps rights_leafList)
  with tree_inv_st [OF inv sc(2)] st_next [OF sc(2)] st_more [OF sc(2)] show ?thesis by blast
qed

end

section \<open>Scan of an integer tree\<close>

definition scanRow :: "int64 \<times> int64 \<Rightarrow> ScanResult" where
  "scanRow r = \<lparr>sr_Key = fst r, sr_RecordID = snd r\<rparr>"

lemma leaf_slot:
  assumes "leaf_page K p kvs" "i < length kvs"
  shows "GetEntry p (word_of_nat i) = Ok (entryOf (kvs ! i))" "entryPrefix p (word_of_nat i) (int K) = Ok (fst (kvs ! i))"
    and "length (fst (kvs ! i)) = K" "length (snd (kvs ! i)) = 8"
proof -
  have n: "numEntries p = length kvs" using leaf_page_numEntries [OF assms(1)] .
  have ok: "node_ok K p" "wf_page p" "entries p = map entryOf kvs" using assms(1) by (auto simp: leaf_page_def node_ok_def)
  show "GetEntry p (word_of_nat i) = Ok (entryOf (kvs ! i))"
    using GetEntry_of_nat [OF ok(2), of i] ok(3) n assms(2) by simp
  show "entryPrefix p (word_of_nat i) (int K) = Ok (fst (kvs ! i))"
    using entryPrefix_key [OF ok(1), of i] leaf_page_keys [OF assms(1)] n assms(2) by simp
  show "length (fst (kvs ! i)) = K" using assms by (simp add: leaf_page_def)
  moreover have "length (entryOf (kvs ! i)) = K + 8"
    using uniform_nth [of K "entries p" i] ok n assms(2) by (simp add: node_ok_def)
  ultimately show "length (snd (kvs ! i)) = 8" by (simp add: entryOf_def)
qed

lemma sless_dec64: "length k = 8 \<Longrightarrow> length k' = 8 \<Longrightarrow> dec64 k <s dec64 k' \<longleftrightarrow> k < k'"
  using EncodeInt64_less [of "dec64 k" "dec64 k'"] by simp

lemma rowsOf_sorted:
  "\<forall>kv \<in> set kvs. length (fst kv) = 8 \<Longrightarrow> sorted_wrt (<) (map fst kvs) \<Longrightarrow>
   sorted_wrt (\<lambda>a b. fst a <s fst b) (rowsOf kvs)"
  by (induction kvs) (auto simp: rowsOf_def sless_dec64 split_beta)

interpretation int_scan: chain_scan "\<lambda>_. True" readPage writePage 8 "\<lambda>k. e <s dec64 k" "\<lambda>(k, v). scanRow (dec64 k, dec64 v)"
  "\<lambda>p. scanLeaf p e" "\<lambda>fuel a. scanChain fuel a e"
proof
  fix p kvs idx m and res :: "ScanResult list"
  assume p: "leaf_page 8 p kvs"
  show "idx + m = length kvs \<Longrightarrow> scanLeaf p e idx m res =
      Ok (res @ map (\<lambda>(k, v). scanRow (dec64 k, dec64 v)) (takeWhile (\<lambda>kv. \<not> e <s dec64 (fst kv)) (drop idx kvs)),
        \<exists>kv \<in> set (drop idx kvs). e <s dec64 (fst kv))"
  proof (induction m arbitrary: idx res)
    case (Suc m)
    have i: "idx < length kvs" using Suc.prems by simp
    note s = leaf_slot [OF p i]
    have drop: "drop idx kvs = kvs ! idx # drop (Suc idx) kvs" using i by (simp flip: Cons_nth_drop_Suc)
    have dec: "DecodeInt64 (fst (kvs ! idx)) = Ok (dec64 (fst (kvs ! idx)))" "DecodeInt64 (snd (kvs ! idx)) = Ok (dec64 (snd (kvs ! idx)))"
      using s by (simp_all add: DecodeInt64_dec64)
    show ?case
      using Suc.IH [of "Suc idx"] Suc.prems s dec by (simp add: drop sliceFrom_def entryOf_def scanRow_def split_beta)
  qed simp
next
  fix k k' :: "byte list"
  assume "length k = 8" "length k' = 8" "e <s dec64 k" "k \<le> k'"
  then show "e <s dec64 k'" using sless_dec64 [of k' k] by (auto simp: word_sless_alt not_less)
qed simp_all

lemma BTree_Scan_spec:
  assumes inv: "tree_inv 8 h t w" and fuel: "h \<le> fuel" "length (leafIDs t) \<le> scanFuel" and range: "\<not> e <s s"
  shows "\<exists>w'. BTree_Scan fuel scanFuel s e w =
      (Ok (map scanRow (filter (\<lambda>r. \<not> fst r <s s \<and> \<not> e <s fst r) (rows t))), w') \<and> tree_inv 8 h t w' \<and>
    nextPageID (pm w') = nextPageID (pm w) \<and> store.more w' = store.more w"
proof -
  have len: "\<forall>kv \<in> set (contents t). length (fst kv) = 8"
    using inv rep_key_length by (auto simp: tree_inv_def tree_in_def)
  have "map (\<lambda>(k, v). scanRow (dec64 k, dec64 v)) (filter (\<lambda>kv. EncodeInt64 s \<le> fst kv \<and> \<not> e <s dec64 (fst kv)) kvs) =
      map scanRow (filter (\<lambda>r. \<not> fst r <s s \<and> \<not> e <s fst r) (rowsOf kvs))" if "\<forall>kv \<in> set kvs. length (fst kv) = 8" for kvs
    using that
  proof (induction kvs)
    case (Cons kv kvs)
    have "dec64 (fst kv) <s s \<longleftrightarrow> fst kv < EncodeInt64 s" using Cons.prems sless_dec64 [of "fst kv" "EncodeInt64 s"] by simp
    with Cons show ?case by (auto simp: rowsOf_def split_beta not_le)
  qed (simp add: rowsOf_def)
  from this [OF len] int_scan.scan_spec [OF inv TrueI fuel, of "EncodeInt64 s" e] range show ?thesis
    by (simp add: BTree_Scan_def rows_def Let_def)
qed

end
