(* ===== verification/Index.thy ===== *)
theory Index
  imports Durability Tree_Delete Tree_Scan
begin

text \<open>
  What an index promises its callers, as an interface: searching, inserting and scanning in terms of
  the finite map of rows the index holds. The tree of \<^verbatim>\<open>btree.go\<close> implements it, for any number of
  rows its file can hold and for any pool.
\<close>

section \<open>Size of a tree\<close>

lemma balanced_ids: "balanced t h \<Longrightarrow> h < length (ids t)"
proof (induction t arbitrary: h)
  case (Node i ss cs)
  obtain c where c: "c \<in> set cs" "balanced c (h - 1)" using Node.prems by (cases cs) auto
  have "length (ids c) \<le> length (concat (map ids cs))"
    using split_list [OF c(1)] by auto
  moreover have "length (ids (Node i ss cs)) = Suc (length (concat (map ids cs)))"
    using mset_ids_Node [of i ss cs] by (metis size_mset size_add_mset)
  ultimately show ?case using Node.IH [OF c] Node.prems by simp
qed (simp add: ids_def)

lemma ids_bound:
  assumes "tree_in K h t V N"
  shows "length (ids t) < unat N"
proof -
  have d: "distinct (ids t)" and lt: "\<forall>i \<in> set (ids t). i \<noteq> 0 \<and> i < N" using assms by (auto simp: tree_in_def)
  have "unat ` set (ids t) \<subseteq> {1..<unat N}"
    using lt by (auto simp: word_less_nat_alt unat_gt_0 Suc_le_eq)
  then have "card (unat ` set (ids t)) \<le> unat N - 1" using card_mono [of "{1..<unat N}"] by simp
  moreover have "card (unat ` set (ids t)) = length (ids t)"
    using d card_image [of unat "set (ids t)"] by (simp add: inj_on_def distinct_card flip: word_unat_eq_iff)
  moreover have "tid t \<in> set (ids t)" by (rule tid_in_ids)
  then have "0 < unat N" using lt by (auto simp: word_less_nat_alt)
  ultimately show ?thesis by simp
qed

text \<open>The identifiers handed out bound the height and the number of leaves.\<close>

lemma tree_in_bounds:
  assumes "tree_in K h t V N"
  shows "h < unat N" "length (leafIDs t) \<le> unat N"
proof -
  have "balanced t h" using assms by (simp add: tree_in_def)
  then show "h < unat N" using balanced_ids [of t h] ids_bound [OF assms] by simp
  have "length (leafIDs t) \<le> length (ids t)" by (simp add: ids_def)
  then show "length (leafIDs t) \<le> unat N" using ids_bound [OF assms] by simp
qed

section \<open>The map a tree holds\<close>

definition holds :: "BTree \<Rightarrow> (int64 \<rightharpoonup> int64) \<Rightarrow> bool" where
  "holds w m \<longleftrightarrow> (\<exists>h t. tree_inv 8 h t w \<and> map_of (rows t) = m)"

lemma dom_rows: "map_of (rows t) = m \<Longrightarrow> k \<in> dom m \<longleftrightarrow> k \<in> fst ` set (rows t)"
  using dom_map_of_conv_image_fst [of "rows t"] by simp

lemma inserted_map:
  assumes inv: "tree_inv 8 h t w" and i: "inserted 8 EncodeInt64 h t k v w h' t' w'" and k: "k \<notin> fst ` set (rows t)"
  shows "map_of (rows t') = (map_of (rows t))(k \<mapsto> v)"
proof -
  let ?i = "lowerIdx (map fst (contents t)) (EncodeInt64 k)"
  have "rows t' = insert_nth ?i (k, v) (rows t)"
    using i by (simp add: inserted_def rows_def rowsOf_insert_nth)
  moreover have "fst (rows t ! j) \<noteq> k" if "j < length (rows t)" for j
    using k that by (metis image_eqI nth_mem)
  ultimately show ?thesis by (simp add: map_of_insert_nth)
qed

text \<open>The rows in a range, in order: all of them and only them.\<close>

definition rangeOf :: "(int64 \<rightharpoonup> int64) \<Rightarrow> int64 \<Rightarrow> int64 \<Rightarrow> (int64 \<times> int64) list \<Rightarrow> bool" where
  "rangeOf m s e rs \<longleftrightarrow>
     sorted_wrt (\<lambda>a b. sint (fst a) < sint (fst b)) rs \<and>
     (\<forall>k v. (k, v) \<in> set rs \<longleftrightarrow> m k = Some v \<and> sint s \<le> sint k \<and> sint k \<le> sint e)"

lemma rows_sorted:
  assumes "tree_inv 8 h t w"
  shows "sorted_wrt (\<lambda>a b. sint (fst a) < sint (fst b)) (rows t)" "distinct (map fst (rows t))"
proof -
  have "ordered t" "\<forall>kv \<in> set (contents t). length (fst kv) = 8"
    using assms rep_key_length by (auto simp: tree_inv_def tree_in_def)
  then show s: "sorted_wrt (\<lambda>a b. sint (fst a) < sint (fst b)) (rows t)"
    using rowsOf_sorted [OF _ sorted_contents, of t] by (simp add: rows_def word_sless_alt)
  have "distinct (map fst rs)" if "sorted_wrt (\<lambda>a b. sint (fst a) < sint (fst b)) rs" for rs :: "(int64 \<times> int64) list"
    using that by (induction rs) force+
  with s show "distinct (map fst (rows t))" by blast
qed

lemma rangeOf_filter:
  assumes "tree_inv 8 h t w"
  shows "rangeOf (map_of (rows t)) s e (filter (\<lambda>r. \<not> fst r <s s \<and> \<not> e <s fst r) (rows t))"
proof -
  have "map_of (rows t) k = Some v \<longleftrightarrow> (k, v) \<in> set (rows t)" for k v
    using rows_sorted(2) [OF assms] by (rule map_of_eq_Some_iff)
  then show ?thesis
    using rows_sorted(1) [OF assms] by (auto simp: rangeOf_def sorted_wrt_filter word_sless_alt)
qed

text \<open>A range list is determined by the map.\<close>

lemma rangeOf_unique:
  assumes "rangeOf m s e rs" "rangeOf m s e rs'"
  shows "rs = rs'"
proof -
  have set: "set rs = set rs'" using assms by (auto simp: rangeOf_def)
  have "sorted_wrt (<) (map (sint \<circ> fst) rs)" "sorted_wrt (<) (map (sint \<circ> fst) rs')"
    using assms by (simp_all add: rangeOf_def sorted_wrt_map)
  moreover from this have keys: "map (sint \<circ> fst) rs = map (sint \<circ> fst) rs'"
    using set by (intro strict_sorted_equal) auto
  moreover have "inj_on (sint \<circ> fst) (set rs \<union> set rs')"
    using assms by (auto simp: inj_on_def rangeOf_def) 
  ultimately show ?thesis by (simp add: inj_on_map_eq_map)
qed

section \<open>The interface\<close>

text \<open>A loop of insertions that stops at the first error.\<close>

fun insertEach :: "('k \<Rightarrow> int64 \<Rightarrow> ('s, unit) op) \<Rightarrow> ('k \<times> int64) list \<Rightarrow> ('s, unit) op" where
  "insertEach insrt [] = sret ()"
| "insertEach insrt ((k, v) # kvs) = sbind (insrt k v) (\<lambda>_. insertEach insrt kvs)"

text \<open>
  An index over a state \<open>'s\<close>: \<open>abs n w m\<close> says that \<open>w\<close> holds the map \<open>m\<close> and has room for \<open>n\<close> more
  insertions.
\<close>

locale key_index =
  fixes abs :: "nat \<Rightarrow> 's \<Rightarrow> ('k \<rightharpoonup> int64) \<Rightarrow> bool"
    and search :: "'k \<Rightarrow> ('s, int64 \<times> bool) op"
    and insrt :: "'k \<Rightarrow> int64 \<Rightarrow> ('s, unit) op"
  assumes search_law: "abs n w m \<Longrightarrow>
      \<exists>w'. search k w = (Ok (case m k of None \<Rightarrow> (0, False) | Some v \<Rightarrow> (v, True)), w') \<and> abs n w' m"
    and insert_law: "abs (Suc n) w m \<Longrightarrow> k \<notin> dom m \<Longrightarrow> \<exists>w'. insrt k v w = (Ok (), w') \<and> abs n w' (m(k \<mapsto> v))"
begin

text \<open>What was inserted is found, and every other key answers as before.\<close>

lemma insert_then_search:
  assumes "abs (Suc n) w m" "k \<notin> dom m"
  shows "\<exists>w'. sbind (insrt k v) (\<lambda>_. search k') w =
      (Ok (if k' = k then (v, True) else case m k' of None \<Rightarrow> (0, False) | Some u \<Rightarrow> (u, True)), w') \<and> abs n w' (m(k \<mapsto> v))"
proof -
  obtain w1 where "insrt k v w = (Ok (), w1)" "abs n w1 (m(k \<mapsto> v))" using insert_law [OF assms] by blast
  with search_law [of n w1 "m(k \<mapsto> v)" k'] show ?thesis by (auto simp: sbind_Ok)
qed

text \<open>A list of rows with distinct new keys goes in as a whole.\<close>

lemma insert_all_spec:
  "abs (n + length kvs) w m \<Longrightarrow> distinct (map fst kvs) \<Longrightarrow> fst ` set kvs \<inter> dom m = {} \<Longrightarrow>
   \<exists>w'. insertEach insrt kvs w = (Ok (), w') \<and> abs n w' (m ++ map_of kvs)"
proof (induction kvs arbitrary: w m)
  case (Cons kv kvs)
  obtain k v where kv: "kv = (k, v)" by (cases kv)
  have "abs (Suc (n + length kvs)) w m" "k \<notin> dom m" using Cons.prems by (auto simp: kv)
  then obtain w1 where w1: "insrt k v w = (Ok (), w1)" "abs (n + length kvs) w1 (m(k \<mapsto> v))" using insert_law by blast
  moreover have "fst ` set kvs \<inter> dom (m(k \<mapsto> v)) = {}" "k \<notin> fst ` set kvs" using Cons.prems by (auto simp: kv)
  ultimately obtain w' where "insertEach insrt kvs w1 = (Ok (), w')" "abs n w' (m(k \<mapsto> v) ++ map_of kvs)"
    using Cons.IH [OF w1(2)] Cons.prems(2) by (auto simp del: dom_fun_upd fun_upd_apply)
  moreover have "m(k \<mapsto> v) ++ map_of kvs = m ++ map_of (kv # kvs)"
    using \<open>k \<notin> fst ` set kvs\<close> by (simp add: kv map_add_upd_left dom_map_of_conv_image_fst)
  ultimately have "insertEach insrt (kv # kvs) w = (Ok (), w')" "abs n w' (m ++ map_of (kv # kvs))"
    using w1(1) by (simp_all only: kv insertEach.simps sbind_Ok)
  then show ?case by blast
qed (simp add: sret_def)

end

text \<open>A unique index also refuses a key it holds.\<close>

locale unique_index = key_index +
  assumes duplicate_law: "abs (Suc n) w m \<Longrightarrow> k \<in> dom m \<Longrightarrow> \<exists>w'. insrt k v w = (Err ErrDuplicateKey, w') \<and> abs n w' m"
begin

text \<open>A second insertion of a key changes nothing, whatever its record.\<close>

lemma first_insert_wins:
  assumes "abs (Suc (Suc n)) w m" "k \<notin> dom m"
  shows "\<exists>w1 w2. insrt k v w = (Ok (), w1) \<and> insrt k u w1 = (Err ErrDuplicateKey, w2) \<and> abs n w2 (m(k \<mapsto> v))"
proof -
  obtain w1 where w1: "insrt k v w = (Ok (), w1)" "abs (Suc n) w1 (m(k \<mapsto> v))" using insert_law [OF assms] by blast
  with duplicate_law [OF w1(2), of k u] show ?thesis by auto
qed

end

section \<open>The tree is such an index\<close>

text \<open>
  Each of \<open>n\<close> insertions may add a level and takes at most a page per level and two more: page numbers
  stay below the range of file offsets, and \<open>fuel\<close> covers the height.
\<close>

definition tree_abs :: "nat \<Rightarrow> bool \<Rightarrow> nat \<Rightarrow> BTree \<Rightarrow> (int64 \<rightharpoonup> int64) \<Rightarrow> bool" where
  "tree_abs fuel u n w m \<longleftrightarrow> (\<exists>h t. tree_inv 8 h t w \<and> map_of (rows t) = m \<and> unique w = u \<and>
     h + n \<le> fuel \<and> unat (nextPageID (pm w)) + n * (h + n + 2) < 2 ^ 51)"

lemma budget_step: "h' \<le> Suc h \<Longrightarrow> (N' :: nat) \<le> N + h + 2 \<Longrightarrow> N + Suc n * (h + Suc n + 2) < B \<Longrightarrow> N' + n * (h' + n + 2) < B"
proof -
  assume a: "h' \<le> Suc h" "N' \<le> N + h + 2" "N + Suc n * (h + Suc n + 2) < B"
  have "n * (h' + n + 2) \<le> n * (h + Suc n + 2)" using a(1) by (intro mult_le_mono2) simp
  with a(2,3) show ?thesis by simp
qed

lemma budget_skip: "(N :: nat) + Suc n * (h + Suc n + 2) < B \<Longrightarrow> N + n * (h + n + 2) < B"
  by (rule budget_step [of h h N N]) auto

interpretation any_tree: key_index "tree_abs fuel u" "BTree_Search fuel" "BTree_Insert fuel"
proof
  fix n w m k
  assume "tree_abs fuel u n w m"
  then obtain h t where t: "tree_inv 8 h t w" "map_of (rows t) = m" "unique w = u" "h + n \<le> fuel"
      "unat (nextPageID (pm w)) + n * (h + n + 2) < 2 ^ 51"
    by (auto simp: tree_abs_def)
  obtain w' where "BTree_Search fuel k w = (Ok (case m k of None \<Rightarrow> (0, False) | Some v \<Rightarrow> (v, True)), w')"
      "tree_inv 8 h t w'" "nextPageID (pm w') = nextPageID (pm w)" "store.more w' = store.more w"
    using BTree_Search_spec [OF t(1), of fuel k] t(2,4) by auto
  with t more_fields [of w' w] show "\<exists>w'. BTree_Search fuel k w = (Ok (case m k of None \<Rightarrow> (0, False) | Some v \<Rightarrow> (v, True)), w') \<and> tree_abs fuel u n w' m"
    unfolding tree_abs_def by (intro exI [of _ w'] conjI exI [of _ h] exI [of _ t]) simp_all
next
  fix n w m k v
  assume "tree_abs fuel u (Suc n) w m"
  then obtain h t where t: "tree_inv 8 h t w" "map_of (rows t) = m" "unique w = u" "h + Suc n \<le> fuel"
      "unat (nextPageID (pm w)) + Suc n * (h + Suc n + 2) < 2 ^ 51"
    by (auto simp: tree_abs_def)
  have pre: "h \<le> fuel" "unat (nextPageID (pm w)) + h + 2 < 2 ^ 51" using t(4,5) by simp_all
  note ins = BTree_Insert_spec(1) [OF t(1) pre, of k v] and dom = dom_rows [OF t(2), of k]
  show "\<exists>w'. BTree_Insert fuel k v w = (Ok (), w') \<and> tree_abs fuel u n w' (m(k \<mapsto> v))" if new: "k \<notin> dom m"
  proof -
    obtain w' t' h' where w': "BTree_Insert fuel k v w = (Ok (), w')" "inserted 8 EncodeInt64 h t k v w h' t' w'"
      using ins new dom by blast
    then have "tree_inv 8 h' t' w'" "h' \<le> Suc h" "unique w' = u" "unat (nextPageID (pm w')) \<le> unat (nextPageID (pm w)) + h + 2"
      using t(3) by (auto simp: inserted_def)
    moreover have "map_of (rows t') = m(k \<mapsto> v)" using inserted_map [OF t(1) w'(2)] new dom t(2) by simp
    ultimately show ?thesis
      using w'(1) t(4) budget_step [OF _ _ t(5)] unfolding tree_abs_def
      by (intro exI [of _ w'] conjI exI [of _ h'] exI [of _ t']) auto
  qed
qed

interpretation tree: unique_index "tree_abs fuel True" "BTree_Search fuel" "BTree_Insert fuel"
proof
  fix n w m k v
  assume "tree_abs fuel True (Suc n) w m" and old: "k \<in> dom m"
  then obtain h t where t: "tree_inv 8 h t w" "map_of (rows t) = m" "unique w" "h + Suc n \<le> fuel"
      "unat (nextPageID (pm w)) + Suc n * (h + Suc n + 2) < 2 ^ 51"
    by (auto simp: tree_abs_def)
  have pre: "h \<le> fuel" "unat (nextPageID (pm w)) + h + 2 < 2 ^ 51" using t(4,5) by simp_all
  obtain w' where "BTree_Insert fuel k v w = (Err ErrDuplicateKey, w')" "tree_inv 8 h t w'"
      "nextPageID (pm w') = nextPageID (pm w)" "store.more w' = store.more w"
    using BTree_Insert_spec(2) [OF t(1) pre, of k v] old dom_rows [OF t(2), of k] t(3) by blast
  with t budget_skip [OF t(5)] more_fields [of w' w]
  show "\<exists>w'. BTree_Insert fuel k v w = (Err ErrDuplicateKey, w') \<and> tree_abs fuel True n w' m"
    unfolding tree_abs_def by (intro exI [of _ w'] conjI exI [of _ h] exI [of _ t]) simp_all
qed

end
