(* ===== verification/Tree_Shrink.thy ===== *)
theory Tree_Shrink
  imports Tree_Grow
begin

text \<open>
  The way back from a split: two neighbouring children of a node and the separator between them, taken out of
  the node. The two may then share their contents anew, with another separator, or become one child. Both
  are stated for subtrees of any height over the situation \<open>split_in\<close> of the growing tree.
\<close>

section \<open>Taking two children out of their parent\<close>

text \<open>The nodes' separators and children by index, before and after.\<close>

lemma unsplit_nth:
  assumes "length cs = Suc (length ss)" "j < length cs"
  shows "m < j \<Longrightarrow> insert_nth j s ss ! m = ss ! m" "j \<le> m \<Longrightarrow> m < length ss \<Longrightarrow> insert_nth j s ss ! Suc m = ss ! m"
    "insert_nth j s ss ! j = s" "m < j \<Longrightarrow> twoAt j l r cs ! m = cs ! m"
    "j < m \<Longrightarrow> m < length cs \<Longrightarrow> twoAt j l r cs ! Suc m = cs ! m" "twoAt j l r cs ! j = l" "twoAt j l r cs ! Suc j = r"
  using assms by (simp_all add: nth_insert_nth nth_twoAt)

text \<open>The two children lie between the separators around them.\<close>

lemma unsplit_between:
  assumes o: "ordered (Node i (insert_nth j s ss) (twoAt j l r cs))" and len: "length cs = Suc (length ss)" "j < length cs"
  shows "\<forall>k \<in> allkeys l. k < s" "\<forall>k \<in> allkeys r. s \<le> k" "0 < j \<Longrightarrow> ss ! (j - 1) < s"
    "\<And>k. j < length ss \<Longrightarrow> k \<in> insert s (allkeys l \<union> allkeys r) \<Longrightarrow> k < ss ! j"
    "\<And>k. 0 < j \<Longrightarrow> k \<in> insert s (allkeys l \<union> allkeys r) \<Longrightarrow> ss ! (j - 1) \<le> k"
proof -
  let ?S = "insert_nth j s ss"
  note nth = unsplit_nth [OF len]
  have srt: "sorted_wrt (<) ?S" using o by simp
  show l: "\<forall>k \<in> allkeys l. k < s" "\<forall>k \<in> allkeys r. s \<le> k"
    using ordered_below [OF o, of j j] ordered_above [OF o, of j "Suc j"] nth(3,6,7) len by auto
  show strict: "0 < j \<Longrightarrow> ss ! (j - 1) < s"
    using sorted_wrt_less_nth [OF srt, of "j - 1" j] nth(3) nth(1) [of "j - 1"] len by simp
  show "k < ss ! j" if k: "j < length ss" "k \<in> insert s (allkeys l \<union> allkeys r)" for k
  proof -
    have "s < ss ! j" using sorted_wrt_less_nth [OF srt, of j "Suc j"] nth(3) nth(2) [of j] k(1) by simp
    then show ?thesis using k l(1) ordered_below [OF o, of "Suc j" "Suc j" k] nth(7) nth(2) [of j] by auto
  qed
  show "ss ! (j - 1) \<le> k" if k: "0 < j" "k \<in> insert s (allkeys l \<union> allkeys r)" for k
    using k strict l(2) ordered_above [OF o, of "j - 1" j k] nth(6) nth(1) [of "j - 1"] len by auto
qed

text \<open>The other children keep their separators.\<close>

lemma unsplit_others:
  assumes o: "ordered (Node i (insert_nth j s ss) (twoAt j l r cs))" and len: "length cs = Suc (length ss)" "j < length cs"
    and m: "m < length ss"
  shows "m \<noteq> j \<Longrightarrow> k \<in> allkeys (cs ! m) \<Longrightarrow> k < ss ! m" "Suc m \<noteq> j \<Longrightarrow> k \<in> allkeys (cs ! Suc m) \<Longrightarrow> ss ! m \<le> k"
proof -
  note nth = unsplit_nth [OF len]
  show "k < ss ! m" if k: "m \<noteq> j" "k \<in> allkeys (cs ! m)"
    using ordered_below [OF o, of m m k] ordered_below [OF o, of "Suc m" "Suc m" k] nth(1,2,4,5) [of m] k m len
    by (cases "m < j") auto
  show "ss ! m \<le> k" if k: "Suc m \<noteq> j" "k \<in> allkeys (cs ! Suc m)"
    using ordered_above [OF o, of m "Suc m" k] ordered_above [OF o, of "Suc m" "Suc (Suc m)" k] nth(1,2) [of m]
      nth(4,5) [of "Suc m"] k m len by (cases "Suc m < j") auto
qed

lemma unsplit_ordered:
  assumes o: "ordered (Node i (insert_nth j s ss) (twoAt j l r cs))" and len: "length cs = Suc (length ss)" "j < length cs"
    and w: "within fs (allkeys (Node i (insert_nth j s ss) (twoAt j l r cs)))" "ctx_ordered fs"
  shows "split_ready ((i, ss, cs, j) # fs) l s r"
proof -
  let ?S = "insert_nth j s ss" and ?C = "twoAt j l r cs"
  have mem: "set ?C = {l, r} \<union> set (siblings cs j)" using set_twoAt [OF len(2)] by simp
  have "sorted_wrt (<) (take j ss @ s # drop j ss)" using o by (simp add: insert_nth_def)
  then have "sorted_wrt (<) (take j ss @ drop j ss)" unfolding sorted_wrt_append by auto
  then have "sorted_wrt (<) ss" by simp
  moreover have "allkeys (Node i ?S ?C) = insert s (allkeys l \<union> allkeys r) \<union> (set ss \<union> (\<Union>c \<in> set (siblings cs j). allkeys c))"
    using mem by (auto simp: set_insert_nth)
  then have "within fs (insert s (allkeys l \<union> allkeys r))" "within fs (set ss \<union> (\<Union>c \<in> set (siblings cs j). allkeys c))"
    using w(1) by (simp_all only: within_Un)
  ultimately show ?thesis
    using len unsplit_others [OF o len] unsplit_between [OF o len] o mem w(2) by (auto simp: split_ready_def above_def)
qed

lemma tree_in_plug:
  assumes t: "tree_in K h (plug x fs) V N" and fo: "frames_ok fs"
  shows "rep K V x" "rep_ctx K V fs (tid x)" "ordered x" "within fs (allkeys x)" "ctx_ordered fs"
    "distinct (ids x @ ctx_ids fs)" "\<forall>v \<in> set (ids x @ ctx_ids fs). v \<noteq> 0 \<and> v < N"
    "chain V 0 (lefts leafIDs fs @ leafIDs x @ rights leafIDs fs) 0"
    "h = g + length fs \<Longrightarrow> balanced x g \<and> ctx_balanced fs g"
proof -
  show "rep K V x" "rep_ctx K V fs (tid x)" "ordered x" "within fs (allkeys x)" "ctx_ordered fs"
      "chain V 0 (lefts leafIDs fs @ leafIDs x @ rights leafIDs fs) 0"
    using t plug_rep [OF fo] plug_ordered [OF fo] plug_leafIDs [OF fo, of x] by (auto simp: tree_in_def)
  note ms = plug_ids [OF fo, of x]
  show "distinct (ids x @ ctx_ids fs)" using t mset_eq_imp_distinct_iff [OF ms] by (simp only: tree_in_def)
  show "\<forall>v \<in> set (ids x @ ctx_ids fs). v \<noteq> 0 \<and> v < N" using t mset_eq_setD [OF ms] unfolding tree_in_def by blast
  show "h = g + length fs \<Longrightarrow> balanced x g \<and> ctx_balanced fs g" using t plug_balanced [OF fo] by (auto simp: tree_in_def)
qed

lemma tree_in_plugI:
  assumes "rep K V x" "rep_ctx K V fs (tid x)" "ordered x" "within fs (allkeys x)" "ctx_ordered fs"
    "distinct (ids x @ ctx_ids fs)" "\<forall>v \<in> set (ids x @ ctx_ids fs). v \<noteq> 0 \<and> v < N"
    "chain V 0 (lefts leafIDs fs @ leafIDs x @ rights leafIDs fs) 0" "balanced x g" "ctx_balanced fs g"
    "V 0 = Some m" "RootPageID m = tid (plug x fs)"
  shows "tree_in K (g + length fs) (plug x fs) V N"
proof -
  note fo = ctx_ordered_frames_ok [OF assms(5)]
  note ms = plug_ids [OF fo, of x]
  have "distinct (ids (plug x fs))" using assms(6) mset_eq_imp_distinct_iff [OF ms] by blast
  moreover have "\<forall>v \<in> set (ids (plug x fs)). v \<noteq> 0 \<and> v < N" unfolding mset_eq_setD [OF ms] by (rule assms(7))
  ultimately show ?thesis
    using assms plug_rep [OF fo] plug_ordered [OF fo] plug_leafIDs [OF fo, of x] plug_balanced [OF fo] by (auto simp: tree_in_def)
qed

lemma unsplit_in:
  assumes t: "tree_in K h (plug (Node i (insert_nth j s ss) (twoAt j l r cs)) fs) V N" and fo: "frames_ok fs"
    and len: "length cs = Suc (length ss)" "j < length cs" and h: "h = Suc g + length fs"
    and p: "node_page K p ss ((map tid cs)[j := tid l])"
  shows "split_in K g ((i, ss, cs, j) # fs) l s r (V(i \<mapsto> p)) N"
proof -
  let ?x = "Node i (insert_nth j s ss) (twoAt j l r cs)" and ?V = "V(i \<mapsto> p)"
  note x = tree_in_plug [OF t fo]
  have bal: "balanced ?x (Suc g)" "ctx_balanced fs (Suc g)" using x(9) h by blast+
  have mem: "set (twoAt j l r cs) = {l, r} \<union> set (siblings cs j)" using set_twoAt [OF len(2)] .
  obtain q where q: "node_page K q (insert_nth j s ss) (map tid (twoAt j l r cs))" using x(1) by auto
  have "uniform K (entries q)" "keys K q = insert_nth j s ss" using q by (auto simp: node_page_def node_ok_def)
  moreover have "s \<in> set (insert_nth j s ss)" by (simp add: set_insert_nth)
  ultimately have "length s = K" by (auto simp: keys_def uniform_def simp flip: \<open>keys K q = insert_nth j s ss\<close>)
  have ms: "mset (ids ?x @ ctx_ids fs) = mset (ids l @ ids r @ ctx_ids ((i, ss, cs, j) # fs))"
    using mset_ids_twoAt [of j l r cs] mset_ids_Node [of i "insert_nth j s ss" "twoAt j l r cs"] by simp
  have d: "distinct (ids l @ ids r @ ctx_ids ((i, ss, cs, j) # fs))" using mset_eq_imp_distinct_iff [OF ms] x(6) by blast
  have "i \<notin> set (ids c)" if "c \<in> set (twoAt j l r cs)" for c using that d mem by (auto simp: set_ids_Node)
  then have same: "rep K ?V c" if "c \<in> set (twoAt j l r cs)" for c
    using that x(1) by (intro rep_agree [of K V c ?V]) auto
  have "rep_ctx K ?V fs i"
  proof (rule rep_ctx_frame)
    show "rep_ctx K V fs i" using x(2) by simp
    show "same_leaf (V v) (?V v)" if "v \<in> set (ctx_ids fs)" for v using that d by auto
  qed
  moreover have "chain ?V 0 (lefts leafIDs ((i, ss, cs, j) # fs) @ leafIDs l @ leafIDs r @ rights leafIDs ((i, ss, cs, j) # fs)) 0"
  proof -
    have c: "chain V 0 (lefts leafIDs ((i, ss, cs, j) # fs) @ leafIDs l @ leafIDs r @ rights leafIDs ((i, ss, cs, j) # fs)) 0"
      using x(8) by (simp add: concat_twoAt)
    moreover have "i \<notin> set (concat (map leafIDs (twoAt j l r cs)))"
      using \<open>\<And>c. c \<in> set (twoAt j l r cs) \<Longrightarrow> i \<notin> set (ids c)\<close> leafIDs_ids by fastforce
    moreover have "i \<notin> set (lefts leafIDs fs) \<union> set (rights leafIDs fs)" using d ctx_leafIDs [of fs] by auto
    ultimately show ?thesis by (subst chain_cong [of _ ?V V]) (auto simp: concat_twoAt)
  qed
  moreover have "rep K ?V l" "rep K ?V r" "rep_ctx K ?V ((i, ss, cs, j) # fs) (tid l)"
    using same mem p \<open>rep_ctx K ?V fs i\<close> by simp_all
  moreover have "balanced l g" "balanced r g" "ctx_balanced ((i, ss, cs, j) # fs) g" using bal mem len by simp_all
  moreover have "\<forall>v \<in> set (ids l @ ids r @ ctx_ids ((i, ss, cs, j) # fs)). v \<noteq> 0 \<and> v < N"
    using x(7) unfolding mset_eq_setD [OF ms] .
  moreover have "split_ready ((i, ss, cs, j) # fs) l s r" by (rule unsplit_ordered [OF x(3) len x(4,5)])
  ultimately show ?thesis using \<open>length s = K\<close> d unfolding split_in_def by (intro conjI)
qed

section \<open>Sharing anew and joining\<close>

text \<open>The two children get new contents out of the same keys and a new separator.\<close>

lemma split_in_reshare:
  assumes s: "split_in K g fs l s r V N"
    and o: "ordered l'" "ordered r'" "\<forall>k \<in> allkeys l'. k < s'" "\<forall>k \<in> allkeys r'. s' \<le> k" "allkeys l' \<noteq> {}" "length s' = K"
    and sub: "insert s' (allkeys l' \<union> allkeys r') \<subseteq> insert s (allkeys l \<union> allkeys r)"
    and bal: "balanced l' g" "balanced r' g" and tid: "tid l' = tid l"
    and ids: "mset (ids l' @ ids r') = mset (ids l @ ids r)" "leafIDs l' @ leafIDs r' = leafIDs l @ leafIDs r"
    and V': "rep K V' l'" "rep K V' r'" "\<And>v. v \<in> set (ctx_ids fs) \<Longrightarrow> V' v = V v"
      "chain V' 0 (lefts leafIDs fs @ leafIDs l @ leafIDs r @ rights leafIDs fs) 0"
  shows "split_in K g fs l' s' r' V' N"
proof -
  have rd: "split_ready fs l s r" using s by (simp add: split_in_def)
  have "within fs (insert s (allkeys l \<union> allkeys r))" using rd by (simp add: split_ready_def)
  then have w: "within fs (insert s' (allkeys l' \<union> allkeys r'))" by (rule within_mono [OF _ sub])
  obtain k where k: "k \<in> allkeys l'" "k < s'" using o(3,5) by blast
  have "above fs s'"
  proof (cases fs)
    case (Cons f gs)
    obtain i us ds j where f: "f = (i, us, ds, j)" by (cases f)
    have "0 < j \<Longrightarrow> us ! (j - 1) \<le> k" using w k(1) by (simp add: Cons f)
    with k(2) show ?thesis by (auto simp: above_def Cons f)
  qed (simp add: above_def)
  then have "split_ready fs l' s' r'" using rd w o by (simp add: split_ready_def)
  moreover have ms: "mset (ids l' @ ids r' @ ctx_ids fs) = mset (ids l @ ids r @ ctx_ids fs)" using ids(1) by simp
  have "distinct (ids l' @ ids r' @ ctx_ids fs)" "set (ids l' @ ids r' @ ctx_ids fs) = set (ids l @ ids r @ ctx_ids fs)"
    using mset_eq_imp_distinct_iff [OF ms] mset_eq_setD [OF ms] s by (simp_all only: split_in_def)
  moreover have "rep_ctx K V' fs (tid l')"
  proof (rule rep_ctx_frame)
    show "rep_ctx K V fs (tid l')" using s tid by (simp add: split_in_def)
    show "same_leaf (V v) (V' v)" if "v \<in> set (ctx_ids fs)" for v using V'(3) that by simp
  qed
  moreover have "chain V' 0 (lefts leafIDs fs @ leafIDs l' @ leafIDs r' @ rights leafIDs fs) 0"
    using V'(4) ids(2) by (metis append.assoc)
  ultimately show ?thesis using s o(6) bal V'(1,2) unfolding split_in_def by metis
qed

text \<open>The two children become one.\<close>

lemma split_in_join:
  assumes s: "split_in K g fs l s r V N"
    and x: "ordered x" "allkeys x \<subseteq> insert s (allkeys l \<union> allkeys r)" "balanced x g" "tid x = tid l"
    and ids: "distinct (ids x)" "set (ids x) \<subseteq> set (ids l @ ids r)"
    and V': "rep K V' x" "\<And>v. v \<in> set (ctx_ids fs) \<Longrightarrow> same_leaf (V v) (V' v)"
      "chain V' 0 (lefts leafIDs fs @ leafIDs x @ rights leafIDs fs) 0"
    and root: "V' 0 = Some m" "RootPageID m = tid (plug l fs)"
  shows "tree_in K (g + length fs) (plug x fs) V' N"
proof (rule tree_in_plugI)
  show "rep K V' x" "ordered x" "balanced x g" "chain V' 0 (lefts leafIDs fs @ leafIDs x @ rights leafIDs fs) 0" "V' 0 = Some m"
    by fact+
  show "rep_ctx K V' fs (tid x)" using rep_ctx_frame [OF _ V'(2)] s x(4) by (simp add: split_in_def)
  have "within fs (insert s (allkeys l \<union> allkeys r))" using s by (simp add: split_in_def split_ready_def)
  then show "within fs (allkeys x)" by (rule within_mono [OF _ x(2)])
  show "ctx_ordered fs" "ctx_balanced fs g" using s by (simp_all add: split_in_def split_ready_def)
  show "distinct (ids x @ ctx_ids fs)" "\<forall>v \<in> set (ids x @ ctx_ids fs). v \<noteq> 0 \<and> v < N"
    using s ids unfolding split_in_def by (auto simp: subset_iff)
  show "RootPageID m = tid (plug x fs)" using root(2) x(4) by (simp add: tid_plug_last)
qed

end
