(* ===== verification/Node_Repair.thy ===== *)
theory Node_Repair
  imports Tree_Grow Underflow
begin

text \<open>
  The page operations of a repair after a deletion, on pages that hold leaves and internal nodes: finding,
  dropping and replacing a child of the parent, merging two pages, and lending an entry to a neighbour.
\<close>

section \<open>Capacity\<close>

lemma fits_uniform: "uniform K es \<Longrightarrow> length es * (K + 12) \<le> 4075 \<Longrightarrow> fits es"
  using dataBytes_uniform [of K es] by (simp add: fits_def algebra_simps)

lemma leaf_page_parts:
  assumes "leaf_page K p kvs"
  shows "wf_page p" "uniform K (entries p)" "PageType p = LeafPage" "entries p = map entryOf kvs" "\<forall>kv \<in> set kvs. length (fst kv) = K"
  using assms unfolding leaf_page_def node_ok_def by blast+

lemma leaf_page_space:
  assumes "leaf_page K p kvs"
  shows "length kvs * (K + 12) \<le> 4075"
  using HasSpaceFor_uniform(2) [OF leaf_page_parts(1,2) [OF assms]] leaf_page_numEntries [OF assms] by simp

lemma leaf_pageI:
  assumes "wf_page p" "PageType p = LeafPage" "entries p = map entryOf kvs" "uniform K (entries p)"
    and "\<forall>kv \<in> set kvs. length (fst kv) = K" "sorted_wrt (<) (map fst kvs)"
  shows "leaf_page K p kvs"
proof -
  have "keys K p = map fst kvs" using assms(3,5) by (auto simp: keys_def entryOf_def)
  with assms show ?thesis by (simp add: leaf_page_def node_ok_def strict_sorted_iff)
qed

lemma node_pageI:
  assumes "wf_page p" "PageType p = InternalPage" "uniform K (entries p)" "keys K p = ss" "childIDs K p = vs" "sorted_wrt (<) ss"
  shows "node_page K p ss vs"
  using assms by (simp add: node_page_def node_ok_def strict_sorted_iff)

lemma node_page_parts:
  assumes "node_page K p ss vs"
  shows "wf_page p" "uniform K (entries p)" "PageType p = InternalPage" "map (take K) (entries p) = ss"
    "vs = LeftmostChildPageID p # map (childOf K) (entries p)"
  using assms by (auto simp: node_page_def node_ok_def keys_def childIDs_def)

section \<open>The children of the parent\<close>

lemma findChildFrom_spec:
  assumes p: "wf_page p" "uniform K (entries p)" and j: "j < numEntries p" "childOf K (entries p ! j) = v"
  shows "i \<le> j \<Longrightarrow> (\<And>x. i \<le> x \<Longrightarrow> x < j \<Longrightarrow> childOf K (entries p ! x) \<noteq> v) \<Longrightarrow>
    findChildFrom p v (int K) i (numEntries p - i) = Ok (word_of_nat j, True)"
proof (induction "j - i" arbitrary: i)
  case 0
  then have i: "i = j" by simp
  obtain m where "numEntries p - i = Suc m" using i j(1) by (metis Suc_diff_Suc)
  then show ?case using entryChild_spec [OF p j(1)] j(2) i by simp
next
  case (Suc n)
  then have lt: "i < j" by simp
  obtain m where m: "numEntries p - i = Suc m" "numEntries p - Suc i = m" using lt j(1) by (metis Suc_diff_Suc less_trans)
  have "childOf K (entries p ! i) \<noteq> v" using Suc.prems(2) [of i] lt by simp
  moreover have "findChildFrom p v (int K) (Suc i) (numEntries p - Suc i) = Ok (word_of_nat j, True)"
    using Suc lt by (intro Suc.hyps(1)) auto
  ultimately show ?case using entryChild_spec [OF p, of i] lt j(1) m by simp
qed

lemma findChildIndex_spec:
  assumes n: "node_page K p ss vs" "distinct vs"
  shows "findChildIndex p (vs ! 0) = Ok (NumEntries p, True)"
    and "j < length ss \<Longrightarrow> findChildIndex p (vs ! Suc j) = Ok (word_of_nat j, True)"
proof -
  note p = node_page_parts [OF n(1)]
  show "findChildIndex p (vs ! 0) = Ok (NumEntries p, True)" by (simp add: findChildIndex_def p(5))
  assume j: "j < length ss"
  have num: "numEntries p = length ss" using node_page_length [OF n(1)] by simp
  have vs: "vs ! Suc x = childOf K (entries p ! x)" if "x < numEntries p" for x using that by (simp add: p(5))
  have len: "length vs = Suc (length ss)" using node_page_length [OF n(1)] by simp
  have "childOf K (entries p ! x) \<noteq> vs ! Suc j" if "x < j" for x
    using nth_eq_iff_index_eq [OF n(2), of "Suc x" "Suc j"] vs [of x] that j num len by simp
  then have "findChildFrom p (vs ! Suc j) (int K) 0 (numEntries p - 0) = Ok (word_of_nat j, True)"
    using j num vs [of j] by (intro findChildFrom_spec [OF p(1,2)]) auto
  moreover have "LeftmostChildPageID p \<noteq> vs ! Suc j"
    using nth_eq_iff_index_eq [OF n(2), of 0 "Suc j"] len j by (simp add: p(5))
  moreover have "entryKeyLen p = Ok (int K)" using j num by (intro entryKeyLen_spec [OF p(1,2)]) auto
  ultimately show "findChildIndex p (vs ! Suc j) = Ok (word_of_nat j, True)" by (simp add: findChildIndex_def)
qed

lemma index_word: "node_page K p ss vs \<Longrightarrow> j \<le> length ss \<Longrightarrow> unat (word_of_nat j :: uint16) = j"
  using wf_page_numEntries [OF node_page_parts(1)] node_page_length by (fastforce intro: unat_of_nat_small)

lemma dropEntry_spec:
  assumes n: "node_page K p (insert_nth j s ss) (insert_nth (Suc j) v vs)" and j: "j \<le> length ss" "length vs = Suc (length ss)"
  shows "\<exists>p'. DeleteEntry p (word_of_nat j) = Ok p' \<and> header p' = header p \<and> node_page K p' ss vs"
proof -
  note p = node_page_parts [OF n]
  have u: "unat (word_of_nat j :: uint16) = j" using index_word [OF n, of j] j by simp
  have "unat (word_of_nat j :: uint16) < numEntries p" using u j node_page_length [OF n] by simp
  from DeleteEntry_spec [OF p(1) this] obtain p' where
    p': "DeleteEntry p (word_of_nat j) = Ok p'" "wf_page p'" "header p' = header p" "entries p' = delete_nth j (entries p)"
    using u by auto
  have "keys K p' = delete_nth j (insert_nth j s ss)" using p'(4) p(4) by (simp add: keys_def map_delete_nth)
  moreover have "childIDs K p' = delete_nth (Suc j) (insert_nth (Suc j) v vs)"
    unfolding p(5) using p'(3,4) by (simp add: childIDs_def Leftmost_header delete_nth_def take_map drop_map)
  ultimately have "keys K p' = ss" "childIDs K p' = vs" using j by (simp_all add: delete_insert_nth)
  moreover have "node_ok K p'" using node_ok_delete [OF _ p'(2,4)] n by (simp add: node_page_def)
  ultimately show ?thesis using p' p(3) header_same [OF p'(3)] by (auto simp: node_page_def)
qed

lemma replaceEntry_spec:
  assumes n: "node_page K p (insert_nth j s ss) (insert_nth (Suc j) v vs)" and j: "j \<le> length ss" "length vs = Suc (length ss)"
    and s': "length s' = K" "sorted_wrt (<) (insert_nth j s' ss)"
  shows "\<exists>p'. replaceEntry (word_of_nat j) (s' @ encodeChildID v) p = Ok p' \<and> header p' = header p \<and>
    node_page K p' (insert_nth j s' ss) (insert_nth (Suc j) v vs)"
proof -
  let ?e = "s' @ encodeChildID v"
  obtain q where q: "DeleteEntry p (word_of_nat j) = Ok q" "header q = header p" "node_page K q ss vs"
    using dropEntry_spec [OF n j] by blast
  note d = node_page_parts [OF q(3)]
  have u: "unat (word_of_nat j :: uint16) = j" using index_word [OF q(3) j(1)] .
  have num: "numEntries q = length ss" using node_page_length [OF q(3)] by simp
  have e: "length ?e = K + 8" using s'(1) by (simp add: encodeChildID_def)
  have uni: "uniform K (insert_nth j ?e (entries q))" using d(2) e by simp
  have "Suc (length ss) * (K + 12) \<le> 4075" using node_page_space(2) [OF n] by simp
  then have "fits (insert_nth j ?e (entries q))" using fits_uniform [OF uni] num by simp
  then obtain p' where p': "InsertEntry q (word_of_nat j) ?e = Ok p'" "wf_page p'" "header p' = header q"
      "entries p' = insert_nth j ?e (entries q)"
    using InsertEntry_spec [OF d(1), of "word_of_nat j" ?e] u num j(1) by auto
  have "keys K p' = insert_nth j s' ss" using p'(4) d(4) s'(1) by (simp add: keys_def map_insert_nth)
  moreover have "childIDs K p' = insert_nth (Suc j) v vs"
    unfolding d(5) using p'(3,4) s'(1) by (simp add: childIDs_def Leftmost_header encodeChildID_def insert_nth_def take_map drop_map)
  ultimately have "node_page K p' (insert_nth j s' ss) (insert_nth (Suc j) v vs)"
    using p' d(3) uni s'(2) header_same [OF p'(3)] by (intro node_pageI) auto
  with q(1,2) p' show ?thesis by (auto simp: replaceEntry_def)
qed

section \<open>Leaves\<close>

lemma mergeLeaf_page:
  assumes l: "leaf_page K l xs" and r: "leaf_page K r ys" and srt: "sorted_wrt (<) (map fst (xs @ ys))"
    and room: "(length xs + length ys) * (K + 12) \<le> 4075"
  shows "\<exists>l' r'. mergeLeaf l r = Ok (l', r') \<and> leaf_page K l' (xs @ ys) \<and>
    header l' = (ID l, LeafPage, PrevLeafPageID l, NextLeafPageID r) \<and> wf_page r' \<and> ID r' = ID r"
proof -
  have wf: "wf_page l" "wf_page r" and uni: "uniform K (entries l @ entries r)" and e: "entries l = map entryOf xs" "entries r = map entryOf ys"
    using leaf_page_parts [OF l] leaf_page_parts [OF r] by simp_all
  have "fits (entries l @ entries r)" using fits_uniform [OF uni] room e by simp
  from mergeLeaf_spec [OF wf this] obtain l' r' where m: "mergeLeaf l r = Ok (l', r')" "wf_page l'" "entries l' = entries l @ entries r"
      "header l' = (ID l, PageType l, PrevLeafPageID l, NextLeafPageID r)" "wf_page r'" "header r' = header r"
    by blast
  have "leaf_page K l' (xs @ ys)"
    using m e l r uni srt header_eqD [OF m(4)] by (intro leaf_pageI) (auto simp: leaf_page_def)
  with m l header_same [OF m(6)] show ?thesis by (auto simp: leaf_page_def)
qed

lemma redistributeFromLeft_page:
  assumes p: "leaf_page K p ys" and l: "leaf_page K l (xs @ [x])" and srt: "sorted_wrt (<) (map fst (xs @ x # ys))"
    and room: "Suc (length ys) * (K + 12) \<le> 4075"
  shows "\<exists>p' l'. redistributeFromLeft p l = Ok (fst x, p', l') \<and> leaf_page K p' (x # ys) \<and> leaf_page K l' xs \<and>
    header p' = header p \<and> header l' = header l"
proof -
  have wf: "wf_page p" "wf_page l" and uni: "uniform K (entries p)" "uniform K (entries l)"
    and e: "entries p = map entryOf ys" "entries l = map entryOf xs @ [entryOf x]" and kx: "length (fst x) = K"
    using leaf_page_parts [OF p] leaf_page_parts [OF l] by simp_all
  have "uniform K (last (entries l) # entries p)" using uni e by simp
  then have "fits (last (entries l) # entries p)" using fits_uniform [of K "last (entries l) # entries p"] room e by simp
  moreover have "0 < numEntries l" using leaf_page_numEntries [OF l] by simp
  ultimately obtain p' l' where m: "redistributeFromLeft p l = Ok (take K (last (entries l)), p', l')" "wf_page p'" "wf_page l'"
      "header p' = header p" "header l' = header l" "entries l' = butlast (entries l)" "entries p' = last (entries l) # entries p"
    using redistributeFromLeft_spec [OF wf _ uni(2)] by blast
  have "leaf_page K p' (x # ys)" "leaf_page K l' xs"
    using m e leaf_page_parts [OF p] leaf_page_parts [OF l] srt header_same [OF m(4)] header_same [OF m(5)]
    by (auto intro!: leaf_pageI simp: sorted_wrt_append)
  moreover have "take K (last (entries l)) = fst x" using e kx by (simp add: entryOf_def)
  ultimately show ?thesis using m by auto
qed

lemma redistributeFromRight_page:
  assumes p: "leaf_page K p xs" and r: "leaf_page K r (y # z # ys)" and srt: "sorted_wrt (<) (map fst (xs @ y # z # ys))"
    and room: "Suc (length xs) * (K + 12) \<le> 4075"
  shows "\<exists>p' r'. redistributeFromRight p r = Ok (fst z, p', r') \<and> leaf_page K p' (xs @ [y]) \<and> leaf_page K r' (z # ys) \<and>
    header p' = header p \<and> header r' = header r"
proof -
  have wf: "wf_page p" and ok: "node_ok K r" and uni: "uniform K (entries p)" "uniform K (entries r)"
    and e: "entries p = map entryOf xs" "entries r = entryOf y # entryOf z # map entryOf ys" and ky: "length (fst z) = K"
    using leaf_page_parts [OF p] leaf_page_parts [OF r] r by (simp_all add: leaf_page_def)
  have "uniform K (entries p @ [hd (entries r)])" using uni e by simp
  then have "fits (entries p @ [hd (entries r)])" using fits_uniform [of K "entries p @ [hd (entries r)]"] room e by simp
  moreover have "2 \<le> numEntries r" using leaf_page_numEntries [OF r] by simp
  ultimately obtain p' r' where m: "redistributeFromRight p r = Ok (keys K r ! 1, p', r')" "wf_page p'" "wf_page r'"
      "header p' = header p" "header r' = header r" "entries r' = tl (entries r)" "entries p' = entries p @ [hd (entries r)]"
    using redistributeFromRight_spec [OF wf ok] by blast
  have "leaf_page K p' (xs @ [y])" "leaf_page K r' (z # ys)"
    using m e leaf_page_parts [OF p] leaf_page_parts [OF r] srt header_same [OF m(4)] header_same [OF m(5)]
    by (auto intro!: leaf_pageI simp: sorted_wrt_append)
  moreover have "keys K r ! 1 = fst z" using leaf_page_keys [OF r] by simp
  ultimately show ?thesis using m by auto
qed

section \<open>Internal pages\<close>

lemma mergeInternal_page:
  assumes l: "node_page K l ss vs" and r: "node_page K r us ws" and s: "length s = K" "sorted_wrt (<) (ss @ s # us)"
    and room: "Suc (length ss + length us) * (K + 12) \<le> 4075"
  shows "\<exists>l'. mergeInternal l r s = Ok l' \<and> node_page K l' (ss @ s # us) (vs @ ws) \<and> header l' = header l"
proof -
  note a = node_page_parts [OF l] and b = node_page_parts [OF r]
  let ?e = "s @ PutUint64 (LeftmostChildPageID r)"
  have uni: "uniform K (entries l @ ?e # entries r)" using a(2) b(2) s(1) by simp
  have "length (entries l @ ?e # entries r) = Suc (length ss + length us)" using node_page_length [OF l] node_page_length [OF r] by simp
  then have "fits (entries l @ ?e # entries r)" using fits_uniform [OF uni] room by simp
  then obtain l' where m: "mergeInternal l r s = Ok l'" "wf_page l'" "header l' = header l" "entries l' = entries l @ ?e # entries r"
    using mergeInternal_spec [OF a(1) b(1)] by blast
  have "keys K l' = ss @ s # us" using m(4) a(4) b(4) s(1) by (simp add: keys_def)
  moreover have "childIDs K l' = vs @ ws" unfolding a(5) b(5) using m(3,4) s(1) by (simp add: childIDs_def Leftmost_header)
  ultimately show ?thesis using m a(3) uni s(2) header_same [OF m(3)] by (auto intro!: node_pageI)
qed

lemma redistributeInternalFromLeft_page:
  assumes p: "node_page 8 p ss vs" and l: "node_page 8 l (us @ [u]) (ws @ [x])" and s: "length s = 8" "sorted_wrt (<) (us @ u # s # ss)"
    and room: "Suc (length ss) * 20 \<le> 4075"
  shows "\<exists>p' l'. redistributeInternalFromLeft p l s = Ok (u, p', l') \<and> node_page 8 p' (s # ss) (x # vs) \<and> node_page 8 l' us ws \<and>
    ID p' = ID p \<and> ID l' = ID l"
proof -
  note a = node_page_parts [OF p] and b = node_page_parts [OF l]
  let ?e = "s @ PutUint64 (LeftmostChildPageID p)"
  obtain es e where es: "entries l = es @ [e]" using b(4) by (cases "entries l" rule: rev_cases) auto
  have n: "0 < numEntries l" using node_page_length [OF l] by simp
  have uni: "uniform 8 (?e # entries p)" using a(2) s(1) by simp
  have "fits (?e # entries p)" using fits_uniform [OF uni] room node_page_length [OF p] by simp
  then obtain p' l' where m: "redistributeInternalFromLeft p l s = Ok (take 8 (last (entries l)), p', l')" "wf_page p'" "wf_page l'"
      "header l' = header l" "header p' = (ID p, PageType p, childOf 8 (last (entries l)), NextLeafPageID p)"
      "entries l' = butlast (entries l)" "entries p' = ?e # entries p"
    using redistributeInternalFromLeft_spec [OF a(1) b(1) n b(2)] by blast
  have u: "take 8 e = u" "map (take 8) es = us" using b(4) by (simp_all add: es)
  have x: "childOf 8 e = x" "LeftmostChildPageID l # map (childOf 8) es = ws"
  proof -
    have "ws @ [x] = (LeftmostChildPageID l # map (childOf 8) es) @ [childOf 8 e]" using b(5) by (simp add: es)
    then show "childOf 8 e = x" "LeftmostChildPageID l # map (childOf 8) es = ws" by (simp_all only: append1_eq_conv)
  qed
  have "node_page 8 p' (s # ss) (x # vs)"
  proof (rule node_pageI)
    show "childIDs 8 p' = x # vs" unfolding a(5) using m(5,7) s(1) x(1) by (simp add: childIDs_def es Leftmost_header)
  qed (use m a s header_eqD [OF m(5)] in \<open>auto simp: keys_def sorted_wrt_append\<close>)
  moreover have "node_page 8 l' us ws"
  proof (rule node_pageI)
    show "childIDs 8 l' = ws" using x(2) m(4,6) by (simp add: childIDs_def es Leftmost_header)
  qed (use m b s u header_same [OF m(4)] in \<open>auto simp: keys_def es sorted_wrt_append\<close>)
  ultimately show ?thesis using m u(1) header_same [OF m(4)] header_eqD [OF m(5)] by (auto simp: es)
qed

lemma redistributeInternalFromRight_page:
  assumes p: "node_page 8 p ss vs" and r: "node_page 8 r (u # us) (x # ws)" and s: "length s = 8" "sorted_wrt (<) (ss @ s # u # us)"
    and room: "Suc (length ss) * 20 \<le> 4075"
  shows "\<exists>p' r'. redistributeInternalFromRight p r s = Ok (u, p', r') \<and> node_page 8 p' (ss @ [s]) (vs @ [x]) \<and> node_page 8 r' us ws \<and>
    ID p' = ID p \<and> ID r' = ID r"
proof -
  note a = node_page_parts [OF p] and b = node_page_parts [OF r]
  let ?e = "s @ PutUint64 (LeftmostChildPageID r)"
  obtain e es where es: "entries r = e # es" using b(4) by (cases "entries r") auto
  have n: "0 < numEntries r" using node_page_length [OF r] by simp
  have uni: "uniform 8 (entries p @ [?e])" using a(2) s(1) by simp
  have "fits (entries p @ [?e])" using fits_uniform [OF uni] room node_page_length [OF p] by simp
  then obtain p' r' where m: "redistributeInternalFromRight p r s = Ok (take 8 (hd (entries r)), p', r')" "wf_page p'" "wf_page r'"
      "header p' = header p" "header r' = (ID r, PageType r, childOf 8 (hd (entries r)), NextLeafPageID r)"
      "entries r' = tl (entries r)" "entries p' = entries p @ [?e]"
    using redistributeInternalFromRight_spec [OF a(1) b(1) n b(2)] by blast
  have u: "take 8 e = u" "map (take 8) es = us" using b(4) by (simp_all add: es)
  have x: "LeftmostChildPageID r = x" "childOf 8 e # map (childOf 8) es = ws" using b(5) by (simp_all add: es)
  have "node_page 8 p' (ss @ [s]) (vs @ [x])"
  proof (rule node_pageI)
    show "childIDs 8 p' = vs @ [x]" unfolding a(5) using m(4,7) s(1) x(1) by (simp add: childIDs_def Leftmost_header)
  qed (use m a s header_same [OF m(4)] in \<open>auto simp: keys_def sorted_wrt_append\<close>)
  moreover have "node_page 8 r' us ws"
  proof (rule node_pageI)
    show "childIDs 8 r' = ws" using x(2) m(5,6) by (simp add: childIDs_def es Leftmost_header)
  qed (use m b s u header_eqD [OF m(5)] in \<open>auto simp: keys_def es sorted_wrt_append\<close>)
  ultimately show ?thesis using m u(1) header_same [OF m(4)] header_eqD [OF m(5)] by (auto simp: es)
qed

end
