(* ===== verification/Leaf_Repair.thy ===== *)
theory Leaf_Repair
  imports Tree_Shrink Node_Repair Tree_Delete
begin

text \<open>
  The repair of an underfull leaf by its neighbour under the same parent: first what it means for the tree, then
  the execution of \<^verbatim>\<open>fixLeafUnderflow\<close> and what it calls, over the symbolic states of the page store.
\<close>

section \<open>Two leaves under one parent\<close>

lemma node_pair:
  assumes "length CS = Suc (length SS)" "j < length SS"
  obtains s ss cs where "SS = insert_nth j s ss" "CS = twoAt j (CS ! j) (CS ! Suc j) cs" "length cs = Suc (length ss)" "j < length cs" "j \<le> length ss"
    "cs ! j = CS ! j" "SS ! j = s"
proof
  let ?ss = "delete_nth j SS" and ?cs = "delete_nth (Suc j) CS"
  show "SS = insert_nth j (SS ! j) ?ss" using assms by (simp add: insert_nth_def delete_nth_def min_def id_take_nth_drop)
  show "length ?cs = Suc (length ?ss)" "j < length ?cs" "j \<le> length ?ss" "?cs ! j = CS ! j"
    using assms by (simp_all add: delete_nth_def nth_append)
  have "CS = take j CS @ CS ! j # CS ! Suc j # drop (Suc (Suc j)) CS"
    using assms by (simp add: Cons_nth_drop_Suc)
  then show "CS = twoAt j (CS ! j) (CS ! Suc j) ?cs"
    using assms by (simp add: twoAt_def delete_nth_def min_def drop_Suc_Cons take_append)
qed simp

lemma pair_children:
  assumes "length cs = Suc (length ss)" "j < length cs"
  shows "map tid (twoAt j l r cs) = insert_nth (Suc j) (tid r) ((map tid cs)[j := tid l])" "length ((map tid cs)[j := tid l]) = Suc (length ss)"
  using map_tid_twoAt [OF assms(2) refl, of r l] assms by simp_all

text \<open>The identifiers of a pair of leaves, their parent and the rest are distinct.\<close>

lemma pair_ids:
  assumes t: "tree_in K h (plug (Node i SS (twoAt j (Leaf l xs) (Leaf r ys) cs)) fs) V N" and fo: "frames_ok fs"
  shows "distinct [i, l, r]" "{i, l, r} \<inter> set (ctx_ids fs) = {}" "{l, r} \<inter> set (concat (map ids (siblings cs j))) = {}" "i \<notin> set (concat (map ids (siblings cs j)))"
    "\<forall>v \<in> {i, l, r}. v \<noteq> 0 \<and> v < N"
proof -
  note x = tree_in_plug [OF t fo]
  let ?y = "i # l # r # concat (map ids (siblings cs j)) @ ctx_ids fs"
  have ms: "mset (ids (Node i SS (twoAt j (Leaf l xs) (Leaf r ys) cs)) @ ctx_ids fs) = mset ?y"
    using mset_ids_Node [of i SS "twoAt j (Leaf l xs) (Leaf r ys) cs"] mset_ids_twoAt [of j "Leaf l xs" "Leaf r ys" cs] by simp
  have "distinct ?y" using mset_eq_imp_distinct_iff [OF ms] x(6) by blast
  then show "distinct [i, l, r]" "{i, l, r} \<inter> set (ctx_ids fs) = {}" "{l, r} \<inter> set (concat (map ids (siblings cs j))) = {}"
      "i \<notin> set (concat (map ids (siblings cs j)))" by auto
  have "\<forall>v \<in> set ?y. v \<noteq> 0 \<and> v < N" using x(7) unfolding mset_eq_setD [OF ms] .
  then show "\<forall>v \<in> {i, l, r}. v \<noteq> 0 \<and> v < N" by simp
qed

lemma sorted_parts:
  assumes "sorted_wrt (<) (map fst (xs @ y # ys))"
  shows "sorted_wrt (<) (map fst xs)" "sorted_wrt (<) (map fst (y # ys))" "\<forall>k \<in> fst ` set xs. k < fst y" "\<forall>k \<in> fst ` set (y # ys). fst y \<le> (k :: 'k::linorder)"
  using assms by (auto simp: sorted_wrt_append less_imp_le)

lemma split_in_sorted:
  assumes "split_in K 0 fs (Leaf l xs) s (Leaf r ys) V N"
  shows "sorted_wrt (<) (map fst (xs @ ys))"
proof -
  have rd: "ordered (Leaf l xs)" "ordered (Leaf r ys)" "\<forall>k \<in> allkeys (Leaf l xs). k < s" "\<forall>k \<in> allkeys (Leaf r ys). s \<le> k"
    using assms by (simp_all add: split_in_def split_ready_def)
  then have "fst x < fst y" if "x \<in> set xs" "y \<in> set ys" for x y
    using that by (metis allkeys.simps(1) image_eqI less_le_trans)
  with rd(1,2) show ?thesis by (simp add: sorted_wrt_append)
qed

text \<open>The chain does not care about contents.\<close>

lemma chain_headers:
  assumes "chain V l vs r" "\<And>v p. v \<in> set vs \<Longrightarrow> V v = Some p \<Longrightarrow> \<exists>p'. V' v = Some p' \<and> header p' = header p"
  shows "chain V' l vs r"
  using assms
proof (induction vs arbitrary: l)
  case (Cons v vs)
  then obtain p where p: "V v = Some p" "PrevLeafPageID p = l" "NextLeafPageID p = hd (vs @ [r])" by auto
  then obtain p' where p': "V' v = Some p'" "header p' = header p" using Cons.prems(2) [of v p] by auto
  have "chain V' v vs r" using Cons by auto
  with p p' header_same [OF p'(2)] show ?case by auto
qed simp

lemma reshare_leaves:
  assumes s: "split_in K 0 fs (Leaf l xs) s (Leaf r ys) V N" and V: "V l = Some q1" "V r = Some q2"
    and q1': "leaf_page K q1' xs'" "header q1' = header q1" and q2': "leaf_page K q2' (y # ys')" "header q2' = header q2"
    and c: "xs' @ y # ys' = xs @ ys" "xs' \<noteq> []"
  shows "split_in K 0 fs (Leaf l xs') (fst y) (Leaf r (y # ys')) (V(l \<mapsto> q1', r \<mapsto> q2')) N"
proof (rule split_in_reshare [OF s])
  let ?V = "V(l \<mapsto> q1', r \<mapsto> q2')"
  note o = sorted_parts [of xs' y ys', unfolded c(1), OF split_in_sorted [OF s]]
  show "ordered (Leaf l xs')" "ordered (Leaf r (y # ys'))" "\<forall>k \<in> allkeys (Leaf l xs'). k < fst y" "\<forall>k \<in> allkeys (Leaf r (y # ys')). fst y \<le> k"
    using o by simp_all
  show "allkeys (Leaf l xs') \<noteq> {}" using c(2) by (cases xs') simp_all
  show "length (fst y) = K" using leaf_page_parts(5) [OF q2'(1)] by simp
  have "set (xs' @ y # ys') = set (xs @ ys)" using c(1) by simp
  then show "insert (fst y) (allkeys (Leaf l xs') \<union> allkeys (Leaf r (y # ys'))) \<subseteq> insert s (allkeys (Leaf l xs) \<union> allkeys (Leaf r ys))"
    by auto
  have d: "l \<noteq> r" "l \<notin> set (ctx_ids fs)" "r \<notin> set (ctx_ids fs)" using s by (auto simp: split_in_def)
  show "?V v = V v" if "v \<in> set (ctx_ids fs)" for v using d that by auto
  show "rep K ?V (Leaf l xs')" "rep K ?V (Leaf r (y # ys'))" using q1' q2' d(1) by simp_all
  have "chain V 0 (lefts leafIDs fs @ leafIDs (Leaf l xs) @ leafIDs (Leaf r ys) @ rights leafIDs fs) 0"
    using s unfolding split_in_def by blast
  then show "chain ?V 0 (lefts leafIDs fs @ leafIDs (Leaf l xs) @ leafIDs (Leaf r ys) @ rights leafIDs fs) 0"
    using V q1'(2) q2'(2) by (elim chain_headers) auto
qed simp_all

text \<open>The second leaf goes into the first, and the leaf after them points back to the first.\<close>

lemma chain_join:
  assumes ch: "chain V 0 (xs @ l # r # ys) 0" and d: "distinct (xs @ l # r # ys)"
    and V: "V l = Some q1" "V r = Some q2" and q: "PrevLeafPageID q = PrevLeafPageID q1" "NextLeafPageID q = NextLeafPageID q2"
    and q3: "ys \<noteq> [] \<Longrightarrow> V (hd ys) = Some p3 \<and> V3 = V(hd ys \<mapsto> q3) \<and> PrevLeafPageID q3 = l \<and> NextLeafPageID q3 = NextLeafPageID p3"
    and V3: "ys = [] \<Longrightarrow> V3 = V"
  shows "chain (V3(l \<mapsto> q)) 0 (xs @ l # ys) 0"
proof -
  let ?V = "V3(l \<mapsto> q)"
  have c: "chain V 0 xs l" "PrevLeafPageID q1 = last (0 # xs)" "NextLeafPageID q2 = hd (ys @ [0])" "chain V r ys 0"
    using ch V by (auto simp: chain_append)
  have "chain ?V 0 xs l"
  proof (subst chain_cong)
    show "?V v = V v" if "v \<in> set xs" for v using that d q3 V3 by (cases ys) auto
  qed (rule c(1))
  moreover have "chain ?V l ys 0"
  proof (cases ys)
    case (Cons y zs)
    have q3': "V y = Some p3" "V3 = V(y \<mapsto> q3)" "PrevLeafPageID q3 = l" "NextLeafPageID q3 = NextLeafPageID p3" using q3 Cons by auto
    have "chain ?V y zs 0"
    proof (subst chain_cong)
      show "?V v = V v" if "v \<in> set zs" for v using that d Cons q3'(2) by auto
    qed (use c(4) Cons in simp)
    with c(4) q3' d Cons show ?thesis by auto
  qed simp
  ultimately show ?thesis using c q by (simp add: chain_append)
qed

lemma join_leaves:
  assumes s: "split_in K 0 fs (Leaf l xs) s (Leaf r ys) V N" and V: "V l = Some q1" "V r = Some q2"
    and q: "leaf_page K q (xs @ ys)" "header q = (l, LeafPage, PrevLeafPageID q1, NextLeafPageID q2)"
    and V3: "rights leafIDs fs = [] \<Longrightarrow> V3 = V"
      "rights leafIDs fs \<noteq> [] \<Longrightarrow> V (hd (rights leafIDs fs)) = Some p3 \<and> leaf_page K p3 us \<and> V3 = V(hd (rights leafIDs fs) \<mapsto> SetPrevLeafPageID p3 l)"
    and root: "V 0 = Some m" "RootPageID m = tid (plug (Leaf l xs) fs)"
  shows "tree_in K (length fs) (plug (Leaf l (xs @ ys)) fs) (V3(l \<mapsto> q)) N"
proof -
  let ?V = "V3(l \<mapsto> q)" and ?R = "rights leafIDs fs"
  have d: "distinct (l # r # ctx_ids fs)" and nz: "\<forall>v \<in> set (l # r # ctx_ids fs). v \<noteq> 0 \<and> v < N" using s by (auto simp: split_in_def)
  have hd: "hd ?R \<in> set (ctx_ids fs)" if "?R \<noteq> []" using that ctx_leafIDs [of fs] hd_in_set [OF that] by auto
  have dl: "distinct (lefts leafIDs fs @ l # r # ?R)"
  proof -
    have "frames_ok fs" using s ctx_ordered_frames_ok by (auto simp: split_in_def split_ready_def)
    note ms = plug_ids [OF this, of "Leaf l xs"] and lf = plug_leafIDs [OF this, of "Leaf l xs"]
    have "distinct (ids (plug (Leaf l xs) fs))" using mset_eq_imp_distinct_iff [OF ms] d by simp
    then have "distinct (lefts leafIDs fs @ l # ?R)" using distinct_leafIDs lf by fastforce
    moreover have "r \<notin> set (lefts leafIDs fs) \<union> set ?R" "l \<noteq> r" using d ctx_leafIDs [of fs] by auto
    ultimately show ?thesis by auto
  qed
  have ch: "chain V 0 (lefts leafIDs fs @ l # r # ?R) 0" using s by (simp add: split_in_def)
  have "chain ?V 0 (lefts leafIDs fs @ l # ?R) 0"
  proof (rule chain_join [OF ch dl V])
    show "PrevLeafPageID q = PrevLeafPageID q1" "NextLeafPageID q = NextLeafPageID q2" using header_eqD [OF q(2)] by simp_all
    show "V (hd ?R) = Some p3 \<and> V3 = V(hd ?R \<mapsto> SetPrevLeafPageID p3 l) \<and> PrevLeafPageID (SetPrevLeafPageID p3 l) = l \<and>
        NextLeafPageID (SetPrevLeafPageID p3 l) = NextLeafPageID p3" if "?R \<noteq> []"
      using V3(2) [OF that] leaf_page_relink(3) [of K p3 us l] header_eqD by blast
  qed (rule V3(1))
  moreover have "same_leaf (V v) (?V v)" if v: "v \<in> set (ctx_ids fs)" for v
  proof (cases "?R \<noteq> [] \<and> v = hd ?R")
    case True
    then have "V v = Some p3" "?V v = Some (SetPrevLeafPageID p3 l)" "leaf_page K p3 us" using V3(2) v d by auto
    with leaf_page_relink [of K p3 us l] show ?thesis by (auto simp: same_leaf_def leaf_page_def)
  next
    case False
    then show ?thesis using V3 v d by (cases "?R = []") auto
  qed
  moreover have "?V 0 = Some m"
  proof -
    have "V3 0 = V 0" using V3 hd nz by (cases "?R = []") auto
    with root(1) nz show ?thesis by auto
  qed
  moreover have "sorted_wrt (<) (map fst (xs @ ys))" by (rule split_in_sorted [OF s])
  moreover have "rep K ?V (Leaf l (xs @ ys))" using q(1) by simp
  ultimately show ?thesis
    using split_in_join [OF s, of "Leaf l (xs @ ys)" ?V m] root(2) by (auto simp: image_Un)
qed

end
