(* ===== verification/Repair_Steps.thy ===== *)
theory Repair_Steps
  imports Leaf_Repair
begin

text \<open>
  Executing the repair of an underfull page over the symbolic states of the page store: reading the neighbours,
  writing back two children and their parent with a new separator, and merging two leaves.
\<close>

section \<open>Counters and children\<close>

lemma countMerge_rule:
  fixes w :: BTree
  assumes "st T V H N X w"
  shows "\<exists>w' X'. countMerge w = (Ok (), w') \<and> st T V H N X' w' \<and>
    rootID w' = rootID w \<and> unique w' = unique w \<and> entrySize w' = entrySize w \<and> pool w' = pool w"
  using client_rule [OF assms, of "w\<lparr>pageMerges := pageMerges w + 1\<rparr>"] by (simp add: countMerge_def exec_simps) blast

lemma distinct_children: "distinct (concat (map ids cs)) \<Longrightarrow> distinct (map tid cs)"
proof (induction cs)
  case (Cons c cs)
  have "tid c \<notin> tid ` set cs"
  proof
    assume "tid c \<in> tid ` set cs"
    then obtain d where "d \<in> set cs" "tid c = tid d" by auto
    then have "tid c \<in> set (ids c) \<inter> set (concat (map ids cs))" using tid_in_ids [of c] tid_in_ids [of d] by auto
    with Cons.prems show False by auto
  qed
  with Cons show ?case by simp
qed simp

lemma split_in_children:
  assumes "split_in K g ((i, ss, cs, j) # fs) l s r V N"
  shows "distinct (map tid (twoAt j l r cs))" "length cs = Suc (length ss)" "j < length cs" "j \<le> length ss"
    "length s = K" "sorted_wrt (<) (insert_nth j s ss)" "i \<noteq> 0" "i < N"
proof -
  note p = split_in_parent [OF assms]
  show "distinct (map tid (twoAt j l r cs))" using p(8) by (intro distinct_children) simp
  show "length cs = Suc (length ss)" "j < length cs" "j \<le> length ss" "length s = K" "sorted_wrt (<) (insert_nth j s ss)" "i \<noteq> 0" "i < N"
    using assms p(1,9) by (auto simp: split_in_def split_ready_def)
qed

text \<open>Which entry of the parent leads to the second of the two children.\<close>

lemma pair_index:
  assumes pp: "node_page K pp (insert_nth j s ss) (map tid (twoAt j l r cs))" "distinct (map tid (twoAt j l r cs))"
    and len: "length cs = Suc (length ss)" "j < length cs"
  shows "findChildIndex pp (tid r) = Ok (word_of_nat j, True)"
proof -
  have "map tid (twoAt j l r cs) ! Suc j = tid r" using len by (simp add: nth_twoAt)
  with findChildIndex_spec(2) [OF pp, of j] len show ?thesis by simp
qed

section \<open>Writing two children and their parent\<close>

definition writeThree :: "addr \<Rightarrow> addr \<Rightarrow> addr \<Rightarrow> (Page \<Rightarrow> Page res) \<Rightarrow> (BTree, unit) op" where
  "writeThree a b c f =
     sbind (mutate c f) (\<lambda>_. sbind (writePage a) (\<lambda>_. sbind (writePage b) (\<lambda>_. writePage c)))"

lemma writeThree_spec:
  assumes s: "st T V H N X w" and H: "H a = Some pa" "H b = Some pb" "H c = Some pp" and ID: "ID pp = i" "tid r = v" "ID pa = x" "ID pb = y"
    and wf: "wf_page pa" "wf_page pb" "valid_id (x)" "valid_id (y)" "valid_id i" and ne: "i \<noteq> x" "i \<noteq> y" "x \<noteq> y"
    and sp: "split_in K g ((i, ss, cs, j) # fs) l s' r (V(i \<mapsto> p0, x \<mapsto> pa, y \<mapsto> pb)) N"
    and pp: "node_page K pp (insert_nth j s ss) (map tid (twoAt j l r cs))"
    and f: "f pp = replaceEntry (word_of_nat j) (s' @ encodeChildID v) pp"
    and root: "V 0 = Some m" "RootPageID m = tid (plug l ((i, ss, cs, j) # fs))" "x \<noteq> 0" "y \<noteq> 0"
  shows "\<exists>w' V' H'. writeThree a b c f w = (Ok (), w') \<and> st (T - {x, y, i}) V' H' N X w' \<and>
    tree_in K (Suc g + length fs) (plug (Node i (insert_nth j s' ss) (twoAt j l r cs)) fs) V' N"
proof -
  note d = split_in_children [OF sp]
  have vs: "map tid (twoAt j l r cs) = insert_nth (Suc j) v ((map tid cs)[j := tid l])" "length ((map tid cs)[j := tid l]) = Suc (length ss)"
    using pair_children(1) [OF d(2,3), of l r] pair_children(2) [OF d(2,3), of l] ID(2) by simp_all
  obtain pp' where pp': "f pp = Ok pp'" "header pp' = header pp" "node_page K pp' (insert_nth j s' ss) (map tid (twoAt j l r cs))"
    using replaceEntry_spec [OF pp [unfolded vs(1)] d(4) vs(2) d(5,6)] f vs(1) by auto
  have w4: "wf_page pp'" "ID pp' = i" using node_page_parts(1) [OF pp'(3)] header_same [OF pp'(2)] ID(1) by simp_all
  have ac: "a \<noteq> c" "b \<noteq> c" using H ne ID by auto
  obtain w1 where w1: "mutate c f w = (Ok (), w1)" "st (insert i T) V (H(c \<mapsto> pp')) N X w1"
    using mutate_rule [OF s H(3), of f pp'] pp'(1) w4 ID wf(5) by auto
  have H1: "(H(c \<mapsto> pp')) a = Some pa" "(H(c \<mapsto> pp')) b = Some pb" "(H(c \<mapsto> pp')) c = Some pp'" using H ac by simp_all
  obtain w2 where w2: "writePage a w1 = (Ok (), w2)" "st (insert i T - {x}) (V(x \<mapsto> pa)) (H(c \<mapsto> pp')) N X w2"
    using write_rule_clean [OF w1(2) H1(1) wf(1)] wf(3) unfolding ID by blast
  obtain w3 where w3: "writePage b w2 = (Ok (), w3)" "st (insert i T - {x} - {y}) (V(x \<mapsto> pa, y \<mapsto> pb)) (H(c \<mapsto> pp')) N X w3"
    using write_rule_clean [OF w2(2) H1(2) wf(2)] wf(4) unfolding ID by blast
  let ?V = "V(x \<mapsto> pa, y \<mapsto> pb, i \<mapsto> pp')"
  obtain w4' where w4': "writePage c w3 = (Ok (), w4')" "st (insert i T - {x} - {y} - {i}) ?V (H(c \<mapsto> pp')) N X w4'"
    using write_rule_clean [OF w3(2) H1(3) w4(1)] wf(5) unfolding w4(2) by blast
  have "insert i T - {x} - {y} - {i} = T - {x, y, i}" by auto
  moreover have "V(i \<mapsto> p0, x \<mapsto> pa, y \<mapsto> pb, i \<mapsto> pp') = ?V" using ne by (auto simp: fun_eq_iff)
  then have "tree_in K (Suc g + length fs) (plug (Node i (insert_nth j s' ss) (twoAt j l r cs)) fs) ?V N"
    using grown_tree [OF sp pp'(3), of m] root d(7) by (simp add: fun_upd_def)
  ultimately show ?thesis
    using w1(1) w2(1) w3(1) w4' by (auto simp: writeThree_def exec_simps)
qed

section \<open>Neighbours\<close>

text \<open>A page number of the store, read or absent.\<close>

definition neighbour :: "(PageID \<rightharpoonup> Page) \<Rightarrow> (addr \<rightharpoonup> Page) \<Rightarrow> PageID \<Rightarrow> addr option \<Rightarrow> bool" where
  "neighbour V H v x \<longleftrightarrow> (case x of None \<Rightarrow> v = 0 | Some b \<Rightarrow> v \<noteq> 0 \<and> H b = V v \<and> V v \<noteq> None)"

lemma neighbour_mono:
  assumes "neighbour V H v x" "H \<subseteq>\<^sub>m H'"
  shows "neighbour V H' v x"
proof (cases x)
  case (Some b)
  then obtain p where "H b = Some p" "V v = Some p" "v \<noteq> 0" using assms(1) by (auto simp: neighbour_def)
  with map_le_Some [OF assms(2)] show ?thesis by (simp add: neighbour_def Some)
qed (use assms(1) in \<open>simp add: neighbour_def\<close>)

lemma readSibling_rule:
  assumes s: "st T V H N X w" and v: "v \<noteq> 0 \<Longrightarrow> V v \<noteq> None \<and> v \<notin> T"
  shows "\<exists>x w' H'. readSibling v w = (Ok x, w') \<and> st T V H' N X w' \<and> H \<subseteq>\<^sub>m H' \<and> neighbour V H' v x"
proof (cases "v = 0")
  case True
  then show ?thesis using s by (intro exI [of _ None] exI [of _ w] exI [of _ H]) (simp add: readSibling_def neighbour_def exec_simps)
next
  case False
  then obtain q where q: "V v = Some q" "v \<notin> T" using v by auto
  obtain b w1 where "readPage v w = (Ok b, w1)" "st T V (H(b \<mapsto> q)) N X w1" "H \<subseteq>\<^sub>m H(b \<mapsto> q)"
    using cached.read_rule [OF TrueI s q(2,1)] by blast
  with False q show ?thesis
    by (intro exI [of _ "Some b"] exI [of _ w1] exI [of _ "H(b \<mapsto> q)"]) (simp add: readSibling_def neighbour_def exec_simps)
qed

text \<open>The entry sizes of a tree: \<open>K\<close>-byte keys, at least \<open>least\<close> entries in a page but the root.\<close>

locale node_sizes =
  fixes K :: nat and es :: uint16 and least :: nat
  assumes min_entries: "\<exists>m. MinEntries es = Ok m \<and> unat m = least"
    and pair_room: "2 * least * (K + 12) \<le> 4075 + (K + 12)"
    and two_least: "2 \<le> least"
begin

definition lends :: "(addr \<rightharpoonup> Page) \<Rightarrow> addr option \<Rightarrow> bool" where
  "lends H x \<longleftrightarrow> (\<exists>b q. x = Some b \<and> H b = Some q \<and> least < numEntries q)"

lemma minEntries_rule:
  assumes "entrySize w = es"
  shows "\<exists>m. minEntries w = (Ok m, w) \<and> unat m = least"
  using min_entries assms by (auto simp: minEntries_def exec_simps)

lemma canLend_rule:
  assumes s: "st T V H N X w" and x: "neighbour V H v x" and es: "entrySize w = es"
  shows "canLend x w = (Ok (lends H x), w)"
proof (cases x)
  case None
  then show ?thesis by (simp add: canLend_def lends_def exec_simps)
next
  case (Some b)
  then obtain q where q: "H b = Some q" using x by (auto simp: neighbour_def)
  obtain m where m: "minEntries w = (Ok m, w)" "unat m = least" using minEntries_rule [OF es] by blast
  then show ?thesis using deref_rule [OF s q] q Some by (simp add: canLend_def lends_def exec_simps word_less_nat_alt)
qed

lemma room_one: "n < least \<Longrightarrow> Suc n * (K + 12) \<le> 4075"
proof -
  assume "n < least"
  then have "Suc n * (K + 12) \<le> least * (K + 12)" by (intro mult_le_mono1) simp
  also have "\<dots> \<le> (2 * least - 1) * (K + 12)" using two_least by (intro mult_le_mono1) simp
  also have "\<dots> \<le> 4075" using pair_room two_least by (simp add: algebra_simps diff_mult_distrib)
  finally show ?thesis .
qed

lemma room_two: "n < least \<Longrightarrow> m \<le> least \<Longrightarrow> (n + m) * (K + 12) \<le> 4075"
proof -
  assume "n < least" "m \<le> least"
  then have "(n + m) * (K + 12) \<le> (2 * least - 1) * (K + 12)" by (intro mult_le_mono1) simp
  also have "\<dots> \<le> 4075" using pair_room two_least by (simp add: algebra_simps diff_mult_distrib)
  finally show ?thesis .
qed

lemma fixLeaf_reads:
  assumes s: "st T V H N X w" and a: "H a = Some p" and i: "V i = Some pp" "i \<notin> T" and es: "entrySize w = es"
    and near: "\<forall>v \<in> {PrevLeafPageID p, NextLeafPageID p}. v \<noteq> 0 \<longrightarrow> V v \<noteq> None \<and> v \<notin> T"
  shows "\<exists>c x y H' w'. st T V H' N X w' \<and> H \<subseteq>\<^sub>m H' \<and> H' c = Some pp \<and>
    neighbour V H' (PrevLeafPageID p) x \<and> neighbour V H' (NextLeafPageID p) y \<and>
    fixLeafUnderflow a (anc @ [i]) w =
      (if lends H' x then redistributeLeafFromLeft a (the x) c
       else if lends H' y then redistributeLeafFromRight a (the y) c
       else (case x of Some l \<Rightarrow> mergeLeafWithLeft a l c (anc @ [i]) | None \<Rightarrow> mergeLeafWithRight a y c (anc @ [i]))) w'"
proof -
  obtain c w1 where w1: "readPage i w = (Ok c, w1)" "st T V (H(c \<mapsto> pp)) N X w1" "H \<subseteq>\<^sub>m H(c \<mapsto> pp)"
    using cached.read_rule [OF TrueI s i(2,1)] by blast
  obtain x w2 H2 where w2: "readSibling (PrevLeafPageID p) w1 = (Ok x, w2)" "st T V H2 N X w2" "H(c \<mapsto> pp) \<subseteq>\<^sub>m H2"
      "neighbour V H2 (PrevLeafPageID p) x"
    using readSibling_rule [OF w1(2), of "PrevLeafPageID p"] near by blast
  obtain y w3 H3 where w3: "readSibling (NextLeafPageID p) w2 = (Ok y, w3)" "st T V H3 N X w3" "H2 \<subseteq>\<^sub>m H3"
      "neighbour V H3 (NextLeafPageID p) y"
    using readSibling_rule [OF w2(2), of "NextLeafPageID p"] near by blast
  note x3 = neighbour_mono [OF w2(4) w3(3)]
  have le: "H \<subseteq>\<^sub>m H3" "H(c \<mapsto> pp) \<subseteq>\<^sub>m H3" using w1(3) w2(3) w3(3) map_le_trans by blast+
  have es3: "entrySize w3 = es" using es st_more [OF s] st_more [OF w3(2)] more_fields(2) [of w3 w] by simp
  have "fixLeafUnderflow a (anc @ [i]) w =
      (if lends H3 x then redistributeLeafFromLeft a (the x) c
       else if lends H3 y then redistributeLeafFromRight a (the y) c
       else (case x of Some l \<Rightarrow> mergeLeafWithLeft a l c (anc @ [i]) | None \<Rightarrow> mergeLeafWithRight a y c (anc @ [i]))) w3"
    using w1(1) w2(1) w3(1) deref_rule [OF w1(2) map_le_Some [OF w1(3) a]] canLend_rule [OF w3(2) x3 es3] canLend_rule [OF w3(2) w3(4) es3]
    by (simp add: fixLeafUnderflow_def exec_simps split: option.split)
  moreover have "H3 c = Some pp" using map_le_Some [OF le(2)] by simp
  ultimately show ?thesis using w3(2) le(1) x3 w3(4) by blast
qed

end

interpretation int_sizes: node_sizes 8 16 101
  by unfold_locales (simp_all add: MaxMinEntries)

interpretation pair_sizes: node_sizes 16 24 72
  by unfold_locales (simp_all add: MaxMinEntries)

end
