(* ===== verification/Leaf_Share.thy ===== *)
theory Leaf_Share
  imports Repair_Steps
begin

text \<open>
  Lending between two leaves under one parent, as \<^verbatim>\<open>redistributeLeafFromLeft\<close> and \<^verbatim>\<open>redistributeLeafFromRight\<close> do it: the tree
  keeps its rows and its shape, with another separator.
\<close>

text \<open>Two neighbouring children that share their rows anew leave the rows and the pages of the tree as they were.\<close>

lemma plug_pair_same:
  assumes "frames_ok fs" "contents l' @ contents r' = contents l @ contents r" "mset (ids l' @ ids r') = mset (ids l @ ids r)"
  shows "contents (plug (Node i SS' (twoAt j l' r' cs)) fs) = contents (plug (Node i SS (twoAt j l r cs)) fs)"
    and "set (ids (plug (Node i SS' (twoAt j l' r' cs)) fs)) = set (ids (plug (Node i SS (twoAt j l r cs)) fs))"
proof -
  let ?x = "Node i SS (twoAt j l r cs)" and ?y = "Node i SS' (twoAt j l' r' cs)"
  have "contents ?y = contents ?x" using arg_cong [OF assms(2), of "\<lambda>zs. concat (map contents (take j cs)) @ zs @ concat (map contents (drop (Suc j) cs))"]
    by (simp add: concat_twoAt)
  then show "contents (plug ?y fs) = contents (plug ?x fs)" by (simp add: plug_contents [OF assms(1)])
  have "mset (ids ?y) = mset (ids ?x)"
    unfolding mset_ids_Node mset_ids_twoAt using assms(3) by (simp flip: add.assoc)
  then have "mset (ids (plug ?y fs)) = mset (ids (plug ?x fs))" by (simp add: plug_ids [OF assms(1)])
  then show "set (ids (plug ?y fs)) = set (ids (plug ?x fs))" by (rule mset_eq_setD)
qed

text \<open>The parent page without the separator between the two children.\<close>

lemma pair_split_in:
  assumes t: "tree_in K (Suc g + length fs) (plug (Node i (insert_nth j s ss) (twoAt j l r cs)) fs) V N" and fo: "frames_ok fs"
    and len: "length cs = Suc (length ss)" "j < length cs" and pp: "V i = Some pp"
  obtains p0 where "DeleteEntry pp (word_of_nat j) = Ok p0" "header p0 = header pp" "node_page K p0 ss ((map tid cs)[j := tid l])"
    "split_in K g ((i, ss, cs, j) # fs) l s r (V(i \<mapsto> p0)) N"
    "node_page K pp (insert_nth j s ss) (map tid (twoAt j l r cs))" "findChildIndex pp (tid r) = Ok (word_of_nat j, True)"
proof -
  have n: "node_page K pp (insert_nth j s ss) (map tid (twoAt j l r cs))" using tree_in_plug(1) [OF t fo] pp by auto
  note vs = pair_children [OF len, where l = l]
  obtain p0 where p0: "DeleteEntry pp (word_of_nat j) = Ok p0" "header p0 = header pp" "node_page K p0 ss ((map tid cs)[j := tid l])"
    using dropEntry_spec [OF n [unfolded vs(1)] _ vs(2)] len by auto
  note sp = unsplit_in [OF t fo len refl p0(3)]
  note idx = pair_index [OF n split_in_children(1) [OF sp] len]
  show ?thesis using that p0 sp n idx by blast
qed

lemma tree_in_root:
  assumes "tree_in K h (plug x fs) V N"
  obtains m where "V 0 = Some m" "RootPageID m = tid (plug x fs)"
  using assms by (auto simp: tree_in_def)

lemma tid_plug_frame: "tid (plug x ((i, ss, cs, j) # fs)) = tid (plug (Node i us ds) fs)"
  by (simp add: tid_plug_last)

context node_sizes
begin

lemma lendLeft_spec:
  assumes s: "st T V H N X w" and H: "H a = Some p" "H b = Some q" "H c = Some pp"
    and V: "V r = Some p" "V l = Some q" "V i = Some pp" and ID: "ID p = r" "ID q = l" "ID pp = i" and N: "valid_id N"
    and t: "tree_in K (Suc (length fs)) (plug (Node i (insert_nth j sep ss) (twoAt j (Leaf l xs) (Leaf r ys) cs)) fs) V N"
    and fo: "frames_ok fs" and len: "length cs = Suc (length ss)" "j < length cs" and size: "least < length xs" "length ys < least"
  shows "\<exists>w' V' H' s xs' ys'. redistributeLeafFromLeft a b c w = (Ok (), w') \<and> st (T - {r, l, i}) V' H' N X w' \<and>
    tree_in K (Suc (length fs)) (plug (Node i (insert_nth j s ss) (twoAt j (Leaf l xs') (Leaf r ys') cs)) fs) V' N \<and>
    xs' @ ys' = xs @ ys \<and> min (length xs) (length ys) < min (length xs') (length ys')"
proof -
  note d = pair_ids [OF t fo]
  have t0: "tree_in K (Suc 0 + length fs) (plug (Node i (insert_nth j sep ss) (twoAt j (Leaf l xs) (Leaf r ys) cs)) fs) V N" using t by simp
  obtain p0 where p0: "split_in K 0 ((i, ss, cs, j) # fs) (Leaf l xs) sep (Leaf r ys) (V(i \<mapsto> p0)) N"
      "node_page K pp (insert_nth j sep ss) (map tid (twoAt j (Leaf l xs) (Leaf r ys) cs))" "findChildIndex pp r = Ok (word_of_nat j, True)"
    using pair_split_in [OF t0 fo len V(3)] by (metis tid.simps(1))
  have "xs \<noteq> []" using size(1) by auto
  then obtain us x where us: "xs = us @ [x]" by (metis append_butlast_last_id)
  have us': "us \<noteq> []" using size(1) two_least us by auto
  have lp: "leaf_page K p ys" "leaf_page K q (us @ [x])" using p0(1) V(1,2) d(1) us by (auto simp: split_in_def)
  obtain p' q' where m: "redistributeFromLeft p q = Ok (fst x, p', q')" "leaf_page K p' (x # ys)" "leaf_page K q' us"
      "header p' = header p" "header q' = header q"
    using redistributeFromLeft_page [OF lp _ room_one [OF size(2)]] split_in_sorted [OF p0(1)] us by auto
  have id: "ID p' = r" "ID q' = l" "wf_page p'" "wf_page q'"
    using header_same [OF m(4)] header_same [OF m(5)] ID leaf_page_parts(1) [OF m(2)] leaf_page_parts(1) [OF m(3)] by simp_all
  have val: "valid_id r" "valid_id l" "valid_id i" using d(5) valid_id_less [OF N] by (simp_all add: less_imp_le)
  have ab: "a \<noteq> b" "a \<noteq> c" "b \<noteq> c" using H ID d(1) by auto
  obtain w1 where w1: "mutate2 a b redistributeFromLeft w = (Ok (fst x), w1)" "st (insert l (insert r T)) V (H(a \<mapsto> p', b \<mapsto> q')) N X w1"
    using mutate2_rule [OF s H(1,2) ab(1), of redistributeFromLeft "fst x" p' q'] m(1) id ID val by auto
  have H1: "(H(a \<mapsto> p', b \<mapsto> q')) a = Some p'" "(H(a \<mapsto> p', b \<mapsto> q')) b = Some q'" "(H(a \<mapsto> p', b \<mapsto> q')) c = Some pp" using H ab by simp_all
  let ?l = "Leaf l us" and ?r = "Leaf r (x # ys)"
  have sp: "split_in K 0 ((i, ss, cs, j) # fs) ?l (fst x) ?r (V(i \<mapsto> p0, l \<mapsto> q', r \<mapsto> p')) N"
    by (rule reshare_leaves [OF p0(1) _ _ m(3,5,2,4)]) (use V d(1) us us' in auto)
  have upd: "V(i \<mapsto> p0, l \<mapsto> q', r \<mapsto> p') = V(i \<mapsto> p0, r \<mapsto> p', l \<mapsto> q')" using d(1) by (intro fun_upd_twist) auto
  obtain m' where m': "V 0 = Some m'" "RootPageID m' = tid (plug ?l ((i, ss, cs, j) # fs))"
    using tree_in_root [OF t] by (metis tid_plug_frame)
  let ?f = "\<lambda>pp. rbind (findChildIndex pp (ID p')) (\<lambda>(idx, _). replaceEntry idx (fst x @ encodeChildID (ID p')) pp)"
  have f: "?f pp = replaceEntry (word_of_nat j) (fst x @ encodeChildID r) pp" using p0(3) id(1) by simp
  have pp: "node_page K pp (insert_nth j sep ss) (map tid (twoAt j ?l ?r cs))" using p0(2) by (simp add: twoAt_def)
  have "\<exists>w' V' H'. writeThree a b c ?f w1 = (Ok (), w') \<and> st (insert l (insert r T) - {r, l, i}) V' H' N X w' \<and>
      tree_in K (Suc 0 + length fs) (plug (Node i (insert_nth j (fst x) ss) (twoAt j ?l ?r cs)) fs) V' N"
    by (rule writeThree_spec [OF w1(2) H1 ID(3) _ id(1-4) val _ _ _ sp [unfolded upd] pp _ m']) (use d in \<open>auto simp: f\<close>)
  then obtain w' V' H' where w': "writeThree a b c ?f w1 = (Ok (), w')" "st (insert l (insert r T) - {r, l, i}) V' H' N X w'"
      "tree_in K (Suc (length fs)) (plug (Node i (insert_nth j (fst x) ss) (twoAt j ?l ?r cs)) fs) V' N"
    by auto
  have "redistributeLeafFromLeft a b c w = (Ok (), w')"
    using w1(1) w'(1) deref_rule [OF w1(2) H1(1)] by (simp add: redistributeLeafFromLeft_def writeThree_def exec_simps)
  moreover have "insert l (insert r T) - {r, l, i} = T - {r, l, i}" by auto
  with w'(2) have "st (T - {r, l, i}) V' H' N X w'" by simp
  moreover have "us @ x # ys = xs @ ys" "min (length xs) (length ys) < min (length us) (length (x # ys))" using us size by simp_all
  ultimately show ?thesis
    using w'(3) by (intro exI [of _ w'] exI [of _ V'] exI [of _ H'] exI [of _ "fst x"] exI [of _ "us"] exI [of _ "x # ys"] conjI)
qed

lemma lendRight_spec:
  assumes s: "st T V H N X w" and H: "H a = Some p" "H b = Some q" "H c = Some pp"
    and V: "V l = Some p" "V r = Some q" "V i = Some pp" and ID: "ID p = l" "ID q = r" "ID pp = i" and N: "valid_id N"
    and t: "tree_in K (Suc (length fs)) (plug (Node i (insert_nth j sep ss) (twoAt j (Leaf l xs) (Leaf r ys) cs)) fs) V N"
    and fo: "frames_ok fs" and len: "length cs = Suc (length ss)" "j < length cs" and size: "length xs < least" "least < length ys"
  shows "\<exists>w' V' H' s xs' ys'. redistributeLeafFromRight a b c w = (Ok (), w') \<and> st (T - {r, l, i}) V' H' N X w' \<and>
    tree_in K (Suc (length fs)) (plug (Node i (insert_nth j s ss) (twoAt j (Leaf l xs') (Leaf r ys') cs)) fs) V' N \<and>
    xs' @ ys' = xs @ ys \<and> min (length xs) (length ys) < min (length xs') (length ys')"
proof -
  note d = pair_ids [OF t fo]
  have t0: "tree_in K (Suc 0 + length fs) (plug (Node i (insert_nth j sep ss) (twoAt j (Leaf l xs) (Leaf r ys) cs)) fs) V N" using t by simp
  obtain p0 where p0: "split_in K 0 ((i, ss, cs, j) # fs) (Leaf l xs) sep (Leaf r ys) (V(i \<mapsto> p0)) N"
      "node_page K pp (insert_nth j sep ss) (map tid (twoAt j (Leaf l xs) (Leaf r ys) cs))" "findChildIndex pp r = Ok (word_of_nat j, True)"
    using pair_split_in [OF t0 fo len V(3)] by (metis tid.simps(1))
  obtain y z us where us: "ys = y # z # us" using size(2) two_least by (cases ys; cases "tl ys") auto
  have lp: "leaf_page K p xs" "leaf_page K q (y # z # us)" using p0(1) V(1,2) d(1) us by (auto simp: split_in_def)
  obtain p' q' where m: "redistributeFromRight p q = Ok (fst z, p', q')" "leaf_page K p' (xs @ [y])" "leaf_page K q' (z # us)"
      "header p' = header p" "header q' = header q"
    using redistributeFromRight_page [OF lp _ room_one [OF size(1)]] split_in_sorted [OF p0(1)] us by auto
  have id: "ID p' = l" "ID q' = r" "wf_page p'" "wf_page q'"
    using header_same [OF m(4)] header_same [OF m(5)] ID leaf_page_parts(1) [OF m(2)] leaf_page_parts(1) [OF m(3)] by simp_all
  have val: "valid_id r" "valid_id l" "valid_id i" using d(5) valid_id_less [OF N] by (simp_all add: less_imp_le)
  have ab: "a \<noteq> b" "a \<noteq> c" "b \<noteq> c" using H ID d(1) by auto
  obtain w1 where w1: "mutate2 a b redistributeFromRight w = (Ok (fst z), w1)" "st (insert r (insert l T)) V (H(a \<mapsto> p', b \<mapsto> q')) N X w1"
    using mutate2_rule [OF s H(1,2) ab(1), of redistributeFromRight "fst z" p' q'] m(1) id ID val by auto
  have H1: "(H(a \<mapsto> p', b \<mapsto> q')) a = Some p'" "(H(a \<mapsto> p', b \<mapsto> q')) b = Some q'" "(H(a \<mapsto> p', b \<mapsto> q')) c = Some pp" using H ab by simp_all
  let ?l = "Leaf l (xs @ [y])" and ?r = "Leaf r (z # us)"
  have sp: "split_in K 0 ((i, ss, cs, j) # fs) ?l (fst z) ?r (V(i \<mapsto> p0, l \<mapsto> p', r \<mapsto> q')) N"
    by (rule reshare_leaves [OF p0(1) _ _ m(2,4,3,5)]) (use V d(1) us in auto)
  obtain m' where m': "V 0 = Some m'" "RootPageID m' = tid (plug ?l ((i, ss, cs, j) # fs))"
    using tree_in_root [OF t] by (metis tid_plug_frame)
  let ?f = "\<lambda>pp. rbind (findChildIndex pp (ID q')) (\<lambda>(idx, _). replaceEntry idx (fst z @ encodeChildID (ID q')) pp)"
  have f: "?f pp = replaceEntry (word_of_nat j) (fst z @ encodeChildID r) pp" using p0(3) id(2) by simp
  have pp: "node_page K pp (insert_nth j sep ss) (map tid (twoAt j ?l ?r cs))" using p0(2) by (simp add: twoAt_def)
  have "\<exists>w' V' H'. writeThree a b c ?f w1 = (Ok (), w') \<and> st (insert r (insert l T) - {l, r, i}) V' H' N X w' \<and>
      tree_in K (Suc 0 + length fs) (plug (Node i (insert_nth j (fst z) ss) (twoAt j ?l ?r cs)) fs) V' N"
    by (rule writeThree_spec [OF w1(2) H1 ID(3) _ id(1-4) val(2,1,3) _ _ _ sp pp _ m']) (use d in \<open>auto simp: f\<close>)
  then obtain w' V' H' where w': "writeThree a b c ?f w1 = (Ok (), w')" "st (insert r (insert l T) - {l, r, i}) V' H' N X w'"
      "tree_in K (Suc (length fs)) (plug (Node i (insert_nth j (fst z) ss) (twoAt j ?l ?r cs)) fs) V' N"
    by auto
  have "redistributeLeafFromRight a b c w = (Ok (), w')"
    using w1(1) w'(1) deref_rule [OF w1(2) H1(2)] by (simp add: redistributeLeafFromRight_def writeThree_def exec_simps)
  moreover have "insert r (insert l T) - {l, r, i} = T - {r, l, i}" by auto
  with w'(2) have "st (T - {r, l, i}) V' H' N X w'" by simp
  moreover have "(xs @ [y]) @ z # us = xs @ ys" "min (length xs) (length ys) < min (length (xs @ [y])) (length (z # us))" using us size by simp_all
  ultimately show ?thesis
    using w'(3) by (intro exI [of _ w'] exI [of _ V'] exI [of _ H'] exI [of _ "fst z"] exI [of _ "xs @ [y]"] exI [of _ "z # us"] conjI)
qed

end

end
