(* ===== verification/Leaf_Merge.thy ===== *)
theory Leaf_Merge
  imports Leaf_Share
begin

text \<open>
  Merging two leaves under one parent, up to the point where \<^verbatim>\<open>finishInternalMerge\<close> takes over with the parent that has lost
  a child, and the end of the repair at the root or at a parent with enough entries.
\<close>

section \<open>Merging\<close>

definition mergeLeaves :: "addr \<Rightarrow> addr \<Rightarrow> addr \<Rightarrow> PageID list \<Rightarrow> (BTree, unit) op" where
  "mergeLeaves left right parent ancestors =
     sbind (deref right) (\<lambda>rp.
     sbind (mutate2 left right (\<lambda>l r. rbind (mergeLeaf l r) (\<lambda>(l, r). Ok ((), l, r)))) (\<lambda>_.
     sbind countMerge (\<lambda>_.
     sbind (relinkNext left) (\<lambda>_.
     sbind (dropChild parent (ID rp)) (\<lambda>_.
     sbind (writePage left) (\<lambda>_.
     finishInternalMerge parent ancestors))))))"

lemma merge_either:
  "mergeLeafWithLeft leaf left parent anc = mergeLeaves left leaf parent anc"
  "mergeLeafWithRight leaf (Some right) parent anc = mergeLeaves leaf right parent anc"
  by (simp_all add: mergeLeafWithLeft_def mergeLeafWithRight_def mergeLeaves_def needPage_def sbind_def sret_def)

lemma relinkNext_eq: "relinkNext a = updateNextLeafPrevLink a"
  by (simp add: relinkNext_def updateNextLeafPrevLink_def Let_def)

text \<open>The leaf after the second of two.\<close>

lemma pair_next:
  assumes t: "tree_in K h (plug (Node i SS (twoAt j (Leaf l xs) (Leaf r ys) cs)) fs) V N" and fo: "frames_ok fs"
    and len: "length cs = Suc (length ss)" "length SS = Suc (length ss)" "j < length cs" and p: "V r = Some p"
  defines "R \<equiv> rights leafIDs ((i, ss, cs, j) # fs)"
  shows "NextLeafPageID p = hd (R @ [0])"
    and "R \<noteq> [] \<Longrightarrow> \<exists>p3 us. V (hd R) = Some p3 \<and> leaf_page K p3 us \<and> hd R \<notin> {0, i, l, r} \<and> hd R < N \<and>
      hd R \<in> set (ids (plug (Node i SS (twoAt j (Leaf l xs) (Leaf r ys) cs)) fs))"
proof -
  let ?C = "twoAt j (Leaf l xs) (Leaf r ys) cs"
  let ?fs = "(i, SS, ?C, Suc j) # fs"
  have "?C ! Suc j = Leaf r ys" using len by (simp add: nth_twoAt)
  then have "?C[Suc j := Leaf r ys] = ?C" by (metis list_update_id)
  then have pl: "plug (Node i SS ?C) fs = plug (Leaf r ys) ?fs" by simp
  have t': "tree_in K h (plug (Leaf r ys) ?fs) V N" using t pl by simp
  have fo': "frames_ok ?fs" using fo len by simp
  have R: "R = rights leafIDs ?fs" using len by (simp add: R_def twoAt_def)
  note nx = next_leaf [OF t' fo' p, folded R]
  show "NextLeafPageID p = hd (R @ [0])" by (rule nx(1))
  assume ne: "R \<noteq> []"
  obtain p3 us where p3: "V (hd R) = Some p3" "leaf_page K p3 us" "hd R \<noteq> 0" "hd R < N" using nx(2) [OF ne] by blast
  note d = pair_ids [OF t fo]
  have "hd R \<in> set R" using ne by simp
  moreover have "set R \<subseteq> set (concat (map ids (siblings cs j))) \<union> set (ctx_ids fs)"
    using ctx_leafIDs [of fs] leafIDs_ids by (fastforce simp: R_def siblings_def)
  ultimately have "hd R \<notin> {i, l, r}" using d(2-4) by auto
  moreover have "hd R \<in> set (ids (plug (Node i SS ?C) fs))"
    using \<open>hd R \<in> set R\<close> plug_leafIDs [OF fo', of "Leaf r ys"] leafIDs_ids [of "plug (Leaf r ys) ?fs"] R pl by auto
  ultimately show "\<exists>p3 us. V (hd R) = Some p3 \<and> leaf_page K p3 us \<and> hd R \<notin> {0, i, l, r} \<and> hd R < N \<and>
      hd R \<in> set (ids (plug (Node i SS ?C) fs))"
    using p3 by auto
qed

text \<open>The pages: merge, count, relink the leaf after the pair, drop the child, write; the right page and the parent stay unwritten.\<close>

lemma merge_pages_rule:
  assumes s: "st T V H N X w" and H: "H b = Some q" "H a = Some p" "H c = Some pp" "b \<noteq> a" "a \<noteq> c" "b \<noteq> c"
    and ID: "ID q = l" "ID p = r" "ID pp = i" "i \<noteq> l" and val: "valid_id r" "valid_id l" "valid_id i"
    and m: "mergeLeaf q p = Ok (q', p')" "wf_page q'" "wf_page p'" "ID q' = l" "ID p' = r" "NextLeafPageID q' = hd (R @ [0])"
    and near: "R \<noteq> [] \<longrightarrow> (\<exists>p3 us. V (hd R) = Some p3 \<and> leaf_page K p3 us \<and> hd R \<notin> insert r (insert l T) \<and> hd R \<noteq> 0 \<and> hd R \<noteq> i)"
    and p0: "findChildIndex pp r = Ok (idx, True)" "DeleteEntry pp idx = Ok p0" "wf_page p0" "ID p0 = i"
  shows "\<exists>w' V3 p3 H' X'. mergeLeaves b a c anc w = finishInternalMerge c anc w' \<and>
    st (insert i (insert r T) - {l}) (V3(l \<mapsto> q', i \<mapsto> p0)) H' N X' w' \<and> H' c = Some p0 \<and> (R = [] \<longrightarrow> V3 = V) \<and>
    (R \<noteq> [] \<longrightarrow> V (hd R) = Some p3 \<and> V3 = V(hd R \<mapsto> SetPrevLeafPageID p3 l)) \<and>
    rootID w' = rootID w \<and> unique w' = unique w \<and> entrySize w' = entrySize w"
proof -
  let ?f = "\<lambda>l r. rbind (mergeLeaf l r) (\<lambda>(l, r). Ok ((), l, r))" and ?H = "H(b \<mapsto> q', a \<mapsto> p')"
  obtain w1 where w1: "mutate2 b a ?f w = (Ok (), w1)" "st (insert r (insert l T)) V ?H N X w1"
    using mutate2_rule [OF s H(1,2,4), of ?f "()" q' p'] m ID val by auto
  obtain w2 X' where w2: "countMerge w1 = (Ok (), w2)" "st (insert r (insert l T)) V ?H N X' w2"
      "rootID w2 = rootID w1" "unique w2 = unique w1" "entrySize w2 = entrySize w1"
    using countMerge_rule [OF w1(2)] by blast
  have H2: "?H b = Some q'" "?H c = Some pp" using H by simp_all
  have "\<exists>w' V3 p3 H'. updateNextLeafPrevLink b w2 = (Ok (), w') \<and> st (insert r (insert l T)) V3 H' N X' w' \<and>
      H' c = Some pp \<and> H' b = Some q' \<and> (R = [] \<longrightarrow> V3 = V) \<and>
      (R \<noteq> [] \<longrightarrow> V (hd R) = Some p3 \<and> V3 = V(hd R \<mapsto> SetPrevLeafPageID p3 l))"
    by (rule relink_rule [OF w2(2) H2 m(6,4), where K = K]) (use near ID in fastforce)
  then obtain w3 V3 p3 H3 where w3: "updateNextLeafPrevLink b w2 = (Ok (), w3)" "st (insert r (insert l T)) V3 H3 N X' w3"
      "H3 c = Some pp" "H3 b = Some q'" "R = [] \<longrightarrow> V3 = V" "R \<noteq> [] \<longrightarrow> V (hd R) = Some p3 \<and> V3 = V(hd R \<mapsto> SetPrevLeafPageID p3 l)"
    by (elim exE conjE) (rule that)
  let ?g = "\<lambda>p. rbind (findChildIndex p r) (\<lambda>(idx, _). DeleteEntry p idx)"
  obtain w4 where w4: "mutate c ?g w3 = (Ok (), w4)" "st (insert i (insert r (insert l T))) V3 (H3(c \<mapsto> p0)) N X' w4"
    using mutate_rule [OF w3(2,3), of ?g p0] p0 val ID by auto
  have H4: "(H3(c \<mapsto> p0)) b = Some q'" "(H3(c \<mapsto> p0)) c = Some p0" using w3(4) H by simp_all
  obtain w5 where w5: "writePage b w4 = (Ok (), w5)" "st (insert i (insert r (insert l T)) - {l}) (V3(l \<mapsto> q')) (H3(c \<mapsto> p0)) N X' w5"
    using write_rule_clean [OF w4(2) H4(1) m(2)] val unfolding m(4) by blast
  have T5: "i \<in> insert i (insert r (insert l T)) - {l}" "insert i (insert r (insert l T)) - {l} = insert i (insert r T) - {l}" using ID(4) by auto
  have s5: "st (insert i (insert r T) - {l}) (V3(l \<mapsto> q', i \<mapsto> p0)) (H3(c \<mapsto> p0)) N X' w5"
    unfolding T5(2) [symmetric] by (rule st_agree [OF w5(2)]) (use T5(1) in auto)
  have run: "mergeLeaves b a c anc w = finishInternalMerge c anc w5"
    using deref_rule [OF s H(2)] w1(1) w2(1) w3(1) w4(1) w5(1) ID(2) by (simp add: mergeLeaves_def relinkNext_eq dropChild_def exec_simps)
  have keep: "rootID w5 = rootID w" "unique w5 = unique w" "entrySize w5 = entrySize w"
    using more_fields [of w1 w] st_more [OF w1(2)] st_more [OF s] w2 more_fields [of w5 w2] st_more [OF w5(2)] st_more [OF w2(2)] by simp_all
  show ?thesis
    by (rule exI [of _ w5], rule exI [of _ V3], rule exI [of _ p3], rule exI [of _ "H3(c \<mapsto> p0)"], rule exI [of _ X'])
      (use run s5 H4(2) w3(5,6) keep in blast)
qed

text \<open>The tree in those pages.\<close>

lemma merged_tree:
  assumes sp: "split_in K 0 ((i, ss, cs, j) # fs) (Leaf l xs) sep (Leaf r ys) (V(i \<mapsto> p0)) N" and V: "V l = Some q" "V r = Some p" "i \<noteq> l" "i \<noteq> r"
    and q': "leaf_page K q' (xs @ ys)" "header q' = (l, LeafPage, PrevLeafPageID q, NextLeafPageID p)"
    and R: "R = rights leafIDs ((i, ss, cs, j) # fs)" "R \<noteq> [] \<longrightarrow> (\<exists>p3 us. V (hd R) = Some p3 \<and> leaf_page K p3 us \<and> hd R \<noteq> i)"
    and V3: "R = [] \<longrightarrow> V3 = V" "R \<noteq> [] \<longrightarrow> V (hd R) = Some p3 \<and> V3 = V(hd R \<mapsto> SetPrevLeafPageID p3 l)"
    and root: "V 0 = Some mt" "i \<noteq> 0" "RootPageID mt = tid (plug (Leaf l xs) ((i, ss, cs, j) # fs))"
  shows "tree_in K (Suc (length fs)) (plug (Node i ss (cs[j := Leaf l (xs @ ys)])) fs) (V3(l \<mapsto> q', i \<mapsto> p0)) N"
proof -
  let ?V3 = "V3(i \<mapsto> p0)"
  obtain us where us: "R \<noteq> [] \<Longrightarrow> leaf_page K p3 us" using R(2) V3(2) by fastforce
  have "tree_in K (length ((i, ss, cs, j) # fs)) (plug (Leaf l (xs @ ys)) ((i, ss, cs, j) # fs)) (?V3(l \<mapsto> q')) N"
  proof (rule join_leaves [OF sp _ _ q'])
    show "(V(i \<mapsto> p0)) (hd (rights leafIDs ((i, ss, cs, j) # fs))) = Some p3 \<and> leaf_page K p3 us \<and>
        ?V3 = V(i \<mapsto> p0, hd (rights leafIDs ((i, ss, cs, j) # fs)) \<mapsto> SetPrevLeafPageID p3 l)"
      if "rights leafIDs ((i, ss, cs, j) # fs) \<noteq> []"
      unfolding R(1) [symmetric] using that [folded R(1)] R(2) V3(2) us by (auto simp del: fun_upd_apply simp: fun_upd_twist fun_upd_other)
  qed (use V V3(1) R(1) root in simp_all)
  moreover have "?V3(l \<mapsto> q') = V3(l \<mapsto> q', i \<mapsto> p0)" using V(3) by (rule fun_upd_twist)
  ultimately show ?thesis by simp
qed

lemma mergeLeaves_spec:
  assumes s: "st T V H N X w" and H: "H b = Some q" "H a = Some p" "H c = Some pp"
    and V: "V l = Some q" "V r = Some p" "V i = Some pp" and ID: "ID q = l" "ID p = r" "ID pp = i" and N: "valid_id N"
    and t: "tree_in K (Suc (length fs)) (plug (Node i (insert_nth j sep ss) (twoAt j (Leaf l xs) (Leaf r ys) cs)) fs) V N"
    and fo: "frames_ok fs" and len: "length cs = Suc (length ss)" "j < length cs" and room: "(length xs + length ys) * (K + 12) \<le> 4075"
    and T: "T \<inter> insert 0 (set (ids (plug (Node i (insert_nth j sep ss) (twoAt j (Leaf l xs) (Leaf r ys) cs)) fs))) \<subseteq> {l, r}"
  shows "\<exists>w' V' H' p0 X'. mergeLeaves b a c anc w = finishInternalMerge c anc w' \<and>
    st (insert i (insert r T) - {l}) V' H' N X' w' \<and> H' c = Some p0 \<and> V' i = Some p0 \<and> ID p0 = i \<and>
    tree_in K (Suc (length fs)) (plug (Node i ss (cs[j := Leaf l (xs @ ys)])) fs) V' N \<and>
    rootID w' = rootID w \<and> unique w' = unique w \<and> entrySize w' = entrySize w"
proof -
  let ?R = "rights leafIDs ((i, ss, cs, j) # fs)"
  note d = pair_ids [OF t fo]
  have t0: "tree_in K (Suc 0 + length fs) (plug (Node i (insert_nth j sep ss) (twoAt j (Leaf l xs) (Leaf r ys) cs)) fs) V N" using t by simp
  obtain p0 where p0: "DeleteEntry pp (word_of_nat j) = Ok p0" "header p0 = header pp" "node_page K p0 ss ((map tid cs)[j := tid (Leaf l xs)])"
      "split_in K 0 ((i, ss, cs, j) # fs) (Leaf l xs) sep (Leaf r ys) (V(i \<mapsto> p0)) N" "findChildIndex pp r = Ok (word_of_nat j, True)"
    using pair_split_in [OF t0 fo len V(3)] by (metis tid.simps(1))
  have ne: "i \<noteq> l" "i \<noteq> r" "l \<noteq> r" "i \<noteq> 0" using d(1,5) by auto
  have lp: "leaf_page K q xs" "leaf_page K p ys" using p0(4) V(1,2) ne by (auto simp: split_in_def)
  obtain q' p' where m: "mergeLeaf q p = Ok (q', p')" "leaf_page K q' (xs @ ys)"
      "header q' = (ID q, LeafPage, PrevLeafPageID q, NextLeafPageID p)" "wf_page p'" "ID p' = ID p"
    using mergeLeaf_page [OF lp split_in_sorted [OF p0(4)] room] by blast
  have lenS: "length (insert_nth j sep ss) = Suc (length ss)" by simp
  note nx = pair_next [OF t fo len(1) lenS len(2) V(2)]
  have id: "ID q' = l" "NextLeafPageID q' = hd (?R @ [0])" "wf_page q'" "ID p0 = i" "wf_page p0" "ID p' = r"
    using header_eqD [OF m(3)] header_same [OF p0(2)] ID leaf_page_parts(1) [OF m(2)] node_page_parts(1) [OF p0(3)] nx(1) m(5) by simp_all
  have val: "valid_id r" "valid_id l" "valid_id i" using d(5) valid_id_less [OF N] by (simp_all add: less_imp_le)
  have ab: "b \<noteq> a" "a \<noteq> c" "b \<noteq> c" using H ID ne by auto
  have near: "?R \<noteq> [] \<longrightarrow> (\<exists>p3 us. V (hd ?R) = Some p3 \<and> leaf_page K p3 us \<and> hd ?R \<notin> insert r (insert l T) \<and> hd ?R \<noteq> 0 \<and> hd ?R \<noteq> i)"
    using nx(2) T by blast
  obtain w' V3 p3 H' X' where w': "mergeLeaves b a c anc w = finishInternalMerge c anc w'"
      "st (insert i (insert r T) - {l}) (V3(l \<mapsto> q', i \<mapsto> p0)) H' N X' w'" "H' c = Some p0" "?R = [] \<longrightarrow> V3 = V"
      "?R \<noteq> [] \<longrightarrow> V (hd ?R) = Some p3 \<and> V3 = V(hd ?R \<mapsto> SetPrevLeafPageID p3 l)"
      "rootID w' = rootID w" "unique w' = unique w" "entrySize w' = entrySize w"
    using merge_pages_rule [OF s H ab ID ne(1) val m(1) id(3) m(4) id(1,6,2) near p0(5,1) id(5,4), of anc] by (elim exE conjE) (rule that)
  obtain mt where mt: "V 0 = Some mt" "RootPageID mt = tid (plug (Leaf l xs) ((i, ss, cs, j) # fs))"
    using tree_in_root [OF t] by (metis tid_plug_frame)
  have "tree_in K (Suc (length fs)) (plug (Node i ss (cs[j := Leaf l (xs @ ys)])) fs) (V3(l \<mapsto> q', i \<mapsto> p0)) N"
    by (rule merged_tree [OF p0(4) V(1,2) ne(1,2) m(2) _ refl _ w'(4,5) mt(1) ne(4) mt(2)]) (use m(3) ID near in blast)+
  with w' id(4) show ?thesis
    by (intro exI [of _ w'] exI [of _ "V3(l \<mapsto> q', i \<mapsto> p0)"] exI [of _ H'] exI [of _ p0] exI [of _ X']) simp
qed

end
