(* ===== verification/Leaf_Underflow.thy ===== *)
theory Leaf_Underflow
  imports Leaf_Merge Occupancy
begin

text \<open>
  The repair of an underfull leaf under the root, from \<^verbatim>\<open>fixLeafUnderflow\<close> to the tree it leaves: the neighbours are
  siblings, one of them lends a row or is merged with the leaf, and a root that lost its last separator hands
  the tree to its only child.
\<close>

section \<open>The end of a repair\<close>

lemma tree_in_cong:
  assumes "tree_in K h t V N" "\<And>v. v \<in> insert 0 (set (ids t)) \<Longrightarrow> V' v = V v"
  shows "tree_in K h t V' N"
proof -
  have "rep K V' t" using assms rep_agree [of K V t V'] by (simp add: tree_in_def)
  moreover have "chain V' 0 (leafIDs t) 0"
    using assms chain_cong [of "leafIDs t" V' V 0 0] leafIDs_ids [of t] by (auto simp: tree_in_def)
  ultimately show ?thesis using assms by (simp add: tree_in_def)
qed

text \<open>Pages changed and never written do not matter when they are not pages of the tree.\<close>

lemma tree_inv_intro:
  assumes s: "st T V H N X w" and T: "T \<inter> insert 0 (set (ids t)) = {}" and t: "tree_in K h t V N" "rootID w = tid t"
  shows "tree_inv K h t w"
proof -
  have "tree_in K h t (V |` (- T)) N" using T by (intro tree_in_cong [OF t(1)]) (auto simp: restrict_map_def)
  then have "tree_in K h t (known w) N" using tree_in_mono st_le_known [OF st_drop [OF s]] by blast
  then show ?thesis using st_sound [OF s] st_next [OF s] t(2) by (simp add: tree_inv_def)
qed

text \<open>The only child of a root without separators is a tree of its own.\<close>

lemma only_child:
  assumes "tree_in K h (Node i [] [t]) V N" "RootPageID m = tid t" "V' 0 = Some m" "\<And>v. v \<in> set (ids t) \<Longrightarrow> V' v = V v"
  shows "tree_in K (h - 1) t V' N"
proof -
  have r: "rep K V t" and c: "chain V 0 (leafIDs t) 0" using assms(1) by (simp_all add: tree_in_def)
  have "rep K V' t" using rep_agree [OF r] assms(4) by blast
  moreover have "chain V' 0 (leafIDs t) 0"
    using c chain_cong [of "leafIDs t" V' V 0 0] leafIDs_ids [of t] assms(4) by blast
  moreover have "distinct (ids t)" using assms(1) by (simp add: tree_in_def ids_def)
  ultimately show ?thesis using assms(1-3) by (simp add: tree_in_def)
qed

text \<open>A root that still has separators is written; one that has none hands the tree to its only child.\<close>

lemma finish_root_kept:
  assumes s: "st T V H N X w" and c: "H c = Some p" "V i = Some p" "ID p = i" "node_page K p ss (map tid cs)" "valid_id i" and ss: "ss \<noteq> []"
    and t: "tree_in K h (Node i ss cs) V N" "rootID w = i" and T: "T \<inter> insert 0 (set (ids (Node i ss cs))) \<subseteq> {i}"
  shows "\<exists>w'. finishInternalMerge c [i] w = (Ok (), w') \<and> tree_inv K h (Node i ss cs) w' \<and>
    nextPageID (pm w') = N \<and> unique w' = unique w \<and> entrySize w' = entrySize w"
proof -
  obtain w1 where w1: "writePage c w = (Ok (), w1)" "st (T - {i}) (V(i \<mapsto> p)) H N X w1"
    using write_rule_clean [OF s c(1) node_page_parts(1) [OF c(4)]] c(5) unfolding c(3) by blast
  have "V(i \<mapsto> p) = V" using c(2) by auto
  with w1(2) have s1: "st (T - {i}) V H N X w1" by simp
  have same: "rootID w1 = rootID w" "unique w1 = unique w" "entrySize w1 = entrySize w"
    using more_fields [of w1 w] st_more [OF s1] st_more [OF s] by simp_all
  have "NumEntries p > 0" using node_page_length [OF c(4)] ss by (simp add: word_less_nat_alt)
  then have "finishInternalMerge c [i] w = (Ok (), w1)"
    using deref_rule [OF s c(1)] w1(1) by (simp add: finishInternalMerge.simps exec_simps)
  moreover have "tree_inv K h (Node i ss cs) w1"
    by (rule tree_inv_intro [OF s1 _ t(1)]) (use T t(2) same in auto)
  ultimately show ?thesis using same st_next [OF s1] by auto
qed

lemma finish_root_replaced:
  assumes s: "st T V H N X w" and c: "H c = Some p" "node_page K p [] [tid t']"
    and t: "tree_in K (Suc h) (Node i [] [t']) V N" "rootID w = i" and T: "T \<inter> insert 0 (set (ids (Node i [] [t']))) \<subseteq> {i}"
  shows "\<exists>w'. finishInternalMerge c [i] w = (Ok (), w') \<and> tree_inv K h t' w' \<and>
    nextPageID (pm w') = N \<and> unique w' = unique w \<and> entrySize w' = entrySize w"
proof -
  let ?m = "NewMetadataPage 0 (tid t')"
  have m: "page_image ?m" "ID ?m = 0" "RootPageID ?m = tid t'"
    using NewMetadataPage_image [of 0 "tid t'"] RootPageID_NewMetadataPage by (auto simp: valid_id_def)
  obtain e w1 where w1: "newObj ?m w = (Ok e, w1)" "st T V (H(e \<mapsto> ?m)) N X w1" using newObj_rule [OF s] by blast
  obtain w2 where w2: "writePage e w1 = (Ok (), w2)" "st (T - {0}) (V(0 \<mapsto> ?m)) (H(e \<mapsto> ?m)) N X w2"
    using cached.write_rule [OF TrueI w1(2), of e ?m] m(1,2) by auto
  obtain w3 X' where w3: "smod (\<lambda>t. t\<lparr>rootID := tid t'\<rparr>) w2 = (Ok (), w3)" "st (T - {0}) (V(0 \<mapsto> ?m)) (H(e \<mapsto> ?m)) N X' w3"
      "rootID w3 = tid t'" "unique w3 = unique w2" "entrySize w3 = entrySize w2"
    using setRoot_rule [OF w2(2), of "tid t'"] by blast
  have same: "unique w3 = unique w" "entrySize w3 = entrySize w"
    using more_fields [of w2 w] st_more [OF w2(2)] st_more [OF s] w3(4,5) by simp_all
  have ids: "i \<notin> set (ids t')" "0 \<notin> set (ids t')" using t(1) by (auto simp: tree_in_def ids_def)
  have "LeftmostChildPageID p = tid t'" "NumEntries p = 0"
    using node_page_parts [OF c(2)] node_page_length [OF c(2)] by (simp_all add: unat_eq_0)
  then have run: "finishInternalMerge c [i] w = (Ok (), w3)"
    using deref_rule [OF s c(1)] w1(1) w2(1) w3(1)
    by (simp add: finishInternalMerge.simps fixInternalUnderflow.simps shrinkRoot_def Let_def exec_simps)
  have "tree_in K h t' (V(0 \<mapsto> ?m)) N"
    by (rule only_child [of K "Suc h" i t' V N ?m, simplified]) (use t(1) m(3) ids in auto)
  from tree_inv_intro [OF w3(2) _ this] have "tree_inv K h t' w3" using T ids w3(3) by auto
  with run same st_next [OF w3(2)] show ?thesis by auto
qed

lemma finish_root:
  assumes s: "st T V H N X w" and c: "H c = Some p" "V i = Some p" "ID p = i" and N: "valid_id N"
    and t: "tree_in K h (Node i ss cs) V N" "rootID w = i" and T: "T \<inter> insert 0 (set (ids (Node i ss cs))) \<subseteq> {i}"
  shows "\<exists>w' h' t'. finishInternalMerge c [i] w = (Ok (), w') \<and> tree_inv K h' t' w' \<and>
    (if ss = [] then cs = [t'] \<and> h = Suc h' else t' = Node i ss cs \<and> h' = h) \<and>
    nextPageID (pm w') = N \<and> unique w' = unique w \<and> entrySize w' = entrySize w"
proof -
  have np: "node_page K p ss (map tid cs)" using t(1) c(2) by (simp add: tree_in_def)
  have i: "valid_id i" using t(1) valid_id_less [OF N, of i] by (auto simp: tree_in_def)
  show ?thesis
  proof (cases "ss = []")
    case False
    then show ?thesis using finish_root_kept [OF s c np i False t T] by auto
  next
    case True
    then obtain t' where t': "cs = [t']" using t(1) by (cases cs) (auto simp: tree_in_def)
    obtain g where "h = Suc g" using t(1) by (cases h) (auto simp: tree_in_def)
    then show ?thesis using finish_root_replaced [OF s c(1), of K t' g i] np t T True t' by auto
  qed
qed

section \<open>The neighbours of a leaf\<close>

lemma leaf_child:
  assumes "balanced (Node i SS CS) (Suc 0)" "m < length CS"
  obtains l xs where "CS ! m = Leaf l xs"
proof (cases "CS ! m")
  case (Node v us ds)
  then show thesis using assms nth_mem [OF assms(2)] by fastforce
qed (use that in blast)

lemma concat_single: "(\<And>x. x \<in> set xs \<Longrightarrow> f x = [g x]) \<Longrightarrow> concat (map f xs) = map g xs"
  by (induction xs) auto

lemma leaf_neighbours:
  assumes t: "tree_in K (Suc (length fs)) (plug (Node i SS CS) fs) V N" and fo: "frames_ok fs"
    and J: "J < length CS" "CS ! J = Leaf u kvs" and p: "V u = Some p"
  shows "0 < J \<Longrightarrow> PrevLeafPageID p = tid (CS ! (J - 1))" "J = 0 \<Longrightarrow> lefts leafIDs fs = [] \<Longrightarrow> PrevLeafPageID p = 0"
    "J < length SS \<Longrightarrow> NextLeafPageID p = tid (CS ! Suc J)" "J = length SS \<Longrightarrow> rights leafIDs fs = [] \<Longrightarrow> NextLeafPageID p = 0"
proof -
  note x = tree_in_plug [OF t fo]
  have bal: "balanced (Node i SS CS) (Suc 0)" using x(9) [of "Suc 0"] by simp
  have len: "length CS = Suc (length SS)" using bal by simp
  have one: "leafIDs (CS ! m) = [tid (CS ! m)]" if m: "m < length CS" for m
    using leaf_child [OF bal m] by (metis leafIDs.simps(1) tid.simps(1))
  have ids: "leafIDs (Node i SS CS) = map tid CS" using one concat_single [of CS leafIDs tid] by (auto simp: in_set_conv_nth)
  have split: "map tid CS = map tid (take J CS) @ u # map tid (drop (Suc J) CS)"
    using J by (metis id_take_nth_drop list.simps(9) map_append tid.simps(1))
  have ch: "PrevLeafPageID p = last (0 # lefts leafIDs fs @ map tid (take J CS))"
      "NextLeafPageID p = hd (map tid (drop (Suc J) CS) @ rights leafIDs fs @ [0])"
    using x(8) p unfolding ids split by (auto simp: chain_append hd_append)
  show "PrevLeafPageID p = tid (CS ! (J - 1))" if "0 < J"
    using that J(1) ch(1) take_Suc_conv_app_nth [of "J - 1" CS] by (cases CS) auto
  show "PrevLeafPageID p = 0" if "J = 0" "lefts leafIDs fs = []" using that ch(1) by simp
  show "NextLeafPageID p = tid (CS ! Suc J)" if "J < length SS"
    using that len ch(2) by (simp add: hd_append hd_drop_conv_nth hd_map)
  show "NextLeafPageID p = 0" if "J = length SS" "rights leafIDs fs = []" using that len ch(2) by simp
qed

text \<open>The pages beside child \<open>J\<close> under the same node, \<open>0\<close> for none.\<close>

definition leftSib :: "btree list \<Rightarrow> nat \<Rightarrow> PageID" where
  "leftSib CS J = (if 0 < J then tid (CS ! (J - 1)) else 0)"

definition rightSib :: "btree list \<Rightarrow> nat \<Rightarrow> PageID" where
  "rightSib CS J = (if Suc J < length CS then tid (CS ! Suc J) else 0)"

lemma sib_child:
  assumes "v = leftSib CS J \<or> v = rightSib CS J" "v \<noteq> 0" "J < length CS"
  obtains m where "m < length CS" "m \<noteq> J" "v = tid (CS ! m)"
proof (cases "v = leftSib CS J")
  case True
  with assms have "0 < J" "v = tid (CS ! (J - 1))" by (auto simp: leftSib_def split: if_splits)
  with assms(3) that [of "J - 1"] show thesis by auto
next
  case False
  with assms have "Suc J < length CS" "v = tid (CS ! Suc J)" by (auto simp: rightSib_def split: if_splits)
  with that [of "Suc J"] show thesis by auto
qed

section \<open>What a repair achieves\<close>

text \<open>
  The rows of the tree \<open>t\<close> before it, a tree in order with half-full pages that is no taller, and no new page.
\<close>

definition repaired :: "nat \<Rightarrow> nat \<Rightarrow> nat \<Rightarrow> btree \<Rightarrow> BTree \<Rightarrow> BTree \<Rightarrow> bool" where
  "repaired K m h t w w' \<longleftrightarrow> (\<exists>h' t'. tree_inv K h' t' w' \<and> contents t' = contents t \<and> filled m t' \<and> h' \<le> h) \<and>
     nextPageID (pm w') = nextPageID (pm w) \<and> unique w' = unique w \<and> entrySize w' = entrySize w"

text \<open>
  A node that lost a child, in the tree around it: \<open>c\<close> points to its page, which is changed and not yet written.
\<close>

definition shortened ::
    "nat \<Rightarrow> nat \<Rightarrow> uint16 \<Rightarrow> nat \<Rightarrow> addr \<Rightarrow> PageID \<Rightarrow> byte list list \<Rightarrow> btree list \<Rightarrow> bframe list \<Rightarrow> BTree \<Rightarrow> bool" where
  "shortened K m es h c i ss cs fs w \<longleftrightarrow> (\<exists>T V H N X p. st T V H N X w \<and> valid_id N \<and> H c = Some p \<and> V i = Some p \<and> ID p = i \<and>
     tree_in K h (plug (Node i ss cs) fs) V N \<and> rootID w = tid (plug (Node i ss cs) fs) \<and>
     T \<inter> insert 0 (set (ids (plug (Node i ss cs) fs))) \<subseteq> {i} \<and> entrySize w = es \<and> frames_ok fs \<and>
     ctx_filled m fs \<and> (\<forall>x \<in> set cs. half m x) \<and> (fs \<noteq> [] \<longrightarrow> m \<le> Suc (length ss)))"

text \<open>\<^verbatim>\<open>finishInternalMerge\<close> completes the repair around such a node.\<close>

definition finishes :: "nat \<Rightarrow> nat \<Rightarrow> uint16 \<Rightarrow> bframe list \<Rightarrow> bool" where
  "finishes K m es fs \<longleftrightarrow> (\<forall>h c i ss cs w. shortened K m es h c i ss cs fs w \<longrightarrow>
     (\<exists>w'. finishInternalMerge c (rev (map fst fs) @ [i]) w = (Ok (), w') \<and> repaired K m h (plug (Node i ss cs) fs) w w'))"

lemma finishes_root:
  assumes "0 < m"
  shows "finishes K m es []"
  unfolding finishes_def
proof (intro allI impI)
  fix h c i ss cs and w :: BTree
  assume "shortened K m es h c i ss cs [] w"
  then obtain T V H N X p where s: "st T V H N X w" "valid_id N" "H c = Some p" "V i = Some p" "ID p = i"
      "tree_in K h (Node i ss cs) V N" "rootID w = i" "T \<inter> insert 0 (set (ids (Node i ss cs))) \<subseteq> {i}" "\<forall>x \<in> set cs. half m x"
    unfolding shortened_def by (elim exE conjE) (simp add: ids_simps)
  obtain w' h' t' where w': "finishInternalMerge c [i] w = (Ok (), w')" "tree_inv K h' t' w'"
      "if ss = [] then cs = [t'] \<and> h = Suc h' else t' = Node i ss cs \<and> h' = h"
      "nextPageID (pm w') = N" "unique w' = unique w" "entrySize w' = entrySize w"
    using finish_root [OF s(1,3-5,2,6-8)] by blast
  have "contents t' = contents (Node i ss cs) \<and> filled m t' \<and> h' \<le> h"
    using w'(3) s(9) half_filled [OF assms] by (auto split: if_splits)
  then show "\<exists>w'. finishInternalMerge c (rev (map fst []) @ [i]) w = (Ok (), w') \<and> repaired K m h (plug (Node i ss cs) []) w w'"
    using w' st_next [OF s(1)] unfolding repaired_def by auto
qed

section \<open>Repairing a leaf\<close>

text \<open>Two neighbouring leaves under a node, in the view of a parent in the tree.\<close>

lemma pair_filled:
  assumes "frames_ok fs" "0 < m" "ctx_filled m fs" "length SS = length SS'" "SS \<noteq> []" "j < length cs"
    and "fs \<noteq> [] \<Longrightarrow> m \<le> length SS'" "half m l" "half m r" "\<forall>c \<in> set (siblings cs j). half m c"
  shows "filled m (plug (Node i SS' (twoAt j l r cs)) fs)"
  using assms set_twoAt [OF assms(6), of l r] by (auto simp: plug_filled)

lemma nth_siblings: "m < length cs \<Longrightarrow> m \<noteq> j \<Longrightarrow> cs ! m \<in> set (siblings cs j)" for cs :: "('k, 'v) gtree list"
proof (cases "m < j")
  case True
  assume "m < length cs"
  with True have "take j cs ! m = cs ! m" "m < length (take j cs)" by simp_all
  then show ?thesis unfolding siblings_def by (metis UnCI nth_mem set_append)
next
  case False
  assume "m < length cs" "m \<noteq> j"
  with False have "drop (Suc j) cs ! (m - Suc j) = cs ! m" "m - Suc j < length (drop (Suc j) cs)" by auto
  then show ?thesis unfolding siblings_def by (metis UnCI nth_mem set_append)
qed

lemma ids_Node_distinct: "distinct (ids (Node i ss cs)) \<longleftrightarrow> i \<notin> set (concat (map ids cs)) \<and> distinct (concat (map ids cs))"
  using mset_eq_imp_distinct_iff [of "ids (Node i ss cs)" "i # concat (map ids cs)"] mset_ids_Node [of i ss cs] by simp

lemma leaf_pair:
  assumes "length CS = Suc (length SS)" "j < length SS" "CS ! j = x" "CS ! Suc j = y" "J = j \<or> J = Suc j"
  obtains s ss cs where "SS = insert_nth j s ss" "CS = twoAt j x y cs" "length cs = Suc (length ss)" "j < length cs"
    "set (siblings cs j) \<subseteq> set (siblings CS J)" "length SS = Suc (length ss)"
proof -
  obtain s ss cs where p: "SS = insert_nth j s ss" "CS = twoAt j x y cs" "length cs = Suc (length ss)" "j < length cs"
    using node_pair [OF assms(1,2)] assms(3,4) by metis
  have "set (siblings cs j) \<subseteq> set (siblings CS J)" using p(4) assms(5) by (auto simp: p(2) siblings_def twoAt_def)
  with p show thesis using that by simp
qed

lemma child_pages:
  assumes t: "tree_in K h (plug (Node i SS CS) fs) V N" and fo: "frames_ok fs"
  shows "m < length CS \<Longrightarrow> \<exists>q. V (tid (CS ! m)) = Some q" "m < length CS \<Longrightarrow> tid (CS ! m) \<noteq> 0" "m < length CS \<Longrightarrow> tid (CS ! m) \<noteq> i"
    "m < length CS \<Longrightarrow> n < length CS \<Longrightarrow> m \<noteq> n \<Longrightarrow> tid (CS ! m) \<noteq> tid (CS ! n)"
proof -
  note x = tree_in_plug [OF t fo]
  have d: "distinct (map tid CS)" using x(6) by (intro distinct_children) (simp add: ids_Node_distinct)
  then show "m < length CS \<Longrightarrow> n < length CS \<Longrightarrow> m \<noteq> n \<Longrightarrow> tid (CS ! m) \<noteq> tid (CS ! n)"
    using nth_eq_iff_index_eq [OF d, of m n] by simp
  assume "m < length CS"
  then have m: "CS ! m \<in> set CS" by simp
  show "\<exists>q. V (tid (CS ! m)) = Some q"
    using x(1) m rep_ids_view [of K V "CS ! m" "tid (CS ! m)"] tid_in_ids [of "CS ! m"] by auto
  show "tid (CS ! m) \<noteq> 0" using x(7) m tid_in_ids [of "CS ! m"] by auto
  show "tid (CS ! m) \<noteq> i" using x(6) m tid_in_ids [of "CS ! m"] by (auto simp: ids_Node_distinct)
qed

text \<open>
  Two neighbouring children \<open>l\<close> and \<open>r\<close> of height \<open>g\<close> under the node \<open>i\<close>, in half-full surroundings, with pointers to the
  three pages; of the pages of the tree only those of the two children may be changed and not yet written.
\<close>

definition paired ::
    "nat \<Rightarrow> nat \<Rightarrow> uint16 \<Rightarrow> nat \<Rightarrow> addr \<times> btree \<Rightarrow> addr \<times> btree \<Rightarrow> addr \<Rightarrow> PageID \<Rightarrow> byte list list \<Rightarrow> btree list \<Rightarrow> nat \<Rightarrow>
     bframe list \<Rightarrow> BTree \<Rightarrow> bool" where
  "paired K m es g L R c i SS CS j fs w \<longleftrightarrow> (case (L, R) of ((b, l), (a, r)) \<Rightarrow>
     \<exists>T V H N X q p pp sep ss cs. st T V H N X w \<and> H b = Some q \<and> H a = Some p \<and> H c = Some pp \<and>
       V (tid l) = Some q \<and> V (tid r) = Some p \<and> V i = Some pp \<and> ID q = tid l \<and> ID p = tid r \<and> ID pp = i \<and> valid_id N \<and>
       SS = insert_nth j sep ss \<and> CS = twoAt j l r cs \<and> length cs = Suc (length ss) \<and> j < length cs \<and>
       tree_in K (Suc g + length fs) (plug (Node i SS CS) fs) V N \<and> rootID w = tid (plug (Node i SS CS) fs) \<and> entrySize w = es \<and>
       T \<inter> insert 0 (set (ids (plug (Node i SS CS) fs))) \<subseteq> {tid l, tid r} \<and>
       frames_ok fs \<and> ctx_filled m fs \<and> (\<forall>x \<in> set (siblings cs j). half m x) \<and> (fs \<noteq> [] \<longrightarrow> m \<le> length SS))"

lemma make_paired:
  assumes "st T V H N X w" "valid_id N" "H b = Some q" "V (tid l) = Some q" "ID q = tid l" "H a = Some p" "V (tid r) = Some p" "ID p = tid r"
    and "H c = Some pp" "V i = Some pp" "ID pp = i" "T \<inter> insert 0 (set (ids (plug (Node i SS CS) fs))) \<subseteq> {tid l, tid r}"
    and t: "tree_in K (Suc g + length fs) (plug (Node i SS CS) fs) V N" "rootID w = tid (plug (Node i SS CS) fs)" "entrySize w = es"
    and j: "length CS = Suc (length SS)" "j < length SS" "CS ! j = l" "CS ! Suc j = r" "J = j \<or> J = Suc j"
    and f: "frames_ok fs" "ctx_filled m fs" "\<forall>c \<in> set (siblings CS J). half m c" "fs \<noteq> [] \<longrightarrow> m \<le> length SS"
  shows "paired K m es g (b, l) (a, r) c i SS CS j fs w"
proof -
  obtain sep ss cs where pr: "SS = insert_nth j sep ss" "CS = twoAt j l r cs" "length cs = Suc (length ss)"
      "j < length cs" "set (siblings cs j) \<subseteq> set (siblings CS J)"
    using leaf_pair [OF j] by blast
  then have "\<forall>c \<in> set (siblings cs j). half m c" using f(3) by blast
  then show ?thesis
    unfolding paired_def prod.case using assms(1-12) t f(1,2,4) pr(1-4)
    by - (rule exI [of _ T], rule exI [of _ V], rule exI [of _ H], rule exI [of _ N], rule exI [of _ X], rule exI [of _ q], rule exI [of _ p],
        rule exI [of _ pp], rule exI [of _ sep], rule exI [of _ ss], rule exI [of _ cs], intro conjI; assumption)
qed

text \<open>The children beside child \<open>J\<close>, whose page is the only one changed: their pages, and the pairs they form with it.\<close>

lemma near_children:
  assumes t: "tree_in K h (plug (Node i SS CS) fs) V N" and fo: "frames_ok fs" and J: "J < length CS"
    and T: "T \<inter> insert 0 (set (ids (plug (Node i SS CS) fs))) \<subseteq> {tid (CS ! J)}"
  shows "i \<notin> T" "\<And>n. n < length CS \<Longrightarrow> n \<noteq> J \<Longrightarrow> tid (CS ! n) \<notin> T"
    "\<forall>v \<in> {leftSib CS J, rightSib CS J}. v \<noteq> 0 \<longrightarrow> V v \<noteq> None \<and> v \<notin> T"
proof -
  note ch = child_pages [OF t fo]
  have mem: "i \<in> set (ids (plug (Node i SS CS) fs))" "\<And>m. m < length CS \<Longrightarrow> tid (CS ! m) \<in> set (ids (plug (Node i SS CS) fs))"
    using mset_eq_setD [OF plug_ids [OF fo, of "Node i SS CS"]] nth_mem tid_in_ids by force+
  show "i \<notin> T" using T mem(1) ch(3) [OF J] by auto
  show other: "tid (CS ! n) \<notin> T" if "n < length CS" "n \<noteq> J" for n using T mem(2) ch(4) [OF that(1) J that(2)] that(1) by auto
  show "\<forall>v \<in> {leftSib CS J, rightSib CS J}. v \<noteq> 0 \<longrightarrow> V v \<noteq> None \<and> v \<notin> T"
  proof (intro ballI impI)
    fix v assume v: "v \<in> {leftSib CS J, rightSib CS J}" "v \<noteq> 0"
    obtain m where "m < length CS" "m \<noteq> J" "v = tid (CS ! m)" using sib_child [of v CS J] v J by auto
    with ch(1) [of m] other [of m] show "V v \<noteq> None \<and> v \<notin> T" by auto
  qed
qed

lemma has_neighbour:
  assumes t: "tree_in K h (plug (Node i SS CS) fs) V N" and fo: "frames_ok fs" and J: "J < length CS" "length CS = Suc (length SS)" "SS \<noteq> []"
    and n: "neighbour V H (leftSib CS J) None" "neighbour V H (rightSib CS J) r"
  shows "r \<noteq> None"
proof -
  note ch = child_pages(2) [OF t fo]
  have "J = 0" using n(1) ch [of "J - 1"] J(1) by (auto simp: neighbour_def leftSib_def split: if_splits)
  then have "rightSib CS J \<noteq> 0" using ch [of "Suc J"] J(2,3) by (cases SS) (auto simp: rightSib_def)
  then show ?thesis using n(2) by (auto simp: neighbour_def split: option.splits)
qed

lemma neighbour_page:
  assumes "st T V H N X w" and "tree_in K h (plug (Node i SS CS) fs) V N" "frames_ok fs" "J < length CS"
    "T \<inter> insert 0 (set (ids (plug (Node i SS CS) fs))) \<subseteq> {tid (CS ! J)}"
    and n: "n < length CS" "n \<noteq> J" "neighbour V H (tid (CS ! n)) (Some b)"
  obtains q where "H b = Some q" "V (tid (CS ! n)) = Some q" "ID q = tid (CS ! n)"
  using st_image [OF assms(1) near_children(2) [OF assms(2-5) n(1,2)]] n(3) that by (auto simp: neighbour_def)

lemma paired_neighbours:
  assumes s: "st T V H N X w" "valid_id N" and a: "H a = Some p" "V (tid (CS ! J)) = Some p" "ID p = tid (CS ! J)"
    and c: "H c = Some pp" "V i = Some pp" "ID pp = i"
    and t: "tree_in K (Suc g + length fs) (plug (Node i SS CS) fs) V N" "rootID w = tid (plug (Node i SS CS) fs)" "entrySize w = es"
    and T: "T \<inter> insert 0 (set (ids (plug (Node i SS CS) fs))) \<subseteq> {tid (CS ! J)}" and J: "J < length CS" "length CS = Suc (length SS)"
    and f: "frames_ok fs" "ctx_filled m fs" "\<forall>c \<in> set (siblings CS J). half m c" "fs \<noteq> [] \<longrightarrow> m \<le> length SS"
  shows "neighbour V H (leftSib CS J) (Some b) \<Longrightarrow>
      0 < J \<and> neighbour V H (tid (CS ! (J - 1))) (Some b) \<and> paired K m es g (b, CS ! (J - 1)) (a, CS ! J) c i SS CS (J - 1) fs w"
    "neighbour V H (rightSib CS J) (Some b) \<Longrightarrow>
      Suc J < length CS \<and> neighbour V H (tid (CS ! Suc J)) (Some b) \<and> paired K m es g (a, CS ! J) (b, CS ! Suc J) c i SS CS J fs w"
proof -
  note page = neighbour_page [OF s(1) t(1) f(1) J(1) T]
  assume l: "neighbour V H (leftSib CS J) (Some b)"
  then have j: "0 < J" "neighbour V H (tid (CS ! (J - 1))) (Some b)" by (auto simp: neighbour_def leftSib_def split: if_splits)
  then obtain q where q: "H b = Some q" "V (tid (CS ! (J - 1))) = Some q" "ID q = tid (CS ! (J - 1))"
    using page [of "J - 1" b] J(1) by (metis diff_less less_imp_diff_less less_irrefl zero_less_one)
  have "paired K m es g (b, CS ! (J - 1)) (a, CS ! J) c i SS CS (J - 1) fs w"
    by (rule make_paired [OF s q a c _ t J(2) _ refl _ _ f]) (use T j(1) J in auto)
  with j show "0 < J \<and> neighbour V H (tid (CS ! (J - 1))) (Some b) \<and> paired K m es g (b, CS ! (J - 1)) (a, CS ! J) c i SS CS (J - 1) fs w"
    by blast
next
  note page = neighbour_page [OF s(1) t(1) f(1) J(1) T]
  assume r: "neighbour V H (rightSib CS J) (Some b)"
  then have j: "Suc J < length CS" "neighbour V H (tid (CS ! Suc J)) (Some b)" by (auto simp: neighbour_def rightSib_def split: if_splits)
  then obtain q where q: "H b = Some q" "V (tid (CS ! Suc J)) = Some q" "ID q = tid (CS ! Suc J)"
    using page [of "Suc J" b] by (metis n_not_Suc_n)
  have "paired K m es g (a, CS ! J) (b, CS ! Suc J) c i SS CS J fs w"
    by (rule make_paired [OF s a q c _ t J(2) _ refl refl _ f]) (use T j(1) J(2) in auto)
  with j show "Suc J < length CS \<and> neighbour V H (tid (CS ! Suc J)) (Some b) \<and> paired K m es g (a, CS ! J) (b, CS ! Suc J) c i SS CS J fs w"
    by blast
qed

lemma pairedE:
  assumes "paired K m es g (b, l) (a, r) c i SS CS j fs w"
  obtains T V H N X q p pp sep ss cs where "st T V H N X w" "H b = Some q" "H a = Some p" "H c = Some pp"
    "V (tid l) = Some q" "V (tid r) = Some p" "V i = Some pp" "ID q = tid l" "ID p = tid r" "ID pp = i" "valid_id N"
    "SS = insert_nth j sep ss" "CS = twoAt j l r cs" "length cs = Suc (length ss)" "j < length cs"
    "tree_in K (Suc g + length fs) (plug (Node i SS CS) fs) V N" "rootID w = tid (plug (Node i SS CS) fs)" "entrySize w = es"
    "T \<inter> insert 0 (set (ids (plug (Node i SS CS) fs))) \<subseteq> {tid l, tid r}"
    "frames_ok fs" "ctx_filled m fs" "\<forall>x \<in> set (siblings cs j). half m x" "fs \<noteq> [] \<longrightarrow> m \<le> length SS"
  using assms unfolding paired_def by (simp only: prod.case) (elim exE conjE, rule that)

text \<open>The two children share their rows anew.\<close>

lemma lend_repaired:
  assumes s: "st T V H N X w'" and t: "tree_in K (Suc g + length fs) (plug (Node i (insert_nth j s' ss) (twoAt j l' r' cs)) fs) V N"
    and T: "T \<inter> insert 0 (set (ids (plug (Node i (insert_nth j sep ss) (twoAt j l r cs)) fs))) = {}"
    and rows: "contents l' @ contents r' = contents l @ contents r" "mset (ids l' @ ids r') = mset (ids l @ ids r)" and size: "half m l'" "half m r'" "0 < m"
    and w: "st T0 V0 H0 N X w" "rootID w = tid (plug (Node i (insert_nth j sep ss) (twoAt j l r cs)) fs)"
    and fo: "frames_ok fs" and f: "ctx_filled m fs" "\<forall>c \<in> set (siblings cs j). half m c" "fs \<noteq> [] \<longrightarrow> m \<le> length (insert_nth j sep ss)"
    and j: "j < length cs"
  shows "repaired K m (Suc g + length fs) (plug (Node i (insert_nth j sep ss) (twoAt j l r cs)) fs) w w'"
proof -
  let ?t = "plug (Node i (insert_nth j s' ss) (twoAt j l' r' cs)) fs"
  note same_rows = plug_pair_same [OF fo rows, of i "insert_nth j s' ss" j cs "insert_nth j sep ss"]
  have same: "rootID w' = rootID w" "unique w' = unique w" "entrySize w' = entrySize w"
    using more_fields [of w' w] st_more [OF s] st_more [OF w(1)] by simp_all
  have "tree_inv K (Suc g + length fs) ?t w'"
    by (rule tree_inv_intro [OF s _ t]) (use T same w(2) same_rows(2) in \<open>simp_all add: tid_plug_last\<close>)
  moreover have "insert_nth j s' ss \<noteq> []" by (simp add: insert_nth_def)
  then have "filled m ?t"
    by (intro pair_filled [OF fo size(3) f(1) refl]) (use size f j in simp_all)
  ultimately show ?thesis using same same_rows(1) st_next [OF s] st_next [OF w(1)] unfolding repaired_def by auto
qed

text \<open>The two children have become one, \<open>x\<close>, and the parent has lost an entry.\<close>

lemma joined_ids:
  assumes t: "tree_in K h (plug (Node i SS (twoAt j l r cs)) fs) V N" and fo: "frames_ok fs" and j: "j < length cs"
  shows "i \<noteq> tid r" "i \<noteq> tid l" "tid l \<noteq> tid r" "i \<noteq> 0" "tid r \<noteq> 0"
    "set (ids x) \<subseteq> set (ids l) \<union> set (ids r) - {tid r} \<Longrightarrow>
      set (ids (plug (Node i ss (cs[j := x])) fs)) \<subseteq> set (ids (plug (Node i SS (twoAt j l r cs)) fs)) - {tid r}"
proof -
  note tp = tree_in_plug [OF t fo]
  let ?y = "i # ids l @ ids r @ concat (map ids (siblings cs j)) @ ctx_ids fs"
  have ms: "mset (ids (Node i SS (twoAt j l r cs)) @ ctx_ids fs) = mset ?y"
    using mset_ids_Node [of i SS "twoAt j l r cs"] mset_ids_twoAt [of j l r cs] by simp
  have d: "distinct ?y" using mset_eq_imp_distinct_iff [OF ms] tp(6) by blast
  have nz: "\<forall>v \<in> set ?y. v \<noteq> 0" using tp(7) unfolding mset_eq_setD [OF ms] by blast
  note lr = tid_in_ids [of l] tid_in_ids [of r]
  show "i \<noteq> tid r" "i \<noteq> tid l" "tid l \<noteq> tid r" "i \<noteq> 0" "tid r \<noteq> 0" using d nz lr by auto
  have "set (ids (plug (Node i SS (twoAt j l r cs)) fs)) = set ?y"
    using mset_eq_setD [OF plug_ids [OF fo, of "Node i SS (twoAt j l r cs)"]] mset_eq_setD [OF ms] by simp
  moreover have "set (ids (plug (Node i ss (cs[j := x])) fs)) = insert i (set (ids x) \<union> set (concat (map ids (siblings cs j))) \<union> set (ctx_ids fs))"
    using mset_eq_setD [OF plug_ids [OF fo, of "Node i ss (cs[j := x])"]] by (simp add: set_update_siblings [OF j] Un_ac)
  ultimately show "set (ids (plug (Node i ss (cs[j := x])) fs)) \<subseteq> set (ids (plug (Node i SS (twoAt j l r cs)) fs)) - {tid r}"
    if "set (ids x) \<subseteq> set (ids l) \<union> set (ids r) - {tid r}" using that d lr by auto
qed

lemma merged_repaired:
  assumes s: "st T V H N X w" "H c = Some p" "V i = Some p" "ID p = i" and N: "valid_id N"
    and t: "tree_in K (Suc g + length fs) (plug (Node i ss (cs[j := x])) fs) V N" "rootID w = tid (plug (Node i ss (cs[j := x])) fs)" "entrySize w = es"
    and T: "T \<inter> insert 0 (set (ids (plug (Node i ss (cs[j := x])) fs))) \<subseteq> {i}"
    and f: "frames_ok fs" "ctx_filled m fs" "\<forall>c \<in> set (siblings cs j). half m c" "fs \<noteq> [] \<longrightarrow> m \<le> length (insert_nth j sep ss)" "half m x"
    and c: "contents x = contents l @ contents r" and j: "j < length cs" and fin: "finishes K m es fs"
  shows "\<exists>w'. finishInternalMerge c (rev (map fst fs) @ [i]) w = (Ok (), w') \<and>
    repaired K m (Suc g + length fs) (plug (Node i (insert_nth j sep ss) (twoAt j l r cs)) fs) w w'"
proof -
  let ?t = "plug (Node i ss (cs[j := x])) fs"
  have "shortened K m es (Suc g + length fs) c i ss (cs[j := x]) fs w"
    unfolding shortened_def using s N t T f
    by (intro exI [of _ T] exI [of _ V] exI [of _ H] exI [of _ N] exI [of _ X] exI [of _ p]) (simp add: set_update_siblings [OF j])
  then obtain w' where w': "finishInternalMerge c (rev (map fst fs) @ [i]) w = (Ok (), w')" "repaired K m (Suc g + length fs) ?t w w'"
    using fin unfolding finishes_def by blast
  have "contents ?t = contents (plug (Node i (insert_nth j sep ss) (twoAt j l r cs)) fs)"
    using j c by (simp add: plug_contents [OF f(1)] concat_twoAt upd_conv_take_nth_drop)
  with w' show ?thesis unfolding repaired_def by auto
qed

context node_sizes
begin

lemma least_pos: "0 < least"
  using two_least by simp

lemma lendLeft_repaired:
  assumes pd: "paired K least es 0 (b, Leaf l xs) (a, Leaf r ys) c i SS CS j fs w" and size: "least < length xs \<and> least = Suc (length ys)"
  shows "\<exists>w'. redistributeLeafFromLeft a b c w = (Ok (), w') \<and> repaired K least (Suc (length fs)) (plug (Node i SS CS) fs) w w'"
  using pd
proof (rule pairedE)
  fix T V H N X q p pp sep ss cs
  assume s: "st T V H N X w" and H: "H b = Some q" "H a = Some p" "H c = Some pp"
    and V: "V (tid (Leaf l xs)) = Some q" "V (tid (Leaf r ys)) = Some p" "V i = Some pp"
    and ID: "ID q = tid (Leaf l xs)" "ID p = tid (Leaf r ys)" "ID pp = i" and N: "valid_id N"
    and S: "SS = insert_nth j sep ss" "CS = twoAt j (Leaf l xs) (Leaf r ys) cs" and len: "length cs = Suc (length ss)" "j < length cs"
    and t: "tree_in K (Suc 0 + length fs) (plug (Node i SS CS) fs) V N" "rootID w = tid (plug (Node i SS CS) fs)"
    and T: "T \<inter> insert 0 (set (ids (plug (Node i SS CS) fs))) \<subseteq> {tid (Leaf l xs), tid (Leaf r ys)}"
    and f: "frames_ok fs" "ctx_filled least fs" "\<forall>x \<in> set (siblings cs j). half least x" "fs \<noteq> [] \<longrightarrow> least \<le> length SS"
  note t1 = t(1) [unfolded S, simplified] and T1 = T [unfolded S, simplified]
  have sz: "least < length xs" "length ys < least" using size by simp_all
  from lendLeft_spec [OF s H(2,1,3) V(2,1,3) [simplified] ID(2,1,3) [simplified] N t1 f(1) len sz]
  obtain w' V' H' s' xs' ys' where w': "redistributeLeafFromLeft a b c w = (Ok (), w')" "st (T - {r, l, i}) V' H' N X w'"
      "tree_in K (Suc (length fs)) (plug (Node i (insert_nth j s' ss) (twoAt j (Leaf l xs') (Leaf r ys') cs)) fs) V' N"
      "xs' @ ys' = xs @ ys" "min (length xs) (length ys) < min (length xs') (length ys')"
    by (elim exE conjE) (rule that)
  have "repaired K least (Suc 0 + length fs) (plug (Node i (insert_nth j sep ss) (twoAt j (Leaf l xs) (Leaf r ys) cs)) fs) w w'"
    by (rule lend_repaired [OF w'(2) _ _ _ _ _ _ least_pos s _ f(1-3) _ len(2)])
      (use w'(3-5) T1 size t(2) f(4) S in auto)
  with w'(1) S show ?thesis by auto
qed

lemma lendRight_repaired:
  assumes pd: "paired K least es 0 (a, Leaf l xs) (b, Leaf r ys) c i SS CS j fs w" and size: "least < length ys \<and> least = Suc (length xs)"
  shows "\<exists>w'. redistributeLeafFromRight a b c w = (Ok (), w') \<and> repaired K least (Suc (length fs)) (plug (Node i SS CS) fs) w w'"
  using pd
proof (rule pairedE)
  fix T V H N X q p pp sep ss cs
  assume s: "st T V H N X w" and H: "H a = Some q" "H b = Some p" "H c = Some pp"
    and V: "V (tid (Leaf l xs)) = Some q" "V (tid (Leaf r ys)) = Some p" "V i = Some pp"
    and ID: "ID q = tid (Leaf l xs)" "ID p = tid (Leaf r ys)" "ID pp = i" and N: "valid_id N"
    and S: "SS = insert_nth j sep ss" "CS = twoAt j (Leaf l xs) (Leaf r ys) cs" and len: "length cs = Suc (length ss)" "j < length cs"
    and t: "tree_in K (Suc 0 + length fs) (plug (Node i SS CS) fs) V N" "rootID w = tid (plug (Node i SS CS) fs)"
    and T: "T \<inter> insert 0 (set (ids (plug (Node i SS CS) fs))) \<subseteq> {tid (Leaf l xs), tid (Leaf r ys)}"
    and f: "frames_ok fs" "ctx_filled least fs" "\<forall>x \<in> set (siblings cs j). half least x" "fs \<noteq> [] \<longrightarrow> least \<le> length SS"
  note t1 = t(1) [unfolded S, simplified] and T1 = T [unfolded S, simplified]
  have sz: "length xs < least" "least < length ys" using size by simp_all
  from lendRight_spec [OF s H V [simplified] ID [simplified] N t1 f(1) len sz]
  obtain w' V' H' s' xs' ys' where w': "redistributeLeafFromRight a b c w = (Ok (), w')" "st (T - {r, l, i}) V' H' N X w'"
      "tree_in K (Suc (length fs)) (plug (Node i (insert_nth j s' ss) (twoAt j (Leaf l xs') (Leaf r ys') cs)) fs) V' N"
      "xs' @ ys' = xs @ ys" "min (length xs) (length ys) < min (length xs') (length ys')"
    by (elim exE conjE) (rule that)
  have "repaired K least (Suc 0 + length fs) (plug (Node i (insert_nth j sep ss) (twoAt j (Leaf l xs) (Leaf r ys) cs)) fs) w w'"
    by (rule lend_repaired [OF w'(2) _ _ _ _ _ _ least_pos s _ f(1-3) _ len(2)])
      (use w'(3-5) T1 size t(2) f(4) S in auto)
  with w'(1) S show ?thesis by auto
qed

text \<open>Two neighbouring leaves become one.\<close>

lemma merge_repaired:
  assumes pd: "paired K least es 0 (b, Leaf l xs) (a, Leaf r ys) c i SS CS j fs w"
    and size: "length xs + length ys < 2 * least" "least \<le> length xs + length ys" and fin: "finishes K least es fs"
  shows "\<exists>w'. mergeLeaves b a c (rev (map fst fs) @ [i]) w = (Ok (), w') \<and> repaired K least (Suc (length fs)) (plug (Node i SS CS) fs) w w'"
  using pd
proof (rule pairedE)
  fix T V H N X q p pp sep ss cs
  assume s: "st T V H N X w" and H: "H b = Some q" "H a = Some p" "H c = Some pp"
    and V: "V (tid (Leaf l xs)) = Some q" "V (tid (Leaf r ys)) = Some p" "V i = Some pp"
    and ID: "ID q = tid (Leaf l xs)" "ID p = tid (Leaf r ys)" "ID pp = i" and N: "valid_id N"
    and S: "SS = insert_nth j sep ss" "CS = twoAt j (Leaf l xs) (Leaf r ys) cs" and len: "length cs = Suc (length ss)" "j < length cs"
    and t: "tree_in K (Suc 0 + length fs) (plug (Node i SS CS) fs) V N" "rootID w = tid (plug (Node i SS CS) fs)" "entrySize w = es"
    and T: "T \<inter> insert 0 (set (ids (plug (Node i SS CS) fs))) \<subseteq> {tid (Leaf l xs), tid (Leaf r ys)}"
    and f: "frames_ok fs" "ctx_filled least fs" "\<forall>x \<in> set (siblings cs j). half least x" "fs \<noteq> [] \<longrightarrow> least \<le> length SS"
  let ?x = "Leaf l (xs @ ys)"
  let ?t' = "plug (Node i ss (cs[j := ?x])) fs"
  note t1 = t(1) [unfolded S, simplified] and T1 = T [unfolded S, simplified]
  have room: "(length xs + length ys) * (K + 12) \<le> 4075"
    using room_two [of "length xs + length ys - least" least] size by auto
  from mergeLeaves_spec [OF s H V [simplified] ID [simplified] N t1 f(1) len room T1, of "rev (map fst fs) @ [i]"]
  obtain w1 V1 H1 p0 X1 where m: "mergeLeaves b a c (rev (map fst fs) @ [i]) w = finishInternalMerge c (rev (map fst fs) @ [i]) w1"
      "st (insert i (insert r T) - {l}) V1 H1 N X1 w1" "H1 c = Some p0" "V1 i = Some p0" "ID p0 = i" "tree_in K (Suc (length fs)) ?t' V1 N"
      "rootID w1 = rootID w" "unique w1 = unique w" "entrySize w1 = entrySize w"
    by (elim exE conjE) (rule that)
  have dead: "(insert i (insert r T) - {l}) \<inter> insert 0 (set (ids ?t')) \<subseteq> {i}"
    using joined_ids(1-5) [OF t1 f(1) len(2)] joined_ids(6) [OF t1 f(1) len(2), of ?x ss] T1 by auto
  have "\<exists>w'. finishInternalMerge c (rev (map fst fs) @ [i]) w1 = (Ok (), w') \<and>
      repaired K least (Suc 0 + length fs) (plug (Node i (insert_nth j sep ss) (twoAt j (Leaf l xs) (Leaf r ys) cs)) fs) w1 w'"
    by (rule merged_repaired [OF m(2-5) N _ _ _ dead f(1-3) _ _ _ len(2) fin]) (use m(6,7,9) t(2,3) f(4) S size(2) in \<open>auto simp: tid_plug_last\<close>)
  then obtain w' where "finishInternalMerge c (rev (map fst fs) @ [i]) w1 = (Ok (), w')" "repaired K least (Suc (length fs)) (plug (Node i SS CS) fs) w1 w'"
    using S by auto
  then show ?thesis using m(1,8,9) st_next [OF m(2)] st_next [OF s] unfolding repaired_def by auto
qed

text \<open>A leaf beside the leaf \<open>u\<close>, whose page is changed and not yet written.\<close>

lemma beside_leaf:
  assumes s: "st {u} V H N X w" and t: "tree_in K (Suc (length fs)) (plug (Node i SS CS) fs) V N" and fo: "frames_ok fs"
    and J: "J < length CS" "CS ! J = Leaf u kvs" and f: "\<forall>c \<in> set (siblings CS J). half least c"
    and m: "m < length CS" "m \<noteq> J" and b: "neighbour V H (tid (CS ! m)) (Some b)"
  shows "\<exists>v xs q. CS ! m = Leaf v xs \<and> H b = Some q \<and> V v = Some q \<and> ID q = v \<and> least \<le> length xs \<and>
    lends H (Some b) = (least < length xs)"
proof -
  note x = tree_in_plug [OF t fo]
  have bal: "balanced (Node i SS CS) (Suc 0)" using x(9) [of "Suc 0"] by simp
  obtain v xs where l: "CS ! m = Leaf v xs" using leaf_child [OF bal m(1)] by blast
  obtain q where q: "H b = Some q" "V v = Some q" using b l by (auto simp: neighbour_def)
  have "leaf_page K q xs" using x(1) q(2) l nth_mem [OF m(1)] by auto
  moreover have "v \<noteq> u" using child_pages(4) [OF t fo m(1) J(1) m(2)] J(2) l by simp
  then have "ID q = v" using st_image [OF s _ q(2)] by auto
  moreover have "least \<le> length xs" using f nth_siblings [OF m] l by auto
  ultimately show ?thesis using l q leaf_page_numEntries by (auto simp: lends_def)
qed

text \<open>
  The leaf \<open>u\<close> has just lost a row, its page changed and not yet written. Its neighbours in the chain are children
  of the same node, or there is none. What \<^verbatim>\<open>fixLeafUnderflow\<close> then chooses from.
\<close>

lemma fixLeaf_choices:
  assumes s: "st {u} V H N X w" "valid_id N" and a: "H a = Some p" "V u = Some p" "ID p = u"
    and t: "tree_in K (Suc (length fs)) (plug (Node i SS CS) fs) V N" "rootID w = tid (plug (Node i SS CS) fs)" "entrySize w = es"
    and J: "J < length CS" "CS ! J = Leaf u kvs"
    and f: "frames_ok fs" "ctx_filled least fs" "\<forall>c \<in> set (siblings CS J). half least c" "fs \<noteq> [] \<longrightarrow> least \<le> length SS" "SS \<noteq> []"
    and edge: "0 < J \<or> lefts leafIDs fs = []" "J < length SS \<or> rights leafIDs fs = []"
  obtains c l r L R w1 where "fixLeafUnderflow a (rev (map fst fs) @ [i]) w =
      (if L then redistributeLeafFromLeft a (the l) c
       else if R then redistributeLeafFromRight a (the r) c
       else (case l of Some l \<Rightarrow> mergeLeafWithLeft a l c (rev (map fst fs) @ [i]) | None \<Rightarrow> mergeLeafWithRight a r c (rev (map fst fs) @ [i]))) w1"
    "store.more w1 = store.more w" "nextPageID (pm w1) = nextPageID (pm w)" "L \<Longrightarrow> l \<noteq> None" "R \<Longrightarrow> r \<noteq> None" "l = None \<Longrightarrow> r \<noteq> None"
    "\<And>b. l = Some b \<Longrightarrow> \<exists>v xs. paired K least es 0 (b, Leaf v xs) (a, Leaf u kvs) c i SS CS (J - 1) fs w1 \<and> least \<le> length xs \<and> L = (least < length xs)"
    "\<And>b. r = Some b \<Longrightarrow> \<exists>v ys. paired K least es 0 (a, Leaf u kvs) (b, Leaf v ys) c i SS CS J fs w1 \<and> least \<le> length ys \<and> R = (least < length ys)"
proof -
  note x = tree_in_plug [OF t(1) f(1)]
  have len: "length CS = Suc (length SS)" using x(9) [of "Suc 0"] by simp
  obtain pp where pp: "V i = Some pp" using x(1) by auto
  have T: "{u} \<inter> insert 0 (set (ids (plug (Node i SS CS) fs))) \<subseteq> {tid (CS ! J)}" using J(2) by simp
  note near = near_children [OF t(1) f(1) J(1) T]
  have ID: "ID pp = i" using st_image [OF s(1) near(1) pp] by simp
  have sib: "PrevLeafPageID p = leftSib CS J" "NextLeafPageID p = rightSib CS J"
    using leaf_neighbours [OF t(1) f(1) J a(2)] edge J(1) len by (auto simp: leftSib_def rightSib_def)
  obtain c l r H1 w1 where w1: "st {u} V H1 N X w1" "H \<subseteq>\<^sub>m H1" "H1 c = Some pp"
      "neighbour V H1 (leftSib CS J) l" "neighbour V H1 (rightSib CS J) r"
      "fixLeafUnderflow a (rev (map fst fs) @ [i]) w =
      (if lends H1 l then redistributeLeafFromLeft a (the l) c
       else if lends H1 r then redistributeLeafFromRight a (the r) c
       else (case l of Some l \<Rightarrow> mergeLeafWithLeft a l c (rev (map fst fs) @ [i]) | None \<Rightarrow> mergeLeafWithRight a r c (rev (map fst fs) @ [i]))) w1"
    using fixLeaf_reads [OF s(1) a(1) pp near(1) t(3), unfolded sib, OF near(3), of "rev (map fst fs)"] by (elim exE conjE) (rule that)
  have same: "store.more w1 = store.more w" "nextPageID (pm w1) = nextPageID (pm w)"
    using st_more [OF w1(1)] st_more [OF s(1)] st_next [OF w1(1)] st_next [OF s(1)] by simp_all
  note beside = beside_leaf [OF w1(1) t(1) f(1) J f(3)]
  have t1: "tree_in K (Suc 0 + length fs) (plug (Node i SS CS) fs) V N" "rootID w1 = tid (plug (Node i SS CS) fs)" "entrySize w1 = es"
    and a1: "V (tid (CS ! J)) = Some p" "ID p = tid (CS ! J)" using t more_fields [OF same(1)] a(2,3) J(2) by simp_all
  note pairs = paired_neighbours [OF w1(1) s(2) map_le_Some [OF w1(2) a(1)] a1 w1(3) pp ID t1 T J(1) len f(1-4)]
  have left: "\<exists>v xs. paired K least es 0 (b, Leaf v xs) (a, Leaf u kvs) c i SS CS (J - 1) fs w1 \<and> least \<le> length xs \<and> lends H1 l = (least < length xs)"
    if l: "l = Some b" for b using pairs(1) [of b] w1(4) l beside [of "J - 1" b] J by fastforce
  have right: "\<exists>v ys. paired K least es 0 (a, Leaf u kvs) (b, Leaf v ys) c i SS CS J fs w1 \<and> least \<le> length ys \<and> lends H1 r = (least < length ys)"
    if r: "r = Some b" for b using pairs(2) [of b] w1(5) r beside [of "Suc J" b] J by fastforce
  have "r \<noteq> None" if "l = None" using has_neighbour [OF t(1) f(1) J(1) len f(5)] w1(4,5) that by blast
  moreover have "l \<noteq> None" if "lends H1 l" using that by (auto simp: lends_def)
  moreover have "r \<noteq> None" if "lends H1 r" using that by (auto simp: lends_def)
  ultimately show thesis using that [OF w1(6) same _ _ _ left right] by blast
qed

lemma fixLeaf_spec:
  assumes s: "st {u} V H N X w" "valid_id N" and a: "H a = Some p" "V u = Some p" "ID p = u"
    and t: "tree_in K (Suc (length fs)) (plug (Node i SS CS) fs) V N" "rootID w = tid (plug (Node i SS CS) fs)" "entrySize w = es"
    and J: "J < length CS" "CS ! J = Leaf u kvs" and kvs: "least = Suc (length kvs)"
    and f: "frames_ok fs" "ctx_filled least fs" "\<forall>c \<in> set (siblings CS J). half least c" "fs \<noteq> [] \<longrightarrow> least \<le> length SS" "SS \<noteq> []"
    and edge: "0 < J \<or> lefts leafIDs fs = []" "J < length SS \<or> rights leafIDs fs = []" and fin: "finishes K least es fs"
  shows "\<exists>w'. fixLeafUnderflow a (rev (map fst fs) @ [i]) w = (Ok (), w') \<and> repaired K least (Suc (length fs)) (plug (Node i SS CS) fs) w w'"
proof -
  let ?t = "plug (Node i SS CS) fs" and ?h = "Suc (length fs)" and ?anc = "rev (map fst fs) @ [i]"
  obtain c l r L R w1 where ch: "fixLeafUnderflow a ?anc w =
      (if L then redistributeLeafFromLeft a (the l) c
       else if R then redistributeLeafFromRight a (the r) c
       else (case l of Some l \<Rightarrow> mergeLeafWithLeft a l c ?anc | None \<Rightarrow> mergeLeafWithRight a r c ?anc)) w1"
    "store.more w1 = store.more w" "nextPageID (pm w1) = nextPageID (pm w)" "L \<Longrightarrow> l \<noteq> None" "R \<Longrightarrow> r \<noteq> None" "l = None \<Longrightarrow> r \<noteq> None"
    and left: "\<And>b. l = Some b \<Longrightarrow> \<exists>v xs. paired K least es 0 (b, Leaf v xs) (a, Leaf u kvs) c i SS CS (J - 1) fs w1 \<and> least \<le> length xs \<and> L = (least < length xs)"
    and right: "\<And>b. r = Some b \<Longrightarrow> \<exists>v ys. paired K least es 0 (a, Leaf u kvs) (b, Leaf v ys) c i SS CS J fs w1 \<and> least \<le> length ys \<and> R = (least < length ys)"
    by (rule fixLeaf_choices [OF s a t J f edge]) (rule that)
  have since: "repaired K least ?h ?t w w'" if "repaired K least ?h ?t w1 w'" for w'
    using that ch(3) more_fields [OF ch(2)] unfolding repaired_def by simp
  consider (lendL) b where "L" "l = Some b" | (lendR) b where "\<not> L" "R" "r = Some b" | (mergeL) b where "\<not> L" "\<not> R" "l = Some b"
    | (mergeR) b where "\<not> L" "\<not> R" "l = None" "r = Some b"
    using ch(4-6) by (cases L; cases R; cases l; cases r) auto
  then have "\<exists>w'. fixLeafUnderflow a ?anc w = (Ok (), w') \<and> repaired K least ?h ?t w1 w'"
  proof cases
    case lendL
    then show ?thesis using left [of b] lendLeft_repaired [OF _ conjI [OF _ kvs]] ch(1) by auto
  next
    case lendR
    then show ?thesis using right [of b] lendRight_repaired [OF _ conjI [OF _ kvs]] ch(1) by auto
  next
    case mergeL
    then obtain v xs where "paired K least es 0 (b, Leaf v xs) (a, Leaf u kvs) c i SS CS (J - 1) fs w1" "length xs = least" using left [of b] by auto
    from merge_repaired [OF this(1) _ _ fin] this(2) mergeL kvs ch(1) show ?thesis by (simp add: merge_either)
  next
    case mergeR
    then obtain v ys where "paired K least es 0 (a, Leaf u kvs) (b, Leaf v ys) c i SS CS J fs w1" "length ys = least" using right [of b] by auto
    from merge_repaired [OF this(1) _ _ fin] this(2) mergeR kvs ch(1) show ?thesis by (simp add: merge_either)
  qed
  with since show ?thesis by blast
qed

end

end
