(* ===== verification/Inner_Shape.thy ===== *)
theory Inner_Shape
  imports Leaf_Underflow
begin

text \<open>
  Two neighbouring internal nodes and the separator between them: taken together they are the node that
  \<^verbatim>\<open>mergeInternal\<close> makes of them, and cut elsewhere they are the two nodes a redistribution leaves.
\<close>

section \<open>One node out of two\<close>

lemma siblings_update [simp]: "siblings (cs[j := x]) j = siblings cs j" for cs :: "('k, 'v) gtree list"
  by (simp add: siblings_def)

lemma plug_height:
  "frames_ok fs \<Longrightarrow> balanced (plug x fs) h \<Longrightarrow> length fs \<le> h \<and> balanced x (h - length fs)"
proof (induction x fs rule: plug.induct)
  case (2 x i ss cs j fs)
  then have "length fs \<le> h" "balanced (Node i ss (cs[j := x])) (h - length fs)" by simp_all
  moreover have "x \<in> set (cs[j := x])" using 2 by (simp add: set_update_memI)
  ultimately show ?case by auto
qed simp

lemma half_keys: "0 < m \<Longrightarrow> half m t \<Longrightarrow> allkeys t \<noteq> {}"
  by (cases t) auto

lemma join_ordered:
  fixes s :: "'k::linorder"
  assumes l: "ordered (Node a ss cs)" and r: "ordered (Node b us ds)"
    and s: "\<forall>k \<in> allkeys (Node a ss cs). k < s" "\<forall>k \<in> allkeys (Node b us ds). s \<le> k" "allkeys (ds ! 0) \<noteq> {}"
  shows "ordered (Node c (ss @ s # us) (cs @ ds))"
proof -
  have len: "length cs = Suc (length ss)" "length ds = Suc (length us)" using l r by simp_all
  obtain k where k: "k \<in> allkeys (ds ! 0)" using s(3) by blast
  have "ds ! 0 \<in> set ds" using len by simp
  then have "s \<le> k" using s(2) k by auto
  have "s < u" if u: "u \<in> set us" for u
  proof -
    obtain n where n: "n < length us" "u = us ! n" using u by (metis in_set_conv_nth)
    then have "k < u" using ordered_below [OF r _ _ k, of n] by simp
    with \<open>s \<le> k\<close> show ?thesis by simp
  qed
  moreover have "\<forall>x \<in> set ss. x < s" using s(1) by auto
  ultimately have "sorted_wrt (<) (ss @ s # us)" using l r by (fastforce simp: sorted_wrt_append)
  moreover have "(\<forall>k \<in> allkeys ((cs @ ds) ! j). k < (ss @ s # us) ! j) \<and> (\<forall>k \<in> allkeys ((cs @ ds) ! Suc j). (ss @ s # us) ! j \<le> k)"
    if j: "j < length (ss @ s # us)" for j
  proof -
    consider "j < length ss" | "j = length ss" | "length ss < j" by linarith
    then show ?thesis
    proof cases
      case 1
      then show ?thesis using l len by (auto simp: nth_append)
    next
      case 2
      have "cs ! length ss \<in> set cs" "ds ! 0 \<in> set ds" using len by simp_all
      then show ?thesis using 2 s(1,2) len by (auto simp: nth_append)
    next
      case 3
      then obtain n where n: "j = Suc (length ss) + n" by (metis Suc_leI le_iff_add)
      then have "n < length us" using j by simp
      then show ?thesis using r n len by (auto simp: nth_append)
    qed
  qed
  ultimately show ?thesis using l r len by auto
qed

section \<open>Cutting it elsewhere\<close>

lemma split_in_joined:
  assumes s: "split_in K g fs (Node l ss cs) s (Node r us ds) V N" and h: "\<forall>d \<in> set ds. half m d" "0 < m"
  shows "ordered (Node i (ss @ s # us) (cs @ ds))" "within fs (allkeys (Node i (ss @ s # us) (cs @ ds)))" "ctx_ordered fs"
proof -
  have rd: "split_ready fs (Node l ss cs) s (Node r us ds)" using s by (simp add: split_in_def)
  then have "length ds = Suc (length us)" by (simp add: split_ready_def)
  then have "allkeys (ds ! 0) \<noteq> {}" using h half_keys [of m "ds ! 0"] by simp
  then show "ordered (Node i (ss @ s # us) (cs @ ds))"
    using rd unfolding split_ready_def by (intro join_ordered [of l _ _ r]) blast+
  have "allkeys (Node i (ss @ s # us) (cs @ ds)) = insert s (allkeys (Node l ss cs) \<union> allkeys (Node r us ds))" by auto
  then show "within fs (allkeys (Node i (ss @ s # us) (cs @ ds)))" using rd unfolding split_ready_def by metis
  show "ctx_ordered fs" using rd by (simp add: split_ready_def)
qed

text \<open>Only the pages of the two nodes are changed: everything below and around them is represented as before.\<close>

lemma inner_update:
  assumes s: "split_in K g fs (Node l ss cs) s (Node r us ds) V N" and V': "\<And>v. v \<noteq> l \<Longrightarrow> v \<noteq> r \<Longrightarrow> V' v = V v"
  shows "l \<noteq> r" "\<And>v. v \<in> set (ctx_ids fs) \<Longrightarrow> V' v = V v" "\<And>c. c \<in> set cs \<union> set ds \<Longrightarrow> rep K V' c"
    "chain V' 0 (lefts leafIDs fs @ leafIDs (Node l ss cs) @ leafIDs (Node r us ds) @ rights leafIDs fs) 0"
proof -
  have d: "l \<noteq> r" "{l, r} \<inter> (\<Union>c \<in> set cs \<union> set ds. set (ids c)) = {}" "{l, r} \<inter> set (ctx_ids fs) = {}"
    using s by (auto simp: split_in_def ids_Node_distinct)
  show "l \<noteq> r" by (rule d(1))
  show "V' v = V v" if "v \<in> set (ctx_ids fs)" for v using d(3) that by (intro V') auto
  have R: "rep K V (Node l ss cs)" "rep K V (Node r us ds)" using s unfolding split_in_def by blast+
  show "rep K V' c" if c: "c \<in> set cs \<union> set ds" for c
  proof (rule rep_agree)
    show "rep K V c" using c R by auto
    have "l \<notin> set (ids c)" "r \<notin> set (ids c)" using c d(2) by blast+
    then show "V' x = V x" if "x \<in> set (ids c)" for x using that by (intro V') auto
  qed
  let ?L = "lefts leafIDs fs @ leafIDs (Node l ss cs) @ leafIDs (Node r us ds) @ rights leafIDs fs"
  have "set ?L \<subseteq> (\<Union>c \<in> set cs \<union> set ds. set (ids c)) \<union> set (ctx_ids fs)" using ctx_leafIDs [of fs] leafIDs_ids by fastforce
  then have "l \<notin> set ?L" "r \<notin> set ?L" using d(2,3) by blast+
  then have "V' v = V v" if "v \<in> set ?L" for v using that by (metis V')
  moreover have "chain V 0 ?L 0" using s unfolding split_in_def by blast
  ultimately show "chain V' 0 ?L 0" using chain_cong [of ?L V' V 0 0] by blast
qed

lemma reshare_nodes:
  assumes s: "split_in K g fs (Node l ss cs) s (Node r us ds) V N" and h: "\<forall>d \<in> set ds. half m d" "0 < m"
    and c: "ss' @ s' # us' = ss @ s # us" "cs' @ ds' = cs @ ds" "length cs' = Suc (length ss')" "ss' \<noteq> []"
    and q: "node_page K q ss' (map tid cs')" "node_page K p us' (map tid ds')" and K: "length s' = K"
  shows "split_in K g fs (Node l ss' cs') s' (Node r us' ds') (V(l \<mapsto> q, r \<mapsto> p)) N"
proof (rule split_in_reshare [OF s])
  let ?V = "V(l \<mapsto> q, r \<mapsto> p)"
  have lr: "length cs = Suc (length ss)" "length ds = Suc (length us)" and B: "0 < g" "\<forall>c \<in> set cs \<union> set ds. balanced c (g - 1)"
    using s by (auto simp: split_in_def)
  then have len: "length ds' = Suc (length us')" using arg_cong [OF c(1), of length] arg_cong [OF c(2), of length] c(3) by simp
  note j = split_in_joined(1,2) [OF s h, of l, folded c(1,2)] split_in_joined(3) [OF s h]
  have "0 < length ss'" "length ss' < length (ss' @ s' # us')" using c(4) by auto
  note rd = halves_ready [OF j this, where n = r]
  have eq: "take (length ss') (ss' @ s' # us') = ss'" "drop (Suc (length ss')) (ss' @ s' # us') = us'" "(ss' @ s' # us') ! length ss' = s'"
    "take (Suc (length ss')) (cs' @ ds') = cs'" "drop (Suc (length ss')) (cs' @ ds') = ds'" using c(3) by simp_all
  note rd = rd [unfolded eq]
  show "ordered (Node l ss' cs')" "ordered (Node r us' ds')" "\<forall>k \<in> allkeys (Node l ss' cs'). k < s'" "\<forall>k \<in> allkeys (Node r us' ds'). s' \<le> k"
    using rd unfolding split_ready_def by blast+
  show "allkeys (Node l ss' cs') \<noteq> {}" using c(4) by (cases ss') auto
  show "length s' = K" by (rule K)
  have S: "set ss' \<union> insert s' (set us') = set ss \<union> insert s (set us)" using arg_cong [OF c(1), of set] by simp
  have C: "set cs' \<union> set ds' = set cs \<union> set ds" using arg_cong [OF c(2), of set] by simp
  have "insert s' (allkeys (Node l ss' cs') \<union> allkeys (Node r us' ds')) = (set ss' \<union> insert s' (set us')) \<union> (\<Union>c \<in> set cs' \<union> set ds'. allkeys c)" by auto
  also have "\<dots> = insert s (allkeys (Node l ss cs) \<union> allkeys (Node r us ds))" unfolding S C by auto
  finally show "insert s' (allkeys (Node l ss' cs') \<union> allkeys (Node r us' ds')) \<subseteq> insert s (allkeys (Node l ss cs) \<union> allkeys (Node r us ds))" by simp
  show "balanced (Node l ss' cs') g" "balanced (Node r us' ds') g" using B C c(3) len by auto
  have cat: "concat (map f cs') @ concat (map f ds') = concat (map f cs) @ concat (map f ds)" for f :: "btree \<Rightarrow> PageID list"
    using arg_cong [OF c(2), of "\<lambda>xs. concat (map f xs)"] by simp
  show "mset (ids (Node l ss' cs') @ ids (Node r us' ds')) = mset (ids (Node l ss cs) @ ids (Node r us ds))"
    using arg_cong [OF cat [of ids], of mset] by (simp only: mset_append mset_ids_Node) simp
  show "leafIDs (Node l ss' cs') @ leafIDs (Node r us' ds') = leafIDs (Node l ss cs) @ leafIDs (Node r us ds)" using cat [of leafIDs] by simp
  have V: "?V v = V v" if "v \<noteq> l" "v \<noteq> r" for v using that by simp
  note u = inner_update [OF s V]
  show "?V v = V v" if "v \<in> set (ctx_ids fs)" for v by (rule u(2)) (use that in simp_all)
  have "rep K ?V c" if "c \<in> set cs' \<union> set ds'" for c by (rule u(3)) (use that C in auto)
  then show "rep K ?V (Node l ss' cs')" "rep K ?V (Node r us' ds')" using q u(1) by simp_all
  show "chain ?V 0 (lefts leafIDs fs @ leafIDs (Node l ss cs) @ leafIDs (Node r us ds) @ rights leafIDs fs) 0" by (rule u(4)) simp_all
qed simp

text \<open>The two nodes become one, in the page of the first.\<close>

lemma join_nodes:
  assumes s: "split_in K g fs (Node l ss cs) s (Node r us ds) V N" and h: "\<forall>d \<in> set ds. half m d" "0 < m"
    and q: "node_page K q (ss @ s # us) (map tid (cs @ ds))" and root: "V 0 = Some mt" "RootPageID mt = tid (plug (Node l ss cs) fs)"
  shows "tree_in K (g + length fs) (plug (Node l (ss @ s # us) (cs @ ds)) fs) (V(l \<mapsto> q)) N"
proof (rule split_in_join [OF s])
  let ?V = "V(l \<mapsto> q)" and ?x = "Node l (ss @ s # us) (cs @ ds)"
  have V: "?V v = V v" if "v \<noteq> l" "v \<noteq> r" for v using that by simp
  note u = inner_update [OF s V]
  have lr: "length cs = Suc (length ss)" "length ds = Suc (length us)" and B: "0 < g" "\<forall>c \<in> set cs \<union> set ds. balanced c (g - 1)"
    and d: "distinct (ids (Node l ss cs) @ ids (Node r us ds))" and nz: "l \<noteq> 0"
    using s by (auto simp: split_in_def)
  show "ordered ?x" by (rule split_in_joined(1) [OF s h])
  show "allkeys ?x \<subseteq> insert s (allkeys (Node l ss cs) \<union> allkeys (Node r us ds))" by auto
  show "balanced ?x g" using B lr by auto
  show "set (ids ?x) \<subseteq> set (ids (Node l ss cs) @ ids (Node r us ds))" by auto
  show "distinct (ids ?x)" using d by (auto simp: ids_Node_distinct)
  have "rep K ?V c" if "c \<in> set cs \<union> set ds" for c by (rule u(3)) (use that in simp_all)
  then show "rep K ?V ?x" using q by auto
  show "same_leaf (V v) (?V v)" if "v \<in> set (ctx_ids fs)" for v
  proof -
    have "?V v = V v" by (rule u(2)) (use that in simp_all)
    then show ?thesis by simp
  qed
  have "chain ?V 0 (lefts leafIDs fs @ leafIDs (Node l ss cs) @ leafIDs (Node r us ds) @ rights leafIDs fs) 0" by (rule u(4)) simp_all
  then show "chain ?V 0 (lefts leafIDs fs @ leafIDs ?x @ rights leafIDs fs) 0" by simp
  show "?V 0 = Some mt" using root(1) nz by simp
qed (use root(2) in simp_all)

end
