(* ===== verification/Inner_Repair.thy ===== *)
theory Inner_Repair
  imports Inner_Shape
begin

text \<open>
  The repair of an underfull internal node, level by level up to the root: \<^verbatim>\<open>findSiblingPageIDs\<close> finds its neighbours
  under the same parent, one of them lends a child through the separator between them or the two nodes are
  merged around it, and \<^verbatim>\<open>finishInternalMerge\<close> goes on with the parent.
\<close>

section \<open>The neighbours of a node\<close>

lemma node_entries:
  assumes "node_page K p SS vs" "n < length SS"
  shows "entryChild p (word_of_nat n) (int K) = Ok (vs ! Suc n)" "entryPrefix p (word_of_nat n) (int K) = Ok (SS ! n)"
proof -
  note p = node_page_parts [OF assms(1)]
  have n: "n < numEntries p" using node_page_length [OF assms(1)] assms(2) by simp
  show "entryChild p (word_of_nat n) (int K) = Ok (vs ! Suc n)" using entryChild_spec [OF p(1,2) n] n by (simp add: p(5))
  have "node_ok K p" "keys K p = SS" using assms(1) by (simp_all add: node_page_def)
  then show "entryPrefix p (word_of_nat n) (int K) = Ok (SS ! n)" using entryPrefix_key n by blast
qed

lemma node_page_key: "node_page K p SS vs \<Longrightarrow> s \<in> set SS \<Longrightarrow> length s = K"
  by (auto simp: node_page_def node_ok_def keys_def uniform_def)

lemma findSiblingPageIDs_spec:
  assumes n: "node_page K p SS (map tid CS)" "distinct (map tid CS)" and J: "J < length CS" "ID q = tid (CS ! J)" and ne: "SS \<noteq> []"
  shows "findSiblingPageIDs p q = Ok (leftSib CS J, rightSib CS J)"
proof -
  have len: "numEntries p = length SS" "length CS = Suc (length SS)" using node_page_length [OF n(1)] by simp_all
  have kl: "entryKeyLen p = Ok (int K)" using node_page_parts(1,2) [OF n(1)] len(1) ne by (intro entryKeyLen_spec) auto
  note e = node_entries(1) [OF n(1)]
  show ?thesis
  proof (cases J)
    case 0
    have "findChildIndex p (ID q) = Ok (NumEntries p, True)" using findChildIndex_spec(1) [OF n] J len 0 by simp
    then show ?thesis using kl e [of 0] 0 ne len by (simp add: findSiblingPageIDs_def leftSib_def rightSib_def)
  next
    case (Suc j)
    then have j: "j < length SS" using J len by simp
    have "map tid CS ! Suc j = ID q" using J Suc by simp
    then have i: "findChildIndex p (ID q) = Ok (word_of_nat j, True)" using findChildIndex_spec(2) [OF n j] by (simp only:)
    have u: "unat (word_of_nat m :: uint16) = m" if "m \<le> length SS" for m using index_word [OF n(1) that] .
    have ne': "word_of_nat j \<noteq> NumEntries p" using u [of j] j len(1) by (metis less_imp_le less_irrefl)
    have L: "(if word_of_nat j = (0 :: uint16) then Ok (LeftmostChildPageID p) else entryChild p (word_of_nat j - 1) (int K)) = Ok (leftSib CS J)"
    proof (cases j)
      case 0
      then show ?thesis using node_page_parts(5) [OF n(1)] Suc len by (cases CS) (auto simp: leftSib_def)
    next
      case (Suc m)
      then have "word_of_nat j \<noteq> (0 :: uint16)" using u [of j] j by auto
      moreover have "(word_of_nat j - 1 :: uint16) = word_of_nat m" using Suc by simp
      ultimately show ?thesis using e [of m] Suc j len \<open>J = Suc j\<close> by (simp add: leftSib_def)
    qed
    have S: "(word_of_nat j + 1 :: uint16) = word_of_nat (Suc j)" by simp
    have R: "(if word_of_nat j + 1 < NumEntries p then entryChild p (word_of_nat j + 1) (int K) else Ok 0) = Ok (rightSib CS J)"
      unfolding S using e [of "Suc j"] u [of "Suc j"] j len Suc by (auto simp: rightSib_def word_less_nat_alt)
    show ?thesis using i kl ne' L R unfolding findSiblingPageIDs_def by (simp only: rbind_simps prod.case Let_def if_False)
  qed
qed

section \<open>Lending\<close>

lemma pair_tids:
  assumes t: "tree_in K h (plug (Node i SS (twoAt j l r cs)) fs) V N" and fo: "frames_ok fs" and j: "j < length cs" and N: "valid_id N"
  shows "distinct [i, tid l, tid r]" "i \<noteq> 0" "tid l \<noteq> 0" "tid r \<noteq> 0" "valid_id i" "valid_id (tid l)" "valid_id (tid r)"
proof -
  note d = joined_ids(1-5) [OF t fo j]
  show "distinct [i, tid l, tid r]" "i \<noteq> 0" "tid r \<noteq> 0" using d by auto
  have "v \<noteq> 0 \<and> valid_id v" if "v \<in> {i, tid l, tid r}" for v
    using tree_in_plug(7) [OF t fo] that tid_in_ids [of l] tid_in_ids [of r] valid_id_less [OF N] by (auto simp: set_twoAt [OF j] less_imp_le)
  then show "tid l \<noteq> 0" "valid_id i" "valid_id (tid l)" "valid_id (tid r)" by auto
qed

text \<open>The pages of two nodes hold the new shares: writing them and the new separator completes the repair.\<close>

lemma inner_lent:
  assumes s: "st T V H N X w" "H a = Some pa" "H b = Some pb" "H c = Some pp" and V: "V i = Some pp" "ID pp = i" and N: "valid_id N"
    and t: "tree_in K (Suc g + length fs) (plug (Node i (insert_nth j sep ss) (twoAt j (Node l us ds) (Node r vs es) cs)) fs) V N"
      "rootID w = tid (plug (Node i (insert_nth j sep ss) (twoAt j (Node l us ds) (Node r vs es) cs)) fs)"
    and T: "T \<inter> insert 0 (set (ids (plug (Node i (insert_nth j sep ss) (twoAt j (Node l us ds) (Node r vs es) cs)) fs))) \<subseteq> {l, r}"
    and f: "frames_ok fs" "ctx_filled m fs" "\<forall>c \<in> set (siblings cs j). half m c" "fs \<noteq> [] \<longrightarrow> m \<le> length (insert_nth j sep ss)"
    and len: "length cs = Suc (length ss)" "j < length cs" and h: "\<forall>d \<in> set ds \<union> set es. half m d" "0 < m"
    and c: "us' @ s' # vs' = us @ sep # vs" "ds' @ es' = ds @ es" "length ds' = Suc (length us')" "m \<le> length us'" "m \<le> length vs'" "length s' = K"
    and q: "node_page K q us' (map tid ds')" "node_page K p vs' (map tid es')" "ID q = l" "ID p = r" "(pa, pb) = (q, p) \<or> (pa, pb) = (p, q)"
    and r: "F pp = replaceEntry (word_of_nat j) (s' @ encodeChildID r) pp"
  shows "\<exists>w'. writeThree a b c F w = (Ok (), w') \<and>
    repaired K m (Suc g + length fs) (plug (Node i (insert_nth j sep ss) (twoAt j (Node l us ds) (Node r vs es) cs)) fs) w w'"
proof -
  let ?l = "Node l us' ds'" and ?r = "Node r vs' es'"
  note d = pair_tids [OF t(1) f(1) len(2) N, simplified]
  obtain p0 where p0: "split_in K g ((i, ss, cs, j) # fs) (Node l us ds) sep (Node r vs es) (V(i \<mapsto> p0)) N"
      "node_page K pp (insert_nth j sep ss) (map tid (twoAt j (Node l us ds) (Node r vs es) cs))"
    using pair_split_in [OF t(1) f(1) len V(1)] by metis
  have "us' \<noteq> []" using c(4) h(2) by auto
  then have sp: "split_in K g ((i, ss, cs, j) # fs) ?l s' ?r (V(i \<mapsto> p0, l \<mapsto> q, r \<mapsto> p)) N"
    by (intro reshare_nodes [OF p0(1) _ h(2) c(1-3) _ q(1,2) c(6)]) (use h(1) in simp_all)
  obtain mt where mt: "V 0 = Some mt" "RootPageID mt = tid (plug ?l ((i, ss, cs, j) # fs))"
    using tree_in_root [OF t(1)] by (metis tid_plug_frame)
  have pp: "node_page K pp (insert_nth j sep ss) (map tid (twoAt j ?l ?r cs))" using p0(2) by (simp add: twoAt_def)
  have upd: "V(i \<mapsto> p0, l \<mapsto> q, r \<mapsto> p) = V(i \<mapsto> p0, r \<mapsto> p, l \<mapsto> q)" using d(1) by (intro fun_upd_twist) auto
  have wf: "wf_page q" "wf_page p" using node_page_parts(1) q(1,2) by blast+
  have "\<exists>w' V' H'. writeThree a b c F w = (Ok (), w') \<and> st (T - {ID pa, ID pb, i}) V' H' N X w' \<and>
      tree_in K (Suc g + length fs) (plug (Node i (insert_nth j s' ss) (twoAt j ?l ?r cs)) fs) V' N"
    using q(5)
  proof
    assume o: "(pa, pb) = (q, p)"
    show ?thesis
      by (rule writeThree_spec [OF s V(2) _ refl refl _ _ _ _ d(5) _ _ _ _ pp _ mt]) (use o q wf d sp r in auto)
  next
    assume o: "(pa, pb) = (p, q)"
    show ?thesis
      by (rule writeThree_spec [OF s V(2) _ refl refl _ _ _ _ d(5) _ _ _ _ pp _ mt]) (use o q wf d sp [unfolded upd] r in auto)
  qed
  moreover have "{ID pa, ID pb, i} = {l, r, i}" using q(3-5) by auto
  ultimately obtain w' V' H' where w': "writeThree a b c F w = (Ok (), w')" "st (T - {l, r, i}) V' H' N X w'"
      "tree_in K (Suc g + length fs) (plug (Node i (insert_nth j s' ss) (twoAt j ?l ?r cs)) fs) V' N"
    by (metis (no_types, lifting))
  have cat: "concat (map f ds') @ concat (map f es') = concat (map f ds) @ concat (map f es)" for f :: "btree \<Rightarrow> 'x list"
    using arg_cong [OF c(2), of "\<lambda>xs. concat (map f xs)"] by simp
  have C: "set ds' \<union> set es' = set ds \<union> set es" using arg_cong [OF c(2), of set] by simp
  have "repaired K m (Suc g + length fs) (plug (Node i (insert_nth j sep ss) (twoAt j (Node l us ds) (Node r vs es) cs)) fs) w w'"
  proof (rule lend_repaired [OF w'(2,3) _ _ _ _ _ h(2) s(1) t(2) f len(2)])
    show "contents ?l @ contents ?r = contents (Node l us ds) @ contents (Node r vs es)" using cat [of contents] by simp
    show "mset (ids ?l @ ids ?r) = mset (ids (Node l us ds) @ ids (Node r vs es))"
      using arg_cong [OF cat [of ids], of mset] by (simp only: mset_append mset_ids_Node) simp
    have "\<forall>d \<in> set ds' \<union> set es'. half m d" unfolding C by (rule h(1))
    then show "half m ?l" "half m ?r" using c(4,5) by simp_all
  qed (use T in auto)
  with w'(1) show ?thesis by blast
qed

text \<open>
  The pages of the three nodes: what the two children and the separator between them hold.
\<close>

lemma inner_pair_pages:
  assumes t: "tree_in K (Suc g + length fs) (plug (Node i (insert_nth j sep ss) (twoAt j (Node l us ds) (Node r vs es) cs)) fs) V N"
    and fo: "frames_ok fs" and len: "length cs = Suc (length ss)" "j < length cs" and N: "valid_id N"
    and V: "V l = Some q" "V r = Some p" "V i = Some pp" and h: "\<forall>d \<in> set es. half m d" "0 < m"
  shows "node_page K q us (map tid ds)" "node_page K p vs (map tid es)" "length sep = K" "sorted_wrt (<) (us @ sep # vs)"
    "findChildIndex pp r = Ok (word_of_nat j, True)" "entryPrefix pp (word_of_nat j) (int K) = Ok sep"
    "length ds = Suc (length us)" "length es = Suc (length vs)"
proof -
  note d = pair_tids [OF t fo len(2) N, simplified]
  obtain p0 where p0: "split_in K g ((i, ss, cs, j) # fs) (Node l us ds) sep (Node r vs es) (V(i \<mapsto> p0)) N"
      "node_page K pp (insert_nth j sep ss) (map tid (twoAt j (Node l us ds) (Node r vs es) cs))" "findChildIndex pp r = Ok (word_of_nat j, True)"
    using pair_split_in [OF t fo len V(3)] by (metis tid.simps(2))
  show "node_page K q us (map tid ds)" "node_page K p vs (map tid es)" "length sep = K" "length ds = Suc (length us)" "length es = Suc (length vs)"
    using p0(1) V(1,2) d(1) by (auto simp: split_in_def)
  show "sorted_wrt (<) (us @ sep # vs)" using split_in_joined(1) [OF p0(1) h, of l] by simp
  show "findChildIndex pp r = Ok (word_of_nat j, True)" by (rule p0(3))
  show "entryPrefix pp (word_of_nat j) (int K) = Ok sep"
    using node_entries(2) [OF p0(2), of j] len by (simp add: nth_insert_nth)
qed

lemma lendInnerLeft_repaired:
  assumes pd: "paired 8 101 ez g (b, Node l us ds) (a, Node r vs es) c i SS CS j fs w"
    and size: "101 < length us" "length vs = 100" and h: "\<forall>d \<in> set ds \<union> set es. half 101 d"
  shows "\<exists>w'. redistributeInternalNodeFromLeft a b c w = (Ok (), w') \<and> repaired 8 101 (Suc g + length fs) (plug (Node i SS CS) fs) w w'"
  using pd
proof (rule pairedE)
  fix T V H N X q p pp sep ss cs
  assume s: "st T V H N X w" and H: "H b = Some q" "H a = Some p" "H c = Some pp"
    and V: "V (tid (Node l us ds)) = Some q" "V (tid (Node r vs es)) = Some p" "V i = Some pp"
    and ID: "ID q = tid (Node l us ds)" "ID p = tid (Node r vs es)" "ID pp = i" and N: "valid_id N"
    and S: "SS = insert_nth j sep ss" "CS = twoAt j (Node l us ds) (Node r vs es) cs" and len: "length cs = Suc (length ss)" "j < length cs"
    and t: "tree_in 8 (Suc g + length fs) (plug (Node i SS CS) fs) V N" "rootID w = tid (plug (Node i SS CS) fs)"
    and T: "T \<inter> insert 0 (set (ids (plug (Node i SS CS) fs))) \<subseteq> {tid (Node l us ds), tid (Node r vs es)}"
    and f: "frames_ok fs" "ctx_filled 101 fs" "\<forall>x \<in> set (siblings cs j). half 101 x" "fs \<noteq> [] \<longrightarrow> 101 \<le> length SS"
  note t1 = t [unfolded S] and T1 = T [unfolded S, unfolded tid.simps] and f4 = f(4) [unfolded S] and V1 = V [unfolded tid.simps] and ID1 = ID [unfolded tid.simps]
  note d = pair_tids [OF t1(1) f(1) len(2) N, unfolded tid.simps]
  have hr: "\<forall>d \<in> set es. half 101 d" using h by simp
  note pg = inner_pair_pages [OF t1(1) f(1) len N V1 hr, simplified]
  obtain us' u where us: "us = us' @ [u]" using size(1) by (cases us rule: rev_cases) auto
  obtain ds' x where ds: "ds = ds' @ [x]" using pg(7) by (cases ds rule: rev_cases) auto
  have pq: "node_page 8 q (us' @ [u]) (map tid ds' @ [tid x])" using pg(1) us ds by simp
  obtain p' q' where m: "redistributeInternalFromLeft p q sep = Ok (u, p', q')" "node_page 8 p' (sep # vs) (tid x # map tid es)"
      "node_page 8 q' us' (map tid ds')" "ID p' = ID p" "ID q' = ID q"
    using redistributeInternalFromLeft_page [OF pg(2) pq pg(3)] pg(4) us size(2) by auto
  have ab: "a \<noteq> b" "a \<noteq> c" "b \<noteq> c" using H ID1 d(1) by auto
  have wf: "wf_page p'" "wf_page q'" using node_page_parts(1) m(2,3) by blast+
  let ?f = "\<lambda>n l. redistributeInternalFromLeft n l sep"
  obtain w1 where w1: "mutate2 a b ?f w = (Ok u, w1)" "st (insert l (insert r T)) V (H(a \<mapsto> p', b \<mapsto> q')) N X w1"
    using mutate2_rule [OF s H(2,1) ab(1), of ?f u p' q'] m(1,4,5) wf ID1 d by auto
  have same: "rootID w1 = rootID w" "unique w1 = unique w" "entrySize w1 = entrySize w" "nextPageID (pm w1) = nextPageID (pm w)"
    using more_fields [of w1 w] st_more [OF w1(2)] st_more [OF s] st_next [OF w1(2)] st_next [OF s] by simp_all
  let ?F = "replaceEntry (word_of_nat j) (u @ encodeChildID r)"
  have "\<exists>w'. writeThree a b c ?F w1 = (Ok (), w') \<and> repaired 8 101 (Suc g + length fs) (plug (Node i (insert_nth j sep ss) (twoAt j (Node l us ds) (Node r vs es) cs)) fs) w1 w'"
    by (rule inner_lent [OF w1(2) _ _ _ V1(3) ID1(3) N t1(1) _ _ f(1-3) f4 len h, where p = p' and q = q' and us' = us' and ds' = ds' and s' = u and vs' = "sep # vs" and es' = "x # es" and F = ?F])
      (use H ab T1 t1(2) same us ds pg(7) size m node_page_key [OF pg(1)] ID1 in auto)
  then obtain w' where w': "writeThree a b c ?F w1 = (Ok (), w')" "repaired 8 101 (Suc g + length fs) (plug (Node i SS CS) fs) w1 w'"
    unfolding S by blast
  have "redistributeInternalNodeFromLeft a b c w = (Ok (), w')"
    using deref_rule [OF s H(2)] deref_rule [OF s H(3)] pg(5,6) ID1(2) w1(1) w'(1)
    by (simp add: redistributeInternalNodeFromLeft_def writeThree_def exec_simps)
  with w'(2) same show ?thesis unfolding repaired_def by auto
qed

lemma lendInnerRight_repaired:
  assumes pd: "paired 8 101 ez g (a, Node l us ds) (b, Node r vs es) c i SS CS j fs w"
    and size: "101 < length vs" "length us = 100" and h: "\<forall>d \<in> set ds \<union> set es. half 101 d"
  shows "\<exists>w'. redistributeInternalNodeFromRight a b c w = (Ok (), w') \<and> repaired 8 101 (Suc g + length fs) (plug (Node i SS CS) fs) w w'"
  using pd
proof (rule pairedE)
  fix T V H N X q p pp sep ss cs
  assume s: "st T V H N X w" and H: "H a = Some q" "H b = Some p" "H c = Some pp"
    and V: "V (tid (Node l us ds)) = Some q" "V (tid (Node r vs es)) = Some p" "V i = Some pp"
    and ID: "ID q = tid (Node l us ds)" "ID p = tid (Node r vs es)" "ID pp = i" and N: "valid_id N"
    and S: "SS = insert_nth j sep ss" "CS = twoAt j (Node l us ds) (Node r vs es) cs" and len: "length cs = Suc (length ss)" "j < length cs"
    and t: "tree_in 8 (Suc g + length fs) (plug (Node i SS CS) fs) V N" "rootID w = tid (plug (Node i SS CS) fs)"
    and T: "T \<inter> insert 0 (set (ids (plug (Node i SS CS) fs))) \<subseteq> {tid (Node l us ds), tid (Node r vs es)}"
    and f: "frames_ok fs" "ctx_filled 101 fs" "\<forall>x \<in> set (siblings cs j). half 101 x" "fs \<noteq> [] \<longrightarrow> 101 \<le> length SS"
  note t1 = t [unfolded S] and T1 = T [unfolded S, unfolded tid.simps] and f4 = f(4) [unfolded S] and V1 = V [unfolded tid.simps] and ID1 = ID [unfolded tid.simps]
  note d = pair_tids [OF t1(1) f(1) len(2) N, unfolded tid.simps]
  have hr: "\<forall>d \<in> set es. half 101 d" using h by simp
  note pg = inner_pair_pages [OF t1(1) f(1) len N V1 hr, simplified]
  obtain u vs' where vs: "vs = u # vs'" using size(1) by (cases vs) auto
  obtain x es' where es: "es = x # es'" using pg(8) by (cases es) auto
  have pq: "node_page 8 p (u # vs') (tid x # map tid es')" using pg(2) vs es by simp
  obtain q' p' where m: "redistributeInternalFromRight q p sep = Ok (u, q', p')" "node_page 8 q' (us @ [sep]) (map tid ds @ [tid x])"
      "node_page 8 p' vs' (map tid es')" "ID q' = ID q" "ID p' = ID p"
    using redistributeInternalFromRight_page [OF pg(1) pq pg(3)] pg(4) vs size(2) by auto
  have ab: "a \<noteq> b" "a \<noteq> c" "b \<noteq> c" using H ID1 d(1) by auto
  have wf: "wf_page p'" "wf_page q'" using node_page_parts(1) m(2,3) by blast+
  let ?f = "\<lambda>n r. redistributeInternalFromRight n r sep"
  obtain w1 where w1: "mutate2 a b ?f w = (Ok u, w1)" "st (insert r (insert l T)) V (H(a \<mapsto> q', b \<mapsto> p')) N X w1"
    using mutate2_rule [OF s H(1,2) ab(1), of ?f u q' p'] m(1,4,5) wf ID1 d by auto
  have same: "rootID w1 = rootID w" "unique w1 = unique w" "entrySize w1 = entrySize w" "nextPageID (pm w1) = nextPageID (pm w)"
    using more_fields [of w1 w] st_more [OF w1(2)] st_more [OF s] st_next [OF w1(2)] st_next [OF s] by simp_all
  let ?F = "replaceEntry (word_of_nat j) (u @ encodeChildID r)"
  have "\<exists>w'. writeThree a b c ?F w1 = (Ok (), w') \<and> repaired 8 101 (Suc g + length fs) (plug (Node i (insert_nth j sep ss) (twoAt j (Node l us ds) (Node r vs es) cs)) fs) w1 w'"
    by (rule inner_lent [OF w1(2) _ _ _ V1(3) ID1(3) N t1(1) _ _ f(1-3) f4 len h, where p = p' and q = q' and us' = "us @ [sep]" and ds' = "ds @ [x]" and s' = u and vs' = vs' and es' = es' and F = ?F])
      (use H ab T1 t1(2) same vs es pg(7,8) size m node_page_key [OF pg(2)] ID1 in auto)
  then obtain w' where w': "writeThree a b c ?F w1 = (Ok (), w')" "repaired 8 101 (Suc g + length fs) (plug (Node i SS CS) fs) w1 w'"
    unfolding S by blast
  have "redistributeInternalNodeFromRight a b c w = (Ok (), w')"
    using deref_rule [OF s H(2)] deref_rule [OF s H(3)] pg(5,6) ID1(2) w1(1) w'(1)
    by (simp add: redistributeInternalNodeFromRight_def writeThree_def exec_simps)
  with w'(2) same show ?thesis unfolding repaired_def by auto
qed

section \<open>Merging\<close>

lemma absorbInternal_spec:
  assumes s: "st T V H N X w" "H b = Some q" "H a = Some p" "H c = Some pp" and V: "V l = Some q" "V r = Some p" "V i = Some pp"
    and ID: "ID q = l" "ID p = r" "ID pp = i" and N: "valid_id N"
    and t: "tree_in 8 (Suc g + length fs) (plug (Node i (insert_nth j sep ss) (twoAt j (Node l us ds) (Node r vs es) cs)) fs) V N"
    and fo: "frames_ok fs" and len: "length cs = Suc (length ss)" "j < length cs" and h: "\<forall>d \<in> set es. half m d" "0 < m"
    and room: "Suc (length us + length vs) * 20 \<le> 4075"
  shows "\<exists>w' V' H' p0 X'. absorbInternal b a c w = (Ok (), w') \<and> st (insert i T - {l}) V' H' N X' w' \<and>
    H' c = Some p0 \<and> V' i = Some p0 \<and> ID p0 = i \<and>
    tree_in 8 (Suc g + length fs) (plug (Node i ss (cs[j := Node l (us @ sep # vs) (ds @ es)])) fs) V' N \<and>
    rootID w' = rootID w \<and> unique w' = unique w \<and> entrySize w' = entrySize w"
proof -
  note d = pair_tids [OF t fo len(2) N, unfolded tid.simps]
  note pg = inner_pair_pages [OF t fo len N V h, simplified]
  obtain p0 where p0: "DeleteEntry pp (word_of_nat j) = Ok p0" "header p0 = header pp" "node_page 8 p0 ss ((map tid cs)[j := l])"
      "split_in 8 g ((i, ss, cs, j) # fs) (Node l us ds) sep (Node r vs es) (V(i \<mapsto> p0)) N"
    using pair_split_in [OF t fo len V(3)] by (metis tid.simps(2))
  obtain q' where q': "mergeInternal q p sep = Ok q'" "node_page 8 q' (us @ sep # vs) (map tid ds @ map tid es)" "header q' = header q"
    using mergeInternal_page [OF pg(1-4)] room by auto
  have id: "ID q' = l" "wf_page q'" "ID p0 = i" "wf_page p0"
    using header_same [OF q'(3)] header_same [OF p0(2)] ID node_page_parts(1) [OF q'(2)] node_page_parts(1) [OF p0(3)] by simp_all
  have bc: "b \<noteq> c" using s(2,4) ID d(1) by auto
  obtain w1 where w1: "mutate b (\<lambda>l. mergeInternal l p sep) w = (Ok (), w1)" "st (insert l T) V (H(b \<mapsto> q')) N X w1"
    using mutate_rule [OF s(1,2), of "\<lambda>l. mergeInternal l p sep" q'] q'(1) id ID d by auto
  obtain w2 X' where w2: "countMerge w1 = (Ok (), w2)" "st (insert l T) V (H(b \<mapsto> q')) N X' w2"
      "rootID w2 = rootID w1" "unique w2 = unique w1" "entrySize w2 = entrySize w1"
    using countMerge_rule [OF w1(2)] by blast
  have c2: "(H(b \<mapsto> q')) c = Some pp" using s(4) bc by simp
  let ?g = "\<lambda>p. DeleteEntry p (word_of_nat j)" and ?H = "H(b \<mapsto> q', c \<mapsto> p0)"
  obtain w3 where w3: "mutate c ?g w2 = (Ok (), w3)" "st (insert i (insert l T)) V ?H N X' w3"
    using mutate_rule [OF w2(2) c2, of ?g p0] p0(1) id ID d by (auto simp del: fun_upd_apply)
  have H3: "?H b = Some q'" "?H c = Some p0" using bc by simp_all
  obtain w4 where w4: "writePage b w3 = (Ok (), w4)" "st (insert i (insert l T) - {l}) (V(l \<mapsto> q')) ?H N X' w4"
    using write_rule_clean [OF w3(2) H3(1) id(2)] d(6) unfolding id(1) by blast
  let ?V = "V(i \<mapsto> p0, l \<mapsto> q')"
  have T4: "insert i (insert l T) - {l} = insert i T - {l}" by auto
  have s4: "st (insert i T - {l}) ?V ?H N X' w4"
    by (rule st_agree [OF w4(2) [unfolded T4]]) (use d(1) in auto)
  have run: "absorbInternal b a c w = (Ok (), w4)"
    using deref_rule [OF s(1,3)] deref_rule [OF s(1,4)] pg(5,6) ID(2) w1(1) w2(1) w3(1) w4(1)
    by (simp add: absorbInternal_def exec_simps)
  obtain mt where mt: "V 0 = Some mt" "RootPageID mt = tid (plug (Node l us ds) ((i, ss, cs, j) # fs))"
    using tree_in_root [OF t] by (metis tid_plug_frame)
  have "tree_in 8 (g + length ((i, ss, cs, j) # fs)) (plug (Node l (us @ sep # vs) (ds @ es)) ((i, ss, cs, j) # fs)) ?V N"
    by (rule join_nodes [OF p0(4) h]) (use q'(2) mt d(2) in simp_all)
  moreover have "rootID w4 = rootID w" "unique w4 = unique w" "entrySize w4 = entrySize w"
    using more_fields [of w1 w] st_more [OF w1(2)] st_more [OF s(1)] w2 more_fields [of w4 w2] st_more [OF w4(2)] st_more [OF w2(2)] by simp_all
  moreover have "?V i = Some p0" using d(1) by simp
  ultimately show ?thesis
    using run s4 H3(2) id(3) by (intro exI [of _ w4] exI [of _ ?V] exI [of _ ?H] exI [of _ p0] exI [of _ X']) simp
qed

lemma mergeInner_repaired:
  assumes pd: "paired 8 101 ez g (b, Node l us ds) (a, Node r vs es) c i SS CS j fs w"
    and size: "length us + length vs = 201" and h: "\<forall>d \<in> set ds \<union> set es. half 101 d" and fin: "finishes 8 101 ez fs"
  shows "\<exists>w'. sbind (absorbInternal b a c) (\<lambda>_. finishInternalMerge c (rev (map fst fs) @ [i])) w = (Ok (), w') \<and>
    repaired 8 101 (Suc g + length fs) (plug (Node i SS CS) fs) w w'"
  using pd
proof (rule pairedE)
  fix T V H N X q p pp sep ss cs
  assume s: "st T V H N X w" and H: "H b = Some q" "H a = Some p" "H c = Some pp"
    and V: "V (tid (Node l us ds)) = Some q" "V (tid (Node r vs es)) = Some p" "V i = Some pp"
    and ID: "ID q = tid (Node l us ds)" "ID p = tid (Node r vs es)" "ID pp = i" and N: "valid_id N"
    and S: "SS = insert_nth j sep ss" "CS = twoAt j (Node l us ds) (Node r vs es) cs" and len: "length cs = Suc (length ss)" "j < length cs"
    and t: "tree_in 8 (Suc g + length fs) (plug (Node i SS CS) fs) V N" "rootID w = tid (plug (Node i SS CS) fs)" "entrySize w = ez"
    and T: "T \<inter> insert 0 (set (ids (plug (Node i SS CS) fs))) \<subseteq> {tid (Node l us ds), tid (Node r vs es)}"
    and f: "frames_ok fs" "ctx_filled 101 fs" "\<forall>x \<in> set (siblings cs j). half 101 x" "fs \<noteq> [] \<longrightarrow> 101 \<le> length SS"
  let ?x = "Node l (us @ sep # vs) (ds @ es)"
  let ?t' = "plug (Node i ss (cs[j := ?x])) fs"
  note t1 = t [unfolded S] and T1 = T [unfolded S, unfolded tid.simps] and f4 = f(4) [unfolded S] and V1 = V [unfolded tid.simps] and ID1 = ID [unfolded tid.simps]
  have hr: "\<forall>d \<in> set es. half 101 d" using h by simp
  obtain w1 V1 H1 p0 X1 where m: "absorbInternal b a c w = (Ok (), w1)" "st (insert i T - {l}) V1 H1 N X1 w1" "H1 c = Some p0" "V1 i = Some p0"
      "ID p0 = i" "tree_in 8 (Suc g + length fs) ?t' V1 N" "rootID w1 = rootID w" "unique w1 = unique w" "entrySize w1 = entrySize w"
    using absorbInternal_spec [OF s H V1 ID1 N t1(1) f(1) len hr] size by auto
  note jn = joined_ids [OF t1(1) f(1) len(2), unfolded tid.simps]
  have "distinct (ids (Node l us ds) @ ids (Node r vs es))" using pair_split_in [OF t1(1) f(1) len V1(3)] by (metis split_in_def distinct_append append_assoc)
  then have "set (ids ?x) \<subseteq> set (ids (Node l us ds)) \<union> set (ids (Node r vs es)) - {r}" by (auto simp: ids_Node_distinct)
  then have dead: "(insert i T - {l}) \<inter> insert 0 (set (ids ?t')) \<subseteq> {i}" using jn(6) [of ?x ss] jn(1-5) T1 by auto
  have "\<exists>w'. finishInternalMerge c (rev (map fst fs) @ [i]) w1 = (Ok (), w') \<and>
      repaired 8 101 (Suc g + length fs) (plug (Node i (insert_nth j sep ss) (twoAt j (Node l us ds) (Node r vs es) cs)) fs) w1 w'"
    by (rule merged_repaired [OF m(2-5) N m(6) _ _ dead f(1-3) f4 _ _ len(2) fin]) (use m(7,9) t1(2,3) size h in \<open>auto simp: tid_plug_last\<close>)
  then show ?thesis using m(1,8,9) st_next [OF m(2)] st_next [OF s] unfolding S repaired_def by (auto simp: exec_simps)
qed

section \<open>Repairing an internal node\<close>

lemma fixInternal_reads:
  assumes s: "st T V H N X w" and a: "H a = Some p" and i: "V i = Some pp" "i \<notin> T" and es: "entrySize w = 16"
    and sib: "findSiblingPageIDs pp p = Ok (u, v)" and near: "\<forall>x \<in> {u, v}. x \<noteq> 0 \<longrightarrow> V x \<noteq> None \<and> x \<notin> T"
  shows "\<exists>c x y H' w'. st T V H' N X w' \<and> H \<subseteq>\<^sub>m H' \<and> H' c = Some pp \<and> neighbour V H' u x \<and> neighbour V H' v y \<and>
    fixInternalUnderflow a (anc @ [i]) w =
      (if int_sizes.lends H' x then redistributeInternalNodeFromLeft a (the x) c
       else if int_sizes.lends H' y then redistributeInternalNodeFromRight a (the y) c
       else (case x of Some l \<Rightarrow> mergeInternalWithLeft a l c (anc @ [i]) | None \<Rightarrow> mergeInternalWithRight a y c (anc @ [i]))) w'"
proof -
  obtain c w1 where w1: "readPage i w = (Ok c, w1)" "st T V (H(c \<mapsto> pp)) N X w1" "H \<subseteq>\<^sub>m H(c \<mapsto> pp)"
    using cached.read_rule [OF TrueI s i(2,1)] by blast
  have c1: "(H(c \<mapsto> pp)) c = Some pp" by simp
  obtain x w2 H2 where w2: "readSibling u w1 = (Ok x, w2)" "st T V H2 N X w2" "H(c \<mapsto> pp) \<subseteq>\<^sub>m H2" "neighbour V H2 u x"
    using readSibling_rule [OF w1(2), of u] near by blast
  obtain y w3 H3 where w3: "readSibling v w2 = (Ok y, w3)" "st T V H3 N X w3" "H2 \<subseteq>\<^sub>m H3" "neighbour V H3 v y"
    using readSibling_rule [OF w2(2), of v] near by blast
  note x3 = neighbour_mono [OF w2(4) w3(3)]
  have le: "H \<subseteq>\<^sub>m H3" "H(c \<mapsto> pp) \<subseteq>\<^sub>m H3" using w1(3) w2(3) w3(3) map_le_trans by blast+
  have es3: "entrySize w3 = 16" using es st_more [OF s] st_more [OF w3(2)] more_fields(2) [of w3 w] by simp
  note lend = int_sizes.canLend_rule [OF w3(2) x3 es3] int_sizes.canLend_rule [OF w3(2) w3(4) es3]
  have "fixInternalUnderflow a (anc @ [i]) w =
      (if int_sizes.lends H3 x then redistributeInternalNodeFromLeft a (the x) c
       else if int_sizes.lends H3 y then redistributeInternalNodeFromRight a (the y) c
       else (case x of Some l \<Rightarrow> mergeInternalWithLeft a l c (anc @ [i]) | None \<Rightarrow> mergeInternalWithRight a y c (anc @ [i]))) w3"
    using w1(1) w2(1) w3(1) deref_rule [OF w1(2) map_le_Some [OF w1(3) a]] deref_rule [OF w1(2) c1] lend sib
    by (simp add: fixInternalUnderflow.simps [of a "anc @ [i]"] exec_simps split: option.split)
  moreover have "H3 c = Some pp" using map_le_Some [OF le(2)] by simp
  ultimately show ?thesis using w3(2) le(1) x3 w3(4) by blast
qed

text \<open>A node beside the node \<open>J\<close>, the only one whose page may be changed and not yet written.\<close>

lemma beside_node:
  assumes s: "st T V H N X w" "valid_id N" and t: "tree_in 8 (Suc (Suc g) + length fs) (plug (Node i SS CS) fs) V N" and fo: "frames_ok fs"
    and T: "T \<inter> insert 0 (set (ids (plug (Node i SS CS) fs))) \<subseteq> {tid (CS ! J)}" and f: "\<forall>c \<in> set (siblings CS J). half 101 c"
    and J: "J < length CS" and m: "m < length CS" "m \<noteq> J" and b: "neighbour V H (tid (CS ! m)) (Some b)"
  obtains u us ds q where "CS ! m = Node u us ds" "H b = Some q" "V u = Some q" "ID q = u" "101 \<le> length us" "\<forall>d \<in> set ds. half 101 d"
    "int_sizes.lends H (Some b) = (101 < length us)"
proof -
  note x = tree_in_plug [OF t fo]
  have bal: "balanced (Node i SS CS) (Suc (Suc g))" using x(9) [of "Suc (Suc g)"] by simp
  then have "balanced (CS ! m) (Suc g)" using nth_mem [OF m(1)] by simp
  then obtain u us ds where l: "CS ! m = Node u us ds" by (cases "CS ! m") auto
  obtain q where q: "H b = Some q" "V u = Some q" using b l by (auto simp: neighbour_def)
  have "rep 8 V (CS ! m)" using x(1) nth_mem [OF m(1)] by simp
  then have np: "node_page 8 q us (map tid ds)" using q(2) l by simp
  have "u \<in> set (ids (plug (Node i SS CS) fs))"
    using mset_eq_setD [OF plug_ids [OF fo, of "Node i SS CS"]] nth_mem [OF m(1)] l by force
  moreover have "u \<noteq> tid (CS ! J)" using child_pages(4) [OF t fo m(1) J m(2)] l by simp
  ultimately have "u \<notin> T" using T by auto
  then have "ID q = u" using st_image [OF s(1) _ q(2)] by auto
  moreover have "half 101 (CS ! m)" using f nth_siblings [OF m] by blast
  ultimately show thesis using that [OF l q] l node_page_length [OF np] q by (auto simp: int_sizes.lends_def)
qed

text \<open>
  What \<^verbatim>\<open>fixInternalUnderflow\<close> chooses from, for a node \<open>u\<close> that fell below the minimum, its page changed and not yet written.
\<close>

lemma fixInternal_choices:
  assumes s: "st T V H N X w" "valid_id N" and a: "H a = Some p" "V u = Some p" "ID p = u"
    and t: "tree_in 8 (Suc (Suc g) + length fs) (plug (Node i SS CS) fs) V N" "rootID w = tid (plug (Node i SS CS) fs)" "entrySize w = 16"
    and T: "T \<inter> insert 0 (set (ids (plug (Node i SS CS) fs))) \<subseteq> {u}" and J: "J < length CS" "CS ! J = Node u vs es"
    and f: "frames_ok fs" "ctx_filled 101 fs" "\<forall>c \<in> set (siblings CS J). half 101 c" "fs \<noteq> [] \<longrightarrow> 101 \<le> length SS" "SS \<noteq> []"
  obtains c l r L R w1 where "fixInternalUnderflow a (rev (map fst fs) @ [i]) w =
      (if L then redistributeInternalNodeFromLeft a (the l) c
       else if R then redistributeInternalNodeFromRight a (the r) c
       else (case l of Some l \<Rightarrow> mergeInternalWithLeft a l c (rev (map fst fs) @ [i]) | None \<Rightarrow> mergeInternalWithRight a r c (rev (map fst fs) @ [i]))) w1"
    "store.more w1 = store.more w" "nextPageID (pm w1) = nextPageID (pm w)" "L \<Longrightarrow> l \<noteq> None" "R \<Longrightarrow> r \<noteq> None" "l = None \<Longrightarrow> r \<noteq> None"
    "\<And>b. l = Some b \<Longrightarrow> \<exists>v us ds. paired 8 101 16 (Suc g) (b, Node v us ds) (a, Node u vs es) c i SS CS (J - 1) fs w1 \<and>
      101 \<le> length us \<and> (\<forall>d \<in> set ds. half 101 d) \<and> L = (101 < length us)"
    "\<And>b. r = Some b \<Longrightarrow> \<exists>v us ds. paired 8 101 16 (Suc g) (a, Node u vs es) (b, Node v us ds) c i SS CS J fs w1 \<and>
      101 \<le> length us \<and> (\<forall>d \<in> set ds. half 101 d) \<and> R = (101 < length us)"
proof -
  note x = tree_in_plug [OF t(1) f(1)]
  have len: "length CS = Suc (length SS)" using x(9) [of "Suc (Suc g)"] by simp
  obtain pp where pp: "V i = Some pp" "node_page 8 pp SS (map tid CS)" using x(1) by auto
  have TJ: "T \<inter> insert 0 (set (ids (plug (Node i SS CS) fs))) \<subseteq> {tid (CS ! J)}" using T J(2) by simp
  note near = near_children [OF t(1) f(1) J(1) TJ]
  have ID: "ID pp = i" using st_image [OF s(1) near(1) pp(1)] by simp
  have "distinct (map tid CS)" using x(6) by (intro distinct_children) (simp add: ids_Node_distinct)
  then have sib: "findSiblingPageIDs pp p = Ok (leftSib CS J, rightSib CS J)"
    using findSiblingPageIDs_spec [OF pp(2) _ J(1) _ f(5)] a(3) J(2) by simp
  obtain c l r H1 w1 where w1: "st T V H1 N X w1" "H \<subseteq>\<^sub>m H1" "H1 c = Some pp"
      "neighbour V H1 (leftSib CS J) l" "neighbour V H1 (rightSib CS J) r"
      "fixInternalUnderflow a (rev (map fst fs) @ [i]) w =
      (if int_sizes.lends H1 l then redistributeInternalNodeFromLeft a (the l) c
       else if int_sizes.lends H1 r then redistributeInternalNodeFromRight a (the r) c
       else (case l of Some l \<Rightarrow> mergeInternalWithLeft a l c (rev (map fst fs) @ [i]) | None \<Rightarrow> mergeInternalWithRight a r c (rev (map fst fs) @ [i]))) w1"
    using fixInternal_reads [OF s(1) a(1) pp(1) near(1) t(3) sib near(3), of "rev (map fst fs)"] by (elim exE conjE) (rule that)
  have same: "store.more w1 = store.more w" "nextPageID (pm w1) = nextPageID (pm w)"
    using st_more [OF w1(1)] st_more [OF s(1)] st_next [OF w1(1)] st_next [OF s(1)] by simp_all
  note beside = beside_node [OF w1(1) s(2) t(1) f(1) TJ f(3) J(1)]
  have t1: "rootID w1 = tid (plug (Node i SS CS) fs)" "entrySize w1 = 16"
    and a1: "V (tid (CS ! J)) = Some p" "ID p = tid (CS ! J)" using t more_fields [OF same(1)] a(2,3) J(2) by simp_all
  note pairs = paired_neighbours [OF w1(1) s(2) map_le_Some [OF w1(2) a(1)] a1 w1(3) pp(1) ID t(1) t1 TJ J(1) len f(1-4)]
  have left: "\<exists>v us ds. paired 8 101 16 (Suc g) (b, Node v us ds) (a, Node u vs es) c i SS CS (J - 1) fs w1 \<and>
      101 \<le> length us \<and> (\<forall>d \<in> set ds. half 101 d) \<and> int_sizes.lends H1 l = (101 < length us)" if l: "l = Some b" for b
  proof -
    have j: "0 < J" "neighbour V H1 (tid (CS ! (J - 1))) (Some b)"
        "paired 8 101 16 (Suc g) (b, CS ! (J - 1)) (a, CS ! J) c i SS CS (J - 1) fs w1" using pairs(1) [of b] w1(4) l by blast+
    have "J - 1 < length CS" "J - 1 \<noteq> J" using j(1) J(1) by auto
    from beside [OF this j(2)] show ?thesis using j(3) J(2) l by metis
  qed
  have right: "\<exists>v us ds. paired 8 101 16 (Suc g) (a, Node u vs es) (b, Node v us ds) c i SS CS J fs w1 \<and>
      101 \<le> length us \<and> (\<forall>d \<in> set ds. half 101 d) \<and> int_sizes.lends H1 r = (101 < length us)" if r: "r = Some b" for b
  proof -
    have j: "Suc J < length CS" "neighbour V H1 (tid (CS ! Suc J)) (Some b)"
        "paired 8 101 16 (Suc g) (a, CS ! J) (b, CS ! Suc J) c i SS CS J fs w1" using pairs(2) [of b] w1(5) r by blast+
    from beside [OF j(1) _ j(2)] show ?thesis using j(3) J(2) r by (metis n_not_Suc_n)
  qed
  have "r \<noteq> None" if "l = None" using has_neighbour [OF t(1) f(1) J(1) len f(5)] w1(4,5) that by blast
  moreover have "l \<noteq> None" if "int_sizes.lends H1 l" using that by (auto simp: int_sizes.lends_def)
  moreover have "r \<noteq> None" if "int_sizes.lends H1 r" using that by (auto simp: int_sizes.lends_def)
  ultimately show thesis using that [OF w1(6) same _ _ _ left right] by blast
qed

lemma fixInternal_spec:
  assumes s: "st T V H N X w" "valid_id N" and a: "H a = Some p" "V u = Some p" "ID p = u"
    and t: "tree_in 8 (Suc (Suc g) + length fs) (plug (Node i SS CS) fs) V N" "rootID w = tid (plug (Node i SS CS) fs)" "entrySize w = 16"
    and T: "T \<inter> insert 0 (set (ids (plug (Node i SS CS) fs))) \<subseteq> {u}" and J: "J < length CS" "CS ! J = Node u vs es"
    and f: "frames_ok fs" "ctx_filled 101 fs" "\<forall>c \<in> set (siblings CS J). half 101 c" "fs \<noteq> [] \<longrightarrow> 101 \<le> length SS" "SS \<noteq> []"
    and v: "length vs = 100" "\<forall>d \<in> set es. half 101 d" and fin: "finishes 8 101 16 fs"
  shows "\<exists>w'. fixInternalUnderflow a (rev (map fst fs) @ [i]) w = (Ok (), w') \<and> repaired 8 101 (Suc (Suc g) + length fs) (plug (Node i SS CS) fs) w w'"
proof -
  let ?t = "plug (Node i SS CS) fs" and ?h = "Suc (Suc g) + length fs" and ?anc = "rev (map fst fs) @ [i]"
  obtain c l r L R w1 where ch: "fixInternalUnderflow a ?anc w =
      (if L then redistributeInternalNodeFromLeft a (the l) c
       else if R then redistributeInternalNodeFromRight a (the r) c
       else (case l of Some l \<Rightarrow> mergeInternalWithLeft a l c ?anc | None \<Rightarrow> mergeInternalWithRight a r c ?anc)) w1"
    "store.more w1 = store.more w" "nextPageID (pm w1) = nextPageID (pm w)" "L \<Longrightarrow> l \<noteq> None" "R \<Longrightarrow> r \<noteq> None" "l = None \<Longrightarrow> r \<noteq> None"
    and left: "\<And>b. l = Some b \<Longrightarrow> \<exists>v us ds. paired 8 101 16 (Suc g) (b, Node v us ds) (a, Node u vs es) c i SS CS (J - 1) fs w1 \<and>
      101 \<le> length us \<and> (\<forall>d \<in> set ds. half 101 d) \<and> L = (101 < length us)"
    and right: "\<And>b. r = Some b \<Longrightarrow> \<exists>v us ds. paired 8 101 16 (Suc g) (a, Node u vs es) (b, Node v us ds) c i SS CS J fs w1 \<and>
      101 \<le> length us \<and> (\<forall>d \<in> set ds. half 101 d) \<and> R = (101 < length us)"
    by (rule fixInternal_choices [OF s a t T J f]) (rule that)
  have since: "repaired 8 101 ?h ?t w w'" if "repaired 8 101 ?h ?t w1 w'" for w'
    using that ch(3) more_fields [OF ch(2)] unfolding repaired_def by simp
  consider (lendL) b where "L" "l = Some b" | (lendR) b where "\<not> L" "R" "r = Some b" | (mergeL) b where "\<not> L" "\<not> R" "l = Some b"
    | (mergeR) b where "\<not> L" "\<not> R" "l = None" "r = Some b"
    using ch(4-6) by (cases L; cases R; cases l; cases r) auto
  then have "\<exists>w'. fixInternalUnderflow a ?anc w = (Ok (), w') \<and> repaired 8 101 ?h ?t w1 w'"
  proof cases
    case lendL
    then obtain x us ds where "paired 8 101 16 (Suc g) (b, Node x us ds) (a, Node u vs es) c i SS CS (J - 1) fs w1" "101 < length us" "\<forall>d \<in> set ds. half 101 d"
      using left [of b] by blast
    from lendInnerLeft_repaired [OF this(1,2) v(1)] this(3) v(2) lendL ch(1) show ?thesis by auto
  next
    case lendR
    then obtain x us ds where "paired 8 101 16 (Suc g) (a, Node u vs es) (b, Node x us ds) c i SS CS J fs w1" "101 < length us" "\<forall>d \<in> set ds. half 101 d"
      using right [of b] by blast
    from lendInnerRight_repaired [OF this(1,2) v(1)] this(3) v(2) lendR ch(1) show ?thesis by auto
  next
    case mergeL
    then obtain x us ds where m: "paired 8 101 16 (Suc g) (b, Node x us ds) (a, Node u vs es) c i SS CS (J - 1) fs w1" "length us = 101" "\<forall>d \<in> set ds. half 101 d"
      using left [of b] by auto
    have "length us + length vs = 201" "\<forall>d \<in> set ds \<union> set es. half 101 d" using m(2,3) v by auto
    from mergeInner_repaired [OF m(1) this fin] mergeL ch(1) show ?thesis by (simp add: mergeInternalWithLeft.simps)
  next
    case mergeR
    then obtain x us ds where m: "paired 8 101 16 (Suc g) (a, Node u vs es) (b, Node x us ds) c i SS CS J fs w1" "length us = 101" "\<forall>d \<in> set ds. half 101 d"
      using right [of b] by auto
    have "length vs + length us = 201" "\<forall>d \<in> set es \<union> set ds. half 101 d" using m(2,3) v by auto
    from mergeInner_repaired [OF m(1) this fin] mergeR ch(1) show ?thesis by (simp add: mergeInternalWithRight.simps needPage_def exec_simps)
  qed
  with since show ?thesis by blast
qed

section \<open>Up to the root\<close>

text \<open>A node that lost a child and still has enough entries is only written.\<close>

lemma enough_repaired:
  assumes s: "st T V H N X w" "valid_id N" "H c = Some p" "V i = Some p" "ID p = i"
    and t: "tree_in 8 h (plug (Node i ss cs) fs) V N" "rootID w = tid (plug (Node i ss cs) fs)"
    and T: "T \<inter> insert 0 (set (ids (plug (Node i ss cs) fs))) \<subseteq> {i}"
    and f: "frames_ok fs" "ctx_filled 101 fs" "\<forall>x \<in> set cs. half 101 x" "101 \<le> length ss"
  shows "\<exists>w'. writePage c w = (Ok (), w') \<and> repaired 8 101 h (plug (Node i ss cs) fs) w w'"
proof -
  have "node_page 8 p ss (map tid cs)" using tree_in_plug(1) [OF t(1) f(1)] s(4) by simp
  note wf = node_page_parts(1) [OF this]
  have "i < N" using tree_in_plug(7) [OF t(1) f(1)] by simp
  then have i: "valid_id (ID p)" using valid_id_less [OF s(2)] s(5) by (simp add: less_imp_le)
  obtain w1 where w1: "writePage c w = (Ok (), w1)" "st (T - {i}) (V(i \<mapsto> p)) H N X w1"
    using write_rule_clean [OF s(1,3) wf i] s(5) by blast
  have "V(i \<mapsto> p) = V" using s(4) by auto
  with w1(2) have s1: "st (T - {i}) V H N X w1" by simp
  have same: "rootID w1 = rootID w" "unique w1 = unique w" "entrySize w1 = entrySize w" "nextPageID (pm w1) = nextPageID (pm w)"
    using more_fields [of w1 w] st_more [OF s1] st_more [OF s(1)] st_next [OF s1] st_next [OF s(1)] by simp_all
  have "tree_inv 8 h (plug (Node i ss cs) fs) w1" by (rule tree_inv_intro [OF s1 _ t(1)]) (use T t(2) same in auto)
  moreover have "filled 101 (plug (Node i ss cs) fs)" using f by (subst plug_filled) auto
  ultimately show ?thesis using w1(1) same unfolding repaired_def by blast
qed

lemma finishes_all: "finishes 8 101 16 fs"
proof (induction fs)
  case Nil
  show ?case by (rule finishes_root) simp
next
  case (Cons fr gs)
  obtain v SS CS J where fr: "fr = (v, SS, CS, J)" by (cases fr)
  show ?case
    unfolding finishes_def fr
  proof (intro allI impI)
    fix h c i ss and cs :: "btree list" and w :: BTree
    let ?fs = "(v, SS, CS, J) # gs" and ?x = "Node i ss cs :: btree"
    let ?anc = "rev (map fst gs) @ [v]"
    assume "shortened 8 101 16 h c i ss cs ?fs w"
    then obtain T V H N X p where s: "st T V H N X w" "valid_id N" "H c = Some p" "V i = Some p" "ID p = i"
        and t: "tree_in 8 h (plug ?x ?fs) V N" "rootID w = tid (plug ?x ?fs)" "T \<inter> insert 0 (set (ids (plug ?x ?fs))) \<subseteq> {i}" "entrySize w = 16"
        and f: "frames_ok ?fs" "ctx_filled 101 ?fs" "\<forall>x \<in> set cs. half 101 x" "?fs \<noteq> [] \<longrightarrow> 101 \<le> Suc (length ss)"
      unfolding shortened_def by (elim exE conjE) (rule that)
    have np: "node_page 8 p ss (map tid cs)" using tree_in_plug(1) [OF t(1) f(1)] s(4) by simp
    obtain m where m: "minEntries w = (Ok m, w)" "unat m = 101" using int_sizes.minEntries_rule [OF t(4)] by blast
    have enough: "m \<le> NumEntries p \<longleftrightarrow> 101 \<le> length ss" using m(2) node_page_length [OF np] by (simp add: word_le_nat_alt)
    have run: "finishInternalMerge c (?anc @ [i]) w = (if 101 \<le> length ss then writePage c else fixInternalUnderflow c ?anc) w"
      using deref_rule [OF s(1,3)] m(1) enough by (simp add: finishInternalMerge.simps Let_def exec_simps butlast_append)
    have "\<exists>w'. finishInternalMerge c (?anc @ [i]) w = (Ok (), w') \<and> repaired 8 101 h (plug ?x ?fs) w w'"
    proof (cases "101 \<le> length ss")
      case True
      with enough_repaired [OF s t(1-3) f(1-3)] run show ?thesis by simp
    next
      case False
      then have ss: "length ss = 100" using f(4) by simp
      have fo: "frames_ok gs" "length CS = Suc (length SS)" "J < length CS" using f(1) by simp_all
      have "balanced (plug ?x ?fs) h" using t(1) by (simp add: tree_in_def)
      from plug_height [OF f(1) this] have bal: "Suc (length gs) \<le> h" "balanced ?x (h - Suc (length gs))" by simp_all
      then obtain g where "h - Suc (length gs) = Suc g" by (cases "h - Suc (length gs)") auto
      then have h: "h = Suc (Suc g) + length gs" using bal(1) by simp
      let ?CS = "CS[J := ?x]"
      have eq: "plug ?x ?fs = plug (Node v SS ?CS) gs" by simp
      have "\<exists>w'. fixInternalUnderflow c ?anc w = (Ok (), w') \<and> repaired 8 101 (Suc (Suc g) + length gs) (plug (Node v SS ?CS) gs) w w'"
        by (rule fixInternal_spec [OF s _ _ t(4) _ _ _ fo(1) _ _ _ _ ss f(3) Cons.IH]) (use t f(2) fo h in \<open>auto simp: eq\<close>)
      with run False h show ?thesis by simp
    qed
    then show "\<exists>w'. finishInternalMerge c (rev (map fst ?fs) @ [i]) w = (Ok (), w') \<and> repaired 8 101 h (plug ?x ?fs) w w'" by simp
  qed
qed

end
