(* ===== verification/Delete_Repair.thy ===== *)
theory Delete_Repair
  imports Inner_Repair Tree_Delete
begin

text \<open>
  \<^verbatim>\<open>Delete\<close> on trees whose pages are half full: a leaf that falls below the minimum is repaired with its neighbours,
  and the tree stays half full.
\<close>

section \<open>Deletion with repair\<close>

text \<open>
  The neighbours, in the leaf chain, of every leaf that holds the key \<open>k\<close> are children of the same node.
\<close>

definition sheltered :: "byte list \<Rightarrow> btree \<Rightarrow> bool" where
  "sheltered k t \<longleftrightarrow> (\<forall>u kvs i SS CS J fs. t = plug (Leaf u kvs) ((i, SS, CS, J) # fs) \<longrightarrow> frames_ok ((i, SS, CS, J) # fs) \<longrightarrow>
     k \<in> fst ` set kvs \<longrightarrow> (0 < J \<or> lefts leafIDs fs = []) \<and> (J < length SS \<or> rights leafIDs fs = []))"

lemma key_in_one_leaf:
  assumes "distinct (map fst (concat (map snd ls)))" "(i, xs) \<in> set ls" "(j, ys) \<in> set ls" "k \<in> fst ` set xs" "k \<in> fst ` set ys"
  shows "ys = xs"
  using assms
proof (induction ls)
  case (Cons l ls)
  have dis: "fst ` set (snd l) \<inter> fst ` set (concat (map snd ls)) = {}" using Cons.prems(1) by auto
  have "False" if "(v, zs) \<in> set ls" "k \<in> fst ` set zs" "k \<in> fst ` set (snd l)" for v zs
  proof -
    have "k \<in> fst ` set (concat (map snd ls))" using that(1,2) by force
    with dis that(3) show False by blast
  qed
  then have "\<not> ((i, xs) \<in> set ls \<and> l = (j, ys))" "\<not> ((j, ys) \<in> set ls \<and> l = (i, xs))" using Cons.prems(4,5) by force+
  with Cons show ?case by (simp, blast)
qed simp

text \<open>In a tree with a single level above the leaves, all leaves are children of the root.\<close>

lemma sheltered_low:
  assumes "balanced t h" "h \<le> 1"
  shows "sheltered k t"
  unfolding sheltered_def
proof (intro allI impI)
  fix u kvs i SS CS J fs
  assume "t = plug (Leaf u kvs) ((i, SS, CS, J) # fs)" "frames_ok ((i, SS, CS, J) # fs)"
  then have "length ((i, SS, CS, J) # fs) \<le> h" using plug_height assms(1) by blast
  then have "fs = []" using assms(2) by (cases fs) auto
  then show "(0 < J \<or> lefts leafIDs fs = []) \<and> (J < length SS \<or> rights leafIDs fs = [])" by simp
qed

locale repaired_delete = leaf_delete K enc del es least + node_sizes K es least
  for K :: nat and enc :: "'k \<Rightarrow> byte list" and del :: "Page \<Rightarrow> 'k \<Rightarrow> Page res" and es :: uint16 and least :: nat
begin

lemma delete_repair:
  assumes inv: "tree_inv K h t w" "valid_id (nextPageID (pm w))" and fuel: "h \<le> fuel" and k: "enc k \<in> fst ` set (contents t)"
    and es: "entrySize w = es" and f: "filled least t" "sheltered (enc k) t" and fin: "\<And>fs. length fs < h \<Longrightarrow> finishes K least es fs"
  shows "\<exists>w' h' t'. sbind (findLeafWithPath fuel (enc k)) (\<lambda>(leaf, anc). deleteFrom (\<lambda>p. del p k) leaf anc) w = (Ok (), w') \<and>
    tree_inv K h' t' w' \<and> contents t' = filter (\<lambda>kv. fst kv \<noteq> enc k) (contents t) \<and> filled least t' \<and> h' \<le> h \<and>
    nextPageID (pm w') = nextPageID (pm w) \<and> unique w' = unique w \<and> entrySize w' = es"
proof (cases "h = 0 \<or> (\<forall>(i, kvs) \<in> set (leafList t). enc k \<in> fst ` set kvs \<longrightarrow> least < length kvs)")
  case True
  from delete_spec [OF inv(1) fuel k es True] obtain w' t' where
      "sbind (findLeafWithPath fuel (enc k)) (\<lambda>(leaf, anc). deleteFrom (\<lambda>p. del p k) leaf anc) w = (Ok (), w')" "tree_inv K h t' w'"
      "contents t' = filter (\<lambda>kv. fst kv \<noteq> enc k) (contents t)" "filled least t'" "nextPageID (pm w') = nextPageID (pm w)"
      "store.more w' = store.more w"
    using f(1) by blast
  with more_fields [of w' w] es show ?thesis by (intro exI [of _ w'] exI [of _ h] exI [of _ t']) simp
next
  case False
  let ?N = "nextPageID (pm w)"
  obtain b p' i kvs us gs V H w1 w2 where d: "findLeafWithPath fuel (enc k) w = (Ok (b, rev (map fst gs)), w1)"
    "mutate b (\<lambda>p. del p k) w1 = (Ok (), w2)" "st {i} V H ?N (store.more w) w2" "H b = Some p'" "V i = Some p'"
    "ID p' = i" "valid_id i" "leaf_page K p' us" "tree_in K h (plug (Leaf i us) gs) V ?N"
    "contents (plug (Leaf i us) gs) = filter (\<lambda>kv. fst kv \<noteq> enc k) (contents t)" "tid (plug (Leaf i us) gs) = rootID w"
    "t = plug (Leaf i kvs) gs" "enc k \<in> fst ` set kvs" "length kvs = Suc (length us)" "frames_ok gs" "length gs = h"
    by (rule delete_step [OF inv(1) fuel k]) (rule that)
  obtain v SS CS J fs where gs: "gs = (v, SS, CS, J) # fs" using False d(16) by (cases gs) auto
  have fo: "frames_ok fs" "length CS = Suc (length SS)" "J < length CS" using d(15) gs by simp_all
  have ctx: "least \<le> length kvs" "ctx_filled least fs" "\<forall>c \<in> set (siblings CS J). half least c" "fs \<noteq> [] \<longrightarrow> least \<le> length SS" "SS \<noteq> []"
    using f(1) plug_filled [OF d(15) least_pos] d(12) gs by simp_all
  have "distinct (map fst (concat (map snd (leafList t))))"
    using sorted_contents [of t] inv(1) by (simp add: tree_inv_def tree_in_def strict_sorted_iff leafList_split(2))
  moreover have "(i, kvs) \<in> set (leafList t)" using plug_leafList [OF d(15)] d(12) by simp
  ultimately have "ys = kvs" if "(j, ys) \<in> set (leafList t)" "enc k \<in> fst ` set ys" for j ys
    using key_in_one_leaf [of "leafList t" i kvs j ys "enc k"] that d(13) by blast
  then have "length kvs = least" using False ctx(1) by fastforce
  then have us: "least = Suc (length us)" using d(14) by simp
  let ?CS = "CS[J := Leaf i us]"
  have t': "plug (Leaf i us) gs = plug (Node v SS ?CS) fs" by (simp add: gs)
  have w2: "rootID w2 = rootID w" "unique w2 = unique w" "entrySize w2 = es"
    using more_fields [OF st_more [OF d(3)]] es by simp_all
  have edge: "0 < J \<or> lefts leafIDs fs = []" "J < length SS \<or> rights leafIDs fs = []"
    using f(2) d(12,13,15) unfolding sheltered_def gs by blast+
  have h: "h = Suc (length fs)" using d(16) gs by simp
  have "\<exists>w'. fixLeafUnderflow b (rev (map fst fs) @ [v]) w2 = (Ok (), w') \<and> repaired K least (Suc (length fs)) (plug (Node v SS ?CS) fs) w2 w'"
    by (rule fixLeaf_spec [OF d(3) inv(2) d(4-6) _ _ w2(3) _ _ us fo(1) ctx(2) _ ctx(4,5) edge fin])
      (use d(9,11) t' h w2(1) fo(3) ctx(3) in simp_all)
  then obtain w' where w': "fixLeafUnderflow b (rev (map fst gs)) w2 = (Ok (), w')" "repaired K least h (plug (Leaf i us) gs) w2 w'"
    by (auto simp: gs h)
  obtain m where m: "minEntries w2 = (Ok m, w2)" "unat m = least" using minEntries_rule [OF w2(3)] by blast
  then have "\<not> m \<le> NumEntries p'" using leaf_page_numEntries [OF d(8)] us by (simp add: word_le_nat_alt)
  then have "sbind (findLeafWithPath fuel (enc k)) (\<lambda>(leaf, anc). deleteFrom (\<lambda>p. del p k) leaf anc) w = (Ok (), w')"
    using d(1,2) deref_rule [OF d(3,4)] m(1) w'(1) gs by (simp add: deleteFrom_def exec_simps)
  with w'(2) d(10) w2 st_next [OF d(3)] show ?thesis unfolding repaired_def by auto
qed

end

interpretation int_repair: repaired_delete 8 EncodeInt64 Delete 16 101
  by unfold_locales

text \<open>A tree with fewer than 20604 rows has at most one level above its leaves.\<close>

lemma low_tree:
  assumes "balanced t h" "filled m t" "length (contents t) < 2 * m * Suc m"
  shows "h \<le> 1"
proof (rule ccontr)
  assume "\<not> h \<le> 1"
  then obtain g where h: "h = Suc (Suc g)" by (metis One_nat_def Suc_le_D not_less_eq_eq)
  have "2 * m * Suc m \<le> 2 * m * Suc m ^ Suc g"
    using power_increasing [of 1 "Suc g" "Suc m"] by (intro mult_le_mono2) (simp del: power_Suc)
  also have "\<dots> \<le> length (contents t)" using filled_rows assms(1,2) h by blast
  finally show False using assms(3) by simp
qed

lemma BTree_Delete_repair:
  assumes inv: "tree_inv 8 h t w" "valid_id (nextPageID (pm w))" and fuel: "h \<le> fuel" and k: "k \<in> fst ` set (rows t)"
    and es: "entrySize w = 16" and f: "filled 101 t" "sheltered (EncodeInt64 k) t"
  shows "\<exists>w' h' t'. BTree_Delete fuel k w = (Ok (), w') \<and> tree_inv 8 h' t' w' \<and> rows t' = filter (\<lambda>r. fst r \<noteq> k) (rows t) \<and>
    filled 101 t' \<and> h' \<le> h \<and> nextPageID (pm w') = nextPageID (pm w) \<and> unique w' = unique w \<and> entrySize w' = 16"
proof -
  have "EncodeInt64 k \<in> fst ` set (contents t)" using k rows_key [OF inv(1), of k] by simp
  then show ?thesis
    using int_repair.delete_repair [OF inv fuel _ es f finishes_all] rows_delete [OF inv(1), of k]
    unfolding BTree_Delete_from rows_def by metis
qed

text \<open>Below 20604 rows every leaf is sheltered.\<close>

lemma rows_sheltered:
  assumes "tree_inv 8 h t w" "filled 101 t" "length (rows t) < 20604"
  shows "sheltered k t"
proof -
  have bal: "balanced t h" using assms(1) by (simp add: tree_inv_def tree_in_def)
  then show ?thesis using sheltered_low low_tree [OF bal assms(2)] assms(3) by (simp add: rows_def rowsOf_def)
qed

end
