(* ===== verification/Client.thy ===== *)
theory Client
  imports Index Delete_Repair
begin

text \<open>
  A client of the tree: any sequence of \<^verbatim>\<open>Insert\<close>, \<^verbatim>\<open>Delete\<close>, \<^verbatim>\<open>Search\<close>, \<^verbatim>\<open>Scan\<close> and \<^verbatim>\<open>Sync\<close> calls gets the answers a
  sorted list of rows would give.
\<close>

section \<open>Calls and answers\<close>

datatype call = CInsert int64 int64 | CDelete int64 | CSearch int64 | CScan int64 int64 | CSync

datatype answer = Done | Failed error | Found "int64 \<times> bool" | Rows "ScanResult list" | Crash

definition answered :: "('a \<Rightarrow> answer) \<Rightarrow> 'a res \<times> 's \<Rightarrow> answer \<times> 's" where
  "answered f x = (case x of (Ok a, w) \<Rightarrow> (f a, w) | (Err e, w) \<Rightarrow> (Failed e, w) | (_, w) \<Rightarrow> (Crash, w))"

text \<open>The order in which \<^verbatim>\<open>range p.items\<close> visits the cached pages: \<open>order\<close> stands for the choice Go makes.\<close>

definition walk :: "(PageID list \<Rightarrow> PageID list) \<Rightarrow> 's store_scheme \<Rightarrow> PageID list" where
  "walk order w = (case pool w of None \<Rightarrow> [] | Some p \<Rightarrow> order (map fst (items p)))"

fun runCall :: "(PageID list \<Rightarrow> PageID list) \<Rightarrow> nat \<Rightarrow> call \<Rightarrow> BTree \<Rightarrow> answer \<times> BTree" where
  "runCall order fuel (CInsert k v) w = answered (\<lambda>_. Done) (BTree_Insert fuel k v w)"
| "runCall order fuel (CDelete k) w = answered (\<lambda>_. Done) (BTree_Delete fuel k w)"
| "runCall order fuel (CSearch k) w = answered Found (BTree_Search fuel k w)"
| "runCall order fuel (CScan s e) w = answered Rows (BTree_Scan fuel (unat (nextPageID (pm w))) s e w)"
| "runCall order fuel CSync w = answered (\<lambda>_. Done) (BTree_Sync (walk order w) w)"

fun runCalls :: "(PageID list \<Rightarrow> PageID list) \<Rightarrow> nat \<Rightarrow> call list \<Rightarrow> BTree \<Rightarrow> answer list \<times> BTree" where
  "runCalls order fuel [] w = ([], w)"
| "runCalls order fuel (c # cs) w =
     (let (a, w) = runCall order fuel c w; (as, w) = runCalls order fuel cs w in (a # as, w))"

section \<open>The specification\<close>

text \<open>A list of rows in ascending order of their keys.\<close>

definition rowOrder :: "int64 \<times> int64 \<Rightarrow> int" where
  "rowOrder r = sint (fst r)"

fun specCall :: "call \<Rightarrow> (int64 \<times> int64) list \<Rightarrow> answer \<times> (int64 \<times> int64) list" where
  "specCall (CInsert k v) rs =
     (if k \<in> fst ` set rs then (Failed ErrDuplicateKey, rs) else (Done, insort_key rowOrder (k, v) rs))"
| "specCall (CDelete k) rs =
     (if k \<in> fst ` set rs then (Done, filter (\<lambda>r. fst r \<noteq> k) rs) else (Failed ErrKeyNotFound, rs))"
| "specCall (CSearch k) rs = (Found (case map_of rs k of None \<Rightarrow> (0, False) | Some v \<Rightarrow> (v, True)), rs)"
| "specCall (CScan s e) rs =
     (if sint e < sint s then Failed ErrInvalidRange
      else Rows (map scanRow (filter (\<lambda>r. sint s \<le> sint (fst r) \<and> sint (fst r) \<le> sint e) rs)), rs)"
| "specCall CSync rs = (Done, rs)"

fun specCalls :: "call list \<Rightarrow> (int64 \<times> int64) list \<Rightarrow> answer list \<times> (int64 \<times> int64) list" where
  "specCalls [] rs = ([], rs)"
| "specCalls (c # cs) rs = (let (a, rs) = specCall c rs; (as, rs) = specCalls cs rs in (a # as, rs))"

section \<open>The tree implements it\<close>

text \<open>
  A tree with room for \<open>n\<close> more calls: each of them makes the tree at most one level higher and, since it then has
  at most two to the 21 levels, takes fewer than two to the 22 new page numbers.
\<close>

definition holds_tree :: "nat \<Rightarrow> nat \<Rightarrow> nat \<Rightarrow> btree \<Rightarrow> BTree \<Rightarrow> bool" where
  "holds_tree fuel n h t w \<longleftrightarrow> tree_inv 8 h t w \<and> unique w \<and> entrySize w = 16 \<and> filled 101 t \<and>
     h + n \<le> fuel \<and> h + n \<le> 2 ^ 21 \<and> unat (nextPageID (pm w)) + n * 2 ^ 22 < 2 ^ 51"

definition tree_rows :: "nat \<Rightarrow> nat \<Rightarrow> BTree \<Rightarrow> (int64 \<times> int64) list \<Rightarrow> bool" where
  "tree_rows fuel n w rs \<longleftrightarrow> (\<exists>h t. holds_tree fuel n h t w \<and> rows t = rs)"

lemma sorted_key_unique:
  assumes "sorted_wrt (\<lambda>a b. sint (fst a) < sint (fst b)) xs" "sorted_wrt (\<lambda>a b. sint (fst a) < sint (fst b)) ys"
    and "set xs = set (ys :: (int64 \<times> int64) list)"
  shows "xs = ys"
proof -
  have "sorted_wrt (<) (map rowOrder xs)" "sorted_wrt (<) (map rowOrder ys)"
    using assms(1,2) by (simp_all add: sorted_wrt_map rowOrder_def)
  then have keys: "map rowOrder xs = map rowOrder ys" using assms(3) by (intro strict_sorted_equal) auto
  have "inj_on rowOrder (set xs)"
  proof (rule inj_onI)
    fix a b assume "a \<in> set xs" "b \<in> set xs" "rowOrder a = rowOrder b"
    with assms(1) show "a = b"
      by (auto simp: rowOrder_def in_set_conv_nth sorted_wrt_iff_nth_less) (metis less_irrefl linorder_neqE_nat)
  qed
  with keys assms(3) show ?thesis by (simp add: inj_on_map_eq_map)
qed

lemma insort_rows:
  assumes "sorted_wrt (\<lambda>a b. sint (fst a) < sint (fst b)) rs" "k \<notin> fst ` set rs"
  shows "sorted_wrt (\<lambda>a b. sint (fst a) < sint (fst b)) (insort_key rowOrder (k, v) rs)"
  using assms
proof (induction rs)
  case (Cons r rs)
  have "sint k \<noteq> sint (fst r)" using Cons.prems by (simp add: sint_eq_iff)
  with Cons show ?case by (auto simp: rowOrder_def set_insort_key)
qed simp

lemma inserted_rows:
  assumes inv: "tree_inv 8 h t w" and i: "inserted 8 EncodeInt64 h t k v w h' t' w'" and k: "k \<notin> fst ` set (rows t)"
  shows "rows t' = insort_key rowOrder (k, v) (rows t)"
proof (rule sorted_key_unique)
  have "tree_inv 8 h' t' w'" using i by (simp add: inserted_def)
  then show "sorted_wrt (\<lambda>a b. sint (fst a) < sint (fst b)) (rows t')" by (rule rows_sorted)
  show "sorted_wrt (\<lambda>a b. sint (fst a) < sint (fst b)) (insort_key rowOrder (k, v) (rows t))"
    using insort_rows [OF rows_sorted(1) [OF inv] k] .
  show "set (rows t') = set (insort_key rowOrder (k, v) (rows t))"
    using i by (simp add: inserted_def rows_def rowsOf_insert_nth set_insert_nth set_insort_key)
qed

fun isDelete :: "call \<Rightarrow> bool" where
  "isDelete (CDelete k) = True"
| "isDelete _ = False"

text \<open>
  Every deletion finds fewer than 20604 rows: the tree then has at most one level above its leaves, and the chain
  neighbours of every leaf are children of its parent.
\<close>

fun lowDeletes :: "call list \<Rightarrow> (int64 \<times> int64) list \<Rightarrow> bool" where
  "lowDeletes [] rs = True"
| "lowDeletes (c # cs) rs = ((isDelete c \<longrightarrow> length rs < 20604) \<and> lowDeletes cs (snd (specCall c rs)))"

text \<open>What a call finds in a tree, and what it leaves if it changes no page of the tree or the tree itself.\<close>

lemma holds_treeD:
  assumes "holds_tree fuel (Suc n) h t w"
  shows "tree_inv 8 h t w" "h \<le> fuel" "unat (nextPageID (pm w)) + h + 2 < 2 ^ 51" "unique w" "entrySize w = 16" "filled 101 t"
  using assms by (simp_all add: holds_tree_def)

lemma call_keeps:
  assumes "holds_tree fuel (Suc n) h t w" "tree_inv 8 h t w'" "nextPageID (pm w') = nextPageID (pm w)" "store.more w' = store.more w"
  shows "tree_rows fuel n w' (rows t)"
  using assms more_fields [of w' w] unfolding tree_rows_def holds_tree_def by (intro exI [of _ h] exI [of _ t]) simp

lemma call_changes:
  assumes "holds_tree fuel (Suc n) h t w" "tree_inv 8 h' t' w'" "h' \<le> Suc h" "unat (nextPageID (pm w')) \<le> unat (nextPageID (pm w)) + h + 2"
    "unique w'" "entrySize w' = 16" "filled 101 t'"
  shows "tree_rows fuel n w' (rows t')"
  using assms unfolding tree_rows_def holds_tree_def by (intro exI [of _ h'] exI [of _ t']) simp

lemma insert_call:
  assumes t: "holds_tree fuel (Suc n) h t w"
  shows "\<exists>w'. runCall order fuel (CInsert k v) w = (fst (specCall (CInsert k v) (rows t)), w') \<and>
    tree_rows fuel n w' (snd (specCall (CInsert k v) (rows t)))"
proof (cases "k \<in> fst ` set (rows t)")
  case True
  then obtain w' where "BTree_Insert fuel k v w = (Err ErrDuplicateKey, w')" "tree_rows fuel n w' (rows t)"
    using BTree_Insert_spec(2) [OF holds_treeD(1-3) [OF t], of k v] holds_treeD(4) [OF t] call_keeps [OF t] by blast
  with True show ?thesis by (simp add: answered_def)
next
  case False
  then obtain w' t' h' where w': "BTree_Insert fuel k v w = (Ok (), w')" "inserted 8 EncodeInt64 h t k v w h' t' w'"
    using BTree_Insert_spec(1) [OF holds_treeD(1-3) [OF t], of k v] by blast
  then have "tree_rows fuel n w' (rows t')" using holds_treeD(4-6) [OF t] by (intro call_changes [OF t, of h']) (auto simp: inserted_def)
  moreover have "rows t' = insort_key rowOrder (k, v) (rows t)" using inserted_rows [OF holds_treeD(1) [OF t] w'(2) False] .
  ultimately show ?thesis using w'(1) False by (simp add: answered_def)
qed

lemma delete_call:
  assumes t: "holds_tree fuel (Suc n) h t w" and few: "length (rows t) < 20604"
  shows "\<exists>w'. runCall order fuel (CDelete k) w = (fst (specCall (CDelete k) (rows t)), w') \<and>
    tree_rows fuel n w' (snd (specCall (CDelete k) (rows t)))"
proof (cases "k \<in> fst ` set (rows t)")
  case True
  have N: "valid_id (nextPageID (pm w))" using holds_treeD(3) [OF t] by (simp add: valid_id_def)
  obtain w' h' t' where w': "BTree_Delete fuel k w = (Ok (), w')" "tree_inv 8 h' t' w'" "rows t' = filter (\<lambda>r. fst r \<noteq> k) (rows t)"
      "filled 101 t'" "h' \<le> h" "nextPageID (pm w') = nextPageID (pm w)" "unique w' = unique w" "entrySize w' = 16"
    using BTree_Delete_repair [OF holds_treeD(1) [OF t] N holds_treeD(2) [OF t] _ holds_treeD(5,6) [OF t], of k]
      rows_sheltered [OF holds_treeD(1,6) [OF t]] few True by auto
  then have "tree_rows fuel n w' (rows t')" using holds_treeD(4) [OF t] by (intro call_changes [OF t]) auto
  with w'(1,3) True show ?thesis by (simp add: answered_def)
next
  case False
  then obtain w' where "BTree_Delete fuel k w = (Err ErrKeyNotFound, w')" "tree_rows fuel n w' (rows t)"
    using BTree_Delete_missing [OF holds_treeD(1,2) [OF t], of k] call_keeps [OF t] by blast
  with False show ?thesis by (simp add: answered_def)
qed

lemma scan_call:
  assumes t: "holds_tree fuel (Suc n) h t w"
  shows "\<exists>w'. runCall order fuel (CScan s e) w = (fst (specCall (CScan s e) (rows t)), w') \<and>
    tree_rows fuel n w' (snd (specCall (CScan s e) (rows t)))"
proof (cases "sint e < sint s")
  case True
  then show ?thesis
    using call_keeps [OF t holds_treeD(1) [OF t]] by (simp add: answered_def BTree_Scan_def word_sless_alt sfail_def)
next
  case False
  have fuel: "length (leafIDs t) \<le> unat (nextPageID (pm w))"
    using holds_treeD(1) [OF t] tree_in_bounds(2) by (auto simp: tree_inv_def)
  obtain w' where "BTree_Scan fuel (unat (nextPageID (pm w))) s e w =
      (Ok (map scanRow (filter (\<lambda>r. \<not> fst r <s s \<and> \<not> e <s fst r) (rows t))), w')" "tree_rows fuel n w' (rows t)"
    using BTree_Scan_spec [OF holds_treeD(1,2) [OF t] fuel, of e s] False call_keeps [OF t] by (auto simp: word_sless_alt)
  with False show ?thesis by (simp add: answered_def word_sless_alt not_less)
qed

lemma sync_call:
  assumes t: "holds_tree fuel (Suc n) h t w" and order: "\<forall>xs. set (order xs) = set xs"
  shows "\<exists>w'. runCall order fuel CSync w = (Done, w') \<and> tree_rows fuel n w' (rows t)"
proof -
  have "walk_of (walk order w) w" using order by (simp add: walk_of_def walk_def)
  from sync_reopen [OF holds_treeD(1) [OF t] this] obtain w' where
    w': "BTree_Sync (walk order w) w = (Ok (), w')" "tree_inv 8 h t w'" "nextPageID (pm w') = nextPageID (pm w)" "store.more w' = store.more w" by blast
  from call_keeps [OF t w'(2-4)] w'(1) show ?thesis by (simp add: answered_def)
qed

lemma runCall_spec:
  assumes abs: "tree_rows fuel (Suc n) w rs" and order: "\<forall>xs. set (order xs) = set xs" and few: "isDelete c \<longrightarrow> length rs < 20604"
  shows "\<exists>w'. runCall order fuel c w = (fst (specCall c rs), w') \<and> tree_rows fuel n w' (snd (specCall c rs))"
proof -
  obtain h t where t: "holds_tree fuel (Suc n) h t w" "rows t = rs" using abs by (auto simp: tree_rows_def)
  show ?thesis
  proof (cases c)
    case (CSearch k)
    obtain w' where "BTree_Search fuel k w = (Ok (case map_of rs k of None \<Rightarrow> (0, False) | Some v \<Rightarrow> (v, True)), w')" "tree_rows fuel n w' rs"
      using BTree_Search_spec [OF holds_treeD(1,2) [OF t(1)], of k] t(2) call_keeps [OF t(1)] by blast
    with CSearch show ?thesis by (simp add: answered_def)
  qed (use insert_call [OF t(1), of order] delete_call [OF t(1), of order] scan_call [OF t(1), of order] sync_call [OF t(1) order] t(2) few in auto)
qed

lemma opened_rows:
  assumes "n \<le> fuel" "n \<le> 2 ^ 21"
  shows "\<exists>w. OpenUnique (Ok (fileWith [])) opts = Ok w \<and> tree_rows fuel n w []"
proof -
  obtain w where w: "openWith (Ok (fileWith [])) 16 True opts = Ok w" "tree_inv 8 0 (Leaf 1 []) w" "unique w" "nextPageID (pm w) = 2" "entrySize w = 16"
    using openWith_empty [of 16 True opts 8] by auto
  then have "holds_tree fuel n 0 (Leaf 1 []) w" using assms by (simp add: holds_tree_def)
  then show ?thesis using w(1) unfolding tree_rows_def OpenUnique_def by (fastforce simp: rows_def rowsOf_def)
qed

lemma runCalls_spec:
  "tree_rows fuel (length cs) w rs \<Longrightarrow> \<forall>xs. set (order xs) = set xs \<Longrightarrow> lowDeletes cs rs \<Longrightarrow>
   \<exists>w'. runCalls order fuel cs w = (fst (specCalls cs rs), w') \<and> tree_rows fuel 0 w' (snd (specCalls cs rs))"
proof (induction cs arbitrary: w rs)
  case (Cons c cs)
  have low: "isDelete c \<longrightarrow> length rs < 20604" "lowDeletes cs (snd (specCall c rs))" using Cons.prems(3) by simp_all
  obtain w1 where w1: "runCall order fuel c w = (fst (specCall c rs), w1)" "tree_rows fuel (length cs) w1 (snd (specCall c rs))"
    using runCall_spec [OF _ Cons.prems(2) low(1), of fuel "length cs" w] Cons.prems(1) by auto
  from Cons.IH [OF w1(2) Cons.prems(2) low(2)] w1(1) show ?case by (auto simp: split_beta Let_def)
qed simp

end
