(* ===== verification/Tree_Properties.thy ===== *)
theory Tree_Properties
  imports Client
begin

text \<open>
  What the tree of \<^verbatim>\<open>btree.go\<close> promises: opening, searching, inserting, scanning and deleting in terms of
  the map of rows it holds, the shape it keeps, and what survives a crash.
\<close>

section \<open>Concrete trees\<close>

text \<open>A tree on a new file, and one with a single row.\<close>

lemma newTree:
  obtains w where "OpenUnique (Ok (fileWith [])) [] = Ok w" "tree_inv 8 0 (Leaf 1 []) w" "unique w" "entrySize w = 16"
    "nextPageID (pm w) = 2" "holds w Map.empty"
proof -
  obtain w where w: "OpenUnique (Ok (fileWith [])) [] = Ok w" "tree_inv 8 0 (Leaf 1 []) w" "unique w" "entrySize w = 16"
      "nextPageID (pm w) = 2"
    using openWith_empty [of 16 True "[]" 8] by (auto simp: OpenUnique_def)
  moreover have "holds w Map.empty"
    using w(2) unfolding holds_def by (intro exI [of _ 0] exI [of _ "Leaf 1 []"]) (simp add: rows_def rowsOf_def)
  ultimately show ?thesis using that by blast
qed

lemma oneRow:
  obtains w t where "tree_inv 8 0 t w" "rows t = [(5, 50)]" "unique w" "entrySize w = 16" "unat (nextPageID (pm w)) \<le> 4"
    "holds w [5 \<mapsto> 50]"
proof -
  obtain w where w: "tree_inv 8 0 (Leaf 1 []) w" "unique w" "entrySize w = 16" "nextPageID (pm w) = 2"
    using newTree by metis
  obtain w' t' h' where "inserted 8 EncodeInt64 0 (Leaf 1 []) 5 50 w h' t' w'"
    using BTree_Insert_spec(1) [OF w(1), of 0 5 50] w(4) by (auto simp: rows_def rowsOf_def)
  then have i: "tree_inv 8 0 t' w'" "contents t' = [(EncodeInt64 5, EncodeInt64 50)]" "unique w'" "entrySize w' = 16"
      "unat (nextPageID (pm w')) \<le> 4"
    using w by (auto simp: inserted_def insert_nth_def)
  then have "rows t' = [(5, 50)]" by (simp add: rows_def rowsOf_def)
  moreover from this have "holds w' [5 \<mapsto> 50]"
    using i(1) unfolding holds_def by (intro exI [of _ 0] exI [of _ t']) simp
  ultimately show ?thesis using that i by blast
qed

section \<open>Opening\<close>

text \<open>
  Opening a new, empty file as a unique tree, with any buffer pools, succeeds and gives a tree that
  holds no row and refuses duplicates.
\<close>

lemma tree_open_empty:
  "\<exists>w. OpenUnique (Ok (fileWith [])) opts = Ok w \<and> holds w Map.empty \<and> unique w"
proof -
  obtain w where "openWith (Ok (fileWith [])) 16 True opts = Ok w" "tree_inv 8 0 (Leaf 1 []) w" "unique w"
    using openWith_empty [of 16 True opts 8] by auto
  then show ?thesis
    unfolding OpenUnique_def holds_def
    by (intro exI [of _ w] conjI exI [of _ 0] exI [of _ "Leaf 1 []"]) (simp_all add: rows_def rowsOf_def)
qed

section \<open>Search\<close>

text \<open>
  C6. Search returns the record of the key if the tree holds the key and reports it missing otherwise,
  and leaves the rows as they are; one unit of fuel per allocated page is enough for the descent.
\<close>

theorem tree_search_correct:
  assumes "holds w m" "unat (nextPageID (pm w)) \<le> fuel"
  shows "\<exists>w'. BTree_Search fuel k w = (Ok (case m k of None \<Rightarrow> (0, False) | Some v \<Rightarrow> (v, True)), w') \<and> holds w' m"
proof -
  obtain h t where t: "tree_inv 8 h t w" "map_of (rows t) = m" using assms(1) by (auto simp: holds_def)
  then have "h \<le> fuel" using assms(2) tree_in_bounds(1) [of 8 h t] by (fastforce simp: tree_inv_def)
  with BTree_Search_spec [OF t(1), of fuel k] t(2) show ?thesis unfolding holds_def by blast
qed

theorem tree_search_correct_witness:
  "\<exists>w w'. holds w [5 \<mapsto> 50] \<and> BTree_Search 4 5 w = (Ok (50, True), w') \<and> holds w' [5 \<mapsto> 50]"
proof -
  obtain w where w: "holds w [5 \<mapsto> 50]" "unat (nextPageID (pm w)) \<le> 4" using oneRow by metis
  with tree_search_correct [OF w, of 5] show ?thesis by auto
qed

section \<open>Insertion\<close>

text \<open>
  C5. Inserting a key the tree does not hold succeeds and adds exactly that row, whatever splits it causes
  up to the root, as long as page numbers stay in the range of file offsets.
\<close>

theorem tree_insert_new:
  assumes "holds w m" "k \<notin> dom m" "unat (nextPageID (pm w)) \<le> fuel" "unat (nextPageID (pm w)) < 2 ^ 49"
  shows "\<exists>w'. BTree_Insert fuel k v w = (Ok (), w') \<and> holds w' (m(k \<mapsto> v)) \<and> unique w' = unique w"
proof -
  obtain h t where t: "tree_inv 8 h t w" "map_of (rows t) = m" using assms(1) by (auto simp: holds_def)
  have h: "h < unat (nextPageID (pm w))" using t(1) tree_in_bounds(1) by (auto simp: tree_inv_def)
  have k: "k \<notin> fst ` set (rows t)" using dom_rows [OF t(2)] assms(2) by blast
  obtain w' t' h' where w': "BTree_Insert fuel k v w = (Ok (), w')" "inserted 8 EncodeInt64 h t k v w h' t' w'"
    using BTree_Insert_spec(1) [OF t(1) _ _ k, of fuel v] h assms(3,4) by auto
  with inserted_map [OF t(1) w'(2) k] t(2) show ?thesis unfolding holds_def inserted_def by blast
qed

theorem tree_insert_new_witness:
  "\<exists>w w'. holds w [5 \<mapsto> 50] \<and> BTree_Insert 4 7 70 w = (Ok (), w') \<and> holds w' [5 \<mapsto> 50, 7 \<mapsto> 70]"
proof -
  obtain w where w: "holds w [5 \<mapsto> 50]" "unat (nextPageID (pm w)) \<le> 4" using oneRow by metis
  with tree_insert_new [OF w(1) _ w(2), of 7 70] show ?thesis by auto
qed

text \<open>
  Inserting a key a unique tree already holds returns \<^verbatim>\<open>ErrDuplicateKey\<close> and leaves every row as it was.
\<close>

lemma tree_insert_duplicate:
  assumes "holds w m" "unique w" "k \<in> dom m" "unat (nextPageID (pm w)) \<le> fuel" "unat (nextPageID (pm w)) < 2 ^ 49"
  shows "\<exists>w'. BTree_Insert fuel k v w = (Err ErrDuplicateKey, w') \<and> holds w' m \<and> unique w'"
proof -
  obtain h t where t: "tree_inv 8 h t w" "map_of (rows t) = m" using assms(1) by (auto simp: holds_def)
  have h: "h < unat (nextPageID (pm w))" using t(1) tree_in_bounds(1) by (auto simp: tree_inv_def)
  have k: "k \<in> fst ` set (rows t)" using dom_rows [OF t(2)] assms(3) by blast
  obtain w' where "BTree_Insert fuel k v w = (Err ErrDuplicateKey, w')" "tree_inv 8 h t w'" "store.more w' = store.more w"
    using BTree_Insert_spec(2) [OF t(1) _ _ k assms(2), of fuel v] h assms(4,5) by auto
  with t(2) assms(2) more_fields [of w' w] show ?thesis unfolding holds_def by blast
qed

text \<open>
  C4. Inserting a key the tree does not hold keeps the shape of a B+ tree: all leaves at one depth, keys in order under their
  separators, every leaf linked to its neighbours in key order, distinct pages below the next page number,
  metadata pointing to the root. If the leaf that the separators give to the key holds fewer than 203 rows,
  the height stays and no page is allocated; otherwise the tree gains at most one level.
\<close>

theorem tree_insert_keeps_shape:
  assumes "tree_inv 8 h t w" "k \<notin> fst ` set (rows t)" "h \<le> fuel" "unat (nextPageID (pm w)) + h + 2 < 2 ^ 51"
  shows "\<exists>w' t' h'. BTree_Insert fuel k v w = (Ok (), w') \<and> tree_inv 8 h' t' w' \<and>
    rows t' = insort_key rowOrder (k, v) (rows t) \<and> (h' = h \<or> h' = Suc h) \<and>
    (h' = h \<and> nextPageID (pm w') = nextPageID (pm w) \<or>
     (\<exists>i kvs fs. t = plug (Leaf i kvs) fs \<and> ctx_ordered fs \<and> within fs {EncodeInt64 k} \<and> 203 \<le> length kvs))"
proof -
  obtain w' t' h' where w': "BTree_Insert fuel k v w = (Ok (), w')" "inserted 8 EncodeInt64 h t k v w h' t' w'"
    using BTree_Insert_spec(1) [OF assms(1,3,4,2)] by blast
  moreover have "(4075 < Suc n * (8 + 12)) = (203 \<le> n)" for n by arith
  ultimately have "tree_inv 8 h' t' w'" "h' = h \<or> h' = Suc h" "h' = h \<and> nextPageID (pm w') = nextPageID (pm w) \<or>
     (\<exists>i kvs fs. t = plug (Leaf i kvs) fs \<and> ctx_ordered fs \<and> within fs {EncodeInt64 k} \<and> 203 \<le> length kvs)"
    by (auto simp: inserted_def full_leaf_def)
  with w'(1) inserted_rows [OF assms(1) w'(2) assms(2)] show ?thesis by blast
qed

theorem tree_insert_keeps_shape_witness:
  "\<exists>w t w' t'. tree_inv 8 0 t w \<and> rows t = [(5, 50)] \<and> BTree_Insert 0 7 70 w = (Ok (), w') \<and> tree_inv 8 0 t' w' \<and>
    rows t' = [(5, 50), (7, 70)] \<and> nextPageID (pm w') = nextPageID (pm w)"
proof -
  obtain w t where w: "tree_inv 8 0 t w" "rows t = [(5, 50)]" "unat (nextPageID (pm w)) \<le> 4" using oneRow by metis
  have small: "length kvs \<le> 1" if "t = plug (Leaf i kvs) fs" "ctx_ordered fs" for i kvs fs
    using plug_contents [OF ctx_ordered_frames_ok [OF that(2)], of "Leaf i kvs"] that(1) arg_cong [OF w(2), of length]
    by (simp add: rows_def rowsOf_def)
  have "\<not> (\<exists>i kvs fs. t = plug (Leaf i kvs) fs \<and> ctx_ordered fs \<and> within fs {EncodeInt64 7} \<and> 203 \<le> length kvs)"
    using small by fastforce
  moreover have "insort_key rowOrder (7, 70) [(5, 50)] = [(5, 50), (7, 70)]" by (simp add: rowOrder_def)
  moreover have "7 \<notin> fst ` set (rows t)" "unat (nextPageID (pm w)) + 0 + 2 < 2 ^ 51" using w(2,3) by simp_all
  ultimately obtain w' t' where "BTree_Insert 0 7 70 w = (Ok (), w')" "tree_inv 8 0 t' w'" "rows t' = [(5, 50), (7, 70)]"
      "nextPageID (pm w') = nextPageID (pm w)"
    using tree_insert_keeps_shape [OF w(1), of 7 0 70] by (simp only: w(2)) auto
  with w(1,2) show ?thesis by blast
qed

section \<open>Scan\<close>

text \<open>
  C7. Scan returns exactly the rows whose keys lie between the bounds, in ascending key order, following
  the leaf chain to its end; a range whose end is below its start is refused with \<^verbatim>\<open>ErrInvalidRange\<close>.
\<close>

theorem tree_scan_range:
  assumes "holds w m" "unat (nextPageID (pm w)) \<le> fuel" "unat (nextPageID (pm w)) \<le> scanFuel"
  shows "if sint e < sint s then BTree_Scan fuel scanFuel s e w = (Err ErrInvalidRange, w)
    else \<exists>w' rs. BTree_Scan fuel scanFuel s e w = (Ok (map scanRow rs), w') \<and> rangeOf m s e rs \<and> holds w' m"
proof (cases "sint e < sint s")
  case False
  obtain h t where t: "tree_inv 8 h t w" "map_of (rows t) = m" using assms(1) by (auto simp: holds_def)
  note b = tree_in_bounds [of 8 h t "known w" "nextPageID (pm w)"]
  have "h \<le> fuel" "length (leafIDs t) \<le> scanFuel" using t(1) assms(2,3) b by (auto simp: tree_inv_def)
  with BTree_Scan_spec [OF t(1), of fuel scanFuel e s] False rangeOf_filter [OF t(1), of s e] t(2)
  show ?thesis unfolding holds_def by (auto simp: word_sless_alt)
qed (simp add: BTree_Scan_def word_sless_alt sfail_def)

theorem tree_scan_range_witness:
  "\<exists>w w' rs. holds w [5 \<mapsto> 50] \<and> BTree_Scan 4 4 0 9 w = (Ok (map scanRow rs), w') \<and> rangeOf [5 \<mapsto> 50] 0 9 rs \<and>
    holds w' [5 \<mapsto> 50]"
proof -
  obtain w where w: "holds w [5 \<mapsto> 50]" "unat (nextPageID (pm w)) \<le> 4" using oneRow by metis
  with tree_scan_range [OF w w(2), of 9 0] show ?thesis by auto
qed

section \<open>Deletion\<close>

text \<open>
  C8. Deleting a key the tree does not hold returns \<^verbatim>\<open>ErrKeyNotFound\<close> and changes no row. Deleting a key a tree with
  half-full pages holds removes exactly that row, repairs every page that falls below the minimum, by lending
  or merging, up to the root, and leaves a tree with half-full pages that is no taller and has no new page,
  provided that the chain neighbours of the leaf of the key are children of its parent.
\<close>

theorem tree_delete_correct:
  assumes "tree_inv 8 h t w" "entrySize w = 16" "h \<le> fuel" "filled 101 t" "unat (nextPageID (pm w)) < 2 ^ 51"
  shows "if k \<notin> fst ` set (rows t) then
      \<exists>w'. BTree_Delete fuel k w = (Err ErrKeyNotFound, w') \<and> tree_inv 8 h t w'
    else sheltered (EncodeInt64 k) t \<longrightarrow>
      (\<exists>w' h' t'. BTree_Delete fuel k w = (Ok (), w') \<and> tree_inv 8 h' t' w' \<and> rows t' = filter (\<lambda>r. fst r \<noteq> k) (rows t) \<and>
        filled 101 t' \<and> h' \<le> h \<and> nextPageID (pm w') = nextPageID (pm w))"
proof (cases "k \<in> fst ` set (rows t)")
  case True
  have "valid_id (nextPageID (pm w))" using assms(5) by (simp add: valid_id_def)
  with BTree_Delete_repair [OF assms(1) _ assms(3) True assms(2,4)] True show ?thesis by (simp only: not_True_eq_False if_False) blast
next
  case False
  with BTree_Delete_missing [OF assms(1,3) False] show ?thesis by (simp only: not_False_eq_True if_True) blast
qed

theorem tree_delete_correct_witness:
  "\<exists>w t w' h' t' w''. tree_inv 8 0 t w \<and> rows t = [(5, 50)] \<and> BTree_Delete 0 5 w = (Ok (), w') \<and> tree_inv 8 h' t' w' \<and> rows t' = [] \<and>
    BTree_Delete 0 6 w = (Err ErrKeyNotFound, w'')"
proof -
  obtain w t where w: "tree_inv 8 0 t w" "rows t = [(5, 50)]" "entrySize w = 16" "unat (nextPageID (pm w)) \<le> 4" using oneRow by metis
  have bal: "balanced t 0" using w(1) by (simp add: tree_inv_def tree_in_def)
  then have "filled 101 t" "sheltered (EncodeInt64 5) t" using sheltered_low by (cases t; simp)+
  note del = tree_delete_correct [OF w(1,3) order_refl this(1)]
  obtain w' h' t' where "BTree_Delete 0 5 w = (Ok (), w')" "tree_inv 8 h' t' w'" "rows t' = []"
    using del [of 5] w(2,4) \<open>sheltered (EncodeInt64 5) t\<close> by auto
  moreover obtain w'' where "BTree_Delete 0 6 w = (Err ErrKeyNotFound, w'')" using del [of 6] w(2,4) by auto
  ultimately show ?thesis using w(1,2) by blast
qed

section \<open>Any sequence of calls\<close>

lemma script_tree:
  assumes "\<forall>xs. set (order xs) = set xs" "length cs \<le> fuel" "length cs < 2 ^ 21" "lowDeletes cs []"
  obtains w w' where "OpenUnique (Ok (fileWith [])) opts = Ok w" "runCalls order fuel cs w = (fst (specCalls cs []), w')"
    "tree_rows fuel 0 w' (snd (specCalls cs []))"
proof -
  obtain w where w: "OpenUnique (Ok (fileWith [])) opts = Ok w" "tree_rows fuel (length cs) w []"
    using opened_rows [OF assms(2)] assms(3) by (metis less_imp_le)
  from runCalls_spec [OF w(2) assms(1)] assms(4) obtain w' where
    "runCalls order fuel cs w = (fst (specCalls cs []), w')" "tree_rows fuel 0 w' (snd (specCalls cs []))" by auto
  with w(1) that show thesis by blast
qed

text \<open>
  C1. Refinement: a tree opened on a new file, with any buffer pools, answers every sequence of up to two
  million Insert, Delete, Search, Scan and Sync calls exactly as a sorted list of rows does, and holds the rows
  of that list at the end, whatever the order in which \<^verbatim>\<open>Sync\<close> visits the cached pages, if every Delete finds fewer than
  20604 rows, so that the tree then has at most one level above its leaves, and no system call fails.
\<close>

theorem tree_refines_sorted_list:
  assumes "\<forall>xs. set (order xs) = set xs" "length cs \<le> fuel" "length cs < 2 ^ 21" "lowDeletes cs []"
  shows "\<exists>w w'. OpenUnique (Ok (fileWith [])) opts = Ok w \<and> runCalls order fuel cs w = (fst (specCalls cs []), w') \<and>
    holds w' (map_of (snd (specCalls cs [])))"
proof -
  obtain w w' where w: "OpenUnique (Ok (fileWith [])) opts = Ok w" "runCalls order fuel cs w = (fst (specCalls cs []), w')"
      "tree_rows fuel 0 w' (snd (specCalls cs []))"
    by (rule script_tree [OF assms]) (rule that)
  then have "holds w' (map_of (snd (specCalls cs [])))" unfolding tree_rows_def holds_tree_def holds_def by metis
  with w(1,2) show ?thesis by blast
qed

theorem tree_refines_sorted_list_witness:
  "\<exists>w w'. OpenUnique (Ok (fileWith [])) [3] = Ok w \<and>
    runCalls rev 7 [CInsert 7 70, CInsert 5 50, CInsert 7 71, CSync, CScan 0 6, CDelete 5, CDelete 5] w =
      ([Done, Done, Failed ErrDuplicateKey, Done, Rows [scanRow (5, 50)], Done, Failed ErrKeyNotFound], w') \<and> holds w' [7 \<mapsto> 70]"
proof -
  let ?cs = "[CInsert 7 70, CInsert 5 50, CInsert 7 71, CSync, CScan 0 6, CDelete 5, CDelete 5]"
  have "specCalls ?cs [] = ([Done, Done, Failed ErrDuplicateKey, Done, Rows [scanRow (5, 50)], Done, Failed ErrKeyNotFound], [(7, 70)])"
    by (simp add: rowOrder_def Let_def)
  moreover have "map_of [(7, 70)] = ([7 \<mapsto> 70] :: int64 \<rightharpoonup> int64)" by auto
  moreover have "lowDeletes ?cs []" by (simp add: rowOrder_def)
  ultimately show ?thesis using tree_refines_sorted_list [of rev ?cs 7 "[3]"] by (simp del: specCalls.simps runCalls.simps)
qed

text \<open>
  C11. The answers do not depend on the buffer pools, nor on the order in which \<^verbatim>\<open>Sync\<close> visits the cached pages: trees
  opened on new files with any two pool configurations answer the same sequence of fewer than two to the 21 calls in the
  same way, if every Delete of it finds fewer than 20604 rows and no system call fails.
\<close>

theorem pools_do_not_matter:
  assumes "\<forall>xs. set (order xs) = set xs" "\<forall>xs. set (order' xs) = set xs" "length cs \<le> fuel" "length cs < 2 ^ 21"
    and "lowDeletes cs []"
  shows "\<exists>v w. OpenUnique (Ok (fileWith [])) opts = Ok v \<and> OpenUnique (Ok (fileWith [])) opts' = Ok w \<and>
    fst (runCalls order fuel cs v) = fst (runCalls order' fuel cs w)"
proof -
  obtain v v' where "OpenUnique (Ok (fileWith [])) opts = Ok v" "runCalls order fuel cs v = (fst (specCalls cs []), v')"
    by (rule script_tree [OF assms(1,3-5)]) (rule that)
  moreover obtain w w' where "OpenUnique (Ok (fileWith [])) opts' = Ok w" "runCalls order' fuel cs w = (fst (specCalls cs []), w')"
    by (rule script_tree [OF assms(2-5)]) (rule that)
  ultimately show ?thesis by auto
qed

theorem pools_do_not_matter_witness:
  "\<exists>v w. OpenUnique (Ok (fileWith [])) [1] = Ok v \<and> OpenUnique (Ok (fileWith [])) [] = Ok w \<and>
    fst (runCalls rev 3 [CInsert 7 70, CSync, CDelete 7] v) = fst (runCalls id 3 [CInsert 7 70, CSync, CDelete 7] w)"
  by (rule pools_do_not_matter) simp_all

text \<open>
  C12. After a sequence of fewer than two to the 21 calls in which every Delete finds fewer than 20604 rows the tree is as
  low as a B+ tree promises: with \<open>h\<close> levels above the leaves it holds at least \<open>2 * 101 * 102 ^ (h - 1)\<close> rows.
\<close>

theorem tree_height_logarithmic:
  assumes "\<forall>xs. set (order xs) = set xs" "length cs \<le> fuel" "length cs < 2 ^ 21" "lowDeletes cs []"
  shows "\<exists>w w' h t. OpenUnique (Ok (fileWith [])) opts = Ok w \<and> runCalls order fuel cs w = (fst (specCalls cs []), w') \<and>
    tree_inv 8 h t w' \<and> rows t = snd (specCalls cs []) \<and> (h = 0 \<or> 2 * 101 * 102 ^ (h - 1) \<le> length (rows t))"
proof -
  obtain w w' where w: "OpenUnique (Ok (fileWith [])) opts = Ok w" "runCalls order fuel cs w = (fst (specCalls cs []), w')"
      "tree_rows fuel 0 w' (snd (specCalls cs []))"
    by (rule script_tree [OF assms]) (rule that)
  then obtain h t where t: "tree_inv 8 h t w'" "rows t = snd (specCalls cs [])" "filled 101 t" unfolding tree_rows_def holds_tree_def by blast
  have bal: "balanced t h" using t(1) by (simp add: tree_inv_def tree_in_def)
  have "h = 0 \<or> 2 * 101 * 102 ^ (h - 1) \<le> length (rows t)"
    using filled_rows [of t "h - 1" 101] bal t(3) by (cases h) (simp_all add: rows_def rowsOf_def)
  with w(1,2) t(1,2) show ?thesis by blast
qed

theorem tree_height_logarithmic_witness:
  "\<exists>w w' h t. OpenUnique (Ok (fileWith [])) [2] = Ok w \<and>
    runCalls rev 3 [CInsert 7 70, CInsert 5 50, CDelete 7] w = ([Done, Done, Done], w') \<and> tree_inv 8 h t w' \<and> rows t = [(5, 50)] \<and> h = 0"
proof -
  let ?cs = "[CInsert 7 70, CInsert 5 50, CDelete 7]"
  have spec: "specCalls ?cs [] = ([Done, Done, Done], [(5, 50)])" by (simp add: rowOrder_def Let_def)
  obtain w w' h t where w: "OpenUnique (Ok (fileWith [])) [2] = Ok w" "runCalls rev 3 ?cs w = ([Done, Done, Done], w')" "tree_inv 8 h t w'"
      "rows t = [(5, 50)]" "h = 0 \<or> 2 * 101 * 102 ^ (h - 1) \<le> length (rows t)"
    using tree_height_logarithmic [of rev ?cs 3 "[2]"] unfolding spec by (auto simp: rowOrder_def simp del: runCalls.simps)
  have "1 \<le> (102 :: nat) ^ (h - 1)" by (rule one_le_power) simp
  then have "h = 0" using w(4,5) by (simp only: list.size) linarith
  with w show ?thesis by blast
qed

section \<open>Durability\<close>

text \<open>
  C9. Crash safety: after Sync returns, a tree opened again from the bytes that had reached the disk, with
  any buffer pools, holds the same rows; Sync itself changes none.
\<close>

theorem tree_sync_survives_crash:
  assumes "holds w m" "walk_of ord w"
  shows "\<exists>w' w2. BTree_Sync ord w = (Ok (), w') \<and> holds w' m \<and>
    OpenUnique (Ok (fileWith (durableBytes w'))) opts = Ok w2 \<and> holds w2 m \<and> unique w2"
proof -
  obtain h t where t: "tree_inv 8 h t w" "map_of (rows t) = m" using assms(1) by (auto simp: holds_def)
  from sync_reopen [OF t(1) assms(2), of 16 True] t(2) show ?thesis unfolding holds_def OpenUnique_def by blast
qed

theorem tree_sync_survives_crash_witness:
  "\<exists>w w' w2. holds w [5 \<mapsto> 50] \<and> BTree_Sync (walk rev w) w = (Ok (), w') \<and>
    OpenUnique (Ok (fileWith (durableBytes w'))) [2] = Ok w2 \<and> holds w2 [5 \<mapsto> 50]"
proof -
  obtain w where w: "holds w [5 \<mapsto> 50]" using oneRow by metis
  have "walk_of (walk rev w) w" by (simp add: walk_of_def walk_def)
  with tree_sync_survives_crash [OF w, of _ "[2]"] w show ?thesis by blast
qed

text \<open>
  C10. Close writes every cached change to the file: the file is closed, and a tree opened on its contents
  holds the same rows.
\<close>

theorem tree_close_keeps_rows:
  assumes "holds w m" "walk_of ord w"
  shows "\<exists>w' w2. BTree_Close ord w = (Ok (), w') \<and> closed (pm_file (pm w')) \<and>
    OpenUnique (Ok (fileWith (content (pm_file (pm w'))))) opts = Ok w2 \<and> holds w2 m"
proof -
  obtain h t where t: "tree_inv 8 h t w" "map_of (rows t) = m" using assms(1) by (auto simp: holds_def)
  have "sound w" using t(1) by (simp add: tree_inv_def)
  from store_Close_spec [OF this assms(2)] obtain w' where w': "store_Close ord w = (Ok (), w')" "closed (pm_file (pm w'))"
      "length (content (pm_file (pm w'))) \<le> 2 ^ 63" "\<forall>v p. known w v = Some p \<longrightarrow> diskPage w' v = Some (Data p)" by blast
  with openWith_reopen [OF t(1), of w' "content (pm_file (pm w'))" 16 True opts] t(2) show ?thesis
    unfolding holds_def OpenUnique_def BTree_Close_def by blast
qed

theorem tree_close_keeps_rows_witness:
  "\<exists>w w' w2. holds w [5 \<mapsto> 50] \<and> BTree_Close (walk rev w) w = (Ok (), w') \<and>
    OpenUnique (Ok (fileWith (content (pm_file (pm w'))))) [] = Ok w2 \<and> holds w2 [5 \<mapsto> 50]"
proof -
  obtain w where w: "holds w [5 \<mapsto> 50]" using oneRow by metis
  have "walk_of (walk rev w) w" by (simp add: walk_of_def walk_def)
  with tree_close_keeps_rows [OF w, of _ "[]"] w show ?thesis by blast
qed

end
