(* ===== verification/Preserves.thy ===== *)
theory Preserves
  imports Prelude
begin

text \<open>
  Operations that keep a predicate of the state whatever they return, and how sequencing and branching
  carry it: the rules \<open>stays\<close> take an operation apart into the primitive steps.
\<close>

named_theorems stays \<open>operations that keep a predicate of the state\<close>

definition preserves :: "('s \<Rightarrow> bool) \<Rightarrow> ('s, 'a) op \<Rightarrow> bool" where
  "preserves P f \<longleftrightarrow> (\<forall>w. P w \<longrightarrow> P (snd (f w)))"

lemma preservesD: "preserves P f \<Longrightarrow> P w \<Longrightarrow> f w = (r, w') \<Longrightarrow> P w'"
  by (metis preserves_def snd_conv)

lemma preserves_sbind [stays]:
  assumes "preserves P f" "\<And>x. preserves P (g x)"
  shows "preserves P (sbind f g)"
  unfolding preserves_def
proof (intro allI impI)
  fix w
  assume w: "P w"
  obtain r w1 where f: "f w = (r, w1)" by (cases "f w")
  have "P w1" using preservesD [OF assms(1) w f] .
  then show "P (snd (sbind f g w))"
    using f assms(2) by (cases r) (auto simp: exec_simps preserves_def)
qed

lemma preserves_prims [stays]:
  "preserves P (sret x)" "preserves P (sfail e)" "preserves P (slift r)" "preserves P (sget h)"
  by (simp_all add: preserves_def sprim_simps)

lemma preserves_smod [stays]: "(\<And>w. P w \<Longrightarrow> P (h w)) \<Longrightarrow> preserves P (smod h)"
  by (simp add: preserves_def sprim_simps)

lemma preserves_if [stays]: "(b \<Longrightarrow> preserves P f) \<Longrightarrow> (\<not> b \<Longrightarrow> preserves P g) \<Longrightarrow> preserves P (if b then f else g)"
  by simp

lemma preserves_Let [stays]: "(\<And>x. preserves P (f x)) \<Longrightarrow> preserves P (Let y f)"
  by simp

lemma preserves_prod [stays]: "(\<And>x y. preserves P (f x y)) \<Longrightarrow> preserves P (case z of (x, y) \<Rightarrow> f x y)"
  by (cases z) simp

lemma preserves_res [stays]:
  "(\<And>x. preserves P (f x)) \<Longrightarrow> (\<And>e. preserves P (g e)) \<Longrightarrow> preserves P p \<Longrightarrow> preserves P q \<Longrightarrow>
   preserves P (case z of Ok x \<Rightarrow> f x | Err e \<Rightarrow> g e | Panic \<Rightarrow> p | Hang \<Rightarrow> q)"
  by (cases z) simp_all

lemma preserves_option [stays]:
  "preserves P f \<Longrightarrow> (\<And>x. preserves P (g x)) \<Longrightarrow> preserves P (case z of None \<Rightarrow> f | Some x \<Rightarrow> g x)"
  by (cases z) simp_all

end
