(* ===== verification/Lru.thy ===== *)
theory Lru
  imports Preserves Store
begin

text \<open>
  The pool of \<^verbatim>\<open>pool.go\<close> is an LRU cache: on every path, failing system calls included, it stays within its
  capacity and consistent, and a successful access puts the page in front and drops the least recently
  used page when the pool is full.
\<close>

section \<open>Recency\<close>

definition recency :: "Pool \<Rightarrow> PageID list" where
  "recency p = map (\<lambda>x. e_pageID (snd x)) (lru p)"

text \<open>The specification: a list of pages, most recently used first.\<close>

definition lruStep :: "int \<Rightarrow> PageID \<Rightarrow> PageID list \<Rightarrow> PageID list" where
  "lruStep cap v vs = v # (if v \<in> set vs then removeAll v vs else if int (length vs) < cap then vs else butlast vs)"

lemma recency_distinct:
  assumes ok: "pool_ok p"
  shows "distinct (recency p)"
proof -
  have "inj_on (\<lambda>x. e_pageID (snd x)) (set (lru p))"
    using lru_unique(2) [OF ok] by (force simp: inj_on_def)
  moreover have "distinct (lru p)" using ok by (simp add: pool_ok_def distinct_map)
  ultimately show ?thesis by (simp add: recency_def distinct_map)
qed

lemma items_length:
  assumes ok: "pool_ok p"
  shows "length (items p) = length (recency p)"
proof -
  have "set (recency p) = fst ` set (items p)"
    using ok by (force simp: pool_ok_def recency_def image_image case_prod_beta)
  moreover have "distinct (map fst (items p))" using ok by (simp add: pool_ok_def)
  ultimately show ?thesis using recency_distinct [OF ok] by (metis distinct_card length_map set_map)
qed

lemma recency_cached: "pool_ok p \<Longrightarrow> v \<in> set (recency p) \<longleftrightarrow> cached p v \<noteq> None"
  using cached_iff [of p v] by (force simp: recency_def)

lemma recency_touch:
  assumes ok: "pool_ok p" and h: "map_of (items p) v = Some h"
  shows "recency (p\<lparr>lru := MoveToFront h (lru p)\<rparr>) = v # removeAll v (recency p)"
proof -
  obtain e where e: "(h, e) \<in> set (lru p)" "e_pageID e = v" using h items_iff [OF ok] by blast
  then have "map_of (lru p) h = Some e" using ok by (simp add: pool_ok_def)
  moreover have "(fst x \<noteq> h) = (v \<noteq> e_pageID (snd x))" if "x \<in> set (lru p)" for x
    using lru_unique [OF ok e(1), of "fst x" "snd x"] that e(2) by auto
  then have "filter (\<lambda>x. fst x \<noteq> h) (lru p) = filter (\<lambda>x. v \<noteq> e_pageID (snd x)) (lru p)" by (intro filter_cong) simp_all
  ultimately show ?thesis
    using e(2) by (simp add: recency_def MoveToFront_def removeAll_filter_not_eq filter_map comp_def)
qed

lemma recency_setElem: "(\<And>e. e_pageID (f e) = e_pageID e) \<Longrightarrow> recency (p\<lparr>lru := setElem h f (lru p)\<rparr>) = recency p"
  by (auto simp: recency_def setElem_def)

section \<open>Steps that leave the pool\<close>

abbreviation poolKept :: "Pool option \<Rightarrow> ('s store_scheme, 'a) op \<Rightarrow> bool" where
  "poolKept x f \<equiv> preserves (\<lambda>w. pool w = x) f"

lemma poolKept_steps [stays]: "poolKept x (newObj p)" "poolKept x (deref a)" "poolKept x (withFile act)"
  by (simp_all add: preserves_def newObj_def deref_def withFile_def split: prod.splits)

lemma poolKept_manager [stays]: "poolKept x (ReadPage v)" "poolKept x (WritePage a)"
  unfolding ReadPage_def WritePage_def by (intro stays; simp)+

section \<open>Eviction\<close>

lemma RemoveElem_last: "distinct (map fst (xs @ [(h, e)])) \<Longrightarrow> RemoveElem h (xs @ [(h, e)]) = xs"
  by (induction xs) (auto simp: RemoveElem_def)

lemma evict_outcome:
  assumes p: "pool w = Some p" and ok: "pool_ok p" and run: "evictIfFull w = (r, w')"
  shows "\<exists>q. pool w' = Some q \<and> pool_ok q \<and> capacity q = capacity p \<and>
    (r = Ok () \<longrightarrow> int (length (items q)) < capacity q \<and>
      recency q = (if int (length (recency p)) < capacity p then recency p else butlast (recency p)) \<and>
      (\<forall>v. cached p v = None \<longrightarrow> cached q v = None))"
proof (cases "int (length (items p)) < capacity p")
  case True
  then have "w' = w" using run evictIfFull_room [OF p True] by simp
  with True p ok items_length [OF ok] show ?thesis by auto
next
  case False
  have "items p \<noteq> []" using ok False by (auto simp: pool_ok_def)
  then have ne: "items p \<noteq> []" "lru p \<noteq> []" using ok by (auto simp: pool_ok_def)
  obtain h e where l: "last (lru p) = (h, e)" "(h, e) \<in> set (lru p)" using ne(2) by (metis last_in_set surj_pair)
  let ?flush = "if e_dirty e then sbind (WritePage (e_page e)) (\<lambda>_. updPool (\<lambda>p. p\<lparr>dirtyFlushes := dirtyFlushes p + 1\<rparr>)) else sret ()"
  let ?drop = "updPool (\<lambda>p. p\<lparr>lru := RemoveElem h (lru p), items := AList.delete (e_pageID e) (items p), evictions := evictions p + 1\<rparr>)"
  have step: "evictIfFull w = sbind ?flush (\<lambda>_. ?drop) w" using False ne l(1) p by (simp add: evictIfFull_def withPool_def)
  obtain r1 w1 where f: "?flush w = (r1, w1)" by (cases "?flush w")
  have "\<exists>n. pool w1 = Some (p\<lparr>dirtyFlushes := n\<rparr>)"
  proof (cases "e_dirty e")
    case True
    obtain r2 w2 where wr: "WritePage (e_page e) w = (r2, w2)" by (cases "WritePage (e_page e) w")
    have "pool w2 = Some p" using preservesD [OF poolKept_manager(2) p wr] .
    with f True wr show ?thesis
      by (cases r2) (auto simp: exec_simps updPool_def withPool_def intro: exI [of _ "dirtyFlushes p"])
  next
    case False
    with f p show ?thesis by (auto simp: exec_simps intro: exI [of _ "dirtyFlushes p"])
  qed
  then obtain n where w1: "pool w1 = Some (p\<lparr>dirtyFlushes := n\<rparr>)" by blast
  let ?p = "p\<lparr>dirtyFlushes := n\<rparr>"
  let ?q = "?p\<lparr>lru := RemoveElem h (lru ?p), items := AList.delete (e_pageID e) (items ?p), evictions := evictions ?p + 1\<rparr>"
  have ok': "pool_ok ?p" "(h, e) \<in> set (lru ?p)" using ok l(2) by simp_all
  note q = pool_ok_remove [OF ok', of "evictions ?p + 1"]
  have "distinct (map fst (butlast (lru p) @ [(h, e)]))"
    using ok append_butlast_last_id [OF ne(2)] l(1) by (simp add: pool_ok_def)
  then have "RemoveElem h (butlast (lru p) @ [(h, e)]) = butlast (lru p)" by (rule RemoveElem_last)
  then have "RemoveElem h (lru p) = butlast (lru p)" using append_butlast_last_id [OF ne(2)] l(1) by simp
  then have rec: "recency ?q = butlast (recency p)" by (simp add: recency_def map_butlast)
  show ?thesis
  proof (cases r1)
    case (Ok u)
    then have "pool w' = Some ?q \<and> r = Ok ()" using run step f w1 by (auto simp: exec_simps updPool_def withPool_def)
    with q rec False items_length [OF ok] show ?thesis by auto
  qed (use run step f w1 ok in \<open>auto simp: exec_simps\<close>)
qed

section \<open>Access\<close>

text \<open>The outcome of an access: still a pool in order, and after a success the page in front.\<close>

definition accessed :: "Pool \<Rightarrow> PageID \<Rightarrow> bool \<Rightarrow> Pool option \<Rightarrow> bool" where
  "accessed p v success x \<longleftrightarrow> (\<exists>q. x = Some q \<and> pool_ok q \<and> capacity q = capacity p \<and>
     (success \<longrightarrow> recency q = lruStep (capacity p) v (recency p)))"

lemma push_outcome:
  assumes q: "pool w = Some q" "pool_ok q" and c: "cached q v = None" "int (length (items q)) < capacity q"
  shows "\<exists>q' w'. pushFront v a d w = (Ok (), w') \<and> pool w' = Some q' \<and> pool_ok q' \<and> capacity q' = capacity q \<and> recency q' = v # recency q"
  using q c pool_ok_push(1) [OF q(2), of "\<lparr>e_pageID = v, e_page = a, e_dirty = d\<rparr>"]
  by (simp add: pushFront_def updPool_def withPool_def exec_simps recency_def)

text \<open>Making room and pushing: the common part of a missed read and a new write.\<close>

lemma make_room_outcome:
  assumes p: "pool w = Some p" "pool_ok p" and c: "cached p v = None"
    and run: "sbind evictIfFull (\<lambda>_. sbind (pushFront v a d) (\<lambda>_. sret x)) w = (r, w')"
  shows "accessed p v (r = Ok x) (pool w')"
proof -
  obtain r1 w1 where e: "evictIfFull w = (r1, w1)" by (cases "evictIfFull w")
  obtain q where q: "pool w1 = Some q" "pool_ok q" "capacity q = capacity p"
      "r1 = Ok () \<longrightarrow> int (length (items q)) < capacity q \<and>
        recency q = (if int (length (recency p)) < capacity p then recency p else butlast (recency p)) \<and> (\<forall>v. cached p v = None \<longrightarrow> cached q v = None)"
    using evict_outcome [OF p e] by blast
  show ?thesis
  proof (cases r1)
    case (Ok u)
    then have room: "cached q v = None" "int (length (items q)) < capacity q"
      and rec: "recency q = (if int (length (recency p)) < capacity p then recency p else butlast (recency p))" using q(4) c by auto
    obtain q' w2 where w2: "pushFront v a d w1 = (Ok (), w2)" "pool w2 = Some q'" "pool_ok q'" "capacity q' = capacity q" "recency q' = v # recency q"
      using push_outcome [OF q(1,2) room] by blast
    have "v \<notin> set (recency p)" using recency_cached [OF p(2)] c by simp
    moreover have "w' = w2" using run e Ok w2(1) by (simp add: exec_simps)
    ultimately show ?thesis using w2(2-5) q(3) rec by (simp add: accessed_def lruStep_def)
  qed (use run e q in \<open>auto simp: exec_simps accessed_def\<close>)
qed

lemma GetPage_outcome:
  assumes p: "pool w = Some p" "pool_ok p" and run: "GetPage v w = (r, w')"
  shows "accessed p v (\<exists>a. r = Ok a) (pool w')"
proof (cases "map_of (items p) v")
  case (Some h)
  let ?q = "p\<lparr>lru := MoveToFront h (lru p), hits := hits p + 1\<rparr>"
  have "pool w' = Some ?q"
    using run p(1) Some by (auto simp: GetPage_def withPool_def updPool_def exec_simps split: option.splits)
  moreover have "pool_ok ?q" using pool_ok_touch(1) [OF p(2)] .
  moreover have "recency ?q = recency (p\<lparr>lru := MoveToFront h (lru p)\<rparr>)" by (simp add: recency_def)
  moreover have "v \<in> set (recency p)" using recency_cached [OF p(2)] items_None_iff [OF p(2), of v] Some by auto
  ultimately show ?thesis using recency_touch [OF p(2) Some] by (simp add: accessed_def lruStep_def)
next
  case None
  let ?w0 = "w\<lparr>pool := Some (p\<lparr>misses := misses p + 1\<rparr>)\<rparr>" and ?p = "p\<lparr>misses := misses p + 1\<rparr>"
  obtain r1 w1 where rd: "ReadPage v ?w0 = (r1, w1)" by (cases "ReadPage v ?w0")
  have w1: "pool w1 = Some ?p" using preservesD [OF poolKept_manager(1) _ rd] by simp
  have ok: "pool_ok ?p" "cached ?p v = None" using p(2) items_None_iff [OF p(2)] None by simp_all
  have rec: "recency ?p = recency p" "capacity ?p = capacity p" by (simp_all add: recency_def)
  have step: "GetPage v w = sbind (ReadPage v) (\<lambda>pg. sbind evictIfFull (\<lambda>_. sbind (pushFront v pg False) (\<lambda>_. sret pg))) ?w0"
    using p(1) None by (simp add: GetPage_def withPool_def updPool_def exec_simps)
  show ?thesis
  proof (cases r1)
    case (Ok a)
    then have "sbind evictIfFull (\<lambda>_. sbind (pushFront v a False) (\<lambda>_. sret a)) w1 = (r, w')" using run step rd by (simp add: exec_simps)
    from make_room_outcome [OF w1 ok this] have "accessed ?p v (r = Ok a) (pool w')" .
    moreover have "r = Ok b \<Longrightarrow> b = a" for b
      using \<open>sbind evictIfFull _ w1 = _\<close> by (auto simp: sbind_def sret_def split: prod.splits res.splits)
    ultimately show ?thesis using rec by (auto simp: accessed_def)
  qed (use run step rd w1 ok rec in \<open>auto simp: exec_simps accessed_def\<close>)
qed

lemma Put_outcome:
  fixes w :: "'s store_scheme"
  assumes p: "pool w = Some p" "pool_ok p" and run: "Put v a w = (r, w')"
  shows "accessed p v (r = Ok ()) (pool w')"
proof (cases "map_of (items p) v")
  case (Some h)
  let ?f = "\<lambda>e. e\<lparr>e_page := a, e_dirty := True\<rparr>"
  let ?p1 = "p\<lparr>lru := setElem h ?f (lru p)\<rparr>"
  let ?q = "?p1\<lparr>lru := MoveToFront h (lru ?p1)\<rparr>"
  have ok1: "pool_ok ?p1" using pool_ok_setElem(1) [OF p(2) _ Some, of ?f] by simp
  have "pool_ok (?p1\<lparr>lru := MoveToFront h (lru ?p1), hits := hits ?p1\<rparr>)" using pool_ok_touch(1) [OF ok1] .
  then have "pool_ok ?q" by simp
  moreover have "pool w' = Some ?q" using run p(1) Some by (auto simp: Put_def withPool_def updPool_def exec_simps)
  moreover have "recency ?q = v # removeAll v (recency ?p1)" using recency_touch [OF ok1, of v h] Some by simp
  moreover have "recency ?p1 = recency p" by (rule recency_setElem) simp
  moreover have "v \<in> set (recency p)" using recency_cached [OF p(2)] items_None_iff [OF p(2), of v] Some by auto
  ultimately show ?thesis by (simp add: accessed_def lruStep_def)
next
  case None
  have "sbind f (\<lambda>_. sret ()) = f" for f :: "('s store_scheme, unit) op"
    by (simp add: fun_eq_iff sbind_def sret_def split: prod.splits res.splits)
  then have "sbind evictIfFull (\<lambda>_. sbind (pushFront v a True) (\<lambda>_. sret ())) w = (r, w')"
    using run p(1) None by (simp add: Put_def withPool_def)
  moreover have "cached p v = None" using items_None_iff [OF p(2)] None by simp
  ultimately show ?thesis using make_room_outcome [OF p, of v a True "()"] by simp
qed

end
