(* ===== verification/Heap.thy ===== *)
theory Heap
  imports Store
begin

text \<open>
  \<^verbatim>\<open>internal/heap/heap.go\<close>: the unordered row store. A record identifier is the page identifier
  times the page size plus the slot index.
\<close>

section \<open>State\<close>

record Heap = store +
  activePage :: addr

definition heap_WithBufferPool :: "int \<Rightarrow> Heap \<Rightarrow> Heap" where
  "heap_WithBufferPool cap h = h\<lparr>pool := Some (NewPool cap)\<rparr>"

section \<open>Pages\<close>

definition heap_readPage :: "PageID \<Rightarrow> (Heap, addr) op" where
  [exec_simps]: "heap_readPage v = readPage v"

definition heap_writePage :: "addr \<Rightarrow> (Heap, unit) op" where
  [exec_simps]: "heap_writePage a = writePage a"

definition Heap_PageReads :: "Heap \<Rightarrow> uint64" where
  "Heap_PageReads h = PageReads h"

definition Heap_PageWrites :: "Heap \<Rightarrow> uint64" where
  "Heap_PageWrites h = PageWrites h"

section \<open>Opening\<close>

definition openActive :: "(Heap, addr) op" where
  "openActive =
     sbind (sget PageCount) (\<lambda>n.
     if n = 0 then
       sbind AllocatePageID (\<lambda>v.
       sbind (newObj (NewHeapPage v)) (\<lambda>p.
       sbind (heap_writePage p) (\<lambda>_.
       sret p)))
     else
       sbind (sget PageCount) (\<lambda>m. heap_readPage (m - 1)))"

definition heap_Open :: "osfile res \<Rightarrow> int list \<Rightarrow> Heap res" where
  "heap_Open opened opts =
     rbind (storage_Open opened) (\<lambda>m.
     let h = \<lparr>objs = [], pm = m, pool = None, activePage = 0\<rparr>;
         h = fold heap_WithBufferPool opts h in
     case openActive h of (r, h') \<Rightarrow> rbind r (\<lambda>a. Ok (h'\<lparr>activePage := a\<rparr>)))"

definition Heap_Sync :: "PageID list \<Rightarrow> (Heap, unit) op" where
  "Heap_Sync ord = store_Sync ord"

definition Heap_Close :: "PageID list \<Rightarrow> (Heap, unit) op" where
  "Heap_Close ord = store_Close ord"

definition Heap_ResetStats :: "(Heap, unit) op" where
  "Heap_ResetStats = pm_ResetStats"

section \<open>Rows\<close>

definition recordIDOf :: "PageID \<Rightarrow> uint16 \<Rightarrow> int64" where
  "recordIDOf v slotIndex = v * 4096 + ucast slotIndex"

text \<open>A full active page is replaced by a fresh one before the row goes in.\<close>

definition roomyPage :: "nat \<Rightarrow> (Heap, addr) op" where
  "roomyPage len =
     sbind (sget activePage) (\<lambda>a.
     sbind (deref a) (\<lambda>p.
     if \<not> HasSpaceFor p len then
       sbind AllocatePageID (\<lambda>v.
       sbind (newObj (NewHeapPage v)) (\<lambda>b.
       sbind (smod (\<lambda>h. h\<lparr>activePage := b\<rparr>)) (\<lambda>_.
       sret b)))
     else sret a))"

definition Heap_Put :: "byte list \<Rightarrow> (Heap, int64) op" where
  "Heap_Put rowBytes =
     (if HeaderSize + SlotSize + length rowBytes > PageSize then sfail ErrRowTooLarge
      else
        sbind (roomyPage (length rowBytes)) (\<lambda>a.
        sbind (deref a) (\<lambda>p.
        let slotIndex = NumEntries p in
        sbind (slift (InsertEntry p slotIndex rowBytes)) (\<lambda>p'.
        sbind (assign a p') (\<lambda>_.
        sbind (heap_writePage a) (\<lambda>_.
        sret (recordIDOf (ID p') slotIndex)))))))"

definition Heap_Get :: "int64 \<Rightarrow> (Heap, byte list) op" where
  "Heap_Get recordID =
     (let pageID = recordID div 4096; slotIndex = (ucast (recordID mod 4096) :: uint16) in
      sbind (heap_readPage pageID) (\<lambda>a.
      sbind (deref a) (\<lambda>p.
      if slotIndex \<ge> NumEntries p then sfail ErrSlotIndex
      else slift (GetEntry p slotIndex))))"

end
