(* ===== verification/Untouched.thy ===== *)
theory Untouched
  imports Lru Underflow Heap
begin

text \<open>
  What the operations keep on every path, also when a system call fails, a page is malformed or the fuel
  runs out. A predicate that survives the read path survives searching and scanning (\<open>tree_read_frame\<close>). The locale \<open>tree_frame\<close> states what a predicate of the tree has to survive: allocation of page objects
  and page numbers, the read and write paths, the counters and the root; it then survives searching,
  scanning, inserting and deleting with all its repairs. Predicates that do not depend on what the read and
  write paths change (\<open>untouched\<close>) and the consistency of the pool are such predicates.
\<close>

section \<open>Predicates of a store\<close>

locale read_frame =
  fixes P :: "'s store_scheme \<Rightarrow> bool"
  assumes objects_read: "preserves P (newObj p)" "preserves P (deref a)"
    and path_read: "preserves P (readPage v)"

locale store_frame = read_frame P for P :: "'s store_scheme \<Rightarrow> bool" +
  assumes objects_written: "preserves P (assign a p)" "preserves P AllocatePageID"
    and path_written: "preserves P (writePage a)"
begin

lemma mutations: "preserves P (mutate a f)" "preserves P (mutate2 a b g)" "preserves P AllocatePage"
  unfolding mutate_def mutate2_def AllocatePage_def by (intro stays objects_read objects_written)+

lemmas steps = objects_read objects_written path_read path_written mutations

end

section \<open>The tree\<close>

text \<open>Searching and scanning read pages only.\<close>

locale tree_read_frame = read_frame P for P :: "BTree \<Rightarrow> bool"
begin

lemmas reads = objects_read path_read

lemma descent: "preserves P (descend n k a anc)" "preserves P (findLeafWithPath n k)"
proof -
  show d: "preserves P (descend n k a anc)" for a anc
    by (induction n arbitrary: a anc) (simp_all, (intro stays reads | assumption)+)
  show "preserves P (findLeafWithPath n k)" unfolding findLeafWithPath_def by (intro stays reads d)
qed

lemma search: "preserves P (BTree_Search n k)"
proof -
  have "P w1" if "P w" "findLeafWithPath n (EncodeInt64 k) w = (r, w1)" for w r w1
    using preservesD [OF descent(2) that] .
  moreover have "preserves P (sbind (deref a) (\<lambda>p. slift (Search p k)))" for a by (intro stays reads)
  ultimately show ?thesis
    unfolding preserves_def BTree_Search_def Let_def by (auto split: prod.splits res.splits)
qed

lemma scan: "preserves P (BTree_Scan n m s e)"
proof -
  have "preserves P (scanChain m a e i rs)" for a i rs
    by (induction m arbitrary: a i rs) (simp_all, (intro stays reads | assumption)+)
  then show ?thesis unfolding BTree_Scan_def by (intro stays reads descent)
qed

end

locale tree_frame = tree_read_frame P + store_frame P for P :: "BTree \<Rightarrow> bool" +
  assumes root_law: "P (w\<lparr>rootID := i\<rparr>) = P w"
    and splits_law: "P (w\<lparr>pageSplits := c\<rparr>) = P w"
    and merges_law: "P (w\<lparr>pageMerges := c\<rparr>) = P w"
begin

lemma propagate: "preserves P (propagateSplit a b s anc)"
proof (induction anc arbitrary: a b s rule: rev_induct)
  case Nil
  show ?case
    unfolding propagateSplit.simps [of a b s "[]"] by (simp add: Let_def) (intro stays steps; simp add: root_law)
next
  case (snoc i anc)
  show ?case
    unfolding propagateSplit.simps [of a b s "anc @ [i]"] updateNextLeafPrevLink_def
    by (simp add: Let_def) (intro stays steps snoc.IH; simp add: splits_law)
qed

lemma insert: "preserves P (BTree_Insert n k v)"
  unfolding BTree_Insert_def updateNextLeafPrevLink_def by (intro stays steps descent propagate; simp add: splits_law)

lemma merged: "preserves P countMerge"
  unfolding countMerge_def by (intro stays) (simp add: merges_law)

lemma repairs:
  "preserves P minEntries" "preserves P (readSibling i)" "preserves P (canLend s)" "preserves P (needPage s)"
  "preserves P (relinkNext a)" "preserves P (redistributeLeafFromLeft a b c)" "preserves P (redistributeLeafFromRight a b c)"
  "preserves P (redistributeInternalNodeFromLeft a b c)" "preserves P (redistributeInternalNodeFromRight a b c)"
  "preserves P (shrinkRoot a)" "preserves P (absorbInternal a b c)" "preserves P (dropChild a i)"
proof -
  show m: "preserves P minEntries" unfolding minEntries_def by (intro stays)
  show "preserves P (readSibling i)" "preserves P (canLend s)" "preserves P (needPage s)" "preserves P (relinkNext a)"
    unfolding readSibling_def canLend_def needPage_def relinkNext_def by (intro stays steps m)+
  show "preserves P (redistributeLeafFromLeft a b c)" "preserves P (redistributeLeafFromRight a b c)"
    unfolding redistributeLeafFromLeft_def redistributeLeafFromRight_def by (intro stays steps)+
  show "preserves P (redistributeInternalNodeFromLeft a b c)" "preserves P (redistributeInternalNodeFromRight a b c)"
    unfolding redistributeInternalNodeFromLeft_def redistributeInternalNodeFromRight_def by (intro stays steps)+
  show "preserves P (shrinkRoot a)" unfolding shrinkRoot_def by (intro stays steps) (simp add: root_law)
  show "preserves P (absorbInternal a b c)" "preserves P (dropChild a i)"
    unfolding absorbInternal_def dropChild_def by (intro stays steps merged)+
qed

lemma internal_underflow:
  "preserves P (fixInternalUnderflow n anc)" "preserves P (mergeInternalWithLeft n l g anc)"
  "preserves P (mergeInternalWithRight n r g anc)" "preserves P (finishInternalMerge g anc)"
proof (induction rule: fixInternalUnderflow_mergeInternalWithLeft_mergeInternalWithRight_finishInternalMerge.induct)
  case (1 n anc)
  then show ?case unfolding fixInternalUnderflow.simps [of n anc] by (intro stays steps repairs) auto
next
  case (2 n l g anc)
  then show ?case unfolding mergeInternalWithLeft.simps [of n l g anc] by (intro stays repairs)
next
  case (3 n r g anc)
  then show ?case unfolding mergeInternalWithRight.simps [of n r g anc] by (intro stays repairs)
next
  case (4 g anc)
  then show ?case unfolding finishInternalMerge.simps [of g anc] Let_def by (intro stays steps repairs) auto
qed

lemma delete: "preserves P (BTree_Delete n k)"
  unfolding BTree_Delete_def fixLeafUnderflow_def mergeLeafWithLeft_def mergeLeafWithRight_def
  by (intro stays steps descent repairs internal_underflow merged)

end

section \<open>What the paths do not change\<close>

locale untouched =
  fixes P :: "'s store_scheme \<Rightarrow> bool"
  assumes objs_law: "P (w\<lparr>objs := x\<rparr>) = P w"
    and pool_law: "P (w\<lparr>pool := y\<rparr>) = P w"
    and next_law: "P (w\<lparr>pm := (pm w)\<lparr>nextPageID := i\<rparr>\<rparr>) = P w"
    and reads_law: "P (w\<lparr>pm := (pm w)\<lparr>pageReads := c\<rparr>\<rparr>) = P w"
    and writes_law: "P (w\<lparr>pm := (pm w)\<lparr>pageWrites := c\<rparr>\<rparr>) = P w"
    and file_law: "preserves P (withFile (fileSeek off))" "preserves P (withFile (fileReadFull n))" "preserves P (withFile (fileWrite bs))"
begin

lemma heap_objects: "preserves P (newObj p)" "preserves P (deref a)" "preserves P (assign a p)" "preserves P AllocatePageID"
  by (simp_all add: preserves_def newObj_def deref_def assign_def AllocatePageID_def objs_law next_law)

lemma manager: "preserves P AllocatePage" "preserves P (ReadPage v)" "preserves P (WritePage a)" "preserves P (SetNextPageID i)"
  unfolding AllocatePage_def ReadPage_def WritePage_def SetNextPageID_def
  by (intro stays heap_objects file_law; simp add: reads_law writes_law next_law)+

lemma pooled: "preserves P (updPool g)" "(\<And>p. preserves P (f p)) \<Longrightarrow> preserves P (withPool f)"
  by (auto simp: preserves_def updPool_def withPool_def smod_def pool_law split: option.splits)

lemma evict: "preserves P evictIfFull"
  unfolding evictIfFull_def by (intro stays pooled manager)

lemma pool_ops: "preserves P (GetPage v)" "preserves P (Put v a)" "preserves P (FlushPage v)" "preserves P (MarkDirty v)"
  unfolding GetPage_def Put_def FlushPage_def MarkDirty_def pushFront_def by (intro stays pooled manager evict)+

lemma io_paths: "preserves P (readPage v)" "preserves P (writePage a)"
proof -
  show "preserves P (readPage v)" using manager(2) pool_ops(1) by (simp add: preserves_def readPage_def)
  have "preserves P (sbind (deref a) (\<lambda>p. Put (ID p) a))" by (intro stays heap_objects pool_ops)
  then show "preserves P (writePage a)" using manager(3) by (simp add: preserves_def writePage_def)
qed

end

sublocale untouched \<subseteq> store_frame P
  by unfold_locales (rule heap_objects io_paths)+

text \<open>Neither the bytes that have reached the disk, nor the number of syncs, nor whether the file is open.\<close>

interpretation settled: untouched "\<lambda>w :: 's store_scheme.
  durable (pm_file (pm w)) = d \<and> closed (pm_file (pm w)) = c \<and> syncCalls (pm w) = n"
  by unfold_locales
    (auto simp: preserves_def withFile_def fileSeek_def fileReadFull_def fileWrite_def syscall_def Let_def
      split: prod.splits list.splits option.splits if_splits)

interpretation settled_tree: tree_frame "\<lambda>w.
  durable (pm_file (pm w)) = d \<and> closed (pm_file (pm w)) = c \<and> syncCalls (pm w) = n"
  by unfold_locales simp_all

section \<open>Reading writes nothing\<close>

text \<open>As long as no page waits to be written or synced, a read leaves it so, whatever it evicts from the pool.\<close>

lemma all_synced_evict: "preserves all_synced evictIfFull"
proof -
  have clean: "\<not> e_dirty e" if "all_synced w" "pool w = Some p" "lru p \<noteq> []" "last (lru p) = (h, e)" for w :: "'s store_scheme" and p h e
    using that last_in_set [of "lru p"] by (auto simp: all_synced_def)
  show ?thesis
    unfolding preserves_def
    by (auto simp: evictIfFull_def withPool_def updPool_def exec_simps dest: clean split: option.splits prod.splits)
      (auto simp: all_synced_def RemoveElem_def)
qed

lemma all_synced_page: "preserves all_synced (newObj p)" "preserves all_synced (deref a)" "preserves all_synced (ReadPage v)"
proof -
  have calls: "preserves all_synced (withFile (fileSeek off))" "preserves all_synced (withFile (fileReadFull n))" for off n
    by (auto simp: preserves_def withFile_def fileSeek_def fileReadFull_def syscall_def all_synced_def Let_def
        split: prod.splits list.splits option.splits if_splits)
  show new: "preserves all_synced (newObj p)" for p :: Page by (simp add: preserves_def newObj_def all_synced_def)
  show "preserves all_synced (deref a)" by (simp add: preserves_def deref_def)
  show "preserves all_synced (ReadPage v)"
    unfolding ReadPage_def by (intro stays calls new) (simp add: all_synced_def)
qed

lemma all_synced_pool:
  assumes "\<And>p. (\<forall>x \<in> set (lru p). \<not> e_dirty (snd x)) \<Longrightarrow> \<forall>x \<in> set (lru (g p)). \<not> e_dirty (snd x)"
  shows "preserves all_synced (updPool g)"
  using assms by (auto simp: preserves_def updPool_def withPool_def smod_def all_synced_def split: option.splits)

lemma all_synced_withPool: "(\<And>p. preserves all_synced (f p)) \<Longrightarrow> preserves all_synced (withPool f)"
  by (auto simp: preserves_def withPool_def split: option.splits)

lemma all_synced_GetPage: "preserves all_synced (GetPage v)"
  unfolding GetPage_def pushFront_def
  by (intro stays all_synced_withPool all_synced_pool all_synced_page all_synced_evict)
    (auto simp: MoveToFront_def split: option.splits dest!: map_of_SomeD)

lemma all_synced_readPage: "preserves all_synced (readPage v)"
  using all_synced_page(3) [of v] all_synced_GetPage [of v] by (auto simp: preserves_def readPage_def)

interpretation synced_tree: tree_read_frame all_synced
  by unfold_locales (rule all_synced_page all_synced_readPage)+

section \<open>The pool stays in order\<close>

definition pool_fine :: "int \<Rightarrow> 's store_scheme \<Rightarrow> bool" where
  "pool_fine cap w \<longleftrightarrow> (\<forall>p. pool w = Some p \<longrightarrow> pool_ok p \<and> capacity p = cap)"

lemma pool_fine_paths: "preserves (pool_fine cap) (readPage v)" "preserves (pool_fine cap) (writePage a)"
proof -
  have get: "pool_fine cap w'" if "pool w = Some p" "pool_fine cap w" "GetPage v w = (r, w')" for w w' :: "'s store_scheme" and p r v
    using GetPage_outcome [OF that(1) _ that(3)] that(1,2) by (auto simp: pool_fine_def accessed_def)
  have put: "pool_fine cap w'" if "pool w = Some p" "pool_fine cap w" "Put v a w = (r, w')" for w w' :: "'s store_scheme" and p r v a
    using Put_outcome [OF that(1) _ that(3)] that(1,2) by (auto simp: pool_fine_def accessed_def)
  show "preserves (pool_fine cap) (readPage v)"
    unfolding preserves_def
  proof (intro allI impI)
    fix w :: "'s store_scheme" assume w: "pool_fine cap w"
    show "pool_fine cap (snd (readPage v w))"
    proof (cases "pool w")
      case None
      then show ?thesis
        using preservesD [OF poolKept_manager(1) None] by (cases "ReadPage v w") (simp add: readPage_def pool_fine_def)
    next
      case (Some p)
      then show ?thesis using get [OF Some w] by (cases "GetPage v w") (simp add: readPage_def)
    qed
  qed
  show "preserves (pool_fine cap) (writePage a)"
    unfolding preserves_def
  proof (intro allI impI)
    fix w :: "'s store_scheme" assume w: "pool_fine cap w"
    show "pool_fine cap (snd (writePage a w))"
    proof (cases "pool w")
      case None
      then show ?thesis
        using preservesD [OF poolKept_manager(2) None] by (cases "WritePage a w") (simp add: writePage_def pool_fine_def)
    next
      case (Some p)
      then show ?thesis
        using put [OF Some w] w by (cases "Put (ID (objs w ! a)) a w") (auto simp: writePage_def deref_def sbind_def)
    qed
  qed
qed

interpretation bounded: tree_frame "pool_fine cap"
  by unfold_locales
    (rule pool_fine_paths | simp add: preserves_def pool_fine_def newObj_def deref_def assign_def AllocatePageID_def)+

end
