(* ===== verification/Recovery.thy ===== *)
theory Recovery
  imports Client Untouched
begin

text \<open>
  Power cuts. The tree and its file as a state machine: calls of a client, which may flush the pool in any order, and
  power cuts, after which the tree is opened again, with any pools, from what the disk then holds. The program has no
  recovery: a page is overwritten in place, and a cut between a write and the next \<^verbatim>\<open>Sync\<close> may leave anything
  (\<open>afterPowerCut\<close>). What it promises is the durability boundary: a cut after a \<^verbatim>\<open>Sync\<close> and before the next update.
\<close>

section \<open>Steps and runs\<close>

datatype event = Do call | PowerCut "int list"

text \<open>
  A page number has to stay below two to the 51 after the cut as well, so the file on the disk is shorter than two to
  the 62 bytes.
\<close>

inductive labStep :: "nat \<Rightarrow> BTree \<Rightarrow> event \<Rightarrow> answer \<Rightarrow> BTree \<Rightarrow> bool" for fuel where
  called: "\<forall>xs. set (order xs) = set xs \<Longrightarrow> runCall order fuel c w = (a, w') \<Longrightarrow> labStep fuel w (Do c) a w'"
| cut: "afterPowerCut (pm_file (pm w)) disk \<Longrightarrow> length disk < 2 ^ 62 \<Longrightarrow> OpenUnique (Ok (fileWith disk)) opts = Ok w' \<Longrightarrow>
    labStep fuel w (PowerCut opts) Done w'"

inductive labRun :: "nat \<Rightarrow> BTree \<Rightarrow> event list \<Rightarrow> answer list \<Rightarrow> BTree \<Rightarrow> bool" for fuel where
  rest: "labRun fuel w [] [] w"
| move: "labStep fuel w ev a w' \<Longrightarrow> labRun fuel w' evs as w'' \<Longrightarrow> labRun fuel w (ev # evs) (a # as) w''"

inductive_cases callE: "labStep fuel w (Do c) a w'"
inductive_cases cutE: "labStep fuel w (PowerCut opts) a w'"

section \<open>The durability boundary\<close>

fun isRead :: "call \<Rightarrow> bool" where
  "isRead (CSearch k) = True"
| "isRead (CScan s e) = True"
| "isRead _ = False"

text \<open>Whether there has been no \<^verbatim>\<open>Insert\<close> or \<^verbatim>\<open>Delete\<close> since the last \<^verbatim>\<open>Sync\<close>, before and after an event.\<close>

fun synced :: "bool \<Rightarrow> event \<Rightarrow> bool" where
  "synced b (Do c) = (c = CSync \<or> b \<and> isRead c)"
| "synced b (PowerCut opts) = b"

text \<open>Every power cut falls between a \<^verbatim>\<open>Sync\<close> and the next update.\<close>

fun quietCuts :: "bool \<Rightarrow> event list \<Rightarrow> bool" where
  "quietCuts b [] = True"
| "quietCuts b (Do c # evs) = quietCuts (synced b (Do c)) evs"
| "quietCuts b (PowerCut opts # evs) = (b \<and> quietCuts b evs)"

section \<open>The specification\<close>

text \<open>A list of rows, to which a power cut does nothing.\<close>

fun specEvent :: "event \<Rightarrow> (int64 \<times> int64) list \<Rightarrow> answer \<times> (int64 \<times> int64) list" where
  "specEvent (Do c) rs = specCall c rs"
| "specEvent (PowerCut opts) rs = (Done, rs)"

fun specEvents :: "event list \<Rightarrow> (int64 \<times> int64) list \<Rightarrow> answer list \<times> (int64 \<times> int64) list" where
  "specEvents [] rs = ([], rs)"
| "specEvents (ev # evs) rs = (case specEvent ev rs of (a, rs1) \<Rightarrow> case specEvents evs rs1 of (as, rs2) \<Rightarrow> (a # as, rs2))"

fun calls :: "event list \<Rightarrow> call list" where
  "calls [] = []"
| "calls (Do c # evs) = c # calls evs"
| "calls (PowerCut opts # evs) = calls evs"

lemma specCall_answers: "fst (specCall c rs) \<noteq> Crash"
  by (cases c) auto

section \<open>What calls do to the disk\<close>

lemma answered_state: "answered f x = (a, w') \<Longrightarrow> w' = snd x"
  by (auto simp: answered_def split: prod.splits res.splits)

lemma reads_keep_synced:
  assumes "runCall order fuel c w = (a, w')" "isRead c" "all_synced w"
  shows "all_synced w'" "durable (pm_file (pm w')) = durable (pm_file (pm w))"
proof -
  let ?P = "\<lambda>x :: BTree. durable (pm_file (pm x)) = durable (pm_file (pm w)) \<and> closed (pm_file (pm x)) = closed (pm_file (pm w)) \<and>
    syncCalls (pm x) = syncCalls (pm w)"
  have keep: "P (snd (f w))" if "preserves P f" "P w" for P and f :: "(BTree, 'b) op" using that by (simp add: preserves_def)
  show "all_synced w'"
    using assms keep [OF synced_tree.search] keep [OF synced_tree.scan] by (cases c) (auto dest!: answered_state)
  show "durable (pm_file (pm w')) = durable (pm_file (pm w))"
    using assms(1,2) keep [of ?P, OF settled_tree.search] keep [of ?P, OF settled_tree.scan] by (cases c) (auto dest!: answered_state)
qed

lemma openRoot_settles: "preserves (\<lambda>w. durable (pm_file (pm w)) = d \<and> closed (pm_file (pm w)) = b \<and> syncCalls (pm w) = n) openRoot"
  unfolding openRoot_def by (intro stays settled.manager settled.heap_objects settled.io_paths)

text \<open>Opening a file that has pages writes none.\<close>

lemma open_quiet:
  assumes "OpenUnique (Ok (fileWith c)) opts = Ok w" "PageSize \<le> length c" "length c < 2 ^ 62"
  shows "all_synced w" "durable (pm_file (pm w)) = c"
proof -
  obtain q where q: "q = None \<or> (\<exists>n. q = Some (NewPool n))" "openWith (Ok (fileWith c)) 16 True opts =
      (case openRoot (openState c 16 True q) of (r, t) \<Rightarrow> rbind r (\<lambda>root. Ok (t\<lparr>rootID := root\<rparr>)))"
    using openWith_openRoot by blast
  let ?w = "openState c 16 True q"
  obtain v t where run: "openRoot ?w = (Ok v, t)" "w = t\<lparr>rootID := v\<rparr>"
    using assms(1) q(2) by (cases "openRoot ?w") (auto simp: OpenUnique_def rbind_eq_Ok)
  have "durable (pm_file (pm ?w)) = c \<and> closed (pm_file (pm ?w)) = False \<and> syncCalls (pm ?w) = 0"
    by (simp add: openState_def fileWith_def)
  from preservesD [OF openRoot_settles this run(1)] run(2) show "durable (pm_file (pm w)) = c" by simp
  have "0 < length c div PageSize" "length c div PageSize < 2 ^ 64" using assms(2,3) by (simp_all add: div_greater_zero_iff less_mult_imp_div_less)
  then have "word_of_nat (length c div PageSize) \<noteq> (0 :: PageID)" by (simp add: word_of_nat_eq_0_iff nat_dvd_not_less)
  then have read: "openRoot ?w = sbind (readPage 0) (\<lambda>metaPage. sbind (deref metaPage) (\<lambda>p. sret (RootPageID p))) ?w"
    by (simp add: openRoot_def exec_simps PageCount_def openState_def)
  have "all_synced ?w" using q(1) by (auto simp: all_synced_def openState_def fileWith_def NewPool_def)
  moreover have "preserves all_synced (sbind (readPage 0) (\<lambda>metaPage. sbind (deref metaPage) (\<lambda>p. sret (RootPageID p))) :: (BTree, PageID) op)"
    by (intro stays synced_tree.reads)
  ultimately have "all_synced t" using preservesD run(1) read by metis
  then show "all_synced w" using run(2) by (simp add: all_synced_def)
qed

section \<open>The simulation\<close>

text \<open>What a power cut would leave.\<close>

definition recoverable :: "nat \<Rightarrow> nat \<Rightarrow> BTree \<Rightarrow> (int64 \<times> int64) list \<Rightarrow> bool" where
  "recoverable fuel n w rs \<longleftrightarrow> all_synced w \<and> PageSize \<le> length (durable (pm_file (pm w))) \<and>
     (\<forall>opts. length (durable (pm_file (pm w))) < 2 ^ 62 \<longrightarrow>
       (\<exists>w2. OpenUnique (Ok (fileWith (durable (pm_file (pm w))))) opts = Ok w2 \<and> tree_rows fuel n w2 rs))"

definition refines :: "nat \<Rightarrow> nat \<Rightarrow> bool \<Rightarrow> BTree \<Rightarrow> (int64 \<times> int64) list \<Rightarrow> bool" where
  "refines fuel n b w rs \<longleftrightarrow> tree_rows fuel n w rs \<and> (b \<longrightarrow> recoverable fuel n w rs)"

lemma tree_rows_fewer: "tree_rows fuel (Suc n) w rs \<Longrightarrow> tree_rows fuel n w rs"
  unfolding tree_rows_def holds_tree_def by fastforce

lemma tree_rows_holds: "tree_rows fuel n w rs \<Longrightarrow> holds w (map_of rs)"
  unfolding tree_rows_def holds_tree_def holds_def by metis

lemma recoverable_fewer:
  assumes "recoverable fuel (Suc n) w rs" "durable (pm_file (pm w')) = durable (pm_file (pm w))" "all_synced w'"
  shows "recoverable fuel n w' rs"
  using assms tree_rows_fewer unfolding recoverable_def by metis

lemma sync_recovers:
  assumes rs: "tree_rows fuel (Suc n) w rs" and order: "\<forall>xs. set (order xs) = set xs" and run: "runCall order fuel CSync w = (a, w')"
  shows "recoverable fuel n w' rs"
proof -
  obtain h t where t: "holds_tree fuel (Suc n) h t w" "rows t = rs" using rs by (auto simp: tree_rows_def)
  have "walk_of (walk order w) w" using order by (simp add: walk_of_def walk_def)
  from sync_reopen [OF holds_treeD(1) [OF t(1)] this, of 16 True] obtain w1 where w1: "BTree_Sync (walk order w) w = (Ok (), w1)" "all_synced w1"
      and reopen: "\<And>opts. \<exists>w2. openWith (Ok (fileWith (durableBytes w1))) 16 True opts = Ok w2 \<and> tree_inv 8 h t w2 \<and> unique w2 = True \<and>
        entrySize w2 = 16 \<and> nextPageID (pm w2) = word_of_nat (length (durableBytes w1) div PageSize)"
    by blast
  have w': "w' = w1" "durableBytes w1 = durable (pm_file (pm w1))" using run w1(1) by (simp_all add: answered_def durableBytes_def)
  obtain w3 where w3: "tree_inv 8 h t w3" "nextPageID (pm w3) = word_of_nat (length (durableBytes w1) div PageSize)" using reopen [of "[]"] by blast
  have "0 < unat (nextPageID (pm w3))" using w3(1) tree_in_bounds(1) [of 8 h t] by (fastforce simp: tree_inv_def)
  then have "length (durableBytes w1) div PageSize \<noteq> 0" unfolding w3(2) by (rule contrapos_pn) simp
  then have "PageSize \<le> length (durable (pm_file (pm w')))" using w' by (simp add: div_eq_0_iff not_less)
  moreover have "\<exists>w2. OpenUnique (Ok (fileWith (durable (pm_file (pm w'))))) opts = Ok w2 \<and> tree_rows fuel n w2 rs"
    if len: "length (durable (pm_file (pm w'))) < 2 ^ 62" for opts
  proof -
    obtain w2 where w2: "openWith (Ok (fileWith (durableBytes w1))) 16 True opts = Ok w2" "tree_inv 8 h t w2" "unique w2" "entrySize w2 = 16"
        "nextPageID (pm w2) = word_of_nat (length (durableBytes w1) div PageSize)"
      using reopen [of opts] by blast
    have "length (durableBytes w1) div PageSize < 2 ^ 50" using len w' by (simp add: less_mult_imp_div_less)
    then have "unat (nextPageID (pm w2)) < 2 ^ 50" using w2(5) by (simp add: unat_of_nat)
    moreover have "n * 2 ^ 22 \<le> 2 ^ 21 * 2 ^ 22" using t(1) by (intro mult_le_mono1) (simp add: holds_tree_def)
    ultimately have "holds_tree fuel n h t w2" using t(1) w2(2-4) by (simp add: holds_tree_def)
    with w2(1) t(2) w' show ?thesis unfolding tree_rows_def OpenUnique_def by auto
  qed
  ultimately show ?thesis using w1(2) w'(1) by (simp add: recoverable_def)
qed

lemma call_refines:
  assumes w: "refines fuel (Suc n) b w rs" and order: "\<forall>xs. set (order xs) = set xs" and low: "isDelete c \<longrightarrow> length rs < 20604"
    and run: "runCall order fuel c w = (a, w')"
  shows "a = fst (specCall c rs) \<and> refines fuel n (synced b (Do c)) w' (snd (specCall c rs))"
proof -
  have rs: "tree_rows fuel (Suc n) w rs" using w by (simp add: refines_def)
  from runCall_spec [OF this order low] run have a: "a = fst (specCall c rs)" "tree_rows fuel n w' (snd (specCall c rs))" by auto
  have "recoverable fuel n w' (snd (specCall c rs))" if s: "synced b (Do c)"
  proof (cases "c = CSync")
    case True
    with sync_recovers [OF rs order] run show ?thesis by simp
  next
    case False
    then have c: "b" "isRead c" using s by simp_all
    then have "recoverable fuel (Suc n) w rs" "snd (specCall c rs) = rs" using w by (cases c; simp add: refines_def)+
    with reads_keep_synced [OF run c(2)] recoverable_fewer show ?thesis by (simp add: recoverable_def)
  qed
  with a show ?thesis by (simp add: refines_def)
qed

text \<open>A cut at the durability boundary: whatever the disk may hold, opening it succeeds and gives the rows.\<close>

lemma cut_refines:
  assumes w: "refines fuel (Suc n) True w rs" and disk: "afterPowerCut (pm_file (pm w)) disk" "length disk < 2 ^ 62"
  shows "\<exists>w'. OpenUnique (Ok (fileWith disk)) opts = Ok w' \<and> refines fuel n True w' rs"
proof -
  have r: "recoverable fuel (Suc n) w rs" using w by (simp add: refines_def)
  then have d: "disk = durable (pm_file (pm w))" using disk(1) by (simp add: recoverable_def all_synced_def afterPowerCut_def)
  obtain w' where w': "OpenUnique (Ok (fileWith disk)) opts = Ok w'" "tree_rows fuel (Suc n) w' rs"
    using r disk(2) unfolding recoverable_def d by blast
  have "PageSize \<le> length disk" using r d by (simp add: recoverable_def)
  note q = open_quiet [OF w'(1) this disk(2)]
  have "recoverable fuel n w' rs" using recoverable_fewer [OF r _ q(1)] q(2) d by simp
  with w' tree_rows_fewer show ?thesis by (auto simp: refines_def)
qed

lemma labRun_refines:
  "labRun fuel w evs as w' \<Longrightarrow> refines fuel (n + length evs) b w rs \<Longrightarrow> quietCuts b evs \<Longrightarrow> lowDeletes (calls evs) rs \<Longrightarrow>
   as = fst (specEvents evs rs) \<and> refines fuel n (foldl synced b evs) w' (snd (specEvents evs rs))"
proof (induction arbitrary: b rs rule: labRun.induct)
  case (move w ev a w' evs as w'')
  show ?case
  proof (cases ev)
    case (Do c)
    obtain order where order: "\<forall>xs. set (order xs) = set xs" "runCall order fuel c w = (a, w')" using move.hyps(1) Do by (auto elim: callE)
    have step: "a = fst (specCall c rs)" "refines fuel (n + length evs) (synced b (Do c)) w' (snd (specCall c rs))"
      using call_refines [OF _ order(1) _ order(2), of "n + length evs" b rs] move.prems(1,3) Do by simp_all
    from move.IH [OF step(2)] move.prems(2,3) step(1) Do show ?thesis by (auto split: prod.splits)
  next
    case (PowerCut opts)
    obtain disk where disk: "afterPowerCut (pm_file (pm w)) disk" "length disk < 2 ^ 62" "OpenUnique (Ok (fileWith disk)) opts = Ok w'" "a = Done"
      using move.hyps(1) PowerCut by (auto elim: cutE)
    have b: "b" using move.prems(2) PowerCut by simp
    then have "refines fuel (n + length evs) b w' rs"
      using cut_refines [of fuel "n + length evs" w rs, OF _ disk(1,2), of opts] move.prems(1) disk(3) by auto
    from move.IH [OF this] move.prems(2,3) PowerCut disk(4) show ?thesis by (auto split: prod.splits)
  qed
qed simp

lemma refines_new:
  assumes "OpenUnique (Ok (fileWith [])) opts = Ok w" "n \<le> fuel" "n \<le> 2 ^ 21"
  shows "refines fuel n False w []"
  using opened_rows [OF assms(2,3), of opts] assms(1) by (simp add: refines_def)

section \<open>A run\<close>

text \<open>A small file stays small: reading does not change it, and writing page 0 or 1 leaves it with at most two pages.\<close>

definition two_pages :: "BTree \<Rightarrow> bool" where
  "two_pages w \<longleftrightarrow> pool w = None \<and> length (content (pm_file (pm w))) \<le> 2 * PageSize"

lemma two_pages_read: "preserves two_pages (newObj p)" "preserves two_pages (deref a)" "preserves two_pages (readPage v)"
proof -
  have calls: "preserves two_pages (withFile (fileSeek off))" "preserves two_pages (withFile (fileReadFull n))" for off n
    by (auto simp: preserves_def withFile_def fileSeek_def fileReadFull_def syscall_def two_pages_def Let_def
        split: prod.splits list.splits option.splits if_splits)
  show new: "preserves two_pages (newObj p)" for p :: Page by (simp add: preserves_def newObj_def two_pages_def)
  show "preserves two_pages (deref a)" by (simp add: preserves_def deref_def)
  have "preserves two_pages (ReadPage v)" unfolding ReadPage_def by (intro stays calls new) (simp add: two_pages_def)
  then show "preserves two_pages (readPage v)" by (auto simp: preserves_def readPage_def two_pages_def)
qed

interpretation two_pages_tree: tree_read_frame two_pages
  by unfold_locales (rule two_pages_read)+

lemma two_pages_write:
  assumes "two_pages w" "quiet w" "a < length (objs w)" "unat (ID (objs w ! a)) \<le> 1" "length (Data (objs w ! a)) = PageSize" "writePage a w = (r, w')"
  shows "two_pages w'"
proof -
  have "valid_id (ID (objs w ! a))" using assms(4) by (simp add: valid_id_def)
  from WritePage_spec [OF assms(2,3) refl this assms(5)] obtain w1 where w1: "WritePage a w = (Ok (), w1)" "world.more w1 = world.more w"
      "length (fileBytes w1) = max (length (fileBytes w)) (Suc (unat (ID (objs w ! a))) * PageSize)" by blast
  have "w' = w1" using assms(1,6) w1(1) by (simp add: writePage_def two_pages_def)
  moreover have "Suc (unat (ID (objs w ! a))) * PageSize \<le> 2 * PageSize" using assms(4) by (intro mult_le_mono1) simp
  ultimately show ?thesis using assms(1) w1(3) more_split [OF w1(2)] by (simp add: two_pages_def fileBytes_def)
qed

lemma opened_two_pages:
  assumes "OpenUnique (Ok (fileWith [])) [] = Ok w"
  shows "two_pages w"
proof -
  let ?w = "openState [] 16 True None" and ?L = "NewLeafPage 1" and ?M = "NewMetadataPage 0 1"
  let ?u = "?w\<lparr>objs := [?L, ?M], pm := (pm ?w)\<lparr>nextPageID := 2\<rparr>\<rparr>"
  have p: "ID ?L = 1" "ID ?M = 0" "length (Data ?L) = PageSize" "length (Data ?M) = PageSize"
    using NewLeafPage_spec [of 1] NewMetadataPage_image [of 0 1] wf_page_data by (auto simp: header_fields page_image_def valid_id_def)
  have "quiet ?u" "two_pages ?u" by (simp_all add: quiet_def two_pages_def openState_def fileWith_def)
  from WritePage_spec [OF this(1), of 1 ?M] p obtain u1 where u1: "WritePage 1 ?u = (Ok (), u1)" "objs u1 = [?L, ?M]" "quiet u1"
    by (auto simp: valid_id_def)
  have t1: "two_pages u1" using two_pages_write [OF \<open>two_pages ?u\<close> \<open>quiet ?u\<close>, of 1 _ u1] u1(1) p by (simp add: writePage_def openState_def)
  from WritePage_spec [OF u1(3), of 0 ?L] u1(2) p obtain u2 where u2: "WritePage 0 u1 = (Ok (), u2)" by (auto simp: valid_id_def)
  have t2: "two_pages u2" using two_pages_write [OF t1 u1(3), of 0 _ u2] u2 u1(2) p t1 by (simp add: writePage_def two_pages_def)
  have "openRoot ?w = (Ok 1, u2)"
    using u1(1) u2 p t1 by (simp add: openRoot_def exec_simps PageCount_def SetNextPageID_def AllocatePage_def AllocatePageID_def newObj_def
        deref_def writePage_def openState_def two_pages_def)
  then have "openWith (Ok (fileWith [])) 16 True [] = Ok (u2\<lparr>rootID := 1\<rparr>)"
    by (simp add: openWith_def storage_Open_def syscall_def fileWith_def openState_def)
  then have "w = u2\<lparr>rootID := 1\<rparr>" using assms by (simp add: OpenUnique_def)
  with t2 show ?thesis by (simp add: two_pages_def)
qed

lemma insert_two_pages:
  assumes inv: "tree_inv 8 0 (Leaf 1 []) w" and w: "two_pages w"
  shows "two_pages (snd (BTree_Insert fuel k v w))"
proof -
  obtain b q i kvs fs H w1 where f: "findLeafWithPath fuel (EncodeInt64 k) w = (Ok (b, rev (map fst fs)), w1)"
      "st {} (known w) H (nextPageID (pm w)) (store.more w) w1" "H b = Some q" "known w i = Some q" "leaf_page 8 q kvs"
      "Leaf 1 [] = plug (Leaf i kvs) fs" "length fs = 0"
    using findLeafWithPath_spec [OF inv, of fuel "EncodeInt64 k"] by blast
  then have i: "fs = []" "i = 1" "kvs = []" by simp_all
  have w1: "two_pages w1" using preservesD [OF two_pages_tree.descent(2) w f(1)] .
  have q: "ID q = 1" using st_image [OF f(2) _ f(4)] i(2) by simp
  have ok: "node_ok 8 q" using f(5) by (simp add: leaf_page_def)
  have "HasSpaceFor q (8 + 8)"
    using HasSpaceFor_uniform(1) [of q 8] f(5) leaf_page_numEntries [OF f(5)] i(3) by (auto simp: leaf_page_def node_ok_def)
  from ints.ins_room [OF f(5) this, of k v] obtain p where p: "Insert q k v = Ok p" "header p = header q" "leaf_page 8 p
      (insert_nth (lowerIdx (map fst kvs) (EncodeInt64 k)) (EncodeInt64 k, EncodeInt64 v) kvs)" by blast
  have idp: "ID p = 1" "length (Data p) = PageSize" "wf_page p" using header_same [OF p(2)] q p(3) wf_page_data by (auto simp: leaf_page_def node_ok_def)
  obtain w2 where w2: "assign b p w1 = (Ok (), w2)" "st {1} (known w) (H(b \<mapsto> p)) (nextPageID (pm w)) (store.more w) w2" "pool w2 = pool w1"
    using assign_rule [OF f(2,3), of p] idp q by (auto simp: valid_id_def)
  have o: "b < length (objs w2)" "objs w2 ! b = p" "quiet w2" using w2(2) by (auto simp: st_def store_ok_def)
  have "two_pages w2" using w1 w2(1) by (auto simp: two_pages_def assign_def)
  then have "two_pages (snd (writePage b w2))" using two_pages_write [OF _ o(3,1)] o(2) idp by (metis order_refl prod.collapse unat_1)
  moreover have "findKeyIndex q (EncodeInt64 k) = Ok (0, False)" using findKeyIndex_spec [OF ok, of "EncodeInt64 k"] leaf_page_keys [OF f(5)]
      leaf_page_numEntries [OF f(5)] i(3) by (simp add: lowerIdx_def)
  ultimately show ?thesis
    using f(1) deref_rule [OF f(2,3)] p(1) w2(1) i(1) by (simp add: BTree_Insert_def Let_def exec_simps)
qed

lemma small_run:
  obtains w as w' where "OpenUnique (Ok (fileWith [])) [] = Ok w"
    "labRun 9 w [Do (CInsert 5 50), Do CSync, Do (CSearch 4), PowerCut [2], Do (CSearch 5), Do (CInsert 6 60)] as w'"
proof -
  obtain w where w: "OpenUnique (Ok (fileWith [])) [] = Ok w" "tree_inv 8 0 (Leaf 1 []) w"
    using openWith_empty [of 16 True "[]" 8] by (auto simp: OpenUnique_def)
  obtain a1 w1 where w1: "runCall rev 9 (CInsert 5 50) w = (a1, w1)" by fastforce
  obtain a2 w2 where w2: "runCall rev 9 CSync w1 = (a2, w2)" by fastforce
  obtain a3 w3 where w3: "runCall rev 9 (CSearch 4) w2 = (a3, w3)" by fastforce
  have r0: "refines 9 (Suc (Suc (Suc (Suc 0)))) False w []" using refines_new [OF w(1)] by simp
  note r1 = call_refines [OF r0 _ _ w1]
  note r2 = call_refines [OF conjunct2 [OF r1] _ _ w2]
  note r3 = call_refines [OF conjunct2 [OF r2] _ _ w3]
  have "refines 9 (Suc 0) True w3 [(5, 50)]" using r3 by simp
  moreover have len: "length (durable (pm_file (pm w3))) \<le> 2 * PageSize"
  proof -
    have "w1 = snd (BTree_Insert 9 5 50 w)" using answered_state w1 by (metis runCall.simps(1))
    then have "two_pages w1" using insert_two_pages [OF w(2) opened_two_pages [OF w(1)], of 9 5 50] by simp
    moreover have "tree_rows 9 (Suc (Suc (Suc 0))) w1 [(5, 50)]" using r1 by (simp add: refines_def)
    then have "quiet w1" by (auto simp: tree_rows_def holds_tree_def tree_inv_def sound_quiet)
    ultimately have "length (durable (pm_file (pm w2))) \<le> 2 * PageSize"
      using pm_Sync_spec [of w1] w2 by (auto simp: two_pages_def BTree_Sync_def store_Sync_def answered_def durableBytes_def fileBytes_def)
    moreover have "all_synced w2" using r2 by (simp add: refines_def recoverable_def)
    ultimately show ?thesis using reads_keep_synced(2) [OF w3] by simp
  qed
  ultimately obtain w4 where w4: "OpenUnique (Ok (fileWith (durable (pm_file (pm w3))))) [2] = Ok w4"
    using cut_refines [of 9 0 w3 "[(5, 50)]" "durable (pm_file (pm w3))" "[2]"] by (auto simp: afterPowerCut_def)
  obtain a5 w5 where w5: "runCall rev 9 (CSearch 5) w4 = (a5, w5)" by fastforce
  obtain a6 w6 where w6: "runCall rev 9 (CInsert 6 60) w5 = (a6, w6)" by fastforce
  have "labStep 9 w3 (PowerCut [2]) Done w4"
    using w4 len by (intro labStep.cut [of _ "durable (pm_file (pm w3))"]) (simp_all add: afterPowerCut_def)
  then have "labRun 9 w [Do (CInsert 5 50), Do CSync, Do (CSearch 4), PowerCut [2], Do (CSearch 5), Do (CInsert 6 60)] [a1, a2, a3, Done, a5, a6] w6"
    using w1 w2 w3 w5 w6 by (intro labRun.intros(2) labStep.called [of rev]) (simp_all, rule labRun.rest)
  with w(1) that show thesis by blast
qed

section \<open>Properties\<close>

text \<open>
  C2. The durability boundary: a client of a unique tree on a new file makes up to two to the 21 calls, every Delete
  finding fewer than 20604 rows, and no system call fails; the power may fail any number of times, each time after a
  Sync and before the next Insert or Delete, and the tree is then opened again, with any pools, from what the disk holds.
  Then all answers are those of a sorted list of rows to which a power cut does nothing, and the tree holds that list
  at the end. Where writes have not been synced the disk may hold anything.
\<close>

theorem power_cut_after_sync:
  assumes "OpenUnique (Ok (fileWith [])) opts = Ok w" "labRun fuel w evs as w'" "length evs \<le> fuel" "length evs \<le> 2 ^ 21"
    and "quietCuts False evs" "lowDeletes (calls evs) []"
  shows "as = fst (specEvents evs []) \<and> holds w' (map_of (snd (specEvents evs [])))"
proof -
  have "refines fuel (0 + length evs) False w []" using refines_new [OF assms(1)] assms(3,4) by simp
  from labRun_refines [OF assms(2) this assms(5,6)] show ?thesis using tree_rows_holds unfolding refines_def by blast
qed

theorem power_cut_after_sync_witness:
  "\<exists>w w'. OpenUnique (Ok (fileWith [])) [] = Ok w \<and>
     labRun 9 w [Do (CInsert 5 50), Do CSync, Do (CSearch 4), PowerCut [2], Do (CSearch 5), Do (CInsert 6 60)]
       [Done, Done, Found (0, False), Done, Found (50, True), Done] w' \<and> holds w' [5 \<mapsto> 50, 6 \<mapsto> 60]"
proof -
  let ?evs = "[Do (CInsert 5 50), Do CSync, Do (CSearch 4), PowerCut [2], Do (CSearch 5), Do (CInsert 6 60)]"
  have spec: "specEvents ?evs [] = ([Done, Done, Found (0, False), Done, Found (50, True), Done], [(5, 50), (6, 60)])" by (simp add: rowOrder_def)
  obtain w as w' where w: "OpenUnique (Ok (fileWith [])) [] = Ok w" "labRun 9 w ?evs as w'" by (rule small_run)
  have "as = [Done, Done, Found (0, False), Done, Found (50, True), Done] \<and> holds w' (map_of [(5, 50), (6, 60)])"
    using power_cut_after_sync [OF w] by (simp add: spec del: specEvents.simps)
  moreover have "map_of [(5, 50), (6, 60)] = ([5 \<mapsto> 50, 6 \<mapsto> 60] :: int64 \<rightharpoonup> int64)" by auto
  ultimately show ?thesis using w by auto
qed

text \<open>
  C3. No call is left without an answer: after any such run of calls and power cuts the next call, if it is not a Delete
  that finds 20604 rows or more, returns with a result or an error and neither panics nor runs forever; and if the
  power fails at the durability boundary, opening the tree from whatever the disk may hold succeeds.
\<close>

theorem next_event_returns:
  assumes "OpenUnique (Ok (fileWith [])) opts = Ok w" "labRun fuel w evs as w'" "length evs < fuel" "length evs < 2 ^ 21"
    and quiet: "quietCuts False evs" "lowDeletes (calls evs) []"
  shows "(\<forall>order c. (\<forall>xs. set (order xs) = set xs) \<longrightarrow> (isDelete c \<longrightarrow> length (snd (specEvents evs [])) < 20604) \<longrightarrow>
      fst (runCall order fuel c w') \<noteq> Crash) \<and>
    (foldl synced False evs \<longrightarrow> (\<forall>disk opts'. afterPowerCut (pm_file (pm w')) disk \<longrightarrow> length disk < 2 ^ 62 \<longrightarrow>
      (\<exists>w''. OpenUnique (Ok (fileWith disk)) opts' = Ok w'')))"
proof -
  have "refines fuel (1 + length evs) False w []" using refines_new [OF assms(1)] assms(3,4) by simp
  from labRun_refines [OF assms(2) this quiet] have w': "refines fuel (Suc 0) (foldl synced False evs) w' (snd (specEvents evs []))" by simp
  have "fst (runCall order fuel c w') \<noteq> Crash"
    if "\<forall>xs. set (order xs) = set xs" "isDelete c \<longrightarrow> length (snd (specEvents evs [])) < 20604" for order c
    using call_refines [OF w' that] specCall_answers by (metis prod.collapse)
  moreover have "\<exists>w''. OpenUnique (Ok (fileWith disk)) opts' = Ok w''"
    if "foldl synced False evs" "afterPowerCut (pm_file (pm w')) disk" "length disk < 2 ^ 62" for disk opts'
    using cut_refines [of fuel 0 w' "snd (specEvents evs [])" disk opts'] w' that by auto
  ultimately show ?thesis by blast
qed

theorem next_event_returns_witness:
  "\<exists>w as w'. OpenUnique (Ok (fileWith [])) [] = Ok w \<and>
     labRun 9 w [Do (CInsert 5 50), Do CSync, Do (CSearch 4), PowerCut [2], Do (CSearch 5), Do (CInsert 6 60)] as w' \<and>
     fst (runCall rev 9 (CDelete 5) w') \<noteq> Crash \<and> fst (runCall rev 9 CSync w') \<noteq> Crash"
proof -
  let ?evs = "[Do (CInsert 5 50), Do CSync, Do (CSearch 4), PowerCut [2], Do (CSearch 5), Do (CInsert 6 60)]"
  have spec: "specEvents ?evs [] = ([Done, Done, Found (0, False), Done, Found (50, True), Done], [(5, 50), (6, 60)])" by (simp add: rowOrder_def)
  obtain w as w' where w: "OpenUnique (Ok (fileWith [])) [] = Ok w" "labRun 9 w ?evs as w'" by (rule small_run)
  have "fst (runCall rev 9 (CDelete 5) w') \<noteq> Crash" "fst (runCall rev 9 CSync w') \<noteq> Crash"
    using next_event_returns [OF w] by (auto simp: spec simp del: specEvents.simps runCall.simps)
  with w show ?thesis by blast
qed

end
