(* ===== verification/Composite.thy ===== *)
theory Composite
  imports Underflow
begin

text \<open>
  \<^verbatim>\<open>internal/btree/composite.go\<close>: the tree over pairs of columns. A composite tree is a \<open>BTree\<close>
  opened without a pool whose entry size is 24; its own writes go straight to the page manager.
\<close>

section \<open>Opening\<close>

definition openCompositeRoot :: "(BTree, PageID) op" where
  "openCompositeRoot =
     sbind (sget PageCount) (\<lambda>n.
     if n = 0 then
       sbind (SetNextPageID 1) (\<lambda>_.
       sbind AllocatePage (\<lambda>firstLeaf.
       sbind (deref firstLeaf) (\<lambda>leafPage.
       sbind (newObj (NewMetadataPage 0 (ID leafPage))) (\<lambda>metaPage.
       sbind (WritePage metaPage) (\<lambda>_.
       sbind (WritePage firstLeaf) (\<lambda>_.
       sret (ID leafPage)))))))
     else
       sbind (ReadPage 0) (\<lambda>metaPage.
       sbind (deref metaPage) (\<lambda>p.
       sret (RootPageID p))))"

definition OpenComposite :: "osfile res \<Rightarrow> BTree res" where
  "OpenComposite opened =
     rbind (storage_Open opened) (\<lambda>m.
     case openCompositeRoot \<lparr>objs = [], pm = m, pool = None, rootID = 0, entrySize = CompositeEntrySize,
            unique = False, pageSplits = 0, pageMerges = 0\<rparr> of
       (r, t') \<Rightarrow> rbind r (\<lambda>root. Ok (t'\<lparr>rootID := root\<rparr>)))"

definition CompositeBTree_Close :: "PageID list \<Rightarrow> (BTree, unit) op" where
  "CompositeBTree_Close ord = BTree_Close ord"

section \<open>A single leaf\<close>

definition InsertComposite :: "Page \<Rightarrow> int64 \<Rightarrow> int64 \<Rightarrow> int64 \<Rightarrow> Page res" where
  "InsertComposite p columnA columnB recordID =
     (let encodedKey = EncodeCompositeKey columnA columnB;
          entryBytes = encodedKey @ EncodeInt64 recordID in
      rbind (findKeyIndex p encodedKey) (\<lambda>(index, _).
      if \<not> HasSpaceFor p (length entryBytes) then Err ErrPageFull
      else InsertEntry p index entryBytes))"

text \<open>The rest of \<^verbatim>\<open>Search\<close> once the leaf is found.\<close>

definition searchCompositeLeaf :: "Page \<Rightarrow> byte list \<Rightarrow> (int64 \<times> bool) res" where
  "searchCompositeLeaf p encodedKey =
     rbind (findKeyIndex p encodedKey) (\<lambda>(index, ok).
     if \<not> ok then Ok (0, False)
     else
       rbind (GetEntry p index) (\<lambda>entry.
       rbind (entryPrefix p index 16) (\<lambda>k.
       if CompareKeys k encodedKey \<noteq> 0 then Ok (0, False)
       else
         rbind (sliceFrom entry 16) (\<lambda>v.
         rbind (DecodeInt64 v) (\<lambda>r. Ok (r, True))))))"

text \<open>The part of \<^verbatim>\<open>Delete\<close> that changes the leaf.\<close>

definition deleteCompositeLeaf :: "byte list \<Rightarrow> Page \<Rightarrow> Page res" where
  "deleteCompositeLeaf encodedKey p =
     rbind (findKeyIndex p encodedKey) (\<lambda>(index, ok).
     if \<not> ok then Err ErrKeyNotFound
     else
       rbind (entryPrefix p index 16) (\<lambda>k.
       if CompareKeys k encodedKey \<noteq> 0 then Err ErrKeyNotFound
       else DeleteEntry p index))"

section \<open>The tree\<close>

definition CompositeBTree_Insert :: "nat \<Rightarrow> int64 \<Rightarrow> int64 \<Rightarrow> int64 \<Rightarrow> (BTree, unit) op" where
  "CompositeBTree_Insert fuel columnA columnB recordID =
     (let encodedKey = EncodeCompositeKey columnA columnB in
      sbind (findLeafWithPath fuel encodedKey) (\<lambda>(leaf, ancestors).
      sbind (deref leaf) (\<lambda>lp.
      case InsertComposite lp columnA columnB recordID of
        Ok lp' \<Rightarrow> sbind (assign leaf lp') (\<lambda>_. WritePage leaf)
      | Panic \<Rightarrow> slift Panic
      | Hang \<Rightarrow> slift Hang
      | Err e \<Rightarrow>
          if e = ErrPageFull then
            sbind AllocatePage (\<lambda>newLeaf.
            sbind (mutate2 newLeaf leaf (\<lambda>r q. splitLeaf q r)) (\<lambda>separatorKey.
            sbind (smod (\<lambda>t. t\<lparr>pageSplits := pageSplits t + 1\<rparr>)) (\<lambda>_.
            sbind (updateNextLeafPrevLink newLeaf) (\<lambda>_.
            sbind (if CompareKeys encodedKey separatorKey \<ge> 0
                   then mutate newLeaf (\<lambda>p. InsertComposite p columnA columnB recordID)
                   else mutate leaf (\<lambda>p. InsertComposite p columnA columnB recordID)) (\<lambda>_.
            sbind (WritePage leaf) (\<lambda>_.
            sbind (WritePage newLeaf) (\<lambda>_.
            propagateSplit leaf newLeaf separatorKey ancestors)))))))
          else sfail e)))"

definition CompositeBTree_Search :: "nat \<Rightarrow> int64 \<Rightarrow> int64 \<Rightarrow> (BTree, int64 \<times> bool) op" where
  "CompositeBTree_Search fuel columnA columnB = (\<lambda>t.
     let encodedKey = EncodeCompositeKey columnA columnB in
     case findLeafWithPath fuel encodedKey t of
       (Err _, t') \<Rightarrow> (Ok (0, False), t')
     | (Ok (leaf, _), t') \<Rightarrow> sbind (deref leaf) (\<lambda>p. slift (searchCompositeLeaf p encodedKey)) t'
     | (Panic, t') \<Rightarrow> (Panic, t')
     | (Hang, t') \<Rightarrow> (Hang, t'))"

definition CompositeBTree_Delete :: "nat \<Rightarrow> int64 \<Rightarrow> int64 \<Rightarrow> (BTree, unit) op" where
  "CompositeBTree_Delete fuel columnA columnB =
     (let encodedKey = EncodeCompositeKey columnA columnB in
      sbind (findLeafWithPath fuel encodedKey) (\<lambda>(leaf, ancestors).
      sbind (mutate leaf (deleteCompositeLeaf encodedKey)) (\<lambda>_.
      if ancestors = [] then WritePage leaf
      else
        sbind (deref leaf) (\<lambda>lp.
        sbind minEntries (\<lambda>m.
        if NumEntries lp \<ge> m then WritePage leaf
        else fixLeafUnderflow leaf ancestors)))))"

section \<open>Scan\<close>

record CompositeScanResult =
  csr_ColumnA :: int64
  csr_ColumnB :: int64
  csr_RecordID :: int64

fun scanCompositeLeaf ::
    "Page \<Rightarrow> byte list \<Rightarrow> nat \<Rightarrow> nat \<Rightarrow> CompositeScanResult list \<Rightarrow> (CompositeScanResult list \<times> bool) res" where
  "scanCompositeLeaf p endKey idx 0 results = Ok (results, False)"
| "scanCompositeLeaf p endKey idx (Suc m) results =
     rbind (GetEntry p (word_of_nat idx)) (\<lambda>entry.
     rbind (entryPrefix p (word_of_nat idx) 16) (\<lambda>key.
     if CompareKeys key endKey > 0 then Ok (results, True)
     else
       rbind (DecodeCompositeKey key) (\<lambda>(colA, colB).
       rbind (sliceFrom entry 16) (\<lambda>valueBytes.
       rbind (DecodeInt64 valueBytes) (\<lambda>value.
       scanCompositeLeaf p endKey (Suc idx) m
         (results @ [\<lparr>csr_ColumnA = colA, csr_ColumnB = colB, csr_RecordID = value\<rparr>]))))))"

fun scanCompositeChain ::
    "nat \<Rightarrow> addr \<Rightarrow> byte list \<Rightarrow> nat \<Rightarrow> CompositeScanResult list \<Rightarrow> (BTree, CompositeScanResult list) op" where
  "scanCompositeChain 0 leaf endKey idx results = slift Hang"
| "scanCompositeChain (Suc fuel) leaf endKey idx results =
     sbind (deref leaf) (\<lambda>p.
     sbind (slift (scanCompositeLeaf p endKey idx (numEntries p - idx) results)) (\<lambda>(results, done).
     if done then sret results
     else
       let nextID = NextLeafPageID p in
       if nextID = 0 then sret results
       else sbind (ReadPage nextID) (\<lambda>leaf. scanCompositeChain fuel leaf endKey 0 results)))"

definition CompositeBTree_Scan ::
    "nat \<Rightarrow> nat \<Rightarrow> int64 \<Rightarrow> int64 \<Rightarrow> int64 \<Rightarrow> (BTree, CompositeScanResult list) op" where
  "CompositeBTree_Scan fuel scanFuel columnA startColumnB endColumnB =
     (if endColumnB <s startColumnB then sfail ErrInvalidRange
      else
        let startKey = EncodeCompositeKey columnA startColumnB;
            endKey = EncodeCompositeKey columnA endColumnB in
        sbind (findLeafWithPath fuel startKey) (\<lambda>(leaf, _).
        sbind (deref leaf) (\<lambda>p.
        sbind (slift (findKeyIndex p startKey)) (\<lambda>(idx, _).
        scanCompositeChain scanFuel leaf endKey (unat idx) []))))"

end
