(* ===== verification/Poolless.thy ===== *)
theory Poolless
  imports Preserves Composite Tree_Ops
begin

text \<open>
  A tree opened without a pool stays without one: the operations of \<^verbatim>\<open>btree.go\<close> never create a pool, so
  the read and write paths are those of the page manager throughout.
\<close>

section \<open>No pool\<close>

abbreviation poolFree :: "('s store_scheme, 'a) op \<Rightarrow> bool" where
  "poolFree f \<equiv> preserves (\<lambda>w. pool w = None) f"

lemma poolFreeD: "poolFree f \<Longrightarrow> pool w = None \<Longrightarrow> f w = (r, w') \<Longrightarrow> pool w' = None"
  by (rule preservesD [of "\<lambda>w. pool w = None"])

lemma poolFree_objects [stays]: "poolFree (newObj p)" "poolFree (deref a)" "poolFree (assign a p)"
  by (simp_all add: preserves_def newObj_def deref_def assign_def)

lemma poolFree_withFile [stays]: "poolFree (withFile act)"
  by (simp add: preserves_def withFile_def split: prod.splits)

lemma poolFree_manager [stays]:
  "poolFree AllocatePageID" "poolFree (SetNextPageID v)" "poolFree AllocatePage" "poolFree (ReadPage v)" "poolFree (WritePage a)"
proof -
  show id: "poolFree AllocatePageID" by (simp add: preserves_def AllocatePageID_def)
  show "poolFree (SetNextPageID v)" unfolding SetNextPageID_def by (intro stays) simp
  show "poolFree AllocatePage" unfolding AllocatePage_def by (intro stays id)
  show "poolFree (ReadPage v)" unfolding ReadPage_def by (intro stays) simp
  show "poolFree (WritePage a)" unfolding WritePage_def by (intro stays) simp
qed

lemma poolFree_paths [stays]: "poolFree (readPage v)" "poolFree (writePage a)"
  using poolFree_manager(4,5) by (simp_all add: preserves_def readPage_def writePage_def)

lemma poolFree_mutate [stays]: "poolFree (mutate a f)" "poolFree (mutate2 a b g)"
  unfolding mutate_def mutate2_def by (intro stays)+

lemma poolFree_descend [stays]: "poolFree (descend n k a anc)"
  by (induction n arbitrary: a anc) (simp_all, (intro stays | assumption)+)

lemma poolFree_findLeaf [stays]: "poolFree (findLeafWithPath n k)"
  unfolding findLeafWithPath_def by (intro stays)

lemma poolFree_relink [stays]: "poolFree (updateNextLeafPrevLink a)"
  unfolding updateNextLeafPrevLink_def by (intro stays)

lemma poolFree_propagate [stays]: "poolFree (propagateSplit a b s anc)"
proof (induction anc arbitrary: a b s rule: rev_induct)
  case Nil
  show ?case by (simp add: propagateSplit.simps) (intro stays; simp)
next
  case (snoc i anc)
  show ?case
    unfolding propagateSplit.simps [of a b s "anc @ [i]"] by (simp add: Let_def) (intro stays snoc.IH; simp)
qed

lemma poolFree_insert [stays]: "poolFree (BTree_Insert n k v)"
  unfolding BTree_Insert_def by (intro stays) simp

text \<open>Opened without options, a tree has no pool.\<close>

lemma openWith_poolless:
  assumes "openWith opened es u [] = Ok w"
  shows "pool w = None"
proof -
  have free: "poolFree openRoot" unfolding openRoot_def by (intro stays)
  obtain m where "(case openRoot \<lparr>objs = [], pm = m, pool = None, rootID = 0, entrySize = es, unique = u, pageSplits = 0,
      pageMerges = 0\<rparr> of (r, w1) \<Rightarrow> rbind r (\<lambda>root. Ok (w1\<lparr>rootID := root\<rparr>))) = Ok w"
    using assms unfolding openWith_def rbind_eq_Ok [of "storage_Open opened"] by auto
  then obtain r w1 where run: "openRoot \<lparr>objs = [], pm = m, pool = None, rootID = 0, entrySize = es, unique = u, pageSplits = 0,
      pageMerges = 0\<rparr> = (r, w1)" "rbind r (\<lambda>root. Ok (w1\<lparr>rootID := root\<rparr>)) = Ok w"
    by (auto split: prod.split_asm)
  have "pool w1 = None" using poolFreeD [OF free _ run(1)] by simp
  with run(2) show ?thesis by (auto simp: rbind_eq_Ok)
qed

lemma btree_Open_poolless: "btree_Open opened [] = Ok w \<Longrightarrow> pool w = None"
  unfolding btree_Open_def by (rule openWith_poolless)

end
