(* ===== verification/Composite_Spec.thy ===== *)
theory Composite_Spec
  imports Poolless Index Delete_Repair
begin

text \<open>
  The composite tree of \<^verbatim>\<open>composite.go\<close>: the descent, the leaf insertion with its splits and the chain scan
  are those of the integer tree, over 16-byte keys and without a pool. The interfaces \<open>leaf_insert\<close> and
  \<open>chain_scan\<close> are interpreted on the composite operations, so their lemmas hold for them as they are.
\<close>

section \<open>Rows of a composite tree\<close>

definition columns :: "byte list \<Rightarrow> int64 \<times> int64" where
  "columns k = (dec64 k, dec64 (drop 8 k))"

definition encodeColumns :: "int64 \<times> int64 \<Rightarrow> byte list" where
  "encodeColumns ab = EncodeCompositeKey (fst ab) (snd ab)"

definition pairRowsOf :: "(byte list \<times> byte list) list \<Rightarrow> ((int64 \<times> int64) \<times> int64) list" where
  "pairRowsOf kvs = map (\<lambda>(k, v). (columns k, dec64 v)) kvs"

definition pairRows :: "btree \<Rightarrow> ((int64 \<times> int64) \<times> int64) list" where
  "pairRows t = pairRowsOf (contents t)"

lemma length_encodeColumns [simp]: "length (encodeColumns ab) = 16"
  by (simp add: encodeColumns_def EncodeCompositeKey_def)

lemma columns_encode [simp]: "columns (encodeColumns ab) = ab"
  by (simp add: columns_def encodeColumns_def EncodeCompositeKey_def)

lemma encode_columns [simp]: "length k = 16 \<Longrightarrow> encodeColumns (columns k) = k"
  by (simp add: columns_def encodeColumns_def EncodeCompositeKey_def)

lemma encodeColumns_inject [simp]: "encodeColumns x = encodeColumns y \<longleftrightarrow> x = y"
  by (metis columns_encode)

lemma columns_less:
  assumes "length k = 16" "length k' = 16"
  shows "k < k' \<longleftrightarrow> fst (columns k) <s fst (columns k') \<or> fst (columns k) = fst (columns k') \<and> snd (columns k) <s snd (columns k')"
  using EncodeCompositeKey_less [of "fst (columns k)" "snd (columns k)" "fst (columns k')" "snd (columns k')"]
    encode_columns [OF assms(1)] encode_columns [OF assms(2)] by (simp add: encodeColumns_def)

lemma composite_decode: "length k = 16 \<Longrightarrow> DecodeCompositeKey k = Ok (columns k)"
  using composite_roundtrip [of "fst (columns k)" "snd (columns k)"] encode_columns [of k] by (simp add: encodeColumns_def)

lemma map_of_pairRowsOf:
  "\<forall>kv \<in> set kvs. length (fst kv) = 16 \<Longrightarrow> map_of (pairRowsOf kvs) ab = map_option dec64 (map_of kvs (encodeColumns ab))"
proof (induction kvs)
  case (Cons kv kvs)
  have "columns (fst kv) = ab \<longleftrightarrow> fst kv = encodeColumns ab" using Cons.prems encode_columns [of "fst kv"] by auto
  with Cons show ?case by (cases kv) (auto simp: pairRowsOf_def)
qed (simp add: pairRowsOf_def)

lemma tree_key_length: "tree_inv K h t w \<Longrightarrow> \<forall>kv \<in> set (contents t). length (fst kv) = K"
  using rep_key_length by (auto simp: tree_inv_def tree_in_def)

lemma pairRows_key:
  assumes "tree_inv 16 h t w"
  shows "encodeColumns ab \<in> fst ` set (contents t) \<longleftrightarrow> ab \<in> fst ` set (pairRows t)"
  using map_of_pairRowsOf [OF tree_key_length [OF assms], of ab] unfolding pairRows_def
  by (metis map_of_eq_None_iff option.map_disc_iff)

section \<open>Insertion\<close>

interpretation pairs: leaf_insert 16 encodeColumns "\<lambda>p ab. InsertComposite p (fst ab) (snd ab)"
proof
  fix p :: Page and us and ab :: "int64 \<times> int64" and v :: int64
  assume p: "leaf_page 16 p us"
  then have ok: "node_ok 16 p" by (simp add: leaf_page_def)
  note keys = leaf_page_keys [OF p]
  let ?i = "lowerIdx (map fst us) (encodeColumns ab)" and ?e = "encodeColumns ab @ EncodeInt64 v"
  show "\<exists>p'. InsertComposite p (fst ab) (snd ab) v = Ok p' \<and> header p' = header p \<and>
      leaf_page 16 p' (insert_nth ?i (encodeColumns ab, EncodeInt64 v) us)"
    if room: "HasSpaceFor p (16 + 8)"
  proof -
    obtain p' where p': "InsertEntry p (word_of_nat ?i) ?e = Ok p'" "node_ok 16 p'" "header p' = header p"
        "entries p' = insert_nth ?i ?e (entries p)"
      using insert_key_spec [OF ok, of ?e] room keys by auto
    moreover have "PageType p' = LeafPage" using p header_same [OF p'(3)] by (simp add: leaf_page_def)
    ultimately show ?thesis
      using p room findKeyIndex_spec [OF ok, of "encodeColumns ab"] keys
      by (auto simp: InsertComposite_def encodeColumns_def [symmetric] leaf_page_def map_insert_nth set_insert_nth entryOf_def)
  qed
  show "InsertComposite p (fst ab) (snd ab) v = Err ErrPageFull" if "\<not> HasSpaceFor p (16 + 8)"
    using findKeyIndex_spec [OF ok, of "encodeColumns ab"] that by (simp add: InsertComposite_def encodeColumns_def [symmetric])
qed simp_all

text \<open>Without a pool the composite tree's direct writes are the tree's write path.\<close>

lemma poolless_bind:
  assumes "pool w = None" "poolFree f" "\<And>x w'. pool w' = None \<Longrightarrow> g x w' = g' x w'"
  shows "sbind f g w = sbind f g' w"
proof -
  obtain r w1 where f: "f w = (r, w1)" by (cases "f w")
  then have "pool w1 = None" using poolFreeD [OF assms(2,1)] by blast
  with assms(3) f show ?thesis by (cases r) (auto simp: exec_simps)
qed

lemma poolless_write: "pool w = None \<Longrightarrow> WritePage a w = writePage a w"
  by (simp add: writePage_def)

lemma poolless_write_bind:
  assumes "pool w = None" "\<And>w'. pool w' = None \<Longrightarrow> g w' = g' w'"
  shows "sbind (WritePage a) (\<lambda>_. g) w = sbind (writePage a) (\<lambda>_. g') w"
proof -
  have "sbind (WritePage a) (\<lambda>_. g) w = sbind (WritePage a) (\<lambda>_. g') w"
    using assms by (intro poolless_bind stays) auto
  then show ?thesis using poolless_write [OF assms(1), of a] by (simp add: sbind_def)
qed

lemma CompositeBTree_Insert_from:
  assumes "pool w = None"
  shows "CompositeBTree_Insert fuel a b r w =
     sbind (findLeafWithPath fuel (encodeColumns (a, b))) (\<lambda>(leaf, ancestors).
     sbind (deref leaf) (\<lambda>lp.
     insertFrom (encodeColumns (a, b)) (\<lambda>p. InsertComposite p a b r) leaf ancestors lp)) w"
proof -
  have tail: "(case InsertComposite lp a b r of
        Ok lp' \<Rightarrow> sbind (assign leaf lp') (\<lambda>_. WritePage leaf) | Panic \<Rightarrow> slift Panic | Hang \<Rightarrow> slift Hang
      | Err e \<Rightarrow> if e = ErrPageFull then
            sbind AllocatePage (\<lambda>newLeaf.
            sbind (mutate2 newLeaf leaf (\<lambda>r q. splitLeaf q r)) (\<lambda>separatorKey.
            sbind (smod (\<lambda>t. t\<lparr>pageSplits := pageSplits t + 1\<rparr>)) (\<lambda>_.
            sbind (updateNextLeafPrevLink newLeaf) (\<lambda>_.
            sbind (if CompareKeys (encodeColumns (a, b)) separatorKey \<ge> 0
                   then mutate newLeaf (\<lambda>p. InsertComposite p a b r)
                   else mutate leaf (\<lambda>p. InsertComposite p a b r)) (\<lambda>_.
            sbind (WritePage leaf) (\<lambda>_.
            sbind (WritePage newLeaf) (\<lambda>_.
            propagateSplit leaf newLeaf separatorKey ancestors))))))) else sfail e) w =
      insertFrom (encodeColumns (a, b)) (\<lambda>p. InsertComposite p a b r) leaf ancestors lp w"
    if "pool w = None" for lp leaf ancestors and w :: BTree
  proof (cases "InsertComposite lp a b r")
    case (Ok lp')
    then show ?thesis unfolding insertFrom_def by simp (intro poolless_bind that stays poolless_write)
  next
    case (Err e)
    show ?thesis
    proof (cases "e = ErrPageFull")
      case True
      with Err show ?thesis
        unfolding insertFrom_def
        by simp (intro poolless_write_bind poolless_bind that stays; (assumption | simp)?)
    qed (simp add: Err insertFrom_def)
  qed (simp_all add: insertFrom_def)
  have enc: "EncodeCompositeKey a b = encodeColumns (a, b)" by (simp add: encodeColumns_def)
  show ?thesis
    unfolding CompositeBTree_Insert_def Let_def enc
    by (auto intro!: poolless_bind assms stays tail split: prod.splits)
qed

text \<open>What an insertion of a new pair does; \<open>inserted\<close> is the contract of every tree insertion.\<close>

lemma poolless_composite_insert [stays]: "poolFree (CompositeBTree_Insert fuel a b r)"
  unfolding CompositeBTree_Insert_def by (intro stays) simp

lemma CompositeBTree_Insert_spec:
  assumes inv: "tree_inv 16 h t w" and fuel: "h \<le> fuel" and N: "unat (nextPageID (pm w)) + h + 2 < 2 ^ 51"
    and pool: "pool w = None" and new: "(a, b) \<notin> fst ` set (pairRows t)"
  shows "\<exists>w' t' h'. CompositeBTree_Insert fuel a b r w = (Ok (), w') \<and> pool w' = None \<and>
    inserted 16 encodeColumns h t (a, b) r w h' t' w'"
proof -
  let ?k = "encodeColumns (a, b)"
  obtain leaf anc lp w1 w' t' h' where i: "findLeafWithPath fuel ?k w = (Ok (leaf, anc), w1)" "deref leaf w1 = (Ok lp, w1)"
      "insertFrom ?k (\<lambda>p. InsertComposite p a b r) leaf anc lp w1 = (Ok (), w')" "inserted 16 encodeColumns h t (a, b) r w h' t' w'"
    using pairs.insert_spec [OF inv fuel N, of "(a, b)" r] new pairRows_key [OF inv, of "(a, b)"] unfolding fst_conv snd_conv by blast
  have run: "CompositeBTree_Insert fuel a b r w = (Ok (), w')"
    unfolding CompositeBTree_Insert_from [OF pool] using i(1-3) by (simp add: exec_simps)
  with i(4) poolFreeD [OF poolless_composite_insert pool run] show ?thesis by blast
qed

lemma inserted_pairs:
  assumes inv: "tree_inv 16 h t w" and i: "inserted 16 encodeColumns h t ab v w h' t' w'" and new: "ab \<notin> fst ` set (pairRows t)"
  shows "map_of (pairRows t') = (map_of (pairRows t))(ab \<mapsto> v)"
proof -
  let ?i = "lowerIdx (map fst (contents t)) (encodeColumns ab)"
  have "pairRows t' = insert_nth ?i (ab, v) (pairRows t)"
    using i by (simp add: inserted_def pairRows_def pairRowsOf_def map_insert_nth)
  moreover have "fst (pairRows t ! j) \<noteq> ab" if "j < length (pairRows t)" for j
    using new that by (metis image_eqI nth_mem)
  ultimately show ?thesis by (simp add: map_of_insert_nth)
qed

section \<open>Search\<close>

lemma searchCompositeLeaf_spec:
  assumes p: "leaf_page 16 p kvs" and srt: "sorted_wrt (<) (map fst kvs)"
  shows "searchCompositeLeaf p k = Ok (case map_of kvs k of None \<Rightarrow> (0, False) | Some v \<Rightarrow> (dec64 v, True))"
proof -
  have ok: "node_ok 16 p" using p by (simp add: leaf_page_def)
  let ?i = "lowerIdx (map fst kvs) k"
  have find: "findKeyIndex p k = Ok (word_of_nat ?i, ?i < length kvs \<and> map fst kvs ! ?i = k)"
    using findKeyIndex_spec [OF ok, of k] leaf_page_keys [OF p] leaf_page_numEntries [OF p] by simp
  have found: "?i < length kvs \<and> map fst kvs ! ?i = k \<longleftrightarrow> k \<in> fst ` set kvs"
    using lowerIdx_found [of "map fst kvs" k] srt by (simp add: strict_sorted_iff)
  show ?thesis
  proof (cases "k \<in> fst ` set kvs")
    case False
    then show ?thesis using find found by (simp add: searchCompositeLeaf_def map_of_eq_None_iff [THEN iffD2])
  next
    case True
    then have i: "?i < length kvs" "fst (kvs ! ?i) = k" using found by auto
    note s = leaf_slot [OF p i(1)]
    have "distinct (map fst kvs)" using srt strict_sorted_iff by blast
    then have "map_of kvs k = Some (snd (kvs ! ?i))"
      using i by (metis map_of_eq_Some_iff nth_mem prod.collapse)
    with find i s show ?thesis
      by (simp add: searchCompositeLeaf_def sliceFrom_def entryOf_def DecodeInt64_dec64 CompareKeys_def)
  qed
qed

lemma CompositeBTree_Search_spec:
  assumes inv: "tree_inv 16 h t w" and fuel: "h \<le> fuel"
  shows "\<exists>w'. CompositeBTree_Search fuel a b w =
      (Ok (case map_of (pairRows t) (a, b) of None \<Rightarrow> (0, False) | Some v \<Rightarrow> (v, True)), w') \<and> tree_inv 16 h t w' \<and>
    nextPageID (pm w') = nextPageID (pm w) \<and> store.more w' = store.more w"
proof -
  let ?k = "encodeColumns (a, b)"
  obtain l q i kvs fs H w' where f: "findLeafWithPath fuel ?k w = (Ok (l, rev (map fst fs)), w')"
      "st {} (known w) H (nextPageID (pm w)) (store.more w) w'" "H l = Some q" "leaf_page 16 q kvs"
      "t = plug (Leaf i kvs) fs" "ctx_ordered fs" "within fs {?k}"
    using findLeafWithPath_spec [OF inv fuel] by blast
  have srt: "sorted_wrt (<) (map fst kvs)"
    using inv f(5) plug_ordered [OF ctx_ordered_frames_ok [OF f(6)]] by (auto simp: tree_inv_def tree_in_def)
  have "map_of (pairRows t) (a, b) = map_option dec64 (map_of kvs ?k)"
    using map_of_plug [OF f(6,7), of "Leaf i kvs"] f(5) map_of_pairRowsOf [OF tree_key_length [OF inv], of "(a, b)"]
    by (simp add: pairRows_def)
  then have "CompositeBTree_Search fuel a b w =
      (Ok (case map_of (pairRows t) (a, b) of None \<Rightarrow> (0, False) | Some v \<Rightarrow> (v, True)), w')"
    using f(1) deref_rule [OF f(2,3)] searchCompositeLeaf_spec [OF f(4) srt, of ?k]
    by (auto simp: CompositeBTree_Search_def encodeColumns_def exec_simps split: option.splits)
  with tree_inv_st [OF inv f(2)] st_next [OF f(2)] st_more [OF f(2)] show ?thesis by blast
qed

lemma poolless_composite_search [stays]: "poolFree (CompositeBTree_Search fuel a b)"
  unfolding preserves_def
proof (intro allI impI)
  fix w :: BTree
  assume w: "pool w = None"
  obtain r w1 where f: "findLeafWithPath fuel (EncodeCompositeKey a b) w = (r, w1)" by (cases "findLeafWithPath fuel (EncodeCompositeKey a b) w")
  have w1: "pool w1 = None" using poolFreeD [OF poolFree_findLeaf w f] .
  have "poolFree (sbind (deref l) (\<lambda>p. slift (searchCompositeLeaf p k)) :: (BTree, _) op)" for l k by (intro stays)
  then have "pool (snd (sbind (deref l) (\<lambda>p. slift (searchCompositeLeaf p k)) w1)) = None" for l k
    using w1 by (simp add: preserves_def)
  with f w1 show "pool (snd (CompositeBTree_Search fuel a b w)) = None"
    by (auto simp: CompositeBTree_Search_def Let_def split: res.splits)
qed

section \<open>Scan\<close>

definition pairRow :: "(int64 \<times> int64) \<times> int64 \<Rightarrow> CompositeScanResult" where
  "pairRow r = \<lparr>csr_ColumnA = fst (fst r), csr_ColumnB = snd (fst r), csr_RecordID = snd r\<rparr>"

interpretation pair_scan: chain_scan "\<lambda>w. pool w = None" ReadPage WritePage 16 "\<lambda>k. endKey < k"
  "\<lambda>(k, v). pairRow (columns k, dec64 v)" "\<lambda>p. scanCompositeLeaf p endKey" "\<lambda>fuel a. scanCompositeChain fuel a endKey"
proof
  fix p kvs idx m and res :: "CompositeScanResult list"
  assume p: "leaf_page 16 p kvs"
  show "idx + m = length kvs \<Longrightarrow> scanCompositeLeaf p endKey idx m res =
      Ok (res @ map (\<lambda>(k, v). pairRow (columns k, dec64 v)) (takeWhile (\<lambda>kv. \<not> endKey < fst kv) (drop idx kvs)),
        \<exists>kv \<in> set (drop idx kvs). endKey < fst kv)"
  proof (induction m arbitrary: idx res)
    case (Suc m)
    have i: "idx < length kvs" using Suc.prems by simp
    note s = leaf_slot [OF p i]
    have drop: "drop idx kvs = kvs ! idx # drop (Suc idx) kvs" using i by (simp flip: Cons_nth_drop_Suc)
    have "DecodeCompositeKey (fst (kvs ! idx)) = Ok (columns (fst (kvs ! idx)))"
      using s(3) composite_decode by blast
    moreover have "DecodeInt64 (snd (kvs ! idx)) = Ok (dec64 (snd (kvs ! idx)))" using s by (simp add: DecodeInt64_dec64)
    ultimately show ?case
      using Suc.IH [of "Suc idx"] Suc.prems s
      by (simp add: drop sliceFrom_def entryOf_def pairRow_def split_beta CompareKeys_def)
  qed simp
next
  fix fuel k and w w' :: BTree and r
  assume "pool w = None" "findLeafWithPath fuel k w = (r, w')"
  then show "pool w' = None" using poolFreeD [OF poolFree_findLeaf] by blast
qed (auto simp: Let_def)

lemma CompositeBTree_Scan_spec:
  assumes inv: "tree_inv 16 h t w" and pool: "pool w = None" and fuel: "h \<le> fuel" "length (leafIDs t) \<le> scanFuel" and range: "\<not> e <s s"
  shows "\<exists>w'. CompositeBTree_Scan fuel scanFuel a s e w =
      (Ok (map pairRow (filter (\<lambda>r. fst (fst r) = a \<and> \<not> snd (fst r) <s s \<and> \<not> e <s snd (fst r)) (pairRows t))), w') \<and>
    tree_inv 16 h t w' \<and> nextPageID (pm w') = nextPageID (pm w) \<and> store.more w' = store.more w"
proof -
  have "map (\<lambda>(k, v). pairRow (columns k, dec64 v)) (filter (\<lambda>kv. EncodeCompositeKey a s \<le> fst kv \<and> \<not> EncodeCompositeKey a e < fst kv) kvs) =
      map pairRow (filter (\<lambda>r. fst (fst r) = a \<and> \<not> snd (fst r) <s s \<and> \<not> e <s snd (fst r)) (pairRowsOf kvs))"
    if "\<forall>kv \<in> set kvs. length (fst kv) = 16" for kvs
    using that
  proof (induction kvs)
    case (Cons kv kvs)
    have len: "length (fst kv) = 16" using Cons.prems by simp
    have "fst kv < EncodeCompositeKey a s \<longleftrightarrow> fst (columns (fst kv)) <s a \<or> fst (columns (fst kv)) = a \<and> snd (columns (fst kv)) <s s"
      "EncodeCompositeKey a e < fst kv \<longleftrightarrow> a <s fst (columns (fst kv)) \<or> a = fst (columns (fst kv)) \<and> e <s snd (columns (fst kv))"
      using columns_less [OF len length_encodeColumns, of "(a, s)"] columns_less [OF length_encodeColumns len, of "(a, e)"]
      unfolding columns_encode by (simp_all add: encodeColumns_def)
    moreover have "fst (columns (fst kv)) <s a \<or> fst (columns (fst kv)) = a \<or> a <s fst (columns (fst kv))" by (rule signed.less_linear)
    ultimately have "EncodeCompositeKey a s \<le> fst kv \<and> \<not> EncodeCompositeKey a e < fst kv \<longleftrightarrow>
        fst (columns (fst kv)) = a \<and> \<not> snd (columns (fst kv)) <s s \<and> \<not> e <s snd (columns (fst kv))"
      unfolding not_less [symmetric] by auto
    with Cons show ?case by (simp add: pairRowsOf_def split_beta)
  qed (simp add: pairRowsOf_def)
  from this [OF tree_key_length [OF inv]] pair_scan.scan_spec [OF inv pool fuel, of "EncodeCompositeKey a s" "EncodeCompositeKey a e"] range
  show ?thesis by (simp add: CompositeBTree_Scan_def pairRows_def Let_def)
qed

section \<open>Deletion\<close>

interpretation pair_delete: leaf_delete 16 encodeColumns "\<lambda>p ab. deleteCompositeLeaf (encodeColumns ab) p" 24 72
proof
  fix p :: Page and kvs and ab :: "int64 \<times> int64"
  assume p: "leaf_page 16 p kvs" and srt: "sorted_wrt (<) (map fst kvs)"
  let ?k = "encodeColumns ab" and ?i = "lowerIdx (map fst kvs) (encodeColumns ab)"
  have ok: "node_ok 16 p" using p by (simp add: leaf_page_def)
  note keys = leaf_page_keys [OF p]
  have find: "findKeyIndex p ?k = Ok (word_of_nat ?i, ?k \<in> fst ` set kvs)"
    using findKeyIndex_spec [OF ok, of ?k] lowerIdx_found [of "map fst kvs" ?k] srt keys leaf_page_numEntries [OF p]
    by (simp add: strict_sorted_iff)
  show "deleteCompositeLeaf ?k p = Err ErrKeyNotFound" if "?k \<notin> fst ` set kvs"
    using that find by (simp add: deleteCompositeLeaf_def)
  assume k: "?k \<in> fst ` set kvs"
  then have i: "?i < length kvs" "fst (kvs ! ?i) = ?k"
    using lowerIdx_found [of "map fst kvs" ?k] srt by (auto simp: strict_sorted_iff)
  obtain p' where p': "DeleteEntry p (word_of_nat ?i) = Ok p'" "node_ok 16 p'" "header p' = header p"
      "entries p' = delete_nth ?i (entries p)"
    using delete_key_spec [OF ok, of ?k] k keys by auto
  have "entries p' = map entryOf (filter (\<lambda>kv. fst kv \<noteq> ?k) kvs)"
    using p'(4) p delete_sorted [OF srt k] by (simp add: leaf_page_def delete_nth_def take_map drop_map flip: map_append)
  then have "leaf_page 16 p' (filter (\<lambda>kv. fst kv \<noteq> ?k) kvs)"
    using p p'(2) header_same [OF p'(3)] by (simp add: leaf_page_def)
  with p'(1,3) find k leaf_slot(2) [OF p i(1)] i(2)
  show "\<exists>p'. deleteCompositeLeaf ?k p = Ok p' \<and> header p' = header p \<and> leaf_page 16 p' (filter (\<lambda>kv. fst kv \<noteq> ?k) kvs)"
    by (simp add: deleteCompositeLeaf_def CompareKeys_def)
qed (simp_all add: MaxMinEntries)

lemma CompositeBTree_Delete_from:
  assumes "pool w = None"
  shows "CompositeBTree_Delete fuel a b w = sbind (findLeafWithPath fuel (encodeColumns (a, b)))
    (\<lambda>(leaf, anc). deleteFrom (\<lambda>p. deleteCompositeLeaf (encodeColumns (a, b)) p) leaf anc) w"
proof -
  have enc: "EncodeCompositeKey a b = encodeColumns (a, b)" by (simp add: encodeColumns_def)
  show ?thesis
    unfolding CompositeBTree_Delete_def deleteFrom_def Let_def enc
    by (auto intro!: poolless_bind assms stays simp: poolless_write minEntries_def split: prod.splits)
qed

lemma pairs_filter:
  assumes "\<forall>kv \<in> set kvs. length (fst kv) = 16"
  shows "pairRowsOf (filter (\<lambda>kv. fst kv \<noteq> encodeColumns ab) kvs) = filter (\<lambda>r. fst r \<noteq> ab) (pairRowsOf kvs)"
  using assms
proof (induction kvs)
  case (Cons kv kvs)
  have "fst kv = encodeColumns ab \<longleftrightarrow> columns (fst kv) = ab" using Cons.prems encode_columns [of "fst kv"] by auto
  with Cons show ?case by (simp add: pairRowsOf_def split_beta)
qed (simp add: pairRowsOf_def)

section \<open>Opening\<close>

lemma openCompositeRoot_poolless:
  assumes "pool w = None"
  shows "openCompositeRoot w = openRoot w"
proof -
  have "ReadPage 0 w = readPage 0 w" using assms by (simp add: readPage_def)
  then have "sbind (ReadPage 0) g w = sbind (readPage 0) g w" for g by (simp add: sbind_def)
  then show ?thesis
    unfolding openCompositeRoot_def openRoot_def using assms
    by (auto simp: exec_simps intro!: poolless_bind poolless_write_bind stays)
qed

lemma OpenComposite_openWith: "OpenComposite opened = openWith opened CompositeEntrySize False []"
  unfolding OpenComposite_def openWith_def by (simp add: openCompositeRoot_poolless)

lemma OpenComposite_poolless: "OpenComposite opened = Ok w \<Longrightarrow> pool w = None"
  unfolding OpenComposite_openWith by (rule openWith_poolless)

end
