(* ===== verification/Composite_Client.thy ===== *)
theory Composite_Client
  imports Composite_Spec Untouched Client
begin

text \<open>
  A client of the composite tree: any sequence of \<^verbatim>\<open>Insert\<close>, \<^verbatim>\<open>Delete\<close>, \<^verbatim>\<open>Search\<close> and \<^verbatim>\<open>Scan\<close> calls gets the
  answers of a list of rows in the order of their columns.
\<close>

section \<open>Calls and answers\<close>

type_synonym pair_row = "(int64 \<times> int64) \<times> int64"

datatype pair_call = PInsert int64 int64 int64 | PDelete int64 int64 | PSearch int64 int64 | PScan int64 int64 int64

datatype pair_answer = PDone | PFailed error | PFound "int64 \<times> bool" | PRows "CompositeScanResult list" | PCrash

definition pairAnswered :: "('a \<Rightarrow> pair_answer) \<Rightarrow> 'a res \<times> 's \<Rightarrow> pair_answer \<times> 's" where
  "pairAnswered f x = (case x of (Ok a, w) \<Rightarrow> (f a, w) | (Err e, w) \<Rightarrow> (PFailed e, w) | (_, w) \<Rightarrow> (PCrash, w))"

fun runPair :: "nat \<Rightarrow> pair_call \<Rightarrow> BTree \<Rightarrow> pair_answer \<times> BTree" where
  "runPair fuel (PInsert a b v) w = pairAnswered (\<lambda>_. PDone) (CompositeBTree_Insert fuel a b v w)"
| "runPair fuel (PDelete a b) w = pairAnswered (\<lambda>_. PDone) (CompositeBTree_Delete fuel a b w)"
| "runPair fuel (PSearch a b) w = pairAnswered PFound (CompositeBTree_Search fuel a b w)"
| "runPair fuel (PScan a s e) w = pairAnswered PRows (CompositeBTree_Scan fuel (unat (nextPageID (pm w))) a s e w)"

fun runPairs :: "nat \<Rightarrow> pair_call list \<Rightarrow> BTree \<Rightarrow> pair_answer list \<times> BTree" where
  "runPairs fuel [] w = ([], w)"
| "runPairs fuel (c # cs) w = (case runPair fuel c w of (a, w1) \<Rightarrow> case runPairs fuel cs w1 of (as, w2) \<Rightarrow> (a # as, w2))"

section \<open>The specification\<close>

text \<open>The order of the columns, and a row put at its place.\<close>

definition pairLess :: "int64 \<times> int64 \<Rightarrow> int64 \<times> int64 \<Rightarrow> bool" where
  "pairLess x y \<longleftrightarrow> sint (fst x) < sint (fst y) \<or> sint (fst x) = sint (fst y) \<and> sint (snd x) < sint (snd y)"

fun placePair :: "pair_row \<Rightarrow> pair_row list \<Rightarrow> pair_row list" where
  "placePair x [] = [x]"
| "placePair x (y # ys) = (if pairLess (fst x) (fst y) then x # y # ys else y # placePair x ys)"

fun specPair :: "pair_call \<Rightarrow> pair_row list \<Rightarrow> pair_answer \<times> pair_row list" where
  "specPair (PInsert a b v) rs = (PDone, placePair ((a, b), v) rs)"
| "specPair (PDelete a b) rs =
     (if (a, b) \<in> fst ` set rs then (PDone, filter (\<lambda>r. fst r \<noteq> (a, b)) rs) else (PFailed ErrKeyNotFound, rs))"
| "specPair (PSearch a b) rs = (PFound (case map_of rs (a, b) of None \<Rightarrow> (0, False) | Some v \<Rightarrow> (v, True)), rs)"
| "specPair (PScan a s e) rs =
     (if sint e < sint s then PFailed ErrInvalidRange
      else PRows (map pairRow (filter (\<lambda>r. fst (fst r) = a \<and> sint s \<le> sint (snd (fst r)) \<and> sint (snd (fst r)) \<le> sint e) rs)), rs)"

fun specPairs :: "pair_call list \<Rightarrow> pair_row list \<Rightarrow> pair_answer list \<times> pair_row list" where
  "specPairs [] rs = ([], rs)"
| "specPairs (c # cs) rs = (case specPair c rs of (a, rs1) \<Rightarrow> case specPairs cs rs1 of (as, rs2) \<Rightarrow> (a # as, rs2))"

text \<open>The composite tree has no check for duplicates; the client inserts only pairs that are not there.\<close>

fun newPair :: "pair_call \<Rightarrow> pair_row list \<Rightarrow> bool" where
  "newPair (PInsert a b v) rs = ((a, b) \<notin> fst ` set rs)"
| "newPair _ rs = True"

fun newPairs :: "pair_call list \<Rightarrow> pair_row list \<Rightarrow> bool" where
  "newPairs [] rs = True"
| "newPairs (c # cs) rs = (newPair c rs \<and> newPairs cs (snd (specPair c rs)))"

fun isPairDelete :: "pair_call \<Rightarrow> bool" where
  "isPairDelete (PDelete a b) = True"
| "isPairDelete _ = False"

text \<open>Every deletion finds fewer than 10512 rows: the tree then has at most one level above its leaves.\<close>

fun lowPairDeletes :: "pair_call list \<Rightarrow> pair_row list \<Rightarrow> bool" where
  "lowPairDeletes [] rs = True"
| "lowPairDeletes (c # cs) rs = ((isPairDelete c \<longrightarrow> length rs < 10512) \<and> lowPairDeletes cs (snd (specPair c rs)))"

section \<open>The tree implements it\<close>

interpretation poolless_tree: tree_frame "\<lambda>w. pool w = None"
  by unfold_locales (rule poolFree_objects poolFree_manager poolFree_paths | simp)+

lemma poolless_composite_delete: "poolFree (CompositeBTree_Delete fuel a b)"
  unfolding CompositeBTree_Delete_def fixLeafUnderflow_def mergeLeafWithLeft_def mergeLeafWithRight_def Let_def
  by (intro stays poolless_tree.steps poolless_tree.descent poolless_tree.repairs poolless_tree.internal_underflow poolless_tree.merged)

lemma poolless_composite_scan: "poolFree (CompositeBTree_Scan fuel scanFuel a s e)"
proof -
  have "poolFree (scanCompositeChain m l e i rs)" for m l e i rs
    by (induction m arbitrary: l i rs) (simp_all, (intro stays | assumption)+)
  then show ?thesis unfolding CompositeBTree_Scan_def Let_def by (intro stays)
qed

definition pair_tree_rows :: "nat \<Rightarrow> nat \<Rightarrow> BTree \<Rightarrow> pair_row list \<Rightarrow> bool" where
  "pair_tree_rows fuel n w rs \<longleftrightarrow> (\<exists>h t. tree_inv 16 h t w \<and> pairRows t = rs \<and> pool w = None \<and> entrySize w = 24 \<and> filled 72 t \<and>
     h + n \<le> fuel \<and> h + n \<le> 2 ^ 21 \<and> unat (nextPageID (pm w)) + n * 2 ^ 22 < 2 ^ 51)"

text \<open>In key order a row goes where the leaf insertion puts it.\<close>

lemma placePair_rows:
  assumes "\<forall>kv \<in> set kvs. length (fst kv) = 16" "encodeColumns ab \<notin> fst ` set kvs"
  shows "placePair (ab, v) (pairRowsOf kvs) =
    pairRowsOf (insert_nth (lowerIdx (map fst kvs) (encodeColumns ab)) (encodeColumns ab, EncodeInt64 v) kvs)"
  using assms
proof (induction kvs)
  case Nil
  show ?case by (simp add: pairRowsOf_def lowerIdx_def insert_nth_def)
next
  case (Cons kv kvs)
  let ?k = "encodeColumns ab"
  have "?k < fst kv \<longleftrightarrow> pairLess ab (columns (fst kv))"
    using columns_less [of ?k "fst kv"] Cons.prems(1) by (auto simp: pairLess_def word_sless_alt)
  moreover have "?k \<noteq> fst kv" using Cons.prems(2) by auto
  ultimately show ?case
    using Cons by (cases "fst kv < ?k") (auto simp: pairRowsOf_def lowerIdx_def insert_nth_def split_beta)
qed

lemma inserted_placePair:
  assumes inv: "tree_inv 16 h t w" and i: "inserted 16 encodeColumns h t ab v w h' t' w'" and new: "ab \<notin> fst ` set (pairRows t)"
  shows "pairRows t' = placePair (ab, v) (pairRows t)"
  using placePair_rows [OF tree_key_length [OF inv], of ab v] pairRows_key [OF inv, of ab] new i by (simp add: inserted_def pairRows_def)

lemma pair_insert_call:
  assumes rs: "pair_tree_rows fuel (Suc n) w rs" and new: "(a, b) \<notin> fst ` set rs"
  shows "\<exists>w'. CompositeBTree_Insert fuel a b v w = (Ok (), w') \<and> pair_tree_rows fuel n w' (placePair ((a, b), v) rs)"
proof -
  obtain h t where t: "tree_inv 16 h t w" "pairRows t = rs" "pool w = None" "entrySize w = 24" "filled 72 t" "h + Suc n \<le> fuel"
      "h + Suc n \<le> 2 ^ 21" "unat (nextPageID (pm w)) + Suc n * 2 ^ 22 < 2 ^ 51"
    using rs by (auto simp: pair_tree_rows_def)
  have pre: "h \<le> fuel" "unat (nextPageID (pm w)) + h + 2 < 2 ^ 51" using t(6-8) by simp_all
  have k: "(a, b) \<notin> fst ` set (pairRows t)" using new t(2) by simp
  obtain w' t' h' where w': "CompositeBTree_Insert fuel a b v w = (Ok (), w')" "pool w' = None"
      "inserted 16 encodeColumns h t (a, b) v w h' t' w'"
    using CompositeBTree_Insert_spec [OF t(1) pre t(3) k] by blast
  then have i: "tree_inv 16 h' t' w'" "h' \<le> Suc h" "unat (nextPageID (pm w')) \<le> unat (nextPageID (pm w)) + h + 2" "entrySize w' = 24" "filled 72 t'"
    using t(4,5) by (auto simp: inserted_def)
  have "pair_tree_rows fuel n w' (placePair ((a, b), v) rs)"
    unfolding pair_tree_rows_def using i w'(2) t(6-8) inserted_placePair [OF t(1) w'(3) k] t(2)
    by (intro exI [of _ h'] exI [of _ t']) simp
  with w'(1) show ?thesis by blast
qed

interpretation pair_repair: repaired_delete 16 encodeColumns "\<lambda>p ab. deleteCompositeLeaf (encodeColumns ab) p" 24 72
  by unfold_locales

text \<open>With at most one level above them the leaves are children of the root and an underfull one is repaired with its neighbours.\<close>

lemma CompositeBTree_Delete_low:
  assumes inv: "tree_inv 16 h t w" "pool w = None" "entrySize w = 24" "h \<le> fuel" "filled 72 t" "unat (nextPageID (pm w)) < 2 ^ 51"
    and h: "h \<le> 1" and k: "(a, b) \<in> fst ` set (pairRows t)"
  shows "\<exists>w' h' t'. CompositeBTree_Delete fuel a b w = (Ok (), w') \<and> tree_inv 16 h' t' w' \<and> filled 72 t' \<and> h' \<le> h \<and>
    contents t' = filter (\<lambda>kv. fst kv \<noteq> encodeColumns (a, b)) (contents t) \<and> nextPageID (pm w') = nextPageID (pm w) \<and> entrySize w' = 24"
proof -
  have N: "valid_id (nextPageID (pm w))" using inv(6) by (simp add: valid_id_def)
  have bal: "balanced t h" using inv(1) by (simp add: tree_inv_def tree_in_def)
  have fin: "finishes 16 72 24 fs" if "length fs < h" for fs using finishes_root [of 72 16 24] that h by (cases fs) auto
  have key: "encodeColumns (a, b) \<in> fst ` set (contents t)" using pairRows_key [OF inv(1), of "(a, b)"] k by simp
  show ?thesis
    using pair_repair.delete_repair [OF inv(1) N inv(4) key inv(3,5) sheltered_low [OF bal h] fin]
    unfolding CompositeBTree_Delete_from [OF inv(2), of fuel a b] by blast
qed

lemma pairRows_deleted:
  assumes "tree_inv 16 h t w" "contents t' = filter (\<lambda>kv. fst kv \<noteq> encodeColumns ab) (contents t)"
  shows "pairRows t' = filter (\<lambda>r. fst r \<noteq> ab) (pairRows t)"
  using pairs_filter [OF tree_key_length [OF assms(1)], of ab] assms(2) by (simp add: pairRows_def)

text \<open>What every call finds.\<close>

lemma pair_rowsE:
  assumes "pair_tree_rows fuel (Suc n) w rs"
  obtains h t where "tree_inv 16 h t w" "pairRows t = rs" "pool w = None" "entrySize w = 24" "filled 72 t" "h \<le> fuel"
    "h + Suc n \<le> fuel" "h + Suc n \<le> 2 ^ 21" "unat (nextPageID (pm w)) + Suc n * 2 ^ 22 < 2 ^ 51"
  using assms that unfolding pair_tree_rows_def by (metis add_leD1)

lemma pair_kept:
  assumes t: "tree_inv 16 h t w" "pairRows t = rs" "pool w = None" "entrySize w = 24" "filled 72 t"
      "h + Suc n \<le> fuel" "h + Suc n \<le> 2 ^ 21" "unat (nextPageID (pm w)) + Suc n * 2 ^ 22 < 2 ^ 51"
    and w': "tree_inv 16 h' t' w'" "h' \<le> h" "filled 72 t'" "pool w' = None" "nextPageID (pm w') = nextPageID (pm w)" "entrySize w' = 24"
  shows "pair_tree_rows fuel n w' (pairRows t')"
  unfolding pair_tree_rows_def using assms by (intro exI [of _ h'] exI [of _ t']) simp

lemma pair_delete_call:
  assumes rs: "pair_tree_rows fuel (Suc n) w rs" and few: "length rs < 10512"
  shows "\<exists>w'. runPair fuel (PDelete a b) w = (fst (specPair (PDelete a b) rs), w') \<and> pair_tree_rows fuel n w' (snd (specPair (PDelete a b) rs))"
proof -
  obtain h t where t: "tree_inv 16 h t w" "pairRows t = rs" "pool w = None" "entrySize w = 24" "filled 72 t" "h \<le> fuel"
      "h + Suc n \<le> fuel" "h + Suc n \<le> 2 ^ 21" "unat (nextPageID (pm w)) + Suc n * 2 ^ 22 < 2 ^ 51"
    using pair_rowsE [OF rs] by metis
  have N: "unat (nextPageID (pm w)) < 2 ^ 51" using t(9) by simp
  have "balanced t h" using t(1) by (simp add: tree_inv_def tree_in_def)
  then have h: "h \<le> 1" using low_tree t(2,5) few by (fastforce simp: pairRows_def pairRowsOf_def)
  note kept = pair_kept [OF t(1-5,7-9)] and pool = poolFreeD [OF poolless_composite_delete t(3)]
  show ?thesis
  proof (cases "(a, b) \<in> fst ` set rs")
    case True
    obtain w' h' t' where w': "CompositeBTree_Delete fuel a b w = (Ok (), w')" "tree_inv 16 h' t' w'" "filled 72 t'" "h' \<le> h"
        "contents t' = filter (\<lambda>kv. fst kv \<noteq> encodeColumns (a, b)) (contents t)" "nextPageID (pm w') = nextPageID (pm w)" "entrySize w' = 24"
      using CompositeBTree_Delete_low [OF t(1,3,4,6,5) N h] True t(2) by blast
    have "pair_tree_rows fuel n w' (pairRows t')" using kept [OF w'(2,4,3) pool [OF w'(1)] w'(6,7)] .
    with w'(1) True pairRows_deleted [OF t(1) w'(5)] t(2) show ?thesis by (simp add: pairAnswered_def)
  next
    case False
    obtain w' where w': "CompositeBTree_Delete fuel a b w = (Err ErrKeyNotFound, w')" "tree_inv 16 h t w'" "nextPageID (pm w') = nextPageID (pm w)"
        "store.more w' = store.more w"
      using pair_delete.delete_missing [OF t(1,6), of "(a, b)"] pairRows_key [OF t(1), of "(a, b)"] False t(2)
      unfolding CompositeBTree_Delete_from [OF t(3), of fuel a b] by auto
    have "entrySize w' = 24" using more_fields [OF w'(4)] t(4) by simp
    from kept [OF w'(2) order_refl t(5) pool [OF w'(1)] w'(3) this] t(2) w'(1) False show ?thesis by (simp add: pairAnswered_def)
  qed
qed

lemma pair_search_call:
  assumes rs: "pair_tree_rows fuel (Suc n) w rs"
  shows "\<exists>w'. runPair fuel (PSearch a b) w = (fst (specPair (PSearch a b) rs), w') \<and> pair_tree_rows fuel n w' rs"
proof -
  obtain h t where t: "tree_inv 16 h t w" "pairRows t = rs" "pool w = None" "entrySize w = 24" "filled 72 t" "h \<le> fuel"
      "h + Suc n \<le> fuel" "h + Suc n \<le> 2 ^ 21" "unat (nextPageID (pm w)) + Suc n * 2 ^ 22 < 2 ^ 51"
    using pair_rowsE [OF rs] by metis
  obtain w' where w': "CompositeBTree_Search fuel a b w = (Ok (case map_of (pairRows t) (a, b) of None \<Rightarrow> (0, False) | Some v \<Rightarrow> (v, True)), w')"
      "tree_inv 16 h t w'" "nextPageID (pm w') = nextPageID (pm w)" "store.more w' = store.more w"
    using CompositeBTree_Search_spec [OF t(1,6)] by blast
  have e: "entrySize w' = 24" "pool w' = None" using more_fields [OF w'(4)] t(4) poolFreeD [OF poolless_composite_search t(3) w'(1)] by simp_all
  from pair_kept [OF t(1-5,7-9) w'(2) order_refl t(5) e(2) w'(3) e(1)] t(2) w'(1) show ?thesis by (simp add: pairAnswered_def)
qed

lemma pair_scan_call:
  assumes rs: "pair_tree_rows fuel (Suc n) w rs"
  shows "\<exists>w'. runPair fuel (PScan a s e) w = (fst (specPair (PScan a s e) rs), w') \<and> pair_tree_rows fuel n w' rs"
proof -
  obtain h t where t: "tree_inv 16 h t w" "pairRows t = rs" "pool w = None" "entrySize w = 24" "filled 72 t" "h \<le> fuel"
      "h + Suc n \<le> fuel" "h + Suc n \<le> 2 ^ 21" "unat (nextPageID (pm w)) + Suc n * 2 ^ 22 < 2 ^ 51"
    using pair_rowsE [OF rs] by metis
  note kept = pair_kept [OF t(1-5,7-9)]
  show ?thesis
  proof (cases "sint e < sint s")
    case True
    with kept [OF t(1) order_refl t(5,3) refl t(4)] t(2) show ?thesis
      by (simp add: pairAnswered_def CompositeBTree_Scan_def word_sless_alt sfail_def)
  next
    case False
    have fuel: "length (leafIDs t) \<le> unat (nextPageID (pm w))" using t(1) tree_in_bounds(2) by (auto simp: tree_inv_def)
    obtain w' where w': "CompositeBTree_Scan fuel (unat (nextPageID (pm w))) a s e w =
        (Ok (map pairRow (filter (\<lambda>r. fst (fst r) = a \<and> \<not> snd (fst r) <s s \<and> \<not> e <s snd (fst r)) (pairRows t))), w')"
        "tree_inv 16 h t w'" "nextPageID (pm w') = nextPageID (pm w)" "store.more w' = store.more w"
      using CompositeBTree_Scan_spec [OF t(1,3,6) fuel, of e s a] False by (auto simp: word_sless_alt)
    have e: "entrySize w' = 24" "pool w' = None" using more_fields [OF w'(4)] t(4) poolFreeD [OF poolless_composite_scan t(3) w'(1)] by simp_all
    from kept [OF w'(2) order_refl t(5) e(2) w'(3) e(1)] t(2) w'(1) False show ?thesis
      by (simp add: pairAnswered_def word_sless_alt not_less)
  qed
qed

lemma runPair_spec:
  assumes "pair_tree_rows fuel (Suc n) w rs" "newPair c rs" "isPairDelete c \<longrightarrow> length rs < 10512"
  shows "\<exists>w'. runPair fuel c w = (fst (specPair c rs), w') \<and> pair_tree_rows fuel n w' (snd (specPair c rs))"
proof (cases c)
  case (PInsert a b v)
  with assms(2) pair_insert_call [OF assms(1), of a b v] show ?thesis by (auto simp: pairAnswered_def)
qed (use pair_delete_call [OF assms(1)] pair_search_call [OF assms(1)] pair_scan_call [OF assms(1)] assms(3) in auto)

lemma runPairs_spec:
  "pair_tree_rows fuel (length cs) w rs \<Longrightarrow> newPairs cs rs \<Longrightarrow> lowPairDeletes cs rs \<Longrightarrow>
   \<exists>w'. runPairs fuel cs w = (fst (specPairs cs rs), w') \<and> pair_tree_rows fuel 0 w' (snd (specPairs cs rs))"
proof (induction cs arbitrary: w rs)
  case (Cons c cs)
  have low: "isPairDelete c \<longrightarrow> length rs < 10512" "lowPairDeletes cs (snd (specPair c rs))" using Cons.prems(3) by simp_all
  obtain w1 where w1: "runPair fuel c w = (fst (specPair c rs), w1)" "pair_tree_rows fuel (length cs) w1 (snd (specPair c rs))"
    using runPair_spec [OF _ _ low(1), of fuel "length cs" w] Cons.prems(1,2) by auto
  from Cons.IH [OF w1(2) _ low(2)] Cons.prems(2) w1(1) show ?case by (auto split: prod.splits)
qed simp

end
