(* ===== verification/Composite_Properties.thy ===== *)
theory Composite_Properties
  imports Composite_Client
begin

text \<open>
  What the composite tree of \<^verbatim>\<open>composite.go\<close> promises: it answers any sequence of calls as a list of rows in the order of
  their columns, a scan of one value of the first column returns its rows in the order of the second, and a
  deletion removes exactly one row, on taller trees if its leaf stays half full.
\<close>

section \<open>Any sequence of calls\<close>

lemma OpenComposite_empty:
  obtains w where "OpenComposite (Ok (fileWith [])) = Ok w" "tree_inv 16 0 (Leaf 1 []) w" "pool w = None"
    "entrySize w = 24" "nextPageID (pm w) = 2"
proof -
  obtain w where w: "OpenComposite (Ok (fileWith [])) = Ok w" "tree_inv 16 0 (Leaf 1 []) w" "entrySize w = 24" "nextPageID (pm w) = 2"
    using openWith_empty [of CompositeEntrySize False "[]" 16] by (auto simp: OpenComposite_openWith CompositeEntrySize_def)
  moreover have "pool w = None" using OpenComposite_poolless [OF w(1)] .
  ultimately show ?thesis using that by blast
qed

text \<open>
  C13. Refinement: a composite tree on a new file answers every sequence of up to two million Insert, Delete, Search and
  Scan calls exactly as a list of rows in the order of their columns does, if it inserts only missing pairs, every Delete
  finds fewer than 10512 rows, so that the tree then has at most one level above its leaves, and no system call fails.
\<close>

theorem composite_refines_sorted_list:
  assumes "newPairs cs []" "length cs \<le> fuel" "length cs \<le> 2 ^ 21" "lowPairDeletes cs []"
  shows "\<exists>w w' h t. OpenComposite (Ok (fileWith [])) = Ok w \<and> runPairs fuel cs w = (fst (specPairs cs []), w') \<and>
    tree_inv 16 h t w' \<and> pairRows t = snd (specPairs cs [])"
proof -
  obtain w where w: "OpenComposite (Ok (fileWith [])) = Ok w" "tree_inv 16 0 (Leaf 1 []) w" "pool w = None" "entrySize w = 24" "nextPageID (pm w) = 2"
    by (rule OpenComposite_empty)
  then have "pair_tree_rows fuel (length cs) w []"
    unfolding pair_tree_rows_def using assms(2,3)
    by (intro exI [of _ 0] exI [of _ "Leaf 1 []"]) (simp add: pairRows_def pairRowsOf_def)
  from runPairs_spec [OF this assms(1,4)] obtain w' where "runPairs fuel cs w = (fst (specPairs cs []), w')"
      "pair_tree_rows fuel 0 w' (snd (specPairs cs []))" by auto
  with w(1) show ?thesis unfolding pair_tree_rows_def by blast
qed

theorem composite_refines_sorted_list_witness:
  "\<exists>w w'. OpenComposite (Ok (fileWith [])) = Ok w \<and>
    runPairs 6 [PInsert 3 1 10, PInsert 3 (-1) 20, PInsert 2 5 30, PScan 3 (-9) 9, PDelete 3 1, PSearch 3 1] w =
      ([PDone, PDone, PDone, PRows [pairRow ((3, -1), 20), pairRow ((3, 1), 10)], PDone, PFound (0, False)], w')"
proof -
  let ?cs = "[PInsert 3 1 10, PInsert 3 (-1) 20, PInsert 2 5 30, PScan 3 (-9) 9, PDelete 3 1, PSearch 3 1]"
  have spec: "fst (specPairs ?cs []) = [PDone, PDone, PDone, PRows [pairRow ((3, -1), 20), pairRow ((3, 1), 10)], PDone, PFound (0, False)]"
    by (simp add: pairLess_def)
  have "newPairs ?cs []" "lowPairDeletes ?cs []" by (simp_all add: pairLess_def)
  from composite_refines_sorted_list [OF this(1) _ _ this(2), of 6] show ?thesis unfolding spec by auto
qed

section \<open>Scan of a prefix\<close>

lemma pairRows_sorted:
  assumes "tree_inv 16 h t w"
  shows "sorted_wrt (\<lambda>x y. pairLess (fst x) (fst y)) (pairRows t)" "distinct (map fst (pairRows t))"
proof -
  have "sorted_wrt (\<lambda>x y. pairLess (fst x) (fst y)) (pairRowsOf kvs)"
    if "\<forall>kv \<in> set kvs. length (fst kv) = 16" "sorted_wrt (<) (map fst kvs)" for kvs
    using that by (induction kvs) (auto simp: pairRowsOf_def split_beta columns_less word_sless_alt pairLess_def)
  moreover have "ordered t" using assms by (simp add: tree_inv_def tree_in_def)
  ultimately show s: "sorted_wrt (\<lambda>x y. pairLess (fst x) (fst y)) (pairRows t)"
    using tree_key_length [OF assms] sorted_contents [of t] by (simp add: pairRows_def)
  have "distinct (map fst rs)" if "sorted_wrt (\<lambda>x y. pairLess (fst x) (fst y)) rs" for rs :: "((int64 \<times> int64) \<times> int64) list"
    using that by (induction rs) (force simp: pairLess_def)+
  with s show "distinct (map fst (pairRows t))" by blast
qed

text \<open>
  A scan of a composite tree returns exactly the rows whose first column has the given value and whose
  second lies between the bounds, in ascending order of the second column; an end below the start is refused
  with \<^verbatim>\<open>ErrInvalidRange\<close>.
\<close>

lemma composite_scan_prefix:
  assumes "tree_inv 16 h t w" "pool w = None" "unat (nextPageID (pm w)) \<le> fuel"
  shows "if sint e < sint s then CompositeBTree_Scan fuel fuel a s e w = (Err ErrInvalidRange, w)
    else \<exists>w' rs. CompositeBTree_Scan fuel fuel a s e w = (Ok (map pairRow rs), w') \<and> tree_inv 16 h t w' \<and>
      sorted_wrt (\<lambda>x y. sint (snd (fst x)) < sint (snd (fst y))) rs \<and>
      (\<forall>a' b v. ((a', b), v) \<in> set rs \<longleftrightarrow>
        map_of (pairRows t) (a', b) = Some v \<and> a' = a \<and> sint s \<le> sint b \<and> sint b \<le> sint e)"
proof (cases "sint e < sint s")
  case False
  let ?rs = "filter (\<lambda>r. fst (fst r) = a \<and> \<not> snd (fst r) <s s \<and> \<not> e <s snd (fst r)) (pairRows t)"
  have "h \<le> fuel" "length (leafIDs t) \<le> fuel"
    using assms(1,3) tree_in_bounds [of 16 h t "known w" "nextPageID (pm w)"] by (auto simp: tree_inv_def)
  then obtain w' where w': "CompositeBTree_Scan fuel fuel a s e w = (Ok (map pairRow ?rs), w')" "tree_inv 16 h t w'"
    using CompositeBTree_Scan_spec [OF assms(1,2), of fuel fuel e s a] False by (auto simp: word_sless_alt)
  have "sorted_wrt (\<lambda>x y. sint (snd (fst x)) < sint (snd (fst y))) ?rs"
    using sorted_wrt_filter [OF pairRows_sorted(1) [OF assms(1)]] by (rule sorted_wrt_mono_rel [rotated]) (auto simp: pairLess_def)
  moreover have "((a', b), v) \<in> set ?rs \<longleftrightarrow> map_of (pairRows t) (a', b) = Some v \<and> a' = a \<and> sint s \<le> sint b \<and> sint b \<le> sint e" for a' b v
    using map_of_eq_Some_iff [OF pairRows_sorted(2) [OF assms(1)], of "(a', b)" v] by (auto simp: word_sless_alt)
  ultimately have "\<exists>w' rs. CompositeBTree_Scan fuel fuel a s e w = (Ok (map pairRow rs), w') \<and> tree_inv 16 h t w' \<and>
      sorted_wrt (\<lambda>x y. sint (snd (fst x)) < sint (snd (fst y))) rs \<and>
      (\<forall>a' b v. ((a', b), v) \<in> set rs \<longleftrightarrow>
        map_of (pairRows t) (a', b) = Some v \<and> a' = a \<and> sint s \<le> sint b \<and> sint b \<le> sint e)"
    using w' by blast
  with False show ?thesis by simp
qed (simp add: CompositeBTree_Scan_def word_sless_alt sfail_def)

section \<open>Deletion\<close>

text \<open>
  C14. Deleting a pair of columns the tree does not hold returns \<^verbatim>\<open>ErrKeyNotFound\<close> and changes no row. Deleting one
  it holds, from a tree with half-full pages, removes exactly that row and leaves half-full pages, if the tree has at most
  one level above its leaves, where an underfull leaf is repaired with its neighbours under the root, or if the
  leaf keeps at least 72 rows; on taller trees a repair is not covered.
\<close>

theorem composite_delete_correct:
  assumes "tree_inv 16 h t w" "pool w = None" "entrySize w = 24" "h \<le> fuel" "filled 72 t" "unat (nextPageID (pm w)) < 2 ^ 51"
  shows "if (a, b) \<notin> fst ` set (pairRows t) then
      \<exists>w'. CompositeBTree_Delete fuel a b w = (Err ErrKeyNotFound, w') \<and> tree_inv 16 h t w'
    else h \<le> 1 \<or> (\<forall>(i, kvs) \<in> set (leafList t). encodeColumns (a, b) \<in> fst ` set kvs \<longrightarrow> 72 < length kvs) \<longrightarrow>
      (\<exists>w' h' t'. CompositeBTree_Delete fuel a b w = (Ok (), w') \<and> tree_inv 16 h' t' w' \<and> filled 72 t' \<and> h' \<le> h \<and>
        map_of (pairRows t') = (map_of (pairRows t))((a, b) := None) \<and> nextPageID (pm w') = nextPageID (pm w))"
proof (cases "(a, b) \<in> fst ` set (pairRows t)")
  case False
  then show ?thesis
    using pair_delete.delete_missing [OF assms(1,4), of "(a, b)"] pairRows_key [OF assms(1), of "(a, b)"]
    unfolding CompositeBTree_Delete_from [OF assms(2), of fuel a b] by auto
next
  case True
  have k: "encodeColumns (a, b) \<in> fst ` set (contents t)" using pairRows_key [OF assms(1), of "(a, b)"] True by simp
  have rows: "map_of (pairRows t') = (map_of (pairRows t))((a, b) := None)"
    if "contents t' = filter (\<lambda>kv. fst kv \<noteq> encodeColumns (a, b)) (contents t)" for t' :: btree
    using pairRows_deleted [OF assms(1) that] by (simp add: map_of_filter_key)
  have "\<exists>w' h' t'. CompositeBTree_Delete fuel a b w = (Ok (), w') \<and> tree_inv 16 h' t' w' \<and> filled 72 t' \<and> h' \<le> h \<and>
      contents t' = filter (\<lambda>kv. fst kv \<noteq> encodeColumns (a, b)) (contents t) \<and> nextPageID (pm w') = nextPageID (pm w)"
    if "h \<le> 1 \<or> (\<forall>(i, kvs) \<in> set (leafList t). encodeColumns (a, b) \<in> fst ` set kvs \<longrightarrow> 72 < length kvs)"
    using that
  proof
    assume "h \<le> 1"
    from CompositeBTree_Delete_low [OF assms this True] show ?thesis by blast
  next
    assume "\<forall>(i, kvs) \<in> set (leafList t). encodeColumns (a, b) \<in> fst ` set kvs \<longrightarrow> 72 < length kvs"
    then show ?thesis
      using pair_delete.delete_spec [OF assms(1,4) k assms(3)] assms(5)
      unfolding CompositeBTree_Delete_from [OF assms(2), of fuel a b] by blast
  qed
  with rows True show ?thesis by (simp only: not_True_eq_False if_False) blast
qed

theorem composite_delete_correct_witness:
  "\<exists>w w' w1 h' t'. OpenComposite (Ok (fileWith [])) = Ok w \<and> CompositeBTree_Insert 1 3 4 5 w = (Ok (), w1) \<and>
    CompositeBTree_Delete 1 3 4 w1 = (Ok (), w') \<and> tree_inv 16 h' t' w' \<and> map_of (pairRows t') = Map.empty"
proof -
  obtain w where w: "OpenComposite (Ok (fileWith [])) = Ok w" "tree_inv 16 0 (Leaf 1 []) w" "pool w = None" "entrySize w = 24"
      "nextPageID (pm w) = 2"
    by (rule OpenComposite_empty)
  obtain w1 t1 h1 where w1: "CompositeBTree_Insert 1 3 4 5 w = (Ok (), w1)" "pool w1 = None"
      "inserted 16 encodeColumns 0 (Leaf 1 []) (3, 4) 5 w h1 t1 w1"
    using CompositeBTree_Insert_spec [OF w(2) _ _ w(3), of 1 3 4 5] w(5) by (auto simp: pairRows_def pairRowsOf_def)
  then have i: "tree_inv 16 0 t1 w1" "contents t1 = [(encodeColumns (3, 4), EncodeInt64 5)]" "entrySize w1 = 24"
      "unat (nextPageID (pm w1)) \<le> 4"
    using w(4,5) by (auto simp: inserted_def insert_nth_def)
  have "filled 72 t1" using i(1) by (cases t1) (auto simp: tree_inv_def tree_in_def)
  moreover have "pairRows t1 = [((3, 4), 5)]" using i(2) by (simp add: pairRows_def pairRowsOf_def)
  ultimately show ?thesis using composite_delete_correct [OF i(1) w1(2) i(3), of 1 3 4] i(4) w(1) w1(1) by auto
qed

end
