(* ===== verification/Stats.thy ===== *)
theory Stats
  imports BTree
begin

text \<open>
  \<^verbatim>\<open>internal/btree/stats.go\<close>: the shape of the tree by a walk level by level. The walk reads from
  the page manager, also when the tree has a pool; it takes fuel, one unit per level.
\<close>

record TreeStats =
  Height :: int
  TotalPages :: int
  LeafPages :: int
  InternalPages :: int
  TotalEntries :: int
  st_PageSplits :: uint64
  st_PageMerges :: uint64
  st_PageReads :: uint64
  st_PageWrites :: uint64

fun childIDsFrom :: "Page \<Rightarrow> int \<Rightarrow> nat \<Rightarrow> nat \<Rightarrow> PageID list res" where
  "childIDsFrom p keyLen i 0 = Ok []"
| "childIDsFrom p keyLen i (Suc m) =
     rbind (entryChild p (word_of_nat i) keyLen) (\<lambda>c.
     rbind (childIDsFrom p keyLen (Suc i) m) (\<lambda>cs. Ok (c # cs)))"

definition childPageIDs :: "Page \<Rightarrow> PageID list res" where
  "childPageIDs p =
     rbind (entryKeyLen p) (\<lambda>keyLen.
     rbind (childIDsFrom p keyLen 0 (numEntries p)) (\<lambda>cs.
     Ok (LeftmostChildPageID p # cs)))"

fun readAll :: "PageID list \<Rightarrow> (BTree, addr list) op" where
  "readAll [] = sret []"
| "readAll (v # vs) = sbind (ReadPage v) (\<lambda>a. sbind (readAll vs) (\<lambda>as. sret (a # as)))"

text \<open>One pass of the inner loop over a level: the updated numbers and the next level.\<close>

fun statsLevel :: "addr list \<Rightarrow> TreeStats \<Rightarrow> addr list \<Rightarrow> (BTree, TreeStats \<times> addr list) op" where
  "statsLevel [] stats nextLevel = sret (stats, nextLevel)"
| "statsLevel (a # level) stats nextLevel =
     sbind (deref a) (\<lambda>p.
     let stats = stats\<lparr>TotalPages := TotalPages stats + 1\<rparr> in
     if PageType p = LeafPage then
       statsLevel level (stats\<lparr>TotalEntries := TotalEntries stats + int (numEntries p),
                               LeafPages := LeafPages stats + 1\<rparr>) nextLevel
     else
       let stats = stats\<lparr>InternalPages := InternalPages stats + 1\<rparr> in
       sbind (slift (childPageIDs p)) (\<lambda>children.
       sbind (readAll children) (\<lambda>as.
       statsLevel level stats (nextLevel @ as))))"

fun statsLevels :: "nat \<Rightarrow> addr list \<Rightarrow> TreeStats \<Rightarrow> (BTree, TreeStats) op" where
  "statsLevels fuel [] stats = sret stats"
| "statsLevels 0 (a # level) stats = slift Hang"
| "statsLevels (Suc fuel) (a # level) stats =
     sbind (statsLevel (a # level) (stats\<lparr>Height := Height stats + 1\<rparr>) []) (\<lambda>(stats, nextLevel).
     statsLevels fuel nextLevel stats)"

definition BTree_Stats :: "nat \<Rightarrow> (BTree, TreeStats) op" where
  "BTree_Stats fuel = (\<lambda>t.
     let stats = \<lparr>Height = 0, TotalPages = 0, LeafPages = 0, InternalPages = 0, TotalEntries = 0,
                  st_PageSplits = pageSplits t, st_PageMerges = pageMerges t,
                  st_PageReads = PageReads t, st_PageWrites = PageWrites t\<rparr> in
     sbind (ReadPage (rootID t)) (\<lambda>root. statsLevels fuel [root] stats) t)"

definition BTree_ResetStats :: "(BTree, unit) op" where
  "BTree_ResetStats =
     sbind (smod (\<lambda>t. t\<lparr>pageSplits := 0, pageMerges := 0\<rparr>)) (\<lambda>_. pm_ResetStats)"

end
