(* ===== verification/Stats_Spec.thy ===== *)
theory Stats_Spec
  imports Stats Index
begin

text \<open>
  \<^verbatim>\<open>Stats\<close> of \<^verbatim>\<open>stats.go\<close>: on a tree whose pages are all in the file, the walk level by level ends and reports
  the height, the pages of both kinds and the rows of the tree.
\<close>

section \<open>The children of a page\<close>

lemma childIDsFrom_spec:
  assumes "wf_page p" "uniform K (entries p)"
  shows "i + m = numEntries p \<Longrightarrow> childIDsFrom p (int K) i m = Ok (map (childOf K) (drop i (entries p)))"
proof (induction m arbitrary: i)
  case (Suc m)
  then have "i < numEntries p" by simp
  then have "entryChild p (word_of_nat i) (int K) = Ok (childOf K (entries p ! i))" "drop i (entries p) = entries p ! i # drop (Suc i) (entries p)"
    using entryChild_spec [OF assms] by (simp_all flip: Cons_nth_drop_Suc)
  with Suc show ?case by simp
qed simp

lemma childPageIDs_spec:
  assumes "node_ok K p"
  shows "childPageIDs p = Ok (childIDs K p)"
proof (cases "numEntries p = 0")
  case True
  then have "NumEntries p = 0" "entries p = []" by (simp add: unat_eq_zero, metis length_0_conv length_entries)
  then show ?thesis by (simp add: childPageIDs_def entryKeyLen_def childIDs_def)
next
  case False
  then show ?thesis
    using assms childIDsFrom_spec [of p K 0 "numEntries p"] entryKeyLen_spec [of p K]
    by (simp add: childPageIDs_def childIDs_def node_ok_def)
qed

section \<open>Reading from the file\<close>

text \<open>The pages \<open>V\<close> are in the file, which answers without faults.\<close>

definition onDisk :: "(PageID \<rightharpoonup> Page) \<Rightarrow> 's world_scheme \<Rightarrow> bool" where
  "onDisk V w \<longleftrightarrow> quiet w \<and> (\<forall>v p. V v = Some p \<longrightarrow> ID p = v \<and> diskPage w v = Some (Data p))"

text \<open>The objects at \<open>as\<close> are the root pages of the trees \<open>ts\<close>.\<close>

definition loaded :: "(PageID \<rightharpoonup> Page) \<Rightarrow> 's world_scheme \<Rightarrow> addr list \<Rightarrow> btree list \<Rightarrow> bool" where
  "loaded V w as ts \<longleftrightarrow> list_all2 (\<lambda>a t. a < length (objs w) \<and> V (tid t) = Some (objs w ! a)) as ts"

text \<open>A step that only reads: more objects, everything else but the counters and the cursor as before.\<close>

definition grows :: "'s world_scheme \<Rightarrow> 's world_scheme \<Rightarrow> bool" where
  "grows w w' \<longleftrightarrow> (\<exists>xs. objs w' = objs w @ xs) \<and> fileBytes w' = fileBytes w \<and> durableBytes w' = durableBytes w \<and>
     nextPageID (pm w') = nextPageID (pm w) \<and> world.more w' = world.more w"

lemma grows_refl [simp]: "grows w w"
  by (simp add: grows_def)

lemma grows_trans: "grows w w' \<Longrightarrow> grows w' w'' \<Longrightarrow> grows w w''"
  by (auto simp: grows_def)

lemma loaded_grows: "loaded V w as ts \<Longrightarrow> grows w w' \<Longrightarrow> loaded V w' as ts"
  unfolding loaded_def grows_def by (erule list_all2_mono) (auto simp: nth_append)

lemma loaded_append: "loaded V w as ts \<Longrightarrow> loaded V w bs us \<Longrightarrow> loaded V w (as @ bs) (ts @ us)"
  by (simp add: loaded_def list_all2_appendI)

lemma ReadPage_loaded:
  fixes w :: "'s world_scheme"
  assumes "onDisk V w" "V (tid t) = Some p"
  shows "\<exists>a w'. ReadPage (tid t) w = (Ok a, w') \<and> onDisk V w' \<and> grows w w' \<and> loaded V w' [a] [t]"
proof -
  have q: "quiet w" and d: "ID p = tid t" "diskPage w (tid t) = Some (Data p)" using assms by (auto simp: onDisk_def)
  obtain w' where w': "ReadPage (tid t) w = (Ok (length (objs w)), w')" "objs w' = objs w @ [\<lparr>ID = tid t, Data = Data p\<rparr>]"
      "quiet w'" "fileBytes w' = fileBytes w" "durableBytes w' = durableBytes w" "nextPageID (pm w') = nextPageID (pm w)"
      "world.more w' = world.more w"
    using ReadPage_spec [OF q d(2)] by blast
  have "\<lparr>ID = tid t, Data = Data p\<rparr> = p" using d(1) by (cases p) simp
  with w' assms have "loaded V w' [length (objs w)] [t]" "grows w w'" "onDisk V w'"
    using diskPage_fileBytes [OF w'(4)] by (auto simp: loaded_def grows_def onDisk_def)
  with w'(1) show ?thesis by blast
qed

lemma rep_root: "rep K V t \<Longrightarrow> \<exists>p. V (tid t) = Some p"
  by (cases t) auto

lemma readAll_spec:
  "onDisk V w \<Longrightarrow> \<forall>t \<in> set ts. rep K V t \<Longrightarrow>
   \<exists>as w'. readAll (map tid ts) w = (Ok as, w') \<and> onDisk V w' \<and> grows w w' \<and> loaded V w' as ts"
proof (induction ts arbitrary: w)
  case Nil
  then show ?case by (auto simp: exec_simps loaded_def)
next
  case (Cons t ts)
  obtain p where "V (tid t) = Some p" using Cons.prems(2) rep_root by fastforce
  then obtain a w1 where w1: "ReadPage (tid t) w = (Ok a, w1)" "onDisk V w1" "grows w w1" "loaded V w1 [a] [t]"
    using ReadPage_loaded [OF Cons.prems(1)] by blast
  obtain as w2 where w2: "readAll (map tid ts) w1 = (Ok as, w2)" "onDisk V w2" "grows w1 w2" "loaded V w2 as ts"
    using Cons.IH [OF w1(2)] Cons.prems(2) by auto
  have "loaded V w2 (a # as) (t # ts)" using loaded_append [OF loaded_grows [OF w1(4) w2(3)] w2(4)] by simp
  with w1 w2 grows_trans show ?case by (fastforce simp: exec_simps)
qed

section \<open>A level\<close>

fun subtrees :: "btree \<Rightarrow> btree list" where
  "subtrees (Leaf i kvs) = []"
| "subtrees (Node i ss cs) = cs"

text \<open>Numbers of leaves, internal pages and rows added to the totals.\<close>

definition counted :: "nat \<Rightarrow> nat \<Rightarrow> nat \<Rightarrow> TreeStats \<Rightarrow> TreeStats" where
  "counted l i e s = s\<lparr>TotalPages := TotalPages s + int (l + i), LeafPages := LeafPages s + int l,
     InternalPages := InternalPages s + int i, TotalEntries := TotalEntries s + int e\<rparr>"

lemma counted_counted [simp]: "counted l i e (counted l' i' e' s) = counted (l' + l) (i' + i) (e' + e) s"
  by (simp add: counted_def)

lemma counted_zero [simp]: "counted 0 0 0 s = s"
  by (simp add: counted_def)

text \<open>The order in which the totals of a leaf are bumped does not matter.\<close>

lemma tally_leaf:
  "s\<lparr>TotalPages := TotalPages s + 1, TotalEntries := TotalEntries s + int e, LeafPages := LeafPages s + 1\<rparr> = counted (Suc 0) 0 e s"
  by (cases s) (simp add: counted_def)

definition topLeaves :: "btree list \<Rightarrow> nat" where
  "topLeaves ts = (\<Sum>t \<leftarrow> ts. if subtrees t = [] then 1 else 0)"

definition topRows :: "btree list \<Rightarrow> nat" where
  "topRows ts = (\<Sum>t \<leftarrow> ts. case t of Leaf i kvs \<Rightarrow> length kvs | Node i ss cs \<Rightarrow> 0)"

lemma statsLevel_spec:
  "onDisk V w \<Longrightarrow> loaded V w as ts \<Longrightarrow> \<forall>t \<in> set ts. rep K V t \<and> (\<exists>h. balanced t h) \<Longrightarrow>
   \<exists>bs w'. statsLevel as stats nl w =
      (Ok (counted (topLeaves ts) (length ts - topLeaves ts) (topRows ts) stats, nl @ bs), w') \<and>
     onDisk V w' \<and> grows w w' \<and> loaded V w' bs (concat (map subtrees ts))"
proof (induction ts arbitrary: as w stats nl)
  case Nil
  then show ?case by (auto simp: loaded_def exec_simps topLeaves_def topRows_def)
next
  case (Cons t ts)
  obtain a as' where as: "as = a # as'" "loaded V w as' ts" and a: "a < length (objs w)" "V (tid t) = Some (objs w ! a)"
    using Cons.prems(2) by (auto simp: loaded_def list_all2_Cons2)
  have der: "deref a w = (Ok (objs w ! a), w)" using a by (simp add: deref_def)
  have le: "topLeaves us \<le> length us" for us by (induction us) (auto simp: topLeaves_def)
  show ?case
  proof (cases t)
    case (Leaf i kvs)
    have p: "leaf_page K (objs w ! a) kvs" using Cons.prems(3) a(2) Leaf by simp
    let ?s = "counted 1 0 (length kvs) stats"
    obtain bs w' where w': "statsLevel as' ?s nl w = (Ok (counted (topLeaves ts) (length ts - topLeaves ts) (topRows ts) ?s, nl @ bs), w')"
        "onDisk V w'" "grows w w'" "loaded V w' bs (concat (map subtrees ts))"
      using Cons.IH [OF Cons.prems(1) as(2), of ?s nl] Cons.prems(3) by auto
    moreover have "statsLevel as stats nl w = statsLevel as' ?s nl w"
      using der p leaf_page_numEntries [OF p] by (simp add: as(1) exec_simps Let_def leaf_page_def tally_leaf)
    ultimately show ?thesis using Leaf le [of ts] by (auto simp: topLeaves_def topRows_def Suc_diff_le)
  next
    case (Node i ss cs)
    have p: "node_page K (objs w ! a) ss (map tid cs)" and cs: "\<forall>c \<in> set cs. rep K V c" "cs \<noteq> []"
      using Cons.prems(3) a(2) Node by auto
    let ?s = "counted 0 1 0 stats"
    obtain bs w1 where w1: "readAll (map tid cs) w = (Ok bs, w1)" "onDisk V w1" "grows w w1" "loaded V w1 bs cs"
      using readAll_spec [OF Cons.prems(1) cs(1)] by blast
    obtain bs' w' where w': "statsLevel as' ?s (nl @ bs) w1 =
        (Ok (counted (topLeaves ts) (length ts - topLeaves ts) (topRows ts) ?s, (nl @ bs) @ bs'), w')"
        "onDisk V w'" "grows w1 w'" "loaded V w' bs' (concat (map subtrees ts))"
      using Cons.IH [OF w1(2) loaded_grows [OF as(2) w1(3)], of ?s "nl @ bs"] Cons.prems(3) by auto
    have "childPageIDs (objs w ! a) = Ok (map tid cs)" "PageType (objs w ! a) \<noteq> LeafPage"
      using p childPageIDs_spec [of K] by (auto simp: node_page_def PageType_defs)
    then have "statsLevel as stats nl w = statsLevel as' ?s (nl @ bs) w1"
      using der w1(1) by (simp add: as(1) exec_simps Let_def counted_def)
    moreover have "loaded V w' (bs @ bs') (concat (map subtrees (t # ts)))"
      using loaded_append [OF loaded_grows [OF w1(4) w'(3)] w'(4)] Node by simp
    moreover have "grows w w'" using grows_trans w1(3) w'(3) by blast
    ultimately show ?thesis using w'(1,2) Node cs(2) le [of ts] by (auto simp: topLeaves_def topRows_def Suc_diff_le)
  qed
qed

section \<open>All levels\<close>

lemma sum_subtrees:
  assumes "\<forall>t \<in> set ts. \<exists>h. balanced t h"
  shows "(\<Sum>t \<leftarrow> ts. length (leafIDs t)) = topLeaves ts + (\<Sum>t \<leftarrow> concat (map subtrees ts). length (leafIDs t))"
    and "(\<Sum>t \<leftarrow> ts. length (innerIDs t)) = (length ts - topLeaves ts) + (\<Sum>t \<leftarrow> concat (map subtrees ts). length (innerIDs t))"
    and "(\<Sum>t \<leftarrow> ts. length (contents t)) = topRows ts + (\<Sum>t \<leftarrow> concat (map subtrees ts). length (contents t))"
proof -
  have le: "topLeaves us \<le> length us" for us by (induction us) (auto simp: topLeaves_def)
  show "(\<Sum>t \<leftarrow> ts. length (leafIDs t)) = topLeaves ts + (\<Sum>t \<leftarrow> concat (map subtrees ts). length (leafIDs t))"
    using assms
  proof (induction ts)
    case (Cons t ts)
    then show ?case by (cases t) (auto simp: topLeaves_def length_concat comp_def)
  qed (simp add: topLeaves_def)
  show "(\<Sum>t \<leftarrow> ts. length (innerIDs t)) = (length ts - topLeaves ts) + (\<Sum>t \<leftarrow> concat (map subtrees ts). length (innerIDs t))"
    using assms
  proof (induction ts)
    case (Cons t ts)
    then show ?case using le [of ts] by (cases t) (auto simp: topLeaves_def length_concat comp_def Suc_diff_le)
  qed (simp add: topLeaves_def)
  show "(\<Sum>t \<leftarrow> ts. length (contents t)) = topRows ts + (\<Sum>t \<leftarrow> concat (map subtrees ts). length (contents t))"
  proof (induction ts)
    case (Cons t ts)
    then show ?case by (cases t) (auto simp: topRows_def length_concat comp_def)
  qed (simp add: topRows_def)
qed

lemma balanced_subtrees:
  assumes "\<forall>t \<in> set ts. balanced t h" "c \<in> set (concat (map subtrees ts))"
  shows "0 < h" "balanced c (h - 1)"
proof -
  obtain t where t: "t \<in> set ts" "c \<in> set (subtrees t)" using assms(2) by auto
  then have "balanced t h" using assms(1) by blast
  with t(2) show "0 < h" "balanced c (h - 1)" by (cases t; simp)+
qed

lemma statsLevels_spec:
  "onDisk V w \<Longrightarrow> loaded V w as ts \<Longrightarrow> ts \<noteq> [] \<Longrightarrow> \<forall>t \<in> set ts. rep K V t \<and> balanced t h \<Longrightarrow> h < fuel \<Longrightarrow>
   \<exists>w'. statsLevels fuel as stats w =
      (Ok (counted (\<Sum>t \<leftarrow> ts. length (leafIDs t)) (\<Sum>t \<leftarrow> ts. length (innerIDs t)) (\<Sum>t \<leftarrow> ts. length (contents t))
        (stats\<lparr>Height := Height stats + int h + 1\<rparr>)), w') \<and> grows w w' \<and> onDisk V w'"
proof (induction h arbitrary: fuel w as ts stats)
  case (0 fuel w as ts stats)
  have leaf: "subtrees t = []" if "t \<in> set ts" for t
  proof -
    have "balanced t 0" using that "0.prems"(4) by blast
    then show ?thesis by (cases t) auto
  qed
  obtain a as' where as: "as = a # as'" using "0.prems"(2,3) by (cases as) (auto simp: loaded_def)
  let ?s = "stats\<lparr>Height := Height stats + 1\<rparr>"
  have bal: "\<forall>t \<in> set ts. \<exists>h. balanced t h" using "0.prems"(4) by blast
  obtain bs w' where w': "statsLevel as ?s [] w = (Ok (counted (topLeaves ts) (length ts - topLeaves ts) (topRows ts) ?s, bs), w')"
      "grows w w'" "loaded V w' bs (concat (map subtrees ts))" "onDisk V w'"
    using statsLevel_spec [OF "0.prems"(1,2), of K ?s "[]"] "0.prems"(4) by auto
  have none: "concat (map subtrees ts) = []" using leaf by auto
  have "bs = []" using w'(3) unfolding none loaded_def by simp
  with w' sum_subtrees [OF bal] none "0.prems"(5) show ?case by (cases fuel) (auto simp: as exec_simps)
next
  case (Suc h fuel w as ts stats)
  obtain a as' where as: "as = a # as'" using Suc.prems(2,3) by (cases as) (auto simp: loaded_def)
  obtain f where f: "fuel = Suc f" "h < f" using Suc.prems(5) by (cases fuel) auto
  let ?s = "stats\<lparr>Height := Height stats + 1\<rparr>" and ?us = "concat (map subtrees ts)"
  let ?c = "counted (topLeaves ts) (length ts - topLeaves ts) (topRows ts) ?s"
  have bal: "\<forall>t \<in> set ts. \<exists>h. balanced t h" using Suc.prems(4) by blast
  obtain bs w1 where w1: "statsLevel as ?s [] w = (Ok (?c, bs), w1)" "onDisk V w1" "grows w w1" "loaded V w1 bs ?us"
    using statsLevel_spec [OF Suc.prems(1,2), of K ?s "[]"] Suc.prems(4) by auto
  have "?us \<noteq> []"
  proof -
    obtain t ts' where "ts = t # ts'" using Suc.prems(3) by (cases ts) auto
    then show ?thesis using Suc.prems(4) by (cases t) auto
  qed
  moreover have "\<forall>t \<in> set ?us. rep K V t \<and> balanced t h"
  proof
    fix c assume c: "c \<in> set ?us"
    then obtain t where t: "t \<in> set ts" "c \<in> set (subtrees t)" by auto
    have "rep K V t" using t Suc.prems(4) by blast
    then have "rep K V c" using t(2) by (cases t) auto
    with balanced_subtrees [of ts "Suc h" c] c Suc.prems(4) show "rep K V c \<and> balanced c h" by auto
  qed
  ultimately obtain w' where "statsLevels f bs ?c w1 = (Ok (counted (\<Sum>t \<leftarrow> ?us. length (leafIDs t)) (\<Sum>t \<leftarrow> ?us. length (innerIDs t))
      (\<Sum>t \<leftarrow> ?us. length (contents t)) (?c\<lparr>Height := Height ?c + int h + 1\<rparr>)), w')" "grows w1 w'" "onDisk V w'"
    using Suc.IH [OF w1(2,4) _ _ f(2), of ?c] by blast
  moreover have "?c\<lparr>Height := Height ?c + int h + 1\<rparr> =
      counted (topLeaves ts) (length ts - topLeaves ts) (topRows ts) (stats\<lparr>Height := Height stats + int (Suc h) + 1\<rparr>)"
    by (simp add: counted_def)
  ultimately show ?case
    using w1(1,3) sum_subtrees [OF bal] grows_trans by (fastforce simp: as f(1) exec_simps)
qed

section \<open>Stats\<close>

lemma grows_tree_inv:
  assumes inv: "tree_inv K h t w" and g: "grows w w'" and q: "quiet w'"
  shows "tree_inv K h t w'" "keeps {} w w'"
proof -
  have ok: "sound w" using inv by (simp add: tree_inv_def)
  obtain xs where xs: "objs w' = objs w @ xs" and m: "pool w' = pool w" "store.more w' = store.more w"
    using g more_split [of w' w] by (auto simp: grows_def)
  have c: "cachedIn w' = cachedIn w" by (simp add: fun_eq_iff cachedIn_def m)
  have d: "diskPage w' = diskPage w" using g diskPage_fileBytes by (auto simp: grows_def)
  have e: "e_page e < length (objs w)" if "cachedIn w v = Some e" for v e
    using ok that by (auto simp: sound_def store_ok_def entry_ok_def)
  then have v: "view w' = view w" by (auto simp: fun_eq_iff view_def c d xs nth_append split: option.splits)
  then show k: "keeps {} w w'" using g xs m by (auto simp: keeps_def grows_def)
  have "store_ok (stale w) w'" using ok q e by (auto simp: sound_def store_ok_def entry_ok_def c d m xs nth_append intro: trans_less_add1)
  then show "tree_inv K h t w'" using tree_inv_st [OF inv st_initial_keeps [OF ok keeps_mono [OF k]]] by blast
qed

text \<open>\<open>V\<close> are the pages of the tree, all of them in the file.\<close>

lemma stats_onDisk:
  assumes inv: "tree_inv K h t w" and rep: "rep K V t" and V: "V \<subseteq>\<^sub>m known w"
    and disk: "\<forall>v p. V v = Some p \<longrightarrow> diskPage w v = Some (Data p)" and fuel: "h < fuel"
  shows "\<exists>w'. BTree_Stats fuel w =
    (Ok \<lparr>Height = int h + 1, TotalPages = int (length (ids t)), LeafPages = int (length (leafIDs t)),
         InternalPages = int (length (innerIDs t)), TotalEntries = int (length (contents t)),
         st_PageSplits = pageSplits w, st_PageMerges = pageMerges w, st_PageReads = PageReads w, st_PageWrites = PageWrites w\<rparr>, w') \<and>
    tree_inv K h t w' \<and> keeps {} w w' \<and> pool w' = pool w \<and> grows w w'"
proof -
  have ok: "sound w" and t: "balanced t h" "rootID w = tid t" using inv by (auto simp: tree_inv_def tree_in_def)
  have od: "onDisk V w" using ok disk known_image [OF ok map_le_Some [OF V]] by (auto simp: onDisk_def sound_quiet)
  obtain p where "V (tid t) = Some p" using rep_root [OF rep] by blast
  then obtain a w1 where w1: "ReadPage (tid t) w = (Ok a, w1)" "onDisk V w1" "grows w w1" "loaded V w1 [a] [t]"
    using ReadPage_loaded [OF od] by blast
  let ?s = "\<lparr>Height = 0, TotalPages = 0, LeafPages = 0, InternalPages = 0, TotalEntries = 0,
      st_PageSplits = pageSplits w, st_PageMerges = pageMerges w, st_PageReads = PageReads w, st_PageWrites = PageWrites w\<rparr>"
  let ?r = "counted (length (leafIDs t)) (length (innerIDs t)) (length (contents t)) (?s\<lparr>Height := Height ?s + int h + 1\<rparr>)"
  obtain w2 where w2: "statsLevels fuel [a] ?s w1 = (Ok ?r, w2)" "grows w1 w2" "onDisk V w2"
    using statsLevels_spec [OF w1(2,4) _ _ fuel, of K ?s] rep t(1) by auto
  have "BTree_Stats fuel w = (Ok ?r, w2)" using w1(1) w2(1) t(2) by (simp add: BTree_Stats_def Let_def exec_simps)
  moreover have g: "grows w w2" using grows_trans [OF w1(3) w2(2)] .
  moreover have "pool w2 = pool w" using g more_split [of w2 w] by (auto simp: grows_def)
  moreover note grows_tree_inv [OF inv g]
  ultimately show ?thesis using w2(3) by (simp add: counted_def ids_def onDisk_def)
qed

lemma BTree_Stats_spec:
  assumes inv: "tree_inv K h t w" and disk: "\<forall>v p. known w v = Some p \<longrightarrow> diskPage w v = Some (Data p)" and fuel: "h < fuel"
  shows "\<exists>w'. BTree_Stats fuel w =
    (Ok \<lparr>Height = int h + 1, TotalPages = int (length (ids t)), LeafPages = int (length (leafIDs t)),
         InternalPages = int (length (innerIDs t)), TotalEntries = int (length (contents t)),
         st_PageSplits = pageSplits w, st_PageMerges = pageMerges w, st_PageReads = PageReads w, st_PageWrites = PageWrites w\<rparr>, w') \<and>
    tree_inv K h t w' \<and> keeps {} w w' \<and> pool w' = pool w \<and> grows w w'"
  using inv disk by (intro stats_onDisk [OF inv _ _ _ fuel]) (auto simp: tree_inv_def tree_in_def)

text \<open>Without a pool the pages are in the file.\<close>

lemma poolless_disk: "pool w = None \<Longrightarrow> known w v = Some p \<Longrightarrow> diskPage w v = Some (Data p)"
  by (auto simp: known_view view_def cachedIn_def)

end
