(* ===== verification/Store_Properties.thy ===== *)
theory Store_Properties
  imports Untouched Stats_Spec Client
begin

text \<open>
  What the storage layers promise their clients: the pool is a bounded LRU cache whatever the disk does, reads
  return what was written, only \<^verbatim>\<open>Sync\<close> makes bytes durable, the statistics describe the tree, and the descent
  ends within one step per allocated page.
\<close>

section \<open>Fuel\<close>

text \<open>A descent that ends does so in the same way with more fuel.\<close>

lemma descend_fuel:
  "descend n k a anc w = (Ok x, w') \<Longrightarrow> n \<le> n' \<Longrightarrow> descend n' k a anc w = (Ok x, w')"
proof (induction n arbitrary: n' a anc w)
  case 0
  then show ?case by (cases n') (auto simp: sbind_def deref_def slift_def split: if_splits)
next
  case (Suc n)
  obtain m where m: "n' = Suc m" "n \<le> m" using Suc.prems(2) by (cases n') auto
  have step: "descend n k b anc' w1 = (Ok x, w') \<Longrightarrow> descend m k b anc' w1 = (Ok x, w')" for b anc' w1
    using Suc.IH m(2) by blast
  from Suc.prems(1) show ?case
    unfolding m(1) descend.simps by (auto simp: sbind_def slift_def split: prod.splits res.splits if_splits intro: step)
qed

lemma findLeafWithPath_fuel:
  "findLeafWithPath n k w = (Ok x, w') \<Longrightarrow> n \<le> n' \<Longrightarrow> findLeafWithPath n' k w = (Ok x, w')"
  unfolding findLeafWithPath_def by (auto simp: sbind_def sget_def split: prod.splits res.splits intro: descend_fuel)

section \<open>The pool\<close>

text \<open>
  C17. The buffer pool refines a list of page numbers, most recently used first: a successful read or write
  of a page puts it in front, and a page that was not cached pushes out the last one when the pool is full;
  on failure, whatever system call failed, the pool still is consistent and within its capacity.
\<close>

theorem pool_refines_lru:
  assumes "pool w = Some p" "pool_ok p"
  shows "(\<forall>r w'. GetPage v w = (r, w') \<longrightarrow> (\<exists>q. pool w' = Some q \<and> pool_ok q \<and> capacity q = capacity p \<and>
      ((\<exists>a. r = Ok a) \<longrightarrow> recency q = lruStep (capacity p) v (recency p)))) \<and>
    (\<forall>a r w'. Put v a w = (r, w') \<longrightarrow> (\<exists>q. pool w' = Some q \<and> pool_ok q \<and> capacity q = capacity p \<and>
      (r = Ok () \<longrightarrow> recency q = lruStep (capacity p) v (recency p))))"
  using GetPage_outcome [OF assms, of v] Put_outcome [OF assms, of v] unfolding accessed_def by blast

text \<open>A store on an empty file with a pool of one page.\<close>

definition tinyStore :: "unit store_scheme" where
  "tinyStore = \<lparr>objs = [\<lparr>ID = 7, Data = []\<rparr>], pm = \<lparr>pm_file = fileWith [], nextPageID = 0, pageReads = 0, pageWrites = 0, syncCalls = 0\<rparr>,
     pool = Some (NewPool 1)\<rparr>"

theorem pool_refines_lru_witness:
  "\<exists>w' q. Put 7 0 tinyStore = (Ok (), w') \<and> pool w' = Some q \<and> recency q = [7]"
proof -
  have p: "pool tinyStore = Some (NewPool 1)" "pool_ok (NewPool 1)" by (simp_all add: tinyStore_def pool_ok_NewPool)
  obtain w' where run: "Put 7 0 tinyStore = (Ok (), w')"
    by (simp add: Put_def withPool_def tinyStore_def NewPool_def evictIfFull_def pushFront_def updPool_def exec_simps)
  have "lruStep (capacity (NewPool 1)) 7 (recency (NewPool 1)) = [7]" by (simp add: lruStep_def recency_def NewPool_def)
  with pool_refines_lru [OF p, of 7] run show ?thesis by metis
qed

text \<open>
  C18. Under any schedule of failing system calls, and whatever they return, the tree operations keep the
  buffer pool consistent and within its capacity.
\<close>

theorem pool_bounded_under_faults:
  assumes "\<forall>p. pool w = Some p \<longrightarrow> pool_ok p \<and> capacity p = cap"
    and "w' \<in> {snd (BTree_Search fuel k w), snd (BTree_Scan fuel scanFuel s e w), snd (BTree_Insert fuel k v w), snd (BTree_Delete fuel k w)}"
  shows "\<forall>q. pool w' = Some q \<longrightarrow> pool_ok q \<and> capacity q = cap \<and> int (length (lru q)) \<le> cap"
proof -
  have fine: "pool_fine cap w" using assms(1) by (simp add: pool_fine_def)
  have "pool_fine cap w'"
    using assms(2) fine bounded.search bounded.scan bounded.insert bounded.delete unfolding preserves_def by blast
  then show ?thesis
    using items_length by (fastforce simp: pool_fine_def pool_ok_def recency_def)
qed

theorem pool_bounded_under_faults_witness:
  "\<exists>w. OpenUnique (Ok (fileWith [])) [] = Ok w \<and>
    (\<forall>q. pool (snd (BTree_Insert 9 1 2 (w\<lparr>pool := Some (NewPool 3), pm := (pm w)\<lparr>pm_file := (fileWith [])\<lparr>faults := [Some 5]\<rparr>\<rparr>\<rparr>))) = Some q \<longrightarrow>
      pool_ok q \<and> capacity q = 3 \<and> int (length (lru q)) \<le> 3)"
proof -
  obtain w where w: "OpenUnique (Ok (fileWith [])) [] = Ok w" using openWith_empty [of 16 True "[]" 8] by (auto simp: OpenUnique_def)
  let ?w = "w\<lparr>pool := Some (NewPool 3), pm := (pm w)\<lparr>pm_file := (fileWith [])\<lparr>faults := [Some 5]\<rparr>\<rparr>\<rparr>"
  have "\<forall>p. pool ?w = Some p \<longrightarrow> pool_ok p \<and> capacity p = 3" by (simp add: pool_ok_NewPool) (simp add: NewPool_def)
  from pool_bounded_under_faults [OF this, of "snd (BTree_Insert 9 1 2 ?w)" 9 1 0 0 0 2] w show ?thesis by blast
qed

section \<open>Durability\<close>

text \<open>
  C19. Searching, scanning, inserting and deleting never make a byte durable, never sync and never close the
  file, whatever fails on the way: after a crash the disk holds what the last Sync put there.
\<close>

theorem only_sync_is_durable:
  assumes "w' \<in> {snd (BTree_Search fuel k w), snd (BTree_Scan fuel scanFuel s e w), snd (BTree_Insert fuel k v w), snd (BTree_Delete fuel k w)}"
  shows "durable (pm_file (pm w')) = durable (pm_file (pm w)) \<and> closed (pm_file (pm w')) = closed (pm_file (pm w)) \<and>
    syncCalls (pm w') = syncCalls (pm w)"
proof -
  let ?P = "\<lambda>x. durable (pm_file (pm x)) = durable (pm_file (pm w)) \<and> closed (pm_file (pm x)) = closed (pm_file (pm w)) \<and>
    syncCalls (pm x) = syncCalls (pm w)"
  have "preserves ?P (BTree_Search fuel k)" "preserves ?P (BTree_Scan fuel scanFuel s e)" "preserves ?P (BTree_Insert fuel k v)"
      "preserves ?P (BTree_Delete fuel k)"
    by (rule settled_tree.search settled_tree.scan settled_tree.insert settled_tree.delete)+
  moreover have "?P w" by simp
  ultimately have "\<forall>w' \<in> {snd (BTree_Search fuel k w), snd (BTree_Scan fuel scanFuel s e w), snd (BTree_Insert fuel k v w),
      snd (BTree_Delete fuel k w)}. ?P w'"
    unfolding preserves_def by (simp only: ball_simps)
  with assms show ?thesis by blast
qed

theorem only_sync_is_durable_witness:
  "\<exists>w. OpenUnique (Ok (fileWith [])) [] = Ok w \<and> durable (pm_file (pm (snd (BTree_Insert 3 1 2 w)))) = durable (pm_file (pm w))"
proof -
  obtain w where w: "OpenUnique (Ok (fileWith [])) [] = Ok w" using openWith_empty [of 16 True "[]" 8] by (auto simp: OpenUnique_def)
  with only_sync_is_durable [of "snd (BTree_Insert 3 1 2 w)" 3 1 w 0 0 0 2] show ?thesis by blast
qed

section \<open>Reading what was written\<close>

text \<open>
  C20. Read your writes: in a store in order, with or without a pool of any capacity, writing a page and then
  reading a page returns the page just written, or for any other page what it held before, unless that page was
  changed in memory and never written.
\<close>

theorem store_read_your_writes:
  assumes "sound w" "a < length (objs w)" "page_image (objs w ! a)"
    and "if v = ID (objs w ! a) then q = objs w ! a else known w v = Some q"
  shows "\<exists>b w'. sbind (writePage a) (\<lambda>_. readPage v) w = (Ok b, w') \<and> objs w' ! b = q \<and> sound w'"
proof -
  let ?p = "objs w ! a"
  have s: "st {} (known w) [a \<mapsto> ?p] (nextPageID (pm w)) (store.more w) w" by (rule st_pointer [OF assms(1,2)])
  have v: "v = ID ?p \<and> q = ?p \<or> v \<noteq> ID ?p \<and> known w v = Some q" using assms(4) by (auto split: if_splits)
  obtain b w' where "sbind (writePage a) (\<lambda>_. readPage v) w = (Ok b, w')"
      "st ({} - {ID ?p}) ((known w)(ID ?p \<mapsto> ?p)) ([a \<mapsto> ?p](b \<mapsto> q)) (nextPageID (pm w)) (store.more w) w'"
    using cached.write_then_read [OF TrueI s fun_upd_same assms(3) _ v] by blast
  moreover from this(2) have "objs w' ! b = q" "sound w'" using st_obj [of _ _ _ _ _ w' b q] st_sound by fastforce+
  ultimately show ?thesis by blast
qed

theorem store_read_your_writes_witness:
  "\<exists>w a b w'. sound (w :: BTree) \<and> a < length (objs w) \<and> sbind (writePage a) (\<lambda>_. readPage (ID (objs w ! a))) w = (Ok b, w') \<and>
    objs w' ! b = objs w ! a"
proof -
  let ?start = "openState [] 16 True (Some (NewPool 2))" and ?p = "NewLeafPage 1"
  let ?w = "?start\<lparr>objs := [?p]\<rparr>"
  have "sound ?start" by (rule openState_ok(1)) auto
  note new = soundI [OF newObj_spec(2) [OF this [unfolded sound_def], of ?p]]
  have "?start\<lparr>objs := objs ?start @ [?p]\<rparr> = ?w" by (simp add: openState_def)
  with new have ok: "sound ?w" by metis
  have "page_image ?p" using NewLeafPage_spec [of 1] wf_page_data [of ?p] by (auto simp: page_image_def header_fields valid_id_def)
  with store_read_your_writes [OF ok, of 0 "ID ?p" ?p] show ?thesis using ok by fastforce
qed

section \<open>Statistics\<close>

text \<open>
  C15. After a Sync, Stats describes the tree: its height, its leaf and internal pages, their sum and its
  rows, together with the counters as they were; neither call changes the tree.
\<close>

theorem stats_describe_tree:
  assumes "tree_inv 8 h t w" "walk_of ord w" "unat (nextPageID (pm w)) \<le> fuel"
  shows "\<exists>w1 w2 s. BTree_Sync ord w = (Ok (), w1) \<and> BTree_Stats fuel w1 = (Ok s, w2) \<and> tree_inv 8 h t w2 \<and>
    Height s = int h + 1 \<and> LeafPages s = int (length (leafIDs t)) \<and> InternalPages s = int (length (innerIDs t)) \<and>
    TotalPages s = LeafPages s + InternalPages s \<and> TotalEntries s = int (length (rows t)) \<and>
    st_PageSplits s = pageSplits w \<and> st_PageWrites s = PageWrites w1"
proof -
  have ok: "sound w" using assms(1) by (simp add: tree_inv_def)
  obtain w1 where w1: "store_Sync ord w = (Ok (), w1)" "store_ok (stale w) w1" "keeps (stale w) w w1"
      "\<forall>v p. known w v = Some p \<longrightarrow> diskPage w1 v = Some (Data p)"
    using store_Sync_spec [OF ok assms(2)] by blast
  note s1 = st_initial_keeps [OF ok w1(3,2)]
  have t1: "tree_inv 8 h t w1" using tree_inv_st [OF assms(1) s1] .
  have rep: "rep 8 (known w) t" using assms(1) by (simp add: tree_inv_def tree_in_def)
  have "h < fuel" using tree_in_bounds(1) [of 8 h t "known w" "nextPageID (pm w)"] assms(1,3) by (simp add: tree_inv_def)
  then obtain w2 where "BTree_Stats fuel w1 = (Ok \<lparr>Height = int h + 1, TotalPages = int (length (ids t)), LeafPages = int (length (leafIDs t)),
      InternalPages = int (length (innerIDs t)), TotalEntries = int (length (contents t)), st_PageSplits = pageSplits w1,
      st_PageMerges = pageMerges w1, st_PageReads = PageReads w1, st_PageWrites = PageWrites w1\<rparr>, w2)" "tree_inv 8 h t w2"
    using stats_onDisk [OF t1 rep st_le_known [OF s1] w1(4)] by blast
  then show ?thesis
    using w1(1) more_fields [OF st_more [OF s1]] by (simp add: BTree_Sync_def ids_def rows_def rowsOf_def)
qed

theorem stats_describe_tree_witness:
  "\<exists>w w1 w2 s. OpenUnique (Ok (fileWith [])) [] = Ok w \<and> BTree_Sync (walk rev w) w = (Ok (), w1) \<and> BTree_Stats 2 w1 = (Ok s, w2) \<and>
    Height s = 1 \<and> TotalPages s = 1 \<and> TotalEntries s = 0"
proof -
  obtain w where w: "OpenUnique (Ok (fileWith [])) [] = Ok w" "tree_inv 8 0 (Leaf 1 []) w" "nextPageID (pm w) = 2"
    using openWith_empty [of 16 True "[]" 8] by (auto simp: OpenUnique_def)
  have walk: "walk_of (walk rev w) w" by (simp add: walk_of_def walk_def)
  have n: "unat (nextPageID (pm w)) \<le> 2" using w(3) by simp
  from stats_describe_tree [OF w(2) walk n] w(1) show ?thesis by (auto simp: rows_def rowsOf_def)
qed

section \<open>Termination\<close>

text \<open>
  C16. The descent of a tree in order ends, and as many steps as there are allocated pages are enough: with
  that fuel or any larger one every operation that descends returns the same result in the same state.
\<close>

theorem tree_descent_terminates:
  assumes "holds w m" "unat (nextPageID (pm w)) \<le> fuel"
  shows "(\<exists>leaf path w'. findLeafWithPath fuel (EncodeInt64 k) w = (Ok (leaf, path), w') \<and> length path < unat (nextPageID (pm w))) \<and>
    BTree_Search fuel k w = BTree_Search (unat (nextPageID (pm w))) k w \<and>
    BTree_Insert fuel k v w = BTree_Insert (unat (nextPageID (pm w))) k v w \<and>
    BTree_Delete fuel k w = BTree_Delete (unat (nextPageID (pm w))) k w"
proof -
  let ?N = "unat (nextPageID (pm w))" and ?k = "EncodeInt64 k"
  obtain h t where t: "tree_inv 8 h t w" using assms(1) by (auto simp: holds_def)
  have h: "h < ?N" using tree_in_bounds(1) [of 8 h t "known w" "nextPageID (pm w)"] t by (simp add: tree_inv_def)
  obtain b w' and fs :: "bframe list" where f: "findLeafWithPath ?N ?k w = (Ok (b, rev (map fst fs)), w')" "length fs = h"
    using findLeafWithPath_spec [OF t, of ?N ?k] h by force
  have same: "findLeafWithPath fuel ?k w = findLeafWithPath ?N ?k w"
    using findLeafWithPath_fuel [OF f(1) assms(2)] f(1) by simp
  have "(\<exists>leaf path w'. findLeafWithPath fuel ?k w = (Ok (leaf, path), w') \<and> length path < ?N)"
    unfolding same using f h by (intro exI [of _ b] exI [of _ "rev (map fst fs)"] exI [of _ w']) simp
  moreover have "BTree_Search fuel k w = BTree_Search ?N k w" by (simp add: BTree_Search_def same)
  moreover have "BTree_Insert fuel k v w = BTree_Insert ?N k v w" "BTree_Delete fuel k w = BTree_Delete ?N k w"
    unfolding BTree_Insert_def BTree_Delete_def Let_def using same by (simp_all add: sbind_def [of "findLeafWithPath _ _"])
  ultimately show ?thesis by blast
qed

theorem tree_descent_terminates_witness:
  "\<exists>w. OpenUnique (Ok (fileWith [])) [] = Ok w \<and> BTree_Search 100 5 w = BTree_Search 2 5 w"
proof -
  obtain w where w: "OpenUnique (Ok (fileWith [])) [] = Ok w" "tree_inv 8 0 (Leaf 1 []) w" "nextPageID (pm w) = 2"
    using openWith_empty [of 16 True "[]" 8] by (auto simp: OpenUnique_def)
  have "holds w Map.empty"
    using w(2) unfolding holds_def by (intro exI [of _ 0] exI [of _ "Leaf 1 []"]) (simp add: rows_def rowsOf_def)
  from tree_descent_terminates [OF this, of 100 5 0] w show ?thesis by auto
qed

end
