(* ===== verification/Heap_Spec.thy ===== *)
theory Heap_Spec
  imports Heap Tree_Ops
begin

text \<open>
  The row store of \<^verbatim>\<open>heap.go\<close> as a map from record identifiers to rows: \<^verbatim>\<open>Put\<close> adds a row under an
  identifier not used before, \<^verbatim>\<open>Get\<close> returns it, across page boundaries, reopening and any pool.
\<close>

section \<open>The rows of a heap\<close>

definition rowAt :: "(PageID \<rightharpoonup> Page) \<Rightarrow> PageID \<Rightarrow> int64 \<Rightarrow> byte list option" where
  "rowAt V N rid =
     (if rid div 4096 < N then
        (case V (rid div 4096) of
           None \<Rightarrow> None
         | Some p \<Rightarrow> if unat (rid mod 4096) < numEntries p then Some (entries p ! unat (rid mod 4096)) else None)
      else None)"

text \<open>Every page below the next identifier is there and well-formed; new rows go to the last one.\<close>

definition heap_in :: "(PageID \<rightharpoonup> Page) \<Rightarrow> PageID \<Rightarrow> bool" where
  "heap_in V N \<longleftrightarrow> 0 < N \<and> unat N < 2 ^ 51 \<and> (\<forall>v < N. \<exists>p. V v = Some p \<and> wf_page p)"

definition heap_inv :: "Heap \<Rightarrow> (int64 \<rightharpoonup> byte list) \<Rightarrow> bool" where
  "heap_inv w m \<longleftrightarrow>
     sound w \<and> heap_in (known w) (nextPageID (pm w)) \<and> rowAt (known w) (nextPageID (pm w)) = m \<and>
     activePage w < length (objs w) \<and> known w (nextPageID (pm w) - 1) = Some (objs w ! activePage w)"

lemma rowAt_mono:
  assumes "heap_in V N" "V \<subseteq>\<^sub>m V'"
  shows "heap_in V' N" "rowAt V' N = rowAt V N"
proof -
  have same: "V' v = V v" if lt: "v < N" for v
  proof -
    obtain p where "V v = Some p" using assms(1) lt by (auto simp: heap_in_def)
    with map_le_Some [OF assms(2)] show ?thesis by simp
  qed
  then show "heap_in V' N" using assms(1) by (auto simp: heap_in_def)
  show "rowAt V' N = rowAt V N" using same by (auto simp: rowAt_def fun_eq_iff)
qed

text \<open>A symbolic state in which all pages are written gives the invariant.\<close>

lemma heap_inv_st:
  assumes s: "st {} V H N X w" and h: "heap_in V N" and a: "H (activePage w) = Some p" "V (N - 1) = Some p"
  shows "heap_inv w (rowAt V N)"
  using st_sound [OF s] st_next [OF s] st_obj [OF s a(1)] map_le_Some [OF st_le_known [OF s] a(2)]
    rowAt_mono [OF h st_le_known [OF s]]
  by (simp add: heap_inv_def)

lemma heap_st:
  assumes "heap_inv w m"
  obtains p where "st {} (known w) [activePage w \<mapsto> p] (nextPageID (pm w)) (store.more w) w"
    "known w (nextPageID (pm w) - 1) = Some p" "wf_page p" "ID p = nextPageID (pm w) - 1"
proof -
  let ?N = "nextPageID (pm w)" and ?p = "objs w ! activePage w"
  have ok: "sound w" and v: "known w (?N - 1) = Some ?p" and a: "activePage w < length (objs w)"
    using assms by (auto simp: heap_inv_def)
  have "0 < ?N" using assms by (simp add: heap_inv_def heap_in_def)
  then have "?N - 1 < ?N" by (simp add: word_less_nat_alt word_gt_0 unat_minus_one unat_gt_0)
  then have "wf_page ?p" using assms v by (auto simp: heap_inv_def heap_in_def)
  moreover have "st {} (known w) [activePage w \<mapsto> ?p] ?N (store.more w) w"
    by (rule st_pointer [OF ok a])
  moreover have "ID ?p = ?N - 1" using known_image [OF ok v] by simp
  ultimately show ?thesis using that v by blast
qed

lemma more_active:
  fixes w w' :: Heap
  assumes "store.more w' = store.more w"
  shows "activePage w' = activePage w"
  using assms by (cases w; cases w') simp

section \<open>Record identifiers\<close>

lemma recordID_split:
  assumes "unat v < 2 ^ 51" "unat i < 4096"
  shows "recordIDOf v i div 4096 = v" "unat (recordIDOf v i mod 4096) = unat i" "ucast (recordIDOf v i mod 4096) = i"
proof -
  have u: "unat (recordIDOf v i) = unat v * 4096 + unat i"
    using assms by (simp add: recordIDOf_def unat_word_ariths unsigned_ucast_eq take_bit_nat_eq_self)
  then show d: "recordIDOf v i div 4096 = v"
    using assms(2) by (simp add: word_unat_eq_iff unat_div)
  show m: "unat (recordIDOf v i mod 4096) = unat i" using u assms(2) by (simp add: unat_mod)
  show "ucast (recordIDOf v i mod 4096) = i" using m assms(2) by (simp add: word_unat_eq_iff unsigned_ucast_eq take_bit_nat_eq_self)
qed

lemma recordID_of_parts: "unat (rid mod 4096) < 4096" "unat rid = unat (rid div 4096) * 4096 + unat (rid mod 4096)"
  for rid :: int64
  by (simp_all add: unat_mod unat_div)

lemma rowAt_append:
  assumes h: "heap_in V N" and p: "V u = Some p" "u < N" and p': "entries p' = entries p @ [row]" and n: "numEntries p < 4095"
  shows "rowAt (V(u \<mapsto> p')) N = (rowAt V N)(recordIDOf u (NumEntries p) \<mapsto> row)"
    and "rowAt V N (recordIDOf u (NumEntries p)) = None"
proof -
  let ?r = "recordIDOf u (NumEntries p)"
  have u: "unat u < 2 ^ 51" using h p(2) by (auto simp: heap_in_def word_less_nat_alt)
  have n': "numEntries p' = Suc (numEntries p)" using p' by (metis length_append_singleton length_entries)
  note r = recordID_split [OF u, of "NumEntries p"]
  show "rowAt V N ?r = None" using r n p by (simp add: rowAt_def)
  have other: "unat (rid mod 4096) \<noteq> numEntries p" if "rid \<noteq> ?r" "rid div 4096 = u" for rid
    using that r n recordID_of_parts(2) [of rid] recordID_of_parts(2) [of ?r] by (auto simp: word_unat_eq_iff)
  show "rowAt (V(u \<mapsto> p')) N = (rowAt V N)(?r \<mapsto> row)"
  proof
    fix rid
    show "rowAt (V(u \<mapsto> p')) N rid = ((rowAt V N)(?r \<mapsto> row)) rid"
    proof (cases "rid = ?r")
      case True
      then show ?thesis using r n p n' p' by (simp add: rowAt_def nth_append)
    next
      case False
      then show ?thesis
        using other [of rid] p n' p' by (auto simp: rowAt_def nth_append less_Suc_eq)
    qed
  qed
qed

section \<open>Put and Get\<close>

lemma roomyPage_spec:
  assumes inv: "heap_inv w m" and len: "21 + 4 + len \<le> 4096" and N: "unat (nextPageID (pm w)) + 1 < 2 ^ 51"
  shows "\<exists>a p V w'. roomyPage len w = (Ok a, w') \<and> activePage w' = a \<and> wf_page p \<and> HasSpaceFor p len \<and>
    st {} V [a \<mapsto> p] (ID p + 1) (store.more w') w' \<and> heap_in (V(ID p \<mapsto> p)) (ID p + 1) \<and>
    rowAt (V(ID p \<mapsto> p)) (ID p + 1) = m \<and> valid_id (ID p) \<and> unat (nextPageID (pm w')) \<le> unat (nextPageID (pm w)) + 1"
proof -
  let ?N = "nextPageID (pm w)" and ?V = "known w"
  obtain p where p: "st {} ?V [activePage w \<mapsto> p] ?N (store.more w) w" "?V (?N - 1) = Some p" "wf_page p" "ID p = ?N - 1"
    using heap_st [OF inv] by blast
  have h: "heap_in ?V ?N" "rowAt ?V ?N = m" using inv by (auto simp: heap_inv_def)
  note N' = valid_id_succ [OF N]
  show ?thesis
  proof (cases "HasSpaceFor p len")
    case True
    have "?V(ID p \<mapsto> p) = ?V" using p(2,4) by (simp add: fun_upd_idem)
    moreover have "roomyPage len w = (Ok (activePage w), w)"
      using deref_rule [OF p(1)] True by (simp add: roomyPage_def exec_simps)
    moreover have "valid_id (ID p)" using known_image [OF st_sound [OF p(1)] p(2)] unfolding page_image_def by blast
    ultimately show ?thesis
      using p h True by (intro exI [of _ "activePage w"] exI [of _ p] exI [of _ ?V] exI [of _ w]) simp
  next
    case False
    let ?P = "NewHeapPage ?N"
    have P: "wf_page ?P" "entries ?P = []" "ID ?P = ?N" using NewHeapPage_spec [of ?N] by (auto simp: header_fields)
    obtain w1 where w1: "AllocatePageID w = (Ok ?N, w1)" "st {} ?V [activePage w \<mapsto> p] (?N + 1) (store.more w) w1"
      using AllocatePageID_rule [OF p(1)] by blast
    obtain b w2 where w2: "newObj ?P w1 = (Ok b, w2)" "st {} ?V [activePage w \<mapsto> p, b \<mapsto> ?P] (?N + 1) (store.more w) w2"
      using newObj_rule [OF w1(2), of ?P] by blast
    let ?w = "w2\<lparr>activePage := b\<rparr>"
    have s: "st {} ?V [b \<mapsto> ?P] (?N + 1) (store.more ?w) ?w"
      by (rule st_forget [OF client_rule [OF w2(2)]]) (auto simp: map_le_def)
    have run: "roomyPage len w = (Ok b, ?w)"
      using deref_rule [OF p(1)] False w1(1) w2(1) by (simp add: roomyPage_def exec_simps)
    have space: "HasSpaceFor ?P len" using HasSpaceFor_iff [OF P(1)] P(2) len by (simp add: fits_def dataBytes_def flip: length_entries)
    have lt: "v < ?N + 1 \<longleftrightarrow> v < ?N \<or> v = ?N" for v
      using N' by (simp add: word_less_nat_alt word_unat_eq_iff less_Suc_eq)
    have hp: "heap_in (?V(?N \<mapsto> ?P)) (?N + 1)"
      using h(1) P(1) N' N by (auto simp: heap_in_def lt word_gt_0)
    have "numEntries ?P = 0" using P(2) length_entries [of ?P] by simp
    then have "rowAt (?V(?N \<mapsto> ?P)) (?N + 1) = m"
      unfolding h(2) [symmetric] by (auto simp: rowAt_def fun_eq_iff lt)
    with run space hp s P N' st_next [OF s] show ?thesis
      by (intro exI [of _ b] exI [of _ ?P] exI [of _ ?V] exI [of _ ?w]) simp
  qed
qed

lemma Heap_Put_spec:
  assumes inv: "heap_inv w m" and len: "21 + 4 + length row \<le> 4096" and N: "unat (nextPageID (pm w)) + 1 < 2 ^ 51"
  shows "\<exists>rid w'. Heap_Put row w = (Ok rid, w') \<and> rid \<notin> dom m \<and> heap_inv w' (m(rid \<mapsto> row)) \<and>
    unat (nextPageID (pm w')) \<le> unat (nextPageID (pm w)) + 1"
proof -
  obtain a p V w1 where w1: "roomyPage (length row) w = (Ok a, w1)" "activePage w1 = a" "wf_page p" "HasSpaceFor p (length row)"
      "st {} V [a \<mapsto> p] (ID p + 1) (store.more w1) w1" "heap_in (V(ID p \<mapsto> p)) (ID p + 1)"
      "rowAt (V(ID p \<mapsto> p)) (ID p + 1) = m" "valid_id (ID p)" "unat (nextPageID (pm w1)) \<le> unat (nextPageID (pm w)) + 1"
    using roomyPage_spec [OF inv len N] by blast
  let ?u = "ID p" and ?r = "recordIDOf (ID p) (NumEntries p)"
  have "fits (entries p @ [row])" using HasSpaceFor_iff [OF w1(3)] w1(4) by (simp add: fits_def dataBytes_def)
  then obtain p' where p': "InsertEntry p (NumEntries p) row = Ok p'" "wf_page p'" "header p' = header p" "entries p' = entries p @ [row]"
    using appendOne_spec [OF w1(3)] by blast
  have id: "ID p' = ?u" using header_same [OF p'(3)] by simp
  obtain w2 where w2: "assign a p' w1 = (Ok (), w2)" "st {?u} V [a \<mapsto> p'] (?u + 1) (store.more w1) w2"
    using assign_rule [OF w1(5), of a p p'] id wf_page_data [OF p'(2)] w1(8) by auto
  obtain w3 where w3: "writePage a w2 = (Ok (), w3)" "st {} (V(?u \<mapsto> p')) [a \<mapsto> p'] (?u + 1) (store.more w1) w3"
    using write_rule_clean [OF w2(2), of a p'] p'(2) id w1(8) by auto
  have n: "numEntries p < 4095" using wf_page_numEntries [OF w1(3)] by simp
  have u: "?u < ?u + 1" using w1(8) by (simp add: word_less_nat_alt valid_id_def unat_word_ariths)
  note app = rowAt_append [OF w1(6) _ u p'(4) n, simplified]
  have "heap_in (V(?u \<mapsto> p')) (?u + 1)" using w1(6) p'(2) by (auto simp: heap_in_def)
  then have "heap_inv w3 (rowAt (V(?u \<mapsto> p')) (?u + 1))"
    using heap_inv_st [OF w3(2), of p'] more_active [OF st_more [OF w3(2)]] w1(2) by simp
  then have "heap_inv w3 (m(?r \<mapsto> row))" using app(1) w1(7) by simp
  moreover have "?r \<notin> dom m" using app(2) w1(7) by auto
  moreover have "Heap_Put row w = (Ok ?r, w3)"
    using len w1(1) deref_rule [OF w1(5)] p'(1) w2(1) w3(1) id by (simp add: Heap_Put_def exec_simps Let_def)
  moreover have "nextPageID (pm w3) = nextPageID (pm w1)" using st_next [OF w3(2)] st_next [OF w1(5)] by simp
  ultimately show ?thesis using w1(9) by metis
qed

lemma Heap_Get_spec:
  assumes inv: "heap_inv w m"
  shows "m rid = Some row \<Longrightarrow> \<exists>w'. Heap_Get rid w = (Ok row, w') \<and> heap_inv w' m \<and> nextPageID (pm w') = nextPageID (pm w)"
    and "m rid = None \<Longrightarrow> rid div 4096 < nextPageID (pm w) \<Longrightarrow> \<exists>w'. Heap_Get rid w = (Err ErrSlotIndex, w') \<and> heap_inv w' m"
proof -
  let ?N = "nextPageID (pm w)" and ?V = "known w" and ?v = "rid div 4096" and ?i = "ucast (rid mod 4096) :: uint16"
  obtain p where p: "st {} ?V [activePage w \<mapsto> p] ?N (store.more w) w" "?V (?N - 1) = Some p"
    using heap_st [OF inv] by blast
  have h: "heap_in ?V ?N" "rowAt ?V ?N = m" using inv by (auto simp: heap_inv_def)
  have i: "unat ?i = unat (rid mod 4096)" using recordID_of_parts(1) [of rid] by (simp add: unsigned_ucast_eq take_bit_nat_eq_self)
  have read: "\<exists>b q w'. readPage ?v w = (Ok b, w') \<and> deref b w' = (Ok q, w') \<and> wf_page q \<and> ?V ?v = Some q \<and> heap_inv w' m \<and>
      nextPageID (pm w') = ?N" if lt: "?v < ?N"
  proof -
    obtain q where q: "?V ?v = Some q" "wf_page q" using h(1) lt by (auto simp: heap_in_def)
    obtain b w' where w': "readPage ?v w = (Ok b, w')" "st {} ?V ([activePage w \<mapsto> p](b \<mapsto> q)) ?N (store.more w) w'"
        "[activePage w \<mapsto> p] \<subseteq>\<^sub>m [activePage w \<mapsto> p](b \<mapsto> q)"
      using cached.read_rule [OF TrueI p(1) _ q(1)] by blast
    have "heap_inv w' m"
      using heap_inv_st [OF w'(2) h(1) _ p(2)] map_le_Some [OF w'(3), of "activePage w" p] more_active [OF st_more [OF w'(2)]] h(2) by simp
    with w' q deref_rule [OF w'(2), of b q] st_next [OF w'(2)] show ?thesis by auto
  qed
  show "\<exists>w'. Heap_Get rid w = (Ok row, w') \<and> heap_inv w' m \<and> nextPageID (pm w') = nextPageID (pm w)" if m: "m rid = Some row"
  proof -
    have lt: "?v < ?N" using m unfolding h(2) [symmetric] by (auto simp: rowAt_def split: if_splits)
    obtain b q w' where w': "readPage ?v w = (Ok b, w')" "deref b w' = (Ok q, w')" "wf_page q" "?V ?v = Some q" "heap_inv w' m"
        "nextPageID (pm w') = ?N"
      using read [OF lt] by blast
    have "unat ?i < numEntries q" "row = entries q ! unat ?i"
      using m w'(4) unfolding h(2) [symmetric] i by (auto simp: rowAt_def split: if_splits)
    with w' GetEntry_spec [OF w'(3), of ?i] show ?thesis
      by (auto simp: Heap_Get_def exec_simps Let_def word_le_nat_alt)
  qed
  show "\<exists>w'. Heap_Get rid w = (Err ErrSlotIndex, w') \<and> heap_inv w' m" if m: "m rid = None" and lt: "?v < ?N"
  proof -
    obtain b q w' where w': "readPage ?v w = (Ok b, w')" "deref b w' = (Ok q, w')" "?V ?v = Some q" "heap_inv w' m"
      using read [OF lt] by blast
    have "numEntries q \<le> unat ?i"
      using m lt w'(3) unfolding h(2) [symmetric] i by (auto simp: rowAt_def split: if_splits)
    with w' show ?thesis by (auto simp: Heap_Get_def exec_simps Let_def word_le_nat_alt)
  qed
qed

section \<open>Opening\<close>

definition heapState :: "byte list \<Rightarrow> Pool option \<Rightarrow> Heap" where
  "heapState c q =
     \<lparr>objs = [], pm = \<lparr>pm_file = fileWith c, nextPageID = word_of_nat (length c div PageSize), pageReads = 0, pageWrites = 0, syncCalls = 0\<rparr>,
      pool = q, activePage = 0\<rparr>"

lemma heap_Open_active:
  "\<exists>q. (q = None \<or> (\<exists>n. q = Some (NewPool n))) \<and> heap_Open (Ok (fileWith c)) opts =
    (case openActive (heapState c q) of (r, h) \<Rightarrow> rbind r (\<lambda>a. Ok (h\<lparr>activePage := a\<rparr>)))"
proof -
  have fold: "\<exists>q'. fold heap_WithBufferPool opts (heapState c q) = heapState c q' \<and> (q' = None \<or> (\<exists>n. q' = Some (NewPool n)))"
    if "q = None \<or> (\<exists>n. q = Some (NewPool n))" for q
    using that
  proof (induction opts arbitrary: q)
    case (Cons n opts)
    have "heap_WithBufferPool n (heapState c q) = heapState c (Some (NewPool n))"
      by (simp add: heap_WithBufferPool_def heapState_def)
    with Cons.IH [of "Some (NewPool n)"] show ?case by auto
  qed auto
  obtain q where q: "fold heap_WithBufferPool opts (heapState c None) = heapState c q" "q = None \<or> (\<exists>n. q = Some (NewPool n))"
    using fold [of None] by blast
  have "storage_Open (Ok (fileWith c)) = Ok (pm (heapState c None))"
    by (simp add: storage_Open_def syscall_quiet fileWith_def heapState_def)
  then have "heap_Open (Ok (fileWith c)) opts =
      (case openActive (fold heap_WithBufferPool opts (heapState c None)) of (r, h) \<Rightarrow> rbind r (\<lambda>a. Ok (h\<lparr>activePage := a\<rparr>)))"
    by (simp add: heap_Open_def heapState_def)
  with q show ?thesis by auto
qed

lemma heapState_ok:
  assumes "q = None \<or> (\<exists>n. q = Some (NewPool n))" "length c \<le> 2 ^ 63"
  shows "sound (heapState c q)"
proof -
  let ?w = "heapState c q"
  have p: "pool ?w = q" by (simp add: heapState_def)
  have none: "cachedIn ?w v = None" for v
    using assms(1) unfolding cachedIn_def p by (auto simp: cached_def NewPool_def)
  have "quiet ?w" using assms(2) by (simp add: quiet_def heapState_def fileWith_def)
  then show ?thesis using assms(1) none by (intro soundI [of "{}"]) (auto simp: pool_ok_NewPool store_ok_def p)
qed

lemma heap_Open_empty: "\<exists>w. heap_Open (Ok (fileWith [])) opts = Ok w \<and> heap_inv w Map.empty \<and> nextPageID (pm w) = 1"
proof -
  obtain q where q: "q = None \<or> (\<exists>n. q = Some (NewPool n))" "heap_Open (Ok (fileWith [])) opts =
      (case openActive (heapState [] q) of (r, h) \<Rightarrow> rbind r (\<lambda>a. Ok (h\<lparr>activePage := a\<rparr>)))"
    using heap_Open_active by blast
  let ?w = "heapState [] q" and ?P = "NewHeapPage 0"
  have n: "nextPageID (pm ?w) = 0" by (simp add: heapState_def)
  have s: "st {} (known ?w) Map.empty 0 (store.more ?w) ?w"
    using st_initial [OF heapState_ok [OF q(1), of "[]"]] n by simp
  have P: "wf_page ?P" "entries ?P = []" "ID ?P = 0" using NewHeapPage_spec [of 0] by (auto simp: header_fields)
  obtain w1 where w1: "AllocatePageID ?w = (Ok 0, w1)" "st {} (known ?w) Map.empty 1 (store.more ?w) w1"
    using AllocatePageID_rule [OF s] by auto
  obtain b w2 where w2: "newObj ?P w1 = (Ok b, w2)" "st {} (known ?w) [b \<mapsto> ?P] 1 (store.more ?w) w2"
    using newObj_rule [OF w1(2), of ?P] by blast
  obtain w3 where w3: "writePage b w2 = (Ok (), w3)" "st {} ((known ?w)(0 \<mapsto> ?P)) [b \<mapsto> ?P] 1 (store.more ?w) w3"
    using write_rule_clean [OF w2(2), of b ?P] P by (auto simp: valid_id_def)
  let ?w3 = "w3\<lparr>activePage := b\<rparr>"
  have s3: "st {} ((known ?w)(0 \<mapsto> ?P)) [b \<mapsto> ?P] 1 (store.more ?w3) ?w3" by (rule client_rule [OF w3(2)]) simp_all
  have h: "heap_in ((known ?w)(0 \<mapsto> ?P)) 1" using P(1) by (auto simp: heap_in_def word_less_nat_alt word_unat_eq_iff)
  have "numEntries ?P = 0" using P(2) length_entries [of ?P] by simp
  then have "rowAt ((known ?w)(0 \<mapsto> ?P)) 1 = Map.empty" by (auto simp: rowAt_def fun_eq_iff word_less_nat_alt word_unat_eq_iff)
  then have "heap_inv ?w3 Map.empty" using heap_inv_st [OF s3 h, of ?P] by simp
  moreover have "openActive ?w = (Ok b, w3)"
    using n w1(1) w2(1) w3(1) by (simp add: openActive_def PageCount_def exec_simps)
  ultimately show ?thesis using q(2) st_next [OF s3] by simp
qed

end
