(* ===== verification/Indexed_Rows.thy ===== *)
theory Indexed_Rows
  imports Heap_Spec Index
begin

text \<open>
  An index and a row store together: rows go to the store, the index maps a key to the record
  identifier, and a lookup follows the identifier. The interfaces of both parts carry the reasoning.
\<close>

section \<open>The interface of a row store\<close>

text \<open>\<open>abs n w m\<close>: the store \<open>w\<close> holds the rows \<open>m\<close> and has room for \<open>n\<close> more pages.\<close>

locale row_store =
  fixes abs :: "nat \<Rightarrow> 's \<Rightarrow> (int64 \<rightharpoonup> byte list) \<Rightarrow> bool"
    and put :: "byte list \<Rightarrow> ('s, int64) op"
    and get :: "int64 \<Rightarrow> ('s, byte list) op"
  assumes put_law: "abs (Suc n) w m \<Longrightarrow> length row \<le> 4071 \<Longrightarrow>
      \<exists>rid w'. put row w = (Ok rid, w') \<and> rid \<notin> dom m \<and> abs n w' (m(rid \<mapsto> row))"
    and get_law: "abs n w m \<Longrightarrow> m rid = Some row \<Longrightarrow> \<exists>w'. get rid w = (Ok row, w') \<and> abs n w' m"
begin

lemma put_then_get:
  assumes "abs (Suc n) w m" "length row \<le> 4071"
  shows "\<exists>rid w' w''. put row w = (Ok rid, w') \<and> get rid w' = (Ok row, w'') \<and> abs n w'' (m(rid \<mapsto> row)) \<and> rid \<notin> dom m"
proof -
  obtain rid w' where w': "put row w = (Ok rid, w')" "rid \<notin> dom m" "abs n w' (m(rid \<mapsto> row))"
    using put_law [OF assms] by blast
  with get_law [OF w'(3), of rid row] show ?thesis by auto
qed

end

definition heap_abs :: "nat \<Rightarrow> Heap \<Rightarrow> (int64 \<rightharpoonup> byte list) \<Rightarrow> bool" where
  "heap_abs n w m \<longleftrightarrow> heap_inv w m \<and> unat (nextPageID (pm w)) + n < 2 ^ 51"

interpretation heap: row_store heap_abs Heap_Put Heap_Get
proof
  fix n w m and row :: "byte list"
  assume a: "heap_abs (Suc n) w m" and "length row \<le> 4071"
  then have "25 + length row \<le> 4096" "heap_inv w m" "unat (nextPageID (pm w)) + 1 < 2 ^ 51" by (auto simp: heap_abs_def)
  then obtain rid w' where "Heap_Put row w = (Ok rid, w')" "rid \<notin> dom m" "heap_inv w' (m(rid \<mapsto> row))"
      "unat (nextPageID (pm w')) \<le> unat (nextPageID (pm w)) + 1"
    using Heap_Put_spec [of w m row] by auto
  with a show "\<exists>rid w'. Heap_Put row w = (Ok rid, w') \<and> rid \<notin> dom m \<and> heap_abs n w' (m(rid \<mapsto> row))"
    by (auto simp: heap_abs_def)
next
  fix n w m rid row
  assume "heap_abs n w m" "m rid = Some row"
  with Heap_Get_spec(1) [of w m rid row] show "\<exists>w'. Heap_Get rid w = (Ok row, w') \<and> heap_abs n w' m"
    by (auto simp: heap_abs_def)
qed

section \<open>Two components side by side\<close>

definition onFst :: "('a, 'r) op \<Rightarrow> ('a \<times> 'b, 'r) op" where
  "onFst f = (\<lambda>(a, b). case f a of (r, a') \<Rightarrow> (r, (a', b)))"

definition onSnd :: "('b, 'r) op \<Rightarrow> ('a \<times> 'b, 'r) op" where
  "onSnd f = (\<lambda>(a, b). case f b of (r, b') \<Rightarrow> (r, (a, b')))"

lemma onFst_Ok [exec_simps]: "f a = (Ok x, a') \<Longrightarrow> onFst f (a, b) = (Ok x, (a', b))"
  and onSnd_Ok [exec_simps]: "g b = (Ok x, b') \<Longrightarrow> onSnd g (a, b) = (Ok x, (a, b'))"
  by (simp_all add: onFst_def onSnd_def)

text \<open>Store each row, index it under its key.\<close>

fun indexRows ::
    "(byte list \<Rightarrow> ('a, int64) op) \<Rightarrow> ('k \<Rightarrow> int64 \<Rightarrow> ('b, unit) op) \<Rightarrow> ('k \<times> byte list) list \<Rightarrow> ('a \<times> 'b, unit) op" where
  "indexRows put insrt [] = sret ()"
| "indexRows put insrt ((k, row) # rest) =
     sbind (onFst (put row)) (\<lambda>rid.
     sbind (onSnd (insrt k rid)) (\<lambda>_.
     indexRows put insrt rest))"

text \<open>Search the index, follow the record identifier.\<close>

definition lookupRow ::
    "('k \<Rightarrow> ('b, int64 \<times> bool) op) \<Rightarrow> (int64 \<Rightarrow> ('a, byte list) op) \<Rightarrow> 'k \<Rightarrow> ('a \<times> 'b, byte list option) op" where
  "lookupRow search get k =
     sbind (onSnd (search k)) (\<lambda>(rid, found).
     if found then sbind (onFst (get rid)) (\<lambda>row. sret (Some row)) else sret None)"

locale indexed_rows =
  store: row_store habs put get + idx: key_index iabs search insrt
  for habs :: "nat \<Rightarrow> 'a \<Rightarrow> (int64 \<rightharpoonup> byte list) \<Rightarrow> bool" and put get
    and iabs :: "nat \<Rightarrow> 'b \<Rightarrow> ('k \<rightharpoonup> int64) \<Rightarrow> bool" and search insrt
begin

text \<open>The rows reachable through the index: every indexed key leads to a stored row.\<close>

definition table :: "nat \<Rightarrow> 'a \<times> 'b \<Rightarrow> ('k \<rightharpoonup> byte list) \<Rightarrow> bool" where
  "table n w m \<longleftrightarrow> (\<exists>mh mi. habs n (fst w) mh \<and> iabs n (snd w) mi \<and>
     (\<forall>k. m k = (case mi k of None \<Rightarrow> None | Some rid \<Rightarrow> mh rid)) \<and> (\<forall>k rid. mi k = Some rid \<longrightarrow> rid \<in> dom mh))"

lemma index_row:
  assumes "table (Suc n) w m" "k \<notin> dom m" "length row \<le> 4071"
  shows "\<exists>w'. (\<forall>rest. indexRows put insrt ((k, row) # rest) w = indexRows put insrt rest w') \<and> table n w' (m(k \<mapsto> row))"
proof -
  obtain a b mh mi where w: "w = (a, b)" "habs (Suc n) a mh" "iabs (Suc n) b mi"
      "\<forall>k. m k = (case mi k of None \<Rightarrow> None | Some rid \<Rightarrow> mh rid)" "\<forall>k rid. mi k = Some rid \<longrightarrow> rid \<in> dom mh"
    using assms(1) by (cases w) (auto simp: table_def)
  obtain rid a' where a': "put row a = (Ok rid, a')" "rid \<notin> dom mh" "habs n a' (mh(rid \<mapsto> row))"
    using store.put_law [OF w(2) assms(3)] by blast
  have "k \<notin> dom mi" using assms(2) w(4,5) by (cases "mi k") fastforce+
  then obtain b' where b': "insrt k rid b = (Ok (), b')" "iabs n b' (mi(k \<mapsto> rid))" using idx.insert_law [OF w(3)] by blast
  have "table n (a', b') (m(k \<mapsto> row))"
    unfolding table_def using a' b'(2) w(4,5)
    by (intro exI [of _ "mh(rid \<mapsto> row)"] exI [of _ "mi(k \<mapsto> rid)"]) (auto split: option.splits)
  moreover have "indexRows put insrt ((k, row) # rest) w = indexRows put insrt rest (a', b')" for rest
    using a'(1) b'(1) w(1) by (simp add: exec_simps)
  ultimately show ?thesis by blast
qed

lemma indexRows_spec:
  "table (n + length rs) w m \<Longrightarrow> distinct (map fst rs) \<Longrightarrow> fst ` set rs \<inter> dom m = {} \<Longrightarrow> \<forall>r \<in> set rs. length (snd r) \<le> 4071 \<Longrightarrow>
   \<exists>w'. indexRows put insrt rs w = (Ok (), w') \<and> table n w' (m ++ map_of rs)"
proof (induction rs arbitrary: w m)
  case (Cons r rs)
  obtain k row where r: "r = (k, row)" by (cases r)
  obtain w1 where w1: "\<forall>rest. indexRows put insrt ((k, row) # rest) w = indexRows put insrt rest w1"
      "table (n + length rs) w1 (m(k \<mapsto> row))"
    using index_row [of "n + length rs" w m k row] Cons.prems by (auto simp: r)
  have "fst ` set rs \<inter> dom (m(k \<mapsto> row)) = {}" "k \<notin> fst ` set rs" using Cons.prems by (auto simp: r)
  then obtain w' where w': "indexRows put insrt rs w1 = (Ok (), w')" "table n w' (m(k \<mapsto> row) ++ map_of rs)"
    using Cons.IH [OF w1(2)] Cons.prems by (auto simp del: dom_fun_upd fun_upd_apply)
  have "m(k \<mapsto> row) ++ map_of rs = m ++ map_of (r # rs)"
    using \<open>k \<notin> fst ` set rs\<close> by (simp add: r map_add_upd_left dom_map_of_conv_image_fst)
  with w' w1(1) have "indexRows put insrt (r # rs) w = (Ok (), w')" "table n w' (m ++ map_of (r # rs))"
    by (simp_all only: r)
  then show ?case by blast
qed (simp add: sret_def)

lemma lookupRow_spec:
  assumes "table n w m"
  shows "\<exists>w'. lookupRow search get k w = (Ok (m k), w') \<and> table n w' m"
proof -
  obtain a b mh mi where w: "w = (a, b)" "habs n a mh" "iabs n b mi"
      "\<forall>k. m k = (case mi k of None \<Rightarrow> None | Some rid \<Rightarrow> mh rid)" "\<forall>k rid. mi k = Some rid \<longrightarrow> rid \<in> dom mh"
    using assms by (cases w) (auto simp: table_def)
  obtain b' where b': "search k b = (Ok (case mi k of None \<Rightarrow> (0, False) | Some v \<Rightarrow> (v, True)), b')" "iabs n b' mi"
    using idx.search_law [OF w(3)] by blast
  show ?thesis
  proof (cases "mi k")
    case None
    then have "lookupRow search get k w = (Ok (m k), (a, b'))"
      using b'(1) w(1,4) by (simp add: lookupRow_def exec_simps)
    with b'(2) w(2,4,5) show ?thesis unfolding table_def by auto
  next
    case (Some rid)
    then obtain row where row: "mh rid = Some row" using w(5) by blast
    obtain a' where a': "get rid a = (Ok row, a')" "habs n a' mh" using store.get_law [OF w(2) row] by blast
    have "lookupRow search get k w = (Ok (m k), (a', b'))"
      using b'(1) a'(1) w(1,4) Some row by (simp add: lookupRow_def exec_simps)
    with b'(2) a'(2) w(4,5) show ?thesis unfolding table_def by auto
  qed
qed

end

interpretation heap_tree: indexed_rows heap_abs Heap_Put Heap_Get "tree_abs fuel u" "BTree_Search fuel" "BTree_Insert fuel"
  by unfold_locales

end
