(* ===== verification/Partial.thy ===== *)
theory Partial
  imports Underflow Stats
begin

text \<open>
  \<^verbatim>\<open>internal/partial/partial.go\<close>: an index that holds the active rows only. The decision \<open>Upsert\<close>
  takes is a function of the tree operations it calls, so that it can be read over the tree of
  \<^verbatim>\<open>btree.go\<close> and over any other implementation of the same operations.
\<close>

datatype Status = Deleted | Active | OtherStatus int

record Row =
  Key :: int64
  RecordID :: int64
  RowStatus :: Status

text \<open>\<^verbatim>\<open>Status\<close> is an \<^verbatim>\<open>int\<close>: \<open>OtherStatus\<close> is a value that is none of the two constants.\<close>

definition upsertWith ::
    "(int64 \<Rightarrow> ('s, int64 \<times> bool) op) \<Rightarrow> (int64 \<Rightarrow> int64 \<Rightarrow> ('s, unit) op) \<Rightarrow> (int64 \<Rightarrow> ('s, unit) op) \<Rightarrow>
     Row \<Rightarrow> ('s, unit) op" where
  "upsertWith search insrt delete row =
     sbind (search (Key row)) (\<lambda>(_, alreadyIndexed).
     if RowStatus row = Active \<and> \<not> alreadyIndexed then insrt (Key row) (RecordID row)
     else if RowStatus row = Active \<and> alreadyIndexed then
       sbind (delete (Key row)) (\<lambda>_. insrt (Key row) (RecordID row))
     else if RowStatus row \<noteq> Active \<and> alreadyIndexed then delete (Key row)
     else sret ())"

definition partial_Open :: "osfile res \<Rightarrow> BTree res" where
  "partial_Open opened = btree_Open opened []"

definition Upsert :: "nat \<Rightarrow> Row \<Rightarrow> (BTree, unit) op" where
  "Upsert fuel = upsertWith (BTree_Search fuel) (BTree_Insert fuel) (BTree_Delete fuel)"

definition PartialIndex_Search :: "nat \<Rightarrow> int64 \<Rightarrow> (BTree, int64 \<times> bool) op" where
  "PartialIndex_Search fuel key = BTree_Search fuel key"

definition PartialIndex_Scan :: "nat \<Rightarrow> nat \<Rightarrow> int64 \<Rightarrow> int64 \<Rightarrow> (BTree, ScanResult list) op" where
  "PartialIndex_Scan fuel scanFuel startKey endKey = BTree_Scan fuel scanFuel startKey endKey"

definition PartialIndex_Close :: "PageID list \<Rightarrow> (BTree, unit) op" where
  "PartialIndex_Close ord = BTree_Close ord"

definition PartialIndex_Stats :: "nat \<Rightarrow> (BTree, TreeStats) op" where
  "PartialIndex_Stats fuel = BTree_Stats fuel"

definition PartialIndex_ResetStats :: "(BTree, unit) op" where
  "PartialIndex_ResetStats = BTree_ResetStats"

end
