(* ===== verification/Partial_Spec.thy ===== *)
theory Partial_Spec
  imports Partial Index Delete_Repair
begin

text \<open>
  The partial index of \<^verbatim>\<open>partial.go\<close> over an interface: \<^verbatim>\<open>Upsert\<close> uses searching, inserting and deleting only, and
  over any index that keeps the laws of the three it holds exactly the rows that are active. A tree keeps these
  laws as long as it holds at most 20603 rows: a deletion then repairs underfull leaves among the children of
  the root.
\<close>

section \<open>An index with deletion\<close>

text \<open>\<open>abs n w m\<close>: the index \<open>w\<close> holds the rows \<open>m\<close> and has the means for \<open>n\<close> more calls; \<open>room\<close> bounds the rows.\<close>

locale updatable_index =
  fixes room :: nat and abs :: "nat \<Rightarrow> 's \<Rightarrow> (int64 \<rightharpoonup> int64) \<Rightarrow> bool"
    and search :: "int64 \<Rightarrow> ('s, int64 \<times> bool) op" and insrt :: "int64 \<Rightarrow> int64 \<Rightarrow> ('s, unit) op"
    and delete :: "int64 \<Rightarrow> ('s, unit) op"
  assumes finite_law: "abs n w m \<Longrightarrow> finite (dom m)"
    and spare_law: "abs (Suc n) w m \<Longrightarrow> abs n w m"
    and search_law: "abs n w m \<Longrightarrow>
      \<exists>w'. search k w = (Ok (case m k of None \<Rightarrow> (0, False) | Some v \<Rightarrow> (v, True)), w') \<and> abs n w' m"
    and insert_law: "abs (Suc n) w m \<Longrightarrow> k \<notin> dom m \<Longrightarrow> card (dom m) < room \<Longrightarrow> \<exists>w'. insrt k v w = (Ok (), w') \<and> abs n w' (m(k \<mapsto> v))"
    and delete_law: "abs n w m \<Longrightarrow> k \<in> dom m \<Longrightarrow> \<exists>w'. delete k w = (Ok (), w') \<and> abs n w' (m(k := None))"

text \<open>What an upsert means for the rows indexed, and a sequence of upserts.\<close>

definition upserted :: "Row \<Rightarrow> (int64 \<rightharpoonup> int64) \<Rightarrow> (int64 \<rightharpoonup> int64)" where
  "upserted row m = m(Key row := if RowStatus row = Active then Some (RecordID row) else None)"

fun upsertEach :: "(Row \<Rightarrow> ('s, unit) op) \<Rightarrow> Row list \<Rightarrow> ('s, unit) op" where
  "upsertEach ups [] = sret ()"
| "upsertEach ups (row # rest) = sbind (ups row) (\<lambda>_. upsertEach ups rest)"

lemma dom_upserted: "dom (upserted row m) \<subseteq> insert (Key row) (dom m)"
  by (auto simp: upserted_def split: if_splits)

context updatable_index
begin

lemma upsert_spec:
  assumes abs: "abs (Suc n) w m" and room: "card (insert (Key row) (dom m)) \<le> room"
  shows "\<exists>w'. upsertWith search insrt delete row w = (Ok (), w') \<and> abs n w' (upserted row m)"
proof -
  let ?k = "Key row"
  obtain w1 where w1: "search ?k w = (Ok (case m ?k of None \<Rightarrow> (0, False) | Some v \<Rightarrow> (v, True)), w1)" "abs (Suc n) w1 m"
    using search_law [OF abs] by blast
  have fin: "finite (dom m)" using finite_law [OF abs] .
  show ?thesis
  proof (cases "?k \<in> dom m")
    case False
    then have new: "m ?k = None" and "card (dom m) < room" using room fin by auto
    then obtain w2 where "insrt ?k (RecordID row) w1 = (Ok (), w2)" "abs n w2 (m(?k \<mapsto> RecordID row))"
      using insert_law [OF w1(2) False] by blast
    moreover have "upserted row m = m" if "RowStatus row \<noteq> Active" using that new by (auto simp: upserted_def)
    ultimately show ?thesis
      using w1(1) spare_law [OF w1(2)] new by (cases "RowStatus row = Active") (auto simp: upsertWith_def upserted_def exec_simps)
  next
    case True
    then obtain v where old: "m ?k = Some v" by blast
    obtain w2 where w2: "delete ?k w1 = (Ok (), w2)" "abs (Suc n) w2 (m(?k := None))" using delete_law [OF w1(2) True] by blast
    have "card (dom (m(?k := None))) < room" using True room fin card_Diff1_less [OF fin True] by (simp add: insert_absorb)
    then obtain w3 where "insrt ?k (RecordID row) w2 = (Ok (), w3)" "abs n w3 (m(?k \<mapsto> RecordID row))"
      using insert_law [OF w2(2), of ?k] by auto
    with w1(1) w2(1) spare_law [OF w2(2)] old show ?thesis
      by (cases "RowStatus row = Active") (auto simp: upsertWith_def upserted_def exec_simps)
  qed
qed

lemma upserts_spec:
  "abs (length rs + n) w m \<Longrightarrow> card (Key ` set rs \<union> dom m) \<le> room \<Longrightarrow>
   \<exists>w'. upsertEach (upsertWith search insrt delete) rs w = (Ok (), w') \<and> abs n w' (fold upserted rs m)"
proof (induction rs arbitrary: w m)
  case (Cons row rs)
  have fin: "finite (Key ` set (row # rs) \<union> dom m)" using finite_law [OF Cons.prems(1)] by simp
  have "insert (Key row) (dom m) \<subseteq> Key ` set (row # rs) \<union> dom m" by auto
  then have "card (insert (Key row) (dom m)) \<le> room" using card_mono [OF fin] Cons.prems(2) by (meson le_trans)
  moreover have "abs (Suc (length rs + n)) w m" using Cons.prems(1) by simp
  ultimately obtain w1 where w1: "upsertWith search insrt delete row w = (Ok (), w1)" "abs (length rs + n) w1 (upserted row m)"
    using upsert_spec by blast
  have "Key ` set rs \<union> dom (upserted row m) \<subseteq> Key ` set (row # rs) \<union> dom m" using dom_upserted [of row m] by auto
  then have "card (Key ` set rs \<union> dom (upserted row m)) \<le> room" using card_mono [OF fin] Cons.prems(2) by (meson le_trans)
  from Cons.IH [OF w1(2) this] w1(1) show ?case by (auto simp: exec_simps)
qed (simp add: exec_simps)

end

section \<open>A low tree\<close>

definition low_abs :: "nat \<Rightarrow> BTree \<Rightarrow> (int64 \<rightharpoonup> int64) \<Rightarrow> bool" where
  "low_abs n w m \<longleftrightarrow> (\<exists>h t. tree_inv 8 h t w \<and> map_of (rows t) = m \<and> entrySize w = 16 \<and> filled 101 t \<and>
     length (rows t) < 20604 \<and> unat (nextPageID (pm w)) + 3 * n < 2 ^ 51)"

lemma low_absE:
  assumes "low_abs n w m"
  obtains h t where "tree_inv 8 h t w" "map_of (rows t) = m" "entrySize w = 16" "filled 101 t" "length (rows t) < 20604"
    "unat (nextPageID (pm w)) + 3 * n < 2 ^ 51" "h \<le> 1"
proof -
  obtain h t where t: "tree_inv 8 h t w" "map_of (rows t) = m" "entrySize w = 16" "filled 101 t" "length (rows t) < 20604"
      "unat (nextPageID (pm w)) + 3 * n < 2 ^ 51" using assms by (auto simp: low_abs_def)
  have bal: "balanced t h" using t(1) by (simp add: tree_inv_def tree_in_def)
  have "h \<le> 1" using low_tree [OF bal t(4)] t(5) by (simp add: rows_def rowsOf_def)
  with t that show thesis by blast
qed

lemma card_rows:
  assumes "tree_inv 8 h t w"
  shows "card (dom (map_of (rows t))) = length (rows t)"
  using rows_sorted(2) [OF assms] distinct_card by (fastforce simp: dom_map_of_conv_image_fst)

lemma low_search:
  assumes "low_abs n w m"
  shows "\<exists>w'. BTree_Search (Suc fuel) k w = (Ok (case m k of None \<Rightarrow> (0, False) | Some v \<Rightarrow> (v, True)), w') \<and> low_abs n w' m"
proof -
  obtain h t where t: "tree_inv 8 h t w" "map_of (rows t) = m" "entrySize w = 16" "filled 101 t" "length (rows t) < 20604"
      "unat (nextPageID (pm w)) + 3 * n < 2 ^ 51" "h \<le> 1" by (rule low_absE [OF assms])
  obtain w' where w': "BTree_Search (Suc fuel) k w = (Ok (case m k of None \<Rightarrow> (0, False) | Some v \<Rightarrow> (v, True)), w')" "tree_inv 8 h t w'"
      "nextPageID (pm w') = nextPageID (pm w)" "store.more w' = store.more w"
    using BTree_Search_spec [OF t(1), of "Suc fuel" k] t(2,7) by auto
  then have "low_abs n w' m" unfolding low_abs_def using t more_fields [OF w'(4)] by (intro exI [of _ h] exI [of _ t]) simp
  with w'(1) show ?thesis by blast
qed

lemma low_insert:
  assumes "low_abs (Suc n) w m" "k \<notin> dom m" "card (dom m) < 20603"
  shows "\<exists>w'. BTree_Insert (Suc fuel) k v w = (Ok (), w') \<and> low_abs n w' (m(k \<mapsto> v))"
proof -
  obtain h t where t: "tree_inv 8 h t w" "map_of (rows t) = m" "entrySize w = 16" "filled 101 t" "length (rows t) < 20604"
      "unat (nextPageID (pm w)) + 3 * Suc n < 2 ^ 51" "h \<le> 1" by (rule low_absE [OF assms(1)])
  have k: "k \<notin> fst ` set (rows t)" using dom_rows [OF t(2)] assms(2) by blast
  obtain w' t' h' where w': "BTree_Insert (Suc fuel) k v w = (Ok (), w')" "inserted 8 EncodeInt64 h t k v w h' t' w'"
    using BTree_Insert_spec(1) [OF t(1) _ _ k, of "Suc fuel" v] t(6,7) by auto
  then have i: "tree_inv 8 h' t' w'" "unat (nextPageID (pm w')) \<le> unat (nextPageID (pm w)) + h + 2" "entrySize w' = 16" "filled 101 t'"
    using t(3,4) by (auto simp: inserted_def)
  have m: "map_of (rows t') = m(k \<mapsto> v)" using inserted_map [OF t(1) w'(2) k] t(2) by simp
  then have "length (rows t') = Suc (card (dom m))" using card_rows [OF i(1)] assms(2) by (simp add: finite_dom_map_of flip: t(2))
  then have "low_abs n w' (m(k \<mapsto> v))"
    unfolding low_abs_def using i t(6,7) m assms(3) by (intro exI [of _ h'] exI [of _ t']) simp
  with w'(1) show ?thesis by blast
qed

lemma low_delete:
  assumes "low_abs n w m" "k \<in> dom m"
  shows "\<exists>w'. BTree_Delete (Suc fuel) k w = (Ok (), w') \<and> low_abs n w' (m(k := None))"
proof -
  obtain h t where t: "tree_inv 8 h t w" "map_of (rows t) = m" "entrySize w = 16" "filled 101 t" "length (rows t) < 20604"
      "unat (nextPageID (pm w)) + 3 * n < 2 ^ 51" "h \<le> 1" by (rule low_absE [OF assms(1)])
  have k: "k \<in> fst ` set (rows t)" using dom_rows [OF t(2)] assms(2) by blast
  have N: "valid_id (nextPageID (pm w))" using t(6) by (simp add: valid_id_def)
  obtain w' h' t' where w': "BTree_Delete (Suc fuel) k w = (Ok (), w')" "tree_inv 8 h' t' w'" "rows t' = filter (\<lambda>r. fst r \<noteq> k) (rows t)"
      "filled 101 t'" "nextPageID (pm w') = nextPageID (pm w)" "entrySize w' = 16"
    using BTree_Delete_repair [OF t(1) N _ k t(3,4) rows_sheltered [OF t(1,4,5)], of "Suc fuel"] t(7) by auto
  moreover have "length (rows t') < 20604" using t(5) unfolding w'(3) by (rule le_less_trans [OF length_filter_le])
  ultimately have "low_abs n w' (m(k := None))"
    unfolding low_abs_def using t(2,6) by (intro exI [of _ h'] exI [of _ t']) (simp add: map_of_filter_key)
  with w'(1) show ?thesis by blast
qed

interpretation low_tree_index: updatable_index 20603 low_abs "BTree_Search (Suc fuel)" "BTree_Insert (Suc fuel)" "BTree_Delete (Suc fuel)"
proof
  show "finite (dom m)" if "low_abs n w m" for n w m using that by (auto simp: low_abs_def finite_dom_map_of)
  show "low_abs n w m" if "low_abs (Suc n) w m" for n w m
  proof -
    have "x + 3 * n < 2 ^ 51" if "x + 3 * Suc n < 2 ^ 51" for x using that by simp
    with \<open>low_abs (Suc n) w m\<close> show ?thesis unfolding low_abs_def by blast
  qed
qed (rule low_search low_insert low_delete; assumption)+

section \<open>The partial index\<close>

lemma partial_Open_empty: "3 * n + 2 < 2 ^ 51 \<Longrightarrow> \<exists>w. partial_Open (Ok (fileWith [])) = Ok w \<and> low_abs n w Map.empty"
proof -
  assume n: "3 * n + 2 < 2 ^ 51"
  obtain w where w: "openWith (Ok (fileWith [])) 16 False [] = Ok w" "tree_inv 8 0 (Leaf 1 []) w" "entrySize w = 16" "nextPageID (pm w) = 2"
    using openWith_empty [of 16 False "[]" 8] by auto
  then have "low_abs n w Map.empty"
    using n unfolding low_abs_def by (intro exI [of _ 0] exI [of _ "Leaf 1 []"]) (simp add: rows_def rowsOf_def)
  with w(1) show ?thesis by (simp add: partial_Open_def btree_Open_def)
qed

end
