(* ===== verification/Heap_Durable.thy ===== *)
theory Heap_Durable
  imports Heap_Spec Durability
begin

text \<open>
  What a heap keeps across \<^verbatim>\<open>Sync\<close> and \<^verbatim>\<open>Close\<close>: a heap opened on the bytes that reached the disk returns every row under its record
  identifier.
\<close>

lemma heap_inv_keeps:
  assumes inv: "heap_inv w m" and k: "keeps (stale w) w w'" "store_ok (stale w) w'"
  shows "heap_inv w' m"
proof -
  have ok: "sound w" and a: "activePage w < length (objs w)" and h: "heap_in (known w) (nextPageID (pm w))" "rowAt (known w) (nextPageID (pm w)) = m"
    and last: "known w (nextPageID (pm w) - 1) = Some (objs w ! activePage w)" using inv by (auto simp: heap_inv_def)
  note s = st_initial_keeps [OF ok k]
  have "activePage w' = activePage w" using more_active [OF st_more [OF s]] .
  moreover have "activePage w < length (objs w')" "objs w' ! activePage w = objs w ! activePage w"
    using keeps_nth [OF k(1) a] keeps_len [OF k(1)] a by simp_all
  ultimately show ?thesis
    using st_sound [OF s] st_next [OF s] rowAt_mono [OF h(1) st_le_known [OF s]] h(2) map_le_Some [OF st_le_known [OF s] last]
    by (simp add: heap_inv_def)
qed

text \<open>A row on a page the store holds.\<close>

lemma Heap_Get_page:
  fixes w :: Heap
  assumes s: "st {} V H N X w" and p: "V (rid div 4096) = Some p" "wf_page p" "unat (rid mod 4096) < numEntries p"
  shows "\<exists>w'. Heap_Get rid w = (Ok (entries p ! unat (rid mod 4096)), w')"
proof -
  let ?i = "ucast (rid mod 4096) :: uint16"
  have i: "unat ?i = unat (rid mod 4096)" using recordID_of_parts(1) [of rid] by (simp add: unsigned_ucast_eq take_bit_nat_eq_self)
  obtain b w' where w': "readPage (rid div 4096) w = (Ok b, w')" "st {} V (H(b \<mapsto> p)) N X w'"
    using cached.read_rule [OF TrueI s _ p(1)] by blast
  with deref_rule [OF w'(2), of b p] GetEntry_spec [OF p(2), of ?i] p(3) i show ?thesis
    by (auto simp: Heap_Get_def exec_simps Let_def word_le_nat_alt)
qed

lemma heap_Open_reopen:
  assumes c: "length c \<le> 2 ^ 63" "4096 \<le> length c" and disk: "\<And>v p. V v = Some p \<Longrightarrow> ID p = v \<and> diskPage (heapState c None) v = Some (Data p)"
  shows "\<exists>w H. heap_Open (Ok (fileWith c)) opts = Ok w \<and> st {} V H (nextPageID (pm w)) (store.more w) w"
proof -
  obtain q where q: "q = None \<or> (\<exists>n. q = Some (NewPool n))" "heap_Open (Ok (fileWith c)) opts =
      (case openActive (heapState c q) of (r, h) \<Rightarrow> rbind r (\<lambda>a. Ok (h\<lparr>activePage := a\<rparr>)))"
    using heap_Open_active by blast
  let ?w = "heapState c q" and ?n = "length c div 4096"
  have dk: "diskPage ?w = diskPage (heapState c None)" by (simp add: fun_eq_iff diskPage_def heapState_def)
  have view: "view ?w v = map_option (\<lambda>bs. \<lparr>ID = v, Data = bs\<rparr>) (diskPage ?w v)" "v \<notin> stale ?w" for v
    using q(1) by (auto simp: view_def stale_def cachedIn_def cached_def NewPool_def heapState_def)
  then have known: "known ?w v = map_option (\<lambda>bs. \<lparr>ID = v, Data = bs\<rparr>) (diskPage ?w v)" for v by (simp add: known_def)
  have le: "V \<subseteq>\<^sub>m known ?w" unfolding map_le_def known dk using disk by fastforce
  have s: "st {} (known ?w) Map.empty (nextPageID (pm ?w)) (store.more ?w) ?w" by (rule st_initial [OF heapState_ok [OF q(1) c(1)]])
  have n: "0 < ?n" "?n \<le> 2 ^ 51" using c div_le_mono [OF c(1), of 4096] by (simp_all add: div_greater_zero_iff)
  then have u: "unat (word_of_nat ?n :: PageID) = ?n" by (intro unat_of_nat_small) simp
  then have u1: "unat (word_of_nat ?n - 1 :: PageID) = ?n - 1" using n by (subst unat_minus_one) auto
  have "(?n - 1) * 4096 + 4096 \<le> length c" using n(1) by (simp add: diff_mult_distrib)
  then have "\<exists>p. known ?w (word_of_nat ?n - 1) = Some p"
    unfolding known diskPage_def using u1 n by (simp add: heapState_def fileWith_def Let_def valid_id_def)
  then obtain p where p: "known ?w (word_of_nat ?n - 1) = Some p" by blast
  obtain a w1 where w1: "readPage (word_of_nat ?n - 1) ?w = (Ok a, w1)" "st {} (known ?w) [a \<mapsto> p] (nextPageID (pm ?w)) (store.more ?w) w1"
    using cached.read_rule [OF TrueI s _ p] by blast
  have "word_of_nat ?n \<noteq> (0 :: PageID)" using u n(1) by auto
  then have run: "openActive ?w = (Ok a, w1)" using w1(1) by (simp add: openActive_def PageCount_def heapState_def exec_simps)
  let ?w2 = "w1\<lparr>activePage := a\<rparr>"
  have "st {} (known ?w) [a \<mapsto> p] (nextPageID (pm ?w2)) (store.more ?w2) ?w2"
    using client_rule [OF w1(2), of ?w2] st_next [OF w1(2)] by simp
  from st_forget [OF this le map_le_refl] q(2) run show ?thesis by auto
qed

lemma heap_reopen:
  assumes inv: "heap_inv w m" and disk: "\<And>v p. known w v = Some p \<Longrightarrow> diskPage w' v = Some (Data p)"
    and c: "content (pm_file (pm w')) = c" "length c \<le> 2 ^ 63"
  shows "\<exists>w2. heap_Open (Ok (fileWith c)) opts = Ok w2 \<and> (\<forall>rid row. m rid = Some row \<longrightarrow> (\<exists>w3. Heap_Get rid w2 = (Ok row, w3)))"
proof -
  have ok: "sound w" and h: "heap_in (known w) (nextPageID (pm w))" "rowAt (known w) (nextPageID (pm w)) = m" using inv by (auto simp: heap_inv_def)
  have dk: "diskPage (heapState c None) = diskPage w'" using c(1) by (simp add: fun_eq_iff diskPage_def heapState_def fileWith_def)
  obtain p where "known w 0 = Some p" using h(1) by (auto simp: heap_in_def)
  from disk [OF this] have "4096 \<le> length c" using c(1) by (auto simp: diskPage_def Let_def split: if_splits)
  then obtain w2 H where w2: "heap_Open (Ok (fileWith c)) opts = Ok w2" "st {} (known w) H (nextPageID (pm w2)) (store.more w2) w2"
    using heap_Open_reopen [OF c(2), of "known w" opts] known_image [OF ok] disk dk by auto
  have "\<exists>w3. Heap_Get rid w2 = (Ok row, w3)" if row: "m rid = Some row" for rid row
  proof -
    obtain p where "rid div 4096 < nextPageID (pm w)" "known w (rid div 4096) = Some p" "unat (rid mod 4096) < numEntries p" "row = entries p ! unat (rid mod 4096)"
      using row unfolding h(2) [symmetric] by (auto simp: rowAt_def split: if_splits option.splits)
    moreover from this have "wf_page p" using h(1) by (auto simp: heap_in_def)
    ultimately show ?thesis using Heap_Get_page [OF w2(2), of rid p] by blast
  qed
  with w2(1) show ?thesis by blast
qed

end
