(* ===== verification/Row_Properties.thy ===== *)
theory Row_Properties
  imports Indexed_Rows Partial_Spec Heap_Durable Client
begin

text \<open>
  The heap file, the heap and an index together, and the partial index: rows come back as they were stored,
  a key leads to its row, and a partial index holds exactly the active rows.
\<close>

section \<open>The heap file\<close>

text \<open>
  C21. A stored row comes back: Put of a row that fits a page returns a record identifier not in use, Get of it
  returns the row, and every row stored before is returned as before, with or without a pool.
\<close>

theorem heap_put_get:
  assumes "heap_inv w m" "length row \<le> 4071" "unat (nextPageID (pm w)) + 1 < 2 ^ 51"
  shows "\<exists>rid w'. Heap_Put row w = (Ok rid, w') \<and> rid \<notin> dom m \<and> heap_inv w' (m(rid \<mapsto> row)) \<and>
    (\<exists>w''. Heap_Get rid w' = (Ok row, w'') \<and> heap_inv w'' (m(rid \<mapsto> row))) \<and>
    (\<forall>r x. m r = Some x \<longrightarrow> (\<exists>w''. Heap_Get r w' = (Ok x, w'') \<and> heap_inv w'' (m(rid \<mapsto> row))))"
proof -
  have "heap_abs (Suc 0) w m" using assms(1,3) by (simp add: heap_abs_def)
  from heap.put_law [OF this assms(2)] obtain rid w' where w': "Heap_Put row w = (Ok rid, w')" "rid \<notin> dom m" "heap_abs 0 w' (m(rid \<mapsto> row))"
    by blast
  have "\<exists>w''. Heap_Get r w' = (Ok x, w'') \<and> heap_inv w'' (m(rid \<mapsto> row))" if "(m(rid \<mapsto> row)) r = Some x" for r x
    using heap.get_law [OF w'(3) that] unfolding heap_abs_def by blast
  moreover have "r \<noteq> rid" if "m r = Some x" for r x using that w'(2) by auto
  ultimately show ?thesis using w' unfolding heap_abs_def
    by (intro exI [of _ rid] exI [of _ w']) (simp del: fun_upd_apply add: fun_upd_same fun_upd_other)
qed

theorem heap_put_get_witness:
  "\<exists>w rid w' w''. heap_Open (Ok (fileWith [])) [2] = Ok w \<and> Heap_Put [1, 2, 3] w = (Ok rid, w') \<and> Heap_Get rid w' = (Ok [1, 2, 3], w'')"
proof -
  obtain w where w: "heap_Open (Ok (fileWith [])) [2] = Ok w" "heap_inv w Map.empty" "nextPageID (pm w) = 1"
    using heap_Open_empty by blast
  with heap_put_get [OF w(2), of "[1, 2, 3]"] show ?thesis by auto
qed

text \<open>
  C22. Crash safety of the heap: Sync changes no row, and after it a heap opened again from the bytes that had
  reached the disk, with any buffer pools, returns every row under its record identifier; so does a heap opened
  on the file that Close leaves.
\<close>

theorem heap_rows_survive:
  assumes "heap_inv w m" "walk_of ord w"
  shows "(\<exists>w' w2. Heap_Sync ord w = (Ok (), w') \<and> heap_inv w' m \<and> heap_Open (Ok (fileWith (durableBytes w'))) opts = Ok w2 \<and>
      (\<forall>rid row. m rid = Some row \<longrightarrow> (\<exists>w3. Heap_Get rid w2 = (Ok row, w3)))) \<and>
    (\<exists>w' w2. Heap_Close ord w = (Ok (), w') \<and> closed (pm_file (pm w')) \<and>
      heap_Open (Ok (fileWith (content (pm_file (pm w'))))) opts = Ok w2 \<and>
      (\<forall>rid row. m rid = Some row \<longrightarrow> (\<exists>w3. Heap_Get rid w2 = (Ok row, w3))))"
proof
  have ok: "sound w" using assms(1) by (simp add: heap_inv_def)
  obtain w' where w': "store_Sync ord w = (Ok (), w')" "store_ok (stale w) w'" "keeps (stale w) w w'" "durableBytes w' = fileBytes w'"
      "\<forall>v p. known w v = Some p \<longrightarrow> diskPage w' v = Some (Data p)"
    using store_Sync_spec [OF ok assms(2)] by blast
  have "content (pm_file (pm w')) = durableBytes w'" "length (durableBytes w') \<le> 2 ^ 63"
    using w'(2,4) by (simp_all add: store_ok_def quiet_def fileBytes_def)
  with heap_reopen [OF assms(1), of w' "durableBytes w'" opts] heap_inv_keeps [OF assms(1) w'(3,2)] w'(1,5)
  show "\<exists>w' w2. Heap_Sync ord w = (Ok (), w') \<and> heap_inv w' m \<and> heap_Open (Ok (fileWith (durableBytes w'))) opts = Ok w2 \<and>
      (\<forall>rid row. m rid = Some row \<longrightarrow> (\<exists>w3. Heap_Get rid w2 = (Ok row, w3)))"
    by (auto simp: Heap_Sync_def)
  obtain w1 where w1: "store_Close ord w = (Ok (), w1)" "closed (pm_file (pm w1))" "length (content (pm_file (pm w1))) \<le> 2 ^ 63"
      "\<forall>v p. known w v = Some p \<longrightarrow> diskPage w1 v = Some (Data p)"
    using store_Close_spec [OF ok assms(2)] by blast
  with heap_reopen [OF assms(1), of w1 "content (pm_file (pm w1))" opts]
  show "\<exists>w' w2. Heap_Close ord w = (Ok (), w') \<and> closed (pm_file (pm w')) \<and>
      heap_Open (Ok (fileWith (content (pm_file (pm w'))))) opts = Ok w2 \<and>
      (\<forall>rid row. m rid = Some row \<longrightarrow> (\<exists>w3. Heap_Get rid w2 = (Ok row, w3)))"
    by (auto simp: Heap_Close_def)
qed

theorem heap_rows_survive_witness:
  "\<exists>w rid w1 w2 w3 w4. heap_Open (Ok (fileWith [])) [2] = Ok w \<and> Heap_Put [1, 2, 3] w = (Ok rid, w1) \<and>
    Heap_Sync (walk rev w1) w1 = (Ok (), w2) \<and> heap_Open (Ok (fileWith (durableBytes w2))) [] = Ok w3 \<and> Heap_Get rid w3 = (Ok [1, 2, 3], w4)"
proof -
  obtain w where w: "heap_Open (Ok (fileWith [])) [2] = Ok w" "heap_inv w Map.empty" "nextPageID (pm w) = 1"
    using heap_Open_empty by blast
  obtain rid w1 where w1: "Heap_Put [1, 2, 3] w = (Ok rid, w1)" "heap_inv w1 [rid \<mapsto> [1, 2, 3]]"
    using Heap_Put_spec [OF w(2), of "[1, 2, 3]"] w(3) by auto
  have "walk_of (walk rev w1) w1" by (simp add: walk_of_def walk_def)
  with heap_rows_survive [OF w1(2), of _ "[]"] w(1) w1(1) show ?thesis by fastforce
qed

text \<open>
  C23. A row that leaves no room for the header and a slot is refused with \<^verbatim>\<open>ErrRowTooLarge\<close> and nothing changes; a
  record identifier whose page exists but whose slot does not is refused with \<^verbatim>\<open>ErrSlotIndex\<close>.
\<close>

theorem heap_errors:
  assumes "heap_inv w m"
  shows "(4071 < length row \<longrightarrow> Heap_Put row w = (Err ErrRowTooLarge, w)) \<and>
    (m rid = None \<and> rid div 4096 < nextPageID (pm w) \<longrightarrow> (\<exists>w'. Heap_Get rid w = (Err ErrSlotIndex, w') \<and> heap_inv w' m))"
  using Heap_Get_spec(2) [OF assms, of rid] by (simp add: Heap_Put_def sfail_def)

theorem heap_errors_witness:
  "\<exists>w w'. heap_Open (Ok (fileWith [])) [] = Ok w \<and> Heap_Put (replicate 4072 0) w = (Err ErrRowTooLarge, w) \<and> Heap_Get 5 w = (Err ErrSlotIndex, w')"
proof -
  obtain w where w: "heap_Open (Ok (fileWith [])) [] = Ok w" "heap_inv w Map.empty" "nextPageID (pm w) = 1"
    using heap_Open_empty by blast
  have "(5 :: int64) div 4096 < nextPageID (pm w)" using w(3) by simp
  with heap_errors [OF w(2), of "replicate 4072 0" 5] w(1) show ?thesis by auto
qed

section \<open>An index over the heap\<close>

text \<open>
  C24. Rows stored in a new heap and indexed in a new tree, with any pools on either, are found through the
  index: looking a key up returns the row stored under it, or nothing when there is none.
\<close>

theorem indexed_rows_lookup:
  assumes "distinct (map fst rs)" "\<forall>r \<in> set rs. length (snd r) \<le> 4071" "length rs \<le> fuel" "length rs < 2 ^ 21"
  shows "\<exists>h t w. heap_Open (Ok (fileWith [])) hopts = Ok h \<and> btree_Open (Ok (fileWith [])) topts = Ok t \<and>
    indexRows Heap_Put (BTree_Insert fuel) rs (h, t) = (Ok (), w) \<and>
    (\<forall>k. \<exists>w'. lookupRow (BTree_Search fuel) Heap_Get k w = (Ok (map_of rs k), w'))"
proof -
  obtain h where h: "heap_Open (Ok (fileWith [])) hopts = Ok h" "heap_inv h Map.empty" "nextPageID (pm h) = 1"
    using heap_Open_empty by blast
  obtain t where t: "btree_Open (Ok (fileWith [])) topts = Ok t" "tree_inv 8 0 (Leaf 1 []) t" "\<not> unique t" "nextPageID (pm t) = 2"
    using openWith_empty [of 16 False topts 8] by (auto simp: btree_Open_def)
  let ?n = "0 + length rs"
  have "length rs * (0 + length rs + 2) \<le> 2 ^ 21 * (0 + 2 ^ 21 + 2)" using assms(4) by (intro mult_mono add_mono) simp_all
  then have "tree_abs fuel False ?n t Map.empty"
    using t assms(3) unfolding tree_abs_def by (intro exI [of _ 0] exI [of _ "Leaf 1 []"]) (simp add: rows_def rowsOf_def)
  moreover have "heap_abs ?n h Map.empty" using h(2,3) assms(4) by (simp add: heap_abs_def)
  ultimately have "heap_tree.table fuel False ?n (h, t) Map.empty"
    unfolding heap_tree.table_def by (intro exI [of _ Map.empty]) simp
  from heap_tree.indexRows_spec [OF this assms(1) _ assms(2)] obtain w where
    w: "indexRows Heap_Put (BTree_Insert fuel) rs (h, t) = (Ok (), w)" "heap_tree.table fuel False 0 w (map_of rs)" by auto
  with heap_tree.lookupRow_spec [OF w(2)] h(1) t(1) show ?thesis by blast
qed

theorem indexed_rows_lookup_witness:
  "\<exists>h t w w1 w2. heap_Open (Ok (fileWith [])) [1] = Ok h \<and> btree_Open (Ok (fileWith [])) [4] = Ok t \<and>
    indexRows Heap_Put (BTree_Insert 2) [(9, [1]), (-3, [2, 2])] (h, t) = (Ok (), w) \<and>
    lookupRow (BTree_Search 2) Heap_Get (-3) w = (Ok (Some [2, 2]), w1) \<and> lookupRow (BTree_Search 2) Heap_Get 0 w = (Ok None, w2)"
proof -
  let ?rs = "[(9, [1]), (-3, [2, 2])] :: (int64 \<times> byte list) list"
  obtain h t w where w: "heap_Open (Ok (fileWith [])) [1] = Ok h" "btree_Open (Ok (fileWith [])) [4] = Ok t"
      "indexRows Heap_Put (BTree_Insert 2) ?rs (h, t) = (Ok (), w)" "\<forall>k. \<exists>w'. lookupRow (BTree_Search 2) Heap_Get k w = (Ok (map_of ?rs k), w')"
    using indexed_rows_lookup [of ?rs 2 "[1]" "[4]"] by (auto simp del: indexRows.simps map_of.simps)
  have "map_of ?rs (-3) = Some [2, 2]" "map_of ?rs 0 = None" by simp_all
  with w(4) have "\<exists>w1. lookupRow (BTree_Search 2) Heap_Get (-3) w = (Ok (Some [2, 2]), w1)"
      "\<exists>w2. lookupRow (BTree_Search 2) Heap_Get 0 w = (Ok None, w2)" by metis+
  with w(1-3) show ?thesis by blast
qed

section \<open>The partial index\<close>

text \<open>
  C25. A partial index on a new file takes any sequence of upserts that names at most 20603 keys, rows that
  change their record or become inactive included, and afterwards finds a key exactly if the last row upserted
  under it was active, with that row's record identifier.
\<close>

theorem partial_index_active_rows:
  assumes "card (Key ` set rs) \<le> 20603" "length rs < 2 ^ 49" "0 < fuel"
  shows "\<exists>w w'. partial_Open (Ok (fileWith [])) = Ok w \<and> upsertEach (Upsert fuel) rs w = (Ok (), w') \<and>
    (\<forall>k. \<exists>w''. PartialIndex_Search fuel k w' =
      (Ok (case fold upserted rs Map.empty k of None \<Rightarrow> (0, False) | Some v \<Rightarrow> (v, True)), w''))"
proof -
  obtain g where g: "fuel = Suc g" using assms(3) gr0_implies_Suc by blast
  obtain w where w: "partial_Open (Ok (fileWith [])) = Ok w" "low_abs (length rs + 0) w Map.empty"
    using partial_Open_empty [of "length rs + 0"] assms(2) by auto
  obtain w' where w': "upsertEach (Upsert fuel) rs w = (Ok (), w')" "low_abs 0 w' (fold upserted rs Map.empty)"
    using low_tree_index.upserts_spec [OF w(2), of g] assms(1) unfolding Upsert_def g by auto
  with low_tree_index.search_law [OF w'(2), of g] w(1) show ?thesis unfolding PartialIndex_Search_def g by blast
qed

theorem partial_index_active_rows_witness:
  "\<exists>w w' w1 w2. partial_Open (Ok (fileWith [])) = Ok w \<and>
    upsertEach (Upsert 1) [\<lparr>Key = 4, RecordID = 40, RowStatus = Active\<rparr>, \<lparr>Key = 5, RecordID = 50, RowStatus = Active\<rparr>,
      \<lparr>Key = 4, RecordID = 41, RowStatus = Active\<rparr>, \<lparr>Key = 5, RecordID = 50, RowStatus = Deleted\<rparr>] w = (Ok (), w') \<and>
    PartialIndex_Search 1 4 w' = (Ok (41, True), w1) \<and> PartialIndex_Search 1 5 w' = (Ok (0, False), w2)"
proof -
  let ?rs = "[\<lparr>Key = 4, RecordID = 40, RowStatus = Active\<rparr>, \<lparr>Key = 5, RecordID = 50, RowStatus = Active\<rparr>,
      \<lparr>Key = 4, RecordID = 41, RowStatus = Active\<rparr>, \<lparr>Key = 5, RecordID = 50, RowStatus = Deleted\<rparr>] :: Row list"
  have "card (Key ` set ?rs) \<le> 20603" by (rule order.trans [OF card_image_le]) (auto intro: order.trans [OF card_length])
  from partial_index_active_rows [OF this, of 1] obtain w w' where w: "partial_Open (Ok (fileWith [])) = Ok w"
      "upsertEach (Upsert 1) ?rs w = (Ok (), w')"
      "\<forall>k. \<exists>w''. PartialIndex_Search 1 k w' = (Ok (case fold upserted ?rs Map.empty k of None \<Rightarrow> (0, False) | Some v \<Rightarrow> (v, True)), w'')"
    by auto
  have "fold upserted ?rs Map.empty = [4 \<mapsto> 41]" by (auto simp: upserted_def fun_eq_iff)
  with w(3) [rule_format, of 4] w(3) [rule_format, of 5] w(1,2) show ?thesis by auto
qed

end
