(* ===== verification/Experiment_Keys.thy ===== *)
theory Experiment_Keys
  imports Bytes
begin

text \<open>
  \<^verbatim>\<open>internal/experiment/keys.go\<close>: the key generators of the experiments. The random source and the
  clock are parameters: \<open>rand i n\<close> is what the \<open>i\<close>-th call of \<^verbatim>\<open>rand.Read\<close> on a buffer of \<open>n\<close> bytes gives,
  \<open>now\<close> is \<^verbatim>\<open>time.Now().UnixMilli()\<close>.
\<close>

section \<open>Patterns\<close>

type_synonym KeyPattern = string

definition Sequential :: KeyPattern where "Sequential = ''sequential''"
definition Random :: KeyPattern where "Random = ''random''"
definition UUID4Like :: KeyPattern where "UUID4Like = ''uuid4-like''"
definition UUID7Like :: KeyPattern where "UUID7Like = ''uuid7-like''"

lemmas pattern_defs = Sequential_def Random_def UUID4Like_def UUID7Like_def

section \<open>Generators\<close>

text \<open>\<^verbatim>\<open>make([]int64, n)\<close> panics on a negative length; a failing random source panics.\<close>

definition readRand :: "(nat \<Rightarrow> nat \<Rightarrow> byte list res) \<Rightarrow> nat \<Rightarrow> nat \<Rightarrow> byte list res" where
  "readRand rand i n = (case rand i n of Err e \<Rightarrow> Panic | r \<Rightarrow> r)"

definition sequentialKeys :: "int \<Rightarrow> int64 list res" where
  "sequentialKeys n = (if n < 0 then Panic else Ok (map word_of_nat [0..<nat n]))"

fun randomFrom :: "(nat \<Rightarrow> nat \<Rightarrow> byte list res) \<Rightarrow> nat \<Rightarrow> nat \<Rightarrow> int64 list res" where
  "randomFrom rand i 0 = Ok []"
| "randomFrom rand i (Suc m) =
     rbind (readRand rand i 8) (\<lambda>buf.
     rbind (Uint64 buf) (\<lambda>k.
     rbind (randomFrom rand (Suc i) m) (\<lambda>ks. Ok (k # ks))))"

definition randomKeys :: "(nat \<Rightarrow> nat \<Rightarrow> byte list res) \<Rightarrow> int \<Rightarrow> int64 list res" where
  "randomKeys rand n = (if n < 0 then Panic else randomFrom rand 0 (nat n))"

definition uuid4LikeKeys :: "(nat \<Rightarrow> nat \<Rightarrow> byte list res) \<Rightarrow> int \<Rightarrow> int64 list res" where
  "uuid4LikeKeys rand n = randomKeys rand n"

definition Uint32 :: "byte list \<Rightarrow> 32 word res" where
  "Uint32 bs = (if length bs < 4 then Panic else Ok (be_word (take 4 bs)))"

definition uuid7Key :: "int64 \<Rightarrow> 32 word \<Rightarrow> int64" where
  "uuid7Key millis r = push_bit 28 millis OR (ucast r AND 0xFFFFFFF)"

fun uuid7From :: "(nat \<Rightarrow> nat \<Rightarrow> byte list res) \<Rightarrow> int64 \<Rightarrow> nat \<Rightarrow> nat \<Rightarrow> int64 list res" where
  "uuid7From rand startMillis i 0 = Ok []"
| "uuid7From rand startMillis i (Suc m) =
     rbind (readRand rand i 4) (\<lambda>randBuf.
     rbind (Uint32 randBuf) (\<lambda>r.
     rbind (uuid7From rand startMillis (Suc i) m) (\<lambda>ks.
     Ok (uuid7Key (startMillis + word_of_nat i) r # ks))))"

definition uuid7LikeKeys :: "(nat \<Rightarrow> nat \<Rightarrow> byte list res) \<Rightarrow> int64 \<Rightarrow> int \<Rightarrow> int64 list res" where
  "uuid7LikeKeys rand now n = (if n < 0 then Panic else uuid7From rand now 0 (nat n))"

definition GenerateKeys ::
    "(nat \<Rightarrow> nat \<Rightarrow> byte list res) \<Rightarrow> int64 \<Rightarrow> KeyPattern \<Rightarrow> int \<Rightarrow> int64 list res" where
  "GenerateKeys rand now pattern n =
     (if pattern = Sequential then sequentialKeys n
      else if pattern = Random then randomKeys rand n
      else if pattern = UUID4Like then uuid4LikeKeys rand n
      else if pattern = UUID7Like then uuid7LikeKeys rand now n
      else Ok [])"

section \<open>Sequential keys\<close>

lemma sequentialKeys_nth:
  assumes "0 \<le> n" "n \<le> 2 ^ 63"
  shows "\<exists>ks. sequentialKeys n = Ok ks \<and> length ks = nat n \<and> (\<forall>i < nat n. sint (ks ! i) = int i)"
proof -
  have "sint (word_of_nat i :: int64) = int i" if "i < nat n" for i
    using that assms by (simp add: signed_of_nat signed_take_bit_int_eq_self)
  with assms show ?thesis by (simp add: sequentialKeys_def)
qed

section \<open>Time-ordered keys\<close>

text \<open>
  The shift drops the upper 28 bits of the time: the key is ordered by the time modulo two to the 36, read
  as a signed number \<open>d\<close>.
\<close>

lemma uuid7Key_value:
  assumes m: "sint millis = q * 2 ^ 36 + d" "- (2 ^ 35) \<le> d" "d < 2 ^ 35"
  shows "\<exists>l. sint (uuid7Key millis r) = d * 2 ^ 28 + l \<and> 0 \<le> l \<and> l < 2 ^ 28"
proof -
  define low where "low = (ucast r AND 0xFFFFFFF :: int64)"
  have "low = take_bit 28 (ucast r)" by (simp add: low_def take_bit_eq_mask mask_numeral)
  then have l: "uint low = take_bit 28 (uint (ucast r :: int64))" by (simp add: unsigned_take_bit_eq)
  obtain b where b: "uint low = b" "0 \<le> b" "b < 2 ^ 28" using take_bit_int_less_exp [of 28 "uint (ucast r :: int64)"] by (simp add: l)
  have "push_bit 28 millis AND low = 0"
    by (rule bit_word_eqI) (auto simp: \<open>low = take_bit 28 (ucast r)\<close> bit_simps)
  then have "uuid7Key millis r = push_bit 28 millis + low"
    by (simp add: uuid7Key_def low_def disjunctive_add_eq_or)
  also have "push_bit 28 millis = word_of_int (sint millis * 2 ^ 28)"
    by (simp add: push_bit_eq_mult)
  also have "sint millis * 2 ^ 28 = q * 2 ^ 64 + d * 2 ^ 28" unfolding m(1) by (simp add: algebra_simps)
  also have "word_of_int (q * 2 ^ 64 + d * 2 ^ 28) = (word_of_int (d * 2 ^ 28) :: int64)"
    unfolding word_of_int_eq_iff take_bit_eq_mod by simp
  finally have "uuid7Key millis r = word_of_int (d * 2 ^ 28 + b)" by (simp flip: b(1))
  then have "sint (uuid7Key millis r) = signed_take_bit 63 (d * 2 ^ 28 + b)"
    by (simp only: signed_of_int) simp
  also have "\<dots> = d * 2 ^ 28 + b"
  proof (rule signed_take_bit_int_eq_self)
    show "- (2 ^ 63) \<le> d * 2 ^ 28 + b" "d * 2 ^ 28 + b < 2 ^ 63" using m(2,3) b(2,3) by simp_all
  qed
  finally show ?thesis using b(2,3) by blast
qed

lemma uuid7From_nth:
  assumes "uuid7From rand startMillis i m = Ok ks"
  shows "length ks = m \<and> (\<forall>j < m. \<exists>r. ks ! j = uuid7Key (startMillis + word_of_nat (i + j)) r)"
  using assms
proof (induction m arbitrary: i ks)
  case (Suc m)
  then obtain r ks' where ks: "ks = uuid7Key (startMillis + word_of_nat i) r # ks'" "uuid7From rand startMillis (Suc i) m = Ok ks'"
    by (auto simp: rbind_eq_Ok)
  show ?case
  proof (intro conjI allI impI)
    show "length ks = Suc m" using Suc.IH [OF ks(2)] ks(1) by simp
    fix j assume "j < Suc m"
    then show "\<exists>r. ks ! j = uuid7Key (startMillis + word_of_nat (i + j)) r"
      using Suc.IH [OF ks(2)] ks(1) by (cases j) auto
  qed
qed simp

text \<open>Within a window of two to the 36 milliseconds around a multiple of it the keys increase strictly.\<close>

lemma uuid7_increasing:
  assumes ks: "uuid7LikeKeys rand now n = Ok ks"
    and window: "q * 2 ^ 36 - 2 ^ 35 \<le> sint now" "sint now + n \<le> q * 2 ^ 36 + 2 ^ 35" "sint now + n \<le> 2 ^ 63"
  shows "sorted_wrt (\<lambda>a b. sint a < sint b) ks"
  unfolding sorted_wrt_iff_nth_less
proof (intro allI impI)
  fix i j assume ij: "i < j" "j < length ks"
  have n: "0 \<le> n" "uuid7From rand now 0 (nat n) = Ok ks" using ks by (auto simp: uuid7LikeKeys_def split: if_splits)
  note k = uuid7From_nth [OF n(2)]
  have val: "\<exists>l. sint (ks ! j) = (sint now + int j - q * 2 ^ 36) * 2 ^ 28 + l \<and> 0 \<le> l \<and> l < 2 ^ 28" if j: "j < nat n" for j
  proof -
    obtain r where r: "ks ! j = uuid7Key (now + word_of_nat j) r" using k j by auto
    have "now + word_of_nat j = word_of_int (sint now + int j)" by simp
    then have "sint (now + word_of_nat j) = signed_take_bit 63 (sint now + int j)"
      by (simp only: signed_of_int) simp
    also have "\<dots> = sint now + int j"
      using window(3) j sint_ge [of now] by (intro signed_take_bit_int_eq_self) (auto simp: nat_less_iff)
    finally have "sint (now + word_of_nat j) = q * 2 ^ 36 + (sint now + int j - q * 2 ^ 36)" by simp
    from uuid7Key_value [OF this, of r] window(1,2) j r show ?thesis by (auto simp: nat_less_iff)
  qed
  obtain l where l: "sint (ks ! i) = (sint now + int i - q * 2 ^ 36) * 2 ^ 28 + l" "l < 2 ^ 28"
    using val [of i] ij k by auto
  obtain l' where l': "sint (ks ! j) = (sint now + int j - q * 2 ^ 36) * 2 ^ 28 + l'" "0 \<le> l'"
    using val [of j] ij k by auto
  have "(sint now + int i - q * 2 ^ 36 + 1) * 2 ^ 28 \<le> (sint now + int j - q * 2 ^ 36) * 2 ^ 28"
    using ij by (intro mult_right_mono) simp_all
  with l l' show "sint (ks ! i) < sint (ks ! j)" by (simp add: algebra_simps)
qed

text \<open>At an odd multiple of two to the 35 milliseconds the shifted time wraps: the next key is smaller.\<close>

lemma uuid7_wraps_around:
  assumes "sint millis = q * 2 ^ 36 + (2 ^ 35 - 1)" "sint later = sint millis + 1"
  shows "sint (uuid7Key later r') < 0 \<and> 0 < sint (uuid7Key millis r)"
proof -
  obtain l where "sint (uuid7Key millis r) = (2 ^ 35 - 1) * 2 ^ 28 + l" "0 \<le> l"
    using uuid7Key_value [OF assms(1), of r] by auto
  moreover have "sint later = (q + 1) * 2 ^ 36 + - (2 ^ 35)" using assms by simp
  then obtain l' where "sint (uuid7Key later r') = - (2 ^ 35) * 2 ^ 28 + l'" "l' < 2 ^ 28"
    using uuid7Key_value [of later "q + 1" "- (2 ^ 35)" r'] by auto
  ultimately show ?thesis by simp
qed

end
