(* ===== verification/Experiment.thy ===== *)
theory Experiment
  imports Experiment_Keys Client Indexed_Rows Stats Partial
begin

text \<open>
  \<^verbatim>\<open>internal/experiment\<close>: the scenarios that drive the tree, the heap and the partial index. What the
  scenarios take from outside is an environment: the files \<^verbatim>\<open>os.OpenFile\<close> returns for the names joined to
  the directory, the random source, the clock, the durations measured, the order in which Go walks a map, and
  the fuel of the pointer-following loops.
\<close>

section \<open>Environment\<close>

record env =
  files :: "string \<Rightarrow> osfile res"
  rand :: "KeyPattern \<Rightarrow> nat \<Rightarrow> nat \<Rightarrow> byte list res"
  now :: int64
  elapsed :: "string \<Rightarrow> int64"
  mapOrder :: "PageID list \<Rightarrow> PageID list"
  maxSteps :: nat

text \<open>\<^verbatim>\<open>%d\<close>\<close>

fun natDigits :: "nat \<Rightarrow> string" where
  "natDigits n = (if n < 10 then [char_of (48 + n)] else natDigits (n div 10) @ [char_of (48 + n mod 10)])"

declare natDigits.simps [simp del]

definition itoa :: "int \<Rightarrow> string" where
  "itoa i = (if i < 0 then ''-'' @ natDigits (nat (- i)) else natDigits (nat i))"

text \<open>\<^verbatim>\<open>fmt.Appendf(nil, "row-%d", i)\<close>\<close>

definition rowBytes :: "nat \<Rightarrow> byte list" where
  "rowBytes i = map of_char (''row-'' @ itoa (int i))"

text \<open>\<^verbatim>\<open>fmt.Errorf("...: %w", err)\<close>\<close>

definition wrapErr :: "string \<Rightarrow> ('s, 'a) op \<Rightarrow> ('s, 'a) op" where
  "wrapErr msg f = (\<lambda>w. case f w of (Err e, w') \<Rightarrow> (Err (Wrapped msg e), w') | x \<Rightarrow> x)"

definition wrapRes :: "string \<Rightarrow> 'a res \<Rightarrow> 'a res" where
  "wrapRes msg r = (case r of Err e \<Rightarrow> Err (Wrapped msg e) | x \<Rightarrow> x)"

text \<open>\<^verbatim>\<open>defer x.Close()\<close>: the result of the body, the state after the close, whose own result is dropped.\<close>

definition deferring :: "('s, unit) op \<Rightarrow> ('s, 'a) op \<Rightarrow> ('s, 'a) op" where
  "deferring close body = (\<lambda>w. case body w of (Hang, w') \<Rightarrow> (Hang, w') | (r, w') \<Rightarrow> (r, snd (close w')))"

text \<open>A scenario on what was opened: its result and the state it leaves.\<close>

definition running :: "'s res \<Rightarrow> ('s, 'a) op \<Rightarrow> 'a res \<times> 's option" where
  "running opened body =
     (case opened of
        Ok s \<Rightarrow> (case body s of (r, s') \<Rightarrow> (r, Some s'))
      | Err e \<Rightarrow> (Err e, None)
      | Panic \<Rightarrow> (Panic, None)
      | Hang \<Rightarrow> (Hang, None))"

definition pairRes :: "'a res \<Rightarrow> 'b res \<Rightarrow> ('a \<times> 'b) res" where
  "pairRes a b = rbind a (\<lambda>x. rbind b (\<lambda>y. Ok (x, y)))"

definition syncTree :: "env \<Rightarrow> (BTree, unit) op" where
  "syncTree E = (\<lambda>w. BTree_Sync (walk (mapOrder E) w) w)"

definition closeTree :: "env \<Rightarrow> (BTree, unit) op" where
  "closeTree E = (\<lambda>w. BTree_Close (walk (mapOrder E) w) w)"

definition closeHeap :: "env \<Rightarrow> (Heap, unit) op" where
  "closeHeap E = (\<lambda>w. Heap_Close (walk (mapOrder E) w) w)"

definition closeBoth :: "('a, unit) op \<Rightarrow> ('b, unit) op \<Rightarrow> ('a \<times> 'b, unit) op" where
  "closeBoth f g = (\<lambda>(a, b). (Ok (), (snd (f a), snd (g b))))"

section \<open>Workload\<close>

record WorkloadResult =
  Pattern :: KeyPattern
  InsertCount :: int
  wr_PageSplits :: uint64
  wr_PageWrites :: uint64
  FinalHeight :: int
  FinalPageCount :: int

text \<open>The insertion loop: key and record are the same number.\<close>

fun insertKeys :: "nat \<Rightarrow> (int64 \<Rightarrow> string) \<Rightarrow> int64 list \<Rightarrow> (BTree, unit) op" where
  "insertKeys fl msg [] = sret ()"
| "insertKeys fl msg (key # ks) = sbind (wrapErr (msg key) (BTree_Insert fl key key)) (\<lambda>_. insertKeys fl msg ks)"

definition RunWorkload :: "env \<Rightarrow> KeyPattern \<Rightarrow> int \<Rightarrow> WorkloadResult res \<times> BTree option" where
  "RunWorkload E pattern n =
     running (btree_Open (files E (''workload-'' @ pattern @ ''.db'')) [])
       (deferring (closeTree E)
         (sbind (slift (GenerateKeys (rand E pattern) (now E) pattern n)) (\<lambda>ks.
          sbind (insertKeys (maxSteps E) (\<lambda>key. ''inserting key '' @ itoa (sint key) @ '' under pattern '' @ pattern) ks) (\<lambda>_.
          sbind (BTree_Stats (maxSteps E)) (\<lambda>stats.
          sret \<lparr>Pattern = pattern, InsertCount = int (length ks), wr_PageSplits = st_PageSplits stats,
                wr_PageWrites = st_PageWrites stats, FinalHeight = Height stats, FinalPageCount = TotalPages stats\<rparr>)))))"

fun runWorkloads :: "env \<Rightarrow> int \<Rightarrow> KeyPattern list \<Rightarrow> WorkloadResult list res" where
  "runWorkloads E n [] = Ok []"
| "runWorkloads E n (p # ps) =
     rbind (fst (RunWorkload E p n)) (\<lambda>result.
     rbind (runWorkloads E n ps) (\<lambda>results. Ok (result # results)))"

definition RunAllWorkloads :: "env \<Rightarrow> int \<Rightarrow> WorkloadResult list res" where
  "RunAllWorkloads E n = runWorkloads E n [Sequential, Random, UUID4Like, UUID7Like]"

section \<open>Sync cost\<close>

record SyncCostResult =
  Strategy :: string
  sc_InsertCount :: int
  sc_SyncCalls :: uint64
  Duration :: int64

text \<open>\<^verbatim>\<open>sanitizeLabel\<close>: what is not a letter or a digit becomes a dash.\<close>

definition sanitizeChar :: "char \<Rightarrow> char" where
  "sanitizeChar r =
     (let c = (of_char r :: nat) in
      if (97 \<le> c \<and> c \<le> 122) \<or> (65 \<le> c \<and> c \<le> 90) \<or> (48 \<le> c \<and> c \<le> 57) then r else CHR ''-'')"

definition sanitizeLabel :: "string \<Rightarrow> string" where
  "sanitizeLabel label = map sanitizeChar label"

text \<open>The remainder by a zero interval panics.\<close>

fun syncLoop :: "env \<Rightarrow> int \<Rightarrow> nat \<Rightarrow> int64 list \<Rightarrow> uint64 \<Rightarrow> (BTree, uint64) op" where
  "syncLoop E syncInterval i [] calls = sret calls"
| "syncLoop E syncInterval i (key # ks) calls =
     sbind (wrapErr (''inserting key '' @ itoa (sint key)) (BTree_Insert (maxSteps E) key key)) (\<lambda>_.
     if syncInterval = 0 then slift Panic
     else if (int i + 1) mod syncInterval = 0 then
       sbind (syncTree E) (\<lambda>_. syncLoop E syncInterval (Suc i) ks (calls + 1))
     else syncLoop E syncInterval (Suc i) ks calls)"

definition runSyncScenario :: "env \<Rightarrow> string \<Rightarrow> int64 list \<Rightarrow> int \<Rightarrow> SyncCostResult res \<times> BTree option" where
  "runSyncScenario E label ks syncInterval =
     running (btree_Open (files E (''synccost-'' @ sanitizeLabel label @ ''.db'')) [])
       (deferring (closeTree E)
         (sbind (syncLoop E syncInterval 0 ks 0) (\<lambda>calls.
          sbind (syncTree E) (\<lambda>_.
          sret \<lparr>Strategy = label, sc_InsertCount = int (length ks), sc_SyncCalls = calls + 1,
                Duration = elapsed E label\<rparr>))))"

definition RunSyncCostExperiments :: "env \<Rightarrow> int \<Rightarrow> int \<Rightarrow> SyncCostResult list res" where
  "RunSyncCostExperiments E n syncInterval =
     rbind (GenerateKeys (rand E Sequential) (now E) Sequential n) (\<lambda>ks.
     rbind (wrapRes ''sync-every-write scenario'' (fst (runSyncScenario E ''sync every write'' ks 1))) (\<lambda>everyWrite.
     rbind (wrapRes ''sync-every-interval scenario''
       (fst (runSyncScenario E (''sync every '' @ itoa syncInterval @ '' writes'') ks syncInterval))) (\<lambda>everyInterval.
     rbind (wrapRes ''sync-once-at-end scenario'' (fst (runSyncScenario E ''sync once at end'' ks (int (length ks) + 1)))) (\<lambda>onceAtEnd.
     Ok [everyWrite, everyInterval, onceAtEnd]))))"

section \<open>Buffer pool comparison\<close>

record BufferPoolResult =
  Label :: string
  bp_Pattern :: KeyPattern
  bp_InsertCount :: int
  bp_PageReads :: uint64
  bp_PageWrites :: uint64
  bp_Duration :: int64

definition runBufferPoolScenario ::
    "env \<Rightarrow> string \<Rightarrow> KeyPattern \<Rightarrow> int64 list \<Rightarrow> int list \<Rightarrow> BufferPoolResult res \<times> BTree option" where
  "runBufferPoolScenario E label pattern ks opts =
     running (btree_Open (files E (''bufferpool-'' @ pattern @ ''-'' @ sanitizeLabel label @ ''.db'')) opts)
       (deferring (closeTree E)
         (sbind (insertKeys (maxSteps E) (\<lambda>key. ''inserting key '' @ itoa (sint key)) ks) (\<lambda>_.
          sbind (syncTree E) (\<lambda>_.
          sbind (BTree_Stats (maxSteps E)) (\<lambda>stats.
          sret \<lparr>Label = label, bp_Pattern = pattern, bp_InsertCount = int (length ks),
                bp_PageReads = st_PageReads stats, bp_PageWrites = st_PageWrites stats,
                bp_Duration = elapsed E label\<rparr>)))))"

definition RunBufferPoolComparison :: "env \<Rightarrow> KeyPattern \<Rightarrow> int \<Rightarrow> int \<Rightarrow> BufferPoolResult list res" where
  "RunBufferPoolComparison E pattern n poolCapacity =
     rbind (GenerateKeys (rand E pattern) (now E) pattern n) (\<lambda>ks.
     rbind (wrapRes ''no-pool scenario'' (fst (runBufferPoolScenario E ''no pool'' pattern ks []))) (\<lambda>noPoolResult.
     rbind (wrapRes ''pooled scenario''
       (fst (runBufferPoolScenario E (''pool (capacity='' @ itoa poolCapacity @ '')'') pattern ks [poolCapacity]))) (\<lambda>pooledResult.
     Ok [noPoolResult, pooledResult])))"

section \<open>Write cost\<close>

record WriteCostResult =
  Scenario :: string
  IndexWrites :: uint64
  wc_PageSplits :: uint64
  wc_PageMerges :: uint64
  wc_TotalPages :: uint64

fun putRows :: "nat list \<Rightarrow> (Heap, unit) op" where
  "putRows [] = sret ()"
| "putRows (i # is) = sbind (Heap_Put (rowBytes i)) (\<lambda>_. putRows is)"

definition runNoIndexScenario :: "env \<Rightarrow> int \<Rightarrow> WriteCostResult res \<times> Heap option" where
  "runNoIndexScenario E n =
     running (heap_Open (files E ''writecost-none-heap.db'') [])
       (deferring (closeHeap E)
         (sbind (putRows [0..<nat n]) (\<lambda>_.
          sbind (sget Heap_PageWrites) (\<lambda>hw.
          sret \<lparr>Scenario = ''no index'', IndexWrites = 0, wc_PageSplits = 0, wc_PageMerges = 0, wc_TotalPages = hw\<rparr>))))"

definition runOneIndexScenario :: "env \<Rightarrow> int \<Rightarrow> WriteCostResult res \<times> (Heap \<times> BTree) option" where
  "runOneIndexScenario E n =
     running (pairRes (heap_Open (files E ''writecost-one-heap.db'') []) (btree_Open (files E ''writecost-one-index.db'') []))
       (deferring (closeBoth (closeHeap E) (closeTree E))
         (sbind (indexRows Heap_Put (BTree_Insert (maxSteps E)) (map (\<lambda>i. (word_of_nat i, rowBytes i)) [0..<nat n])) (\<lambda>_.
          sbind (onSnd (BTree_Stats (maxSteps E))) (\<lambda>stats.
          sbind (onFst (sget Heap_PageWrites)) (\<lambda>hw.
          sret \<lparr>Scenario = ''one index'', IndexWrites = st_PageWrites stats, wc_PageSplits = st_PageSplits stats,
                wc_PageMerges = st_PageMerges stats, wc_TotalPages = hw + st_PageWrites stats\<rparr>)))))"

text \<open>The loop over two indexes, the second one over a derived key.\<close>

fun indexTwice :: "nat \<Rightarrow> int \<Rightarrow> nat list \<Rightarrow> (Heap \<times> BTree \<times> BTree, unit) op" where
  "indexTwice fl n [] = sret ()"
| "indexTwice fl n (i # is) =
     sbind (onFst (Heap_Put (rowBytes i))) (\<lambda>recordID.
     sbind (onSnd (onFst (BTree_Insert fl (word_of_nat i) recordID))) (\<lambda>_.
     sbind (onSnd (onSnd (BTree_Insert fl (word_of_int (n - int i)) recordID))) (\<lambda>_.
     indexTwice fl n is)))"

definition runMultiIndexScenario :: "env \<Rightarrow> int \<Rightarrow> WriteCostResult res \<times> (Heap \<times> BTree \<times> BTree) option" where
  "runMultiIndexScenario E n =
     running (pairRes (heap_Open (files E ''writecost-multi-heap.db'') [])
         (pairRes (btree_Open (files E ''writecost-multi-index1.db'') []) (btree_Open (files E ''writecost-multi-index2.db'') [])))
       (deferring (closeBoth (closeHeap E) (closeBoth (closeTree E) (closeTree E)))
         (sbind (indexTwice (maxSteps E) n [0..<nat n]) (\<lambda>_.
          sbind (onSnd (onFst (BTree_Stats (maxSteps E)))) (\<lambda>stats1.
          sbind (onSnd (onSnd (BTree_Stats (maxSteps E)))) (\<lambda>stats2.
          sbind (onFst (sget Heap_PageWrites)) (\<lambda>hw.
          sret \<lparr>Scenario = ''multiple indexes (2)'', IndexWrites = st_PageWrites stats1 + st_PageWrites stats2,
                wc_PageSplits = st_PageSplits stats1 + st_PageSplits stats2,
                wc_PageMerges = st_PageMerges stats1 + st_PageMerges stats2,
                wc_TotalPages = hw + st_PageWrites stats1 + st_PageWrites stats2\<rparr>))))))"

fun indexActive :: "nat \<Rightarrow> nat list \<Rightarrow> (Heap \<times> BTree, unit) op" where
  "indexActive fl [] = sret ()"
| "indexActive fl (i # is) =
     sbind (onFst (Heap_Put (rowBytes i))) (\<lambda>recordID.
     sbind (onSnd (Upsert fl \<lparr>Key = word_of_nat i, RecordID = recordID,
       RowStatus = (if i mod 2 = 0 then Active else Deleted)\<rparr>)) (\<lambda>_.
     indexActive fl is))"

definition runPartialIndexScenario :: "env \<Rightarrow> int \<Rightarrow> WriteCostResult res \<times> (Heap \<times> BTree) option" where
  "runPartialIndexScenario E n =
     running (pairRes (heap_Open (files E ''writecost-partial-heap.db'') []) (partial_Open (files E ''writecost-partial-index.db'')))
       (deferring (closeBoth (closeHeap E) (\<lambda>w. PartialIndex_Close (walk (mapOrder E) w) w))
         (sbind (indexActive (maxSteps E) [0..<nat n]) (\<lambda>_.
          sbind (onSnd (PartialIndex_Stats (maxSteps E))) (\<lambda>stats.
          sbind (onFst (sget Heap_PageWrites)) (\<lambda>hw.
          sret \<lparr>Scenario = ''partial index (~50% match predicate)'', IndexWrites = st_PageWrites stats,
                wc_PageSplits = st_PageSplits stats, wc_PageMerges = st_PageMerges stats,
                wc_TotalPages = hw + st_PageWrites stats\<rparr>)))))"

definition RunWriteCostExperiments :: "env \<Rightarrow> int \<Rightarrow> WriteCostResult list res" where
  "RunWriteCostExperiments E n =
     rbind (wrapRes ''no-index scenario'' (fst (runNoIndexScenario E n))) (\<lambda>noIndexResult.
     rbind (wrapRes ''one-index scenario'' (fst (runOneIndexScenario E n))) (\<lambda>oneIndexResult.
     rbind (wrapRes ''multi-index scenario'' (fst (runMultiIndexScenario E n))) (\<lambda>multiIndexResult.
     rbind (wrapRes ''partial-index scenario'' (fst (runPartialIndexScenario E n))) (\<lambda>partialIndexResult.
     Ok [noIndexResult, oneIndexResult, multiIndexResult, partialIndexResult]))))"

section \<open>Reads\<close>

record ReadResult =
  Operation :: string
  IndexPageReads :: uint64
  HeapPageReads :: uint64
  rd_TotalPages :: uint64

text \<open>The population loop: the record identifier of key \<open>mid\<close> is remembered.\<close>

fun populate :: "nat \<Rightarrow> int \<Rightarrow> nat list \<Rightarrow> int64 \<Rightarrow> (Heap \<times> BTree, int64) op" where
  "populate fl mid [] midKeyRecordID = sret midKeyRecordID"
| "populate fl mid (i # is) midKeyRecordID =
     sbind (onFst (Heap_Put (rowBytes i))) (\<lambda>recordID.
     sbind (onSnd (BTree_Insert fl (word_of_nat i) recordID)) (\<lambda>_.
     populate fl mid is (if int i = mid then recordID else midKeyRecordID)))"

definition pointLookup :: "nat \<Rightarrow> int \<Rightarrow> (Heap \<times> BTree, ReadResult) op" where
  "pointLookup fl mid =
     sbind (onSnd (BTree_Search fl (word_of_int mid))) (\<lambda>(_, found).
     if \<not> found then sfail (Errorf (''point lookup setup problem: key '' @ itoa mid @ '' not found''))
     else
       sbind (onSnd (BTree_Stats fl)) (\<lambda>pointStats.
       sret \<lparr>Operation = ''point lookup'', IndexPageReads = st_PageReads pointStats, HeapPageReads = 0,
             rd_TotalPages = st_PageReads pointStats\<rparr>))"

definition rangeScan :: "nat \<Rightarrow> nat \<Rightarrow> int \<Rightarrow> (Heap \<times> BTree, ReadResult) op" where
  "rangeScan fl scanFuel mid =
     (let scanStart = word_of_int (mid - 50) :: int64; scanEnd = word_of_int (mid + 50) :: int64;
          scanStart = (if scanStart <s 0 then 0 else scanStart) in
      sbind (onSnd (BTree_Scan fl scanFuel scanStart scanEnd)) (\<lambda>scanResults.
      if length scanResults = 0 then
        sfail (Errorf (''range scan setup problem: got 0 results for ['' @ itoa (sint scanStart) @ '', '' @ itoa (sint scanEnd) @ '']''))
      else
        sbind (onSnd (BTree_Stats fl)) (\<lambda>scanStats.
        sret \<lparr>Operation = ''range scan (100 keys)'', IndexPageReads = st_PageReads scanStats, HeapPageReads = 0,
              rd_TotalPages = st_PageReads scanStats\<rparr>)))"

definition secondaryLookup :: "nat \<Rightarrow> int \<Rightarrow> int64 \<Rightarrow> (Heap \<times> BTree, ReadResult) op" where
  "secondaryLookup fl mid midKeyRecordID =
     sbind (onSnd (BTree_Search fl (word_of_int mid))) (\<lambda>(gotRecordID, found).
     if \<not> found \<or> gotRecordID \<noteq> midKeyRecordID then
       sfail (Errorf (''secondary-index lookup setup problem: Search('' @ itoa mid @ '') = ('' @ itoa (sint gotRecordID) @ '', '' @
         (if found then ''true'' else ''false'') @ ''), want ('' @ itoa (sint midKeyRecordID) @ '', true)''))
     else
       sbind (onSnd (BTree_Stats fl)) (\<lambda>indexStats.
       sbind (wrapErr (''heap.Get('' @ itoa (sint gotRecordID) @ '') failed'') (onFst (Heap_Get gotRecordID))) (\<lambda>_.
       sbind (onFst (sget Heap_PageReads)) (\<lambda>heapPageReads.
       sret \<lparr>Operation = ''secondary-index lookup (index + heap)'', IndexPageReads = st_PageReads indexStats,
             HeapPageReads = heapPageReads, rd_TotalPages = st_PageReads indexStats + heapPageReads\<rparr>))))"

definition RunReadExperiments :: "env \<Rightarrow> nat \<Rightarrow> int \<Rightarrow> ReadResult list res \<times> (Heap \<times> BTree) option" where
  "RunReadExperiments E scanFuel n =
     running (rbind (btree_Open (files E ''reads-index.db'') []) (\<lambda>tree.
              rbind (heap_Open (files E ''reads-heap.db'') []) (\<lambda>h. Ok (h, tree))))
       (deferring (closeBoth (closeHeap E) (closeTree E))
         (let mid = (if 0 \<le> n then n div 2 else - (- n div 2)) in
          sbind (populate (maxSteps E) mid [0..<nat n] 0) (\<lambda>midKeyRecordID.
          sbind (onSnd BTree_ResetStats) (\<lambda>_.
          sbind (pointLookup (maxSteps E) mid) (\<lambda>point.
          sbind (onSnd BTree_ResetStats) (\<lambda>_.
          sbind (rangeScan (maxSteps E) scanFuel mid) (\<lambda>scan.
          sbind (onSnd BTree_ResetStats) (\<lambda>_.
          sbind (secondaryLookup (maxSteps E) mid midKeyRecordID) (\<lambda>secondary.
          sret [point, scan, secondary])))))))))"

end
