(* ===== verification/Experiment_Spec.thy ===== *)
theory Experiment_Spec
  imports Experiment Stats_Spec Poolless
begin

text \<open>
  The scenarios of \<^verbatim>\<open>internal/experiment\<close> over the interfaces of the index and the row store: the insertion
  loops, the sync loop and the read scenarios succeed on new files and report what they mean to measure.
\<close>

section \<open>Insertion loops\<close>

definition identRows :: "int64 list \<Rightarrow> (int64 \<times> int64) list" where
  "identRows ks = map (\<lambda>k. (k, k)) ks"

lemma identRows_simps [simp]: "length (identRows ks) = length ks" "map fst (identRows ks) = ks" "fst ` set (identRows ks) = set ks"
  by (simp_all add: identRows_def comp_def image_image)

lemma map_of_identRows: "map_of (identRows ks) k = (if k \<in> set ks then Some k else None)"
  by (induction ks) (auto simp: identRows_def)

lemma wrapErr_Ok [exec_simps]: "f w = (Ok x, w') \<Longrightarrow> wrapErr msg f w = (Ok x, w')"
  by (simp add: wrapErr_def)

lemma insertKeys_each:
  "insertEach (BTree_Insert fl) (identRows ks) w = (Ok (), w') \<Longrightarrow> insertKeys fl msg ks w = (Ok (), w')"
proof (induction ks arbitrary: w)
  case (Cons k ks)
  obtain w1 where "BTree_Insert fl k k w = (Ok (), w1)" "insertEach (BTree_Insert fl) (identRows ks) w1 = (Ok (), w')"
    using Cons.prems by (auto simp: identRows_def sbind_def split: prod.splits res.splits)
  with Cons.IH show ?case by (simp add: exec_simps)
qed (simp add: identRows_def)

lemma insertKeys_spec:
  assumes "tree_abs fl u (n + length ks) w m" "distinct ks" "set ks \<inter> dom m = {}"
  shows "\<exists>w'. (\<forall>msg. insertKeys fl msg ks w = (Ok (), w')) \<and> tree_abs fl u n w' (m ++ map_of (identRows ks))"
proof -
  have "tree_abs fl u (n + length (identRows ks)) w m" "distinct (map fst (identRows ks))" "fst ` set (identRows ks) \<inter> dom m = {}"
    using assms by simp_all
  from any_tree.insert_all_spec [OF this] insertKeys_each show ?thesis by blast
qed

lemma preserves_wrapErr [stays]: "preserves P f \<Longrightarrow> preserves P (wrapErr msg f)"
  unfolding preserves_def wrapErr_def by (auto split: prod.splits res.splits)

lemma poolFree_insertKeys [stays]: "poolFree (insertKeys fl msg ks)"
  by (induction ks) (simp_all, (intro stays | assumption)+)

section \<open>New trees\<close>

lemma btree_Open_empty:
  assumes "n \<le> fl" "n < 2 ^ 21"
  obtains w where "btree_Open (Ok (fileWith [])) [] = Ok w" "tree_abs fl False n w Map.empty" "pool w = None" "entrySize w = 16"
proof -
  obtain w where w: "btree_Open (Ok (fileWith [])) [] = Ok w" "tree_inv 8 0 (Leaf 1 []) w" "\<not> unique w" "entrySize w = 16"
      "nextPageID (pm w) = 2"
    using openWith_empty [of 16 False "[]" 8] by (auto simp: btree_Open_def)
  have "n * (0 + n + 2) \<le> 2 ^ 21 * (0 + 2 ^ 21 + 2)" using assms(2) by (intro mult_mono add_mono) simp_all
  then have "tree_abs fl False n w Map.empty"
    using w assms(1) unfolding tree_abs_def
    by (intro exI [of _ 0] exI [of _ "Leaf 1 []"]) (simp add: rows_def rowsOf_def)
  moreover have "pool w = None" using btree_Open_poolless [OF w(1)] .
  ultimately show ?thesis using that w by blast
qed

section \<open>Closing\<close>

lemma closeTree_spec:
  assumes inv: "tree_inv K h t w" and order: "\<forall>xs. set (mapOrder E xs) = set xs"
  shows "\<exists>w'. closeTree E w = (Ok (), w') \<and> closed (pm_file (pm w')) \<and>
    (\<exists>w2. openWith (Ok (fileWith (content (pm_file (pm w'))))) es u opts = Ok w2 \<and> tree_inv K h t w2)"
proof -
  have walk: "walk_of (walk (mapOrder E) w) w" using order by (simp add: walk_of_def walk_def)
  have "sound w" using inv by (simp add: tree_inv_def)
  from store_Close_spec [OF this walk] obtain w' where w': "store_Close (walk (mapOrder E) w) w = (Ok (), w')" "closed (pm_file (pm w'))"
      "length (content (pm_file (pm w'))) \<le> 2 ^ 63" "\<forall>v p. known w v = Some p \<longrightarrow> diskPage w' v = Some (Data p)" by blast
  with openWith_reopen [OF inv, of w' "content (pm_file (pm w'))" es u opts] show ?thesis
    by (auto simp: closeTree_def BTree_Close_def)
qed

section \<open>Workload\<close>

lemma RunWorkload_spec:
  assumes fresh: "files E (''workload-'' @ pattern @ ''.db'') = Ok (fileWith [])"
    and gen: "GenerateKeys (rand E pattern) (now E) pattern n = Ok ks" and ks: "distinct ks"
    and fuel: "length ks < maxSteps E" "length ks < 2 ^ 20" and order: "\<forall>xs. set (mapOrder E xs) = set xs"
  shows "\<exists>r w h t w2. RunWorkload E pattern n = (Ok r, Some w) \<and> closed (pm_file (pm w)) \<and>
    btree_Open (Ok (fileWith (content (pm_file (pm w))))) [] = Ok w2 \<and> tree_inv 8 h t w2 \<and>
    map_of (rows t) = map_of (identRows ks) \<and> InsertCount r = int (length ks) \<and> FinalHeight r = int h + 1 \<and>
    FinalPageCount r = int (length (ids t))"
proof -
  obtain w where w: "btree_Open (Ok (fileWith [])) [] = Ok w" "tree_abs (maxSteps E) False (1 + length ks) w Map.empty" "pool w = None"
    using btree_Open_empty [of "1 + length ks" "maxSteps E"] fuel by auto
  obtain w1 where w1: "\<forall>msg. insertKeys (maxSteps E) msg ks w = (Ok (), w1)" "tree_abs (maxSteps E) False 1 w1 (map_of (identRows ks))"
    using insertKeys_spec [OF w(2) ks] by auto
  have p1: "pool w1 = None" using poolFreeD [OF poolFree_insertKeys w(3) w1(1) [rule_format]] .
  obtain h t where t: "tree_inv 8 h t w1" "map_of (rows t) = map_of (identRows ks)" "h < maxSteps E"
    using w1(2) by (auto simp: tree_abs_def)
  obtain s w2 where s: "BTree_Stats (maxSteps E) w1 = (Ok s, w2)" "Height s = int h + 1" "TotalPages s = int (length (ids t))" "tree_inv 8 h t w2"
    using BTree_Stats_spec [OF t(1) _ t(3)] poolless_disk [OF p1] by fastforce
  obtain w3 w4 where w3: "closeTree E w2 = (Ok (), w3)" "closed (pm_file (pm w3))"
      "btree_Open (Ok (fileWith (content (pm_file (pm w3))))) [] = Ok w4" "tree_inv 8 h t w4"
    using closeTree_spec [OF s(4) order, of 16 False "[]"] by (auto simp: btree_Open_def)
  let ?r = "\<lparr>Pattern = pattern, InsertCount = int (length ks), wr_PageSplits = st_PageSplits s,
      wr_PageWrites = st_PageWrites s, FinalHeight = Height s, FinalPageCount = TotalPages s\<rparr>"
  have "RunWorkload E pattern n = (Ok ?r, Some w3)"
    unfolding RunWorkload_def fresh
    by (simp add: running_def deferring_def w(1) gen w1(1) s(1) w3(1) exec_simps)
  with w3 t(2) s(2,3) show ?thesis by fastforce
qed

section \<open>Sync cost\<close>

lemma syncTree_spec:
  assumes abs: "tree_abs fl u n w m" and order: "\<forall>xs. set (mapOrder E xs) = set xs" and pool: "pool w = None"
  shows "\<exists>w'. syncTree E w = (Ok (), w') \<and> tree_abs fl u n w' m \<and> durableBytes w' = fileBytes w' \<and> pool w' = None"
proof -
  obtain h t where t: "tree_inv 8 h t w" "map_of (rows t) = m" "unique w = u" "h + n \<le> fl"
      "unat (nextPageID (pm w)) + n * (h + n + 2) < 2 ^ 51"
    using abs by (auto simp: tree_abs_def)
  have walk: "walk_of (walk (mapOrder E) w) w" using order by (simp add: walk_of_def walk_def)
  have ok: "sound w" using t(1) by (simp add: tree_inv_def)
  obtain w' where w': "store_Sync (walk (mapOrder E) w) w = (Ok (), w')" "store_ok (stale w) w'" "keeps (stale w) w w'" "durableBytes w' = fileBytes w'"
    using store_Sync_spec [OF ok walk] by blast
  note s = st_initial_keeps [OF ok w'(3,2)]
  have "tree_abs fl u n w' m"
    using tree_inv_st [OF t(1) s] t st_next [OF s] more_fields [OF st_more [OF s]] unfolding tree_abs_def
    by (intro exI [of _ h] exI [of _ t]) simp
  moreover have "pool w' = None" using w'(3) pool by (simp add: keeps_def)
  ultimately show ?thesis using w'(1,4) by (simp add: syncTree_def BTree_Sync_def)
qed

text \<open>How often the loop syncs: once for each multiple of the interval among the insertions.\<close>

definition syncsIn :: "int \<Rightarrow> nat \<Rightarrow> nat \<Rightarrow> nat" where
  "syncsIn k i n = length (filter (\<lambda>j. (int j + 1) mod k = 0) [i..<i + n])"

lemma syncsIn_Suc: "syncsIn k i (Suc n) = (if (int i + 1) mod k = 0 then 1 else 0) + syncsIn k (Suc i) n"
  unfolding syncsIn_def by (subst upt_rec) simp

lemma syncsIn_div: "syncsIn k 0 n = n div nat \<bar>k\<bar>"
proof (induction n)
  case (Suc n)
  have "(int n + 1) mod k = 0 \<longleftrightarrow> Suc n mod nat \<bar>k\<bar> = 0"
    using int_dvd_int_iff [of "nat \<bar>k\<bar>" "Suc n"] by (simp add: mod_eq_0_iff_dvd dvd_eq_mod_eq_0 [symmetric] add.commute)
  with Suc show ?case by (simp add: syncsIn_def div_Suc)
qed (simp add: syncsIn_def)

lemma syncLoop_spec:
  assumes k: "k \<noteq> 0" and order: "\<forall>xs. set (mapOrder E xs) = set xs"
  shows "tree_abs (maxSteps E) u (n + length ks) w m \<Longrightarrow> pool w = None \<Longrightarrow> distinct ks \<Longrightarrow> set ks \<inter> dom m = {} \<Longrightarrow>
    \<exists>w'. syncLoop E k i ks calls w = (Ok (calls + word_of_nat (syncsIn k i (length ks))), w') \<and>
      tree_abs (maxSteps E) u n w' (m ++ map_of (identRows ks)) \<and> pool w' = None"
proof (induction ks arbitrary: i calls w m)
  case Nil
  then show ?case by (simp add: exec_simps syncsIn_def identRows_def)
next
  case (Cons key ks)
  have "tree_abs (maxSteps E) u (Suc (n + length ks)) w m" "key \<notin> dom m" using Cons.prems by auto
  then obtain w1 where w1: "BTree_Insert (maxSteps E) key key w = (Ok (), w1)" "tree_abs (maxSteps E) u (n + length ks) w1 (m(key \<mapsto> key))"
    using any_tree.insert_law by blast
  have p1: "pool w1 = None" using poolFreeD [OF poolFree_insert Cons.prems(2) w1(1)] .
  obtain w2 where w2: "syncTree E w1 = (Ok (), w2)" "tree_abs (maxSteps E) u (n + length ks) w2 (m(key \<mapsto> key))" "pool w2 = None"
    using syncTree_spec [OF w1(2) order p1] by blast
  have disj: "set ks \<inter> dom (m(key \<mapsto> key)) = {}" "distinct ks" "key \<notin> set ks" using Cons.prems by auto
  have eq: "m(key \<mapsto> key) ++ map_of (identRows ks) = m ++ map_of (identRows (key # ks))"
    using disj(3) by (simp add: identRows_def map_add_upd_left dom_map_of_conv_image_fst image_image)
  let ?sync = "(int i + 1) mod k = 0"
  let ?w = "if ?sync then w2 else w1" and ?c = "if ?sync then calls + 1 else calls"
  have pre: "tree_abs (maxSteps E) u (n + length ks) ?w (m(key \<mapsto> key))" "pool ?w = None" using w1(2) w2(2,3) p1 by simp_all
  obtain w' where w': "syncLoop E k (Suc i) ks ?c ?w = (Ok (?c + word_of_nat (syncsIn k (Suc i) (length ks))), w')"
      "tree_abs (maxSteps E) u n w' (m ++ map_of (identRows (key # ks)))" "pool w' = None"
    using Cons.IH [OF pre disj(2,1), of "Suc i" ?c] unfolding eq by blast
  have "syncLoop E k i (key # ks) calls w = syncLoop E k (Suc i) ks ?c ?w"
    using k w1(1) w2(1) by (simp add: exec_simps)
  moreover have "?c + word_of_nat (syncsIn k (Suc i) (length ks)) = calls + word_of_nat (syncsIn k i (length (key # ks)))"
    by (simp add: syncsIn_Suc)
  ultimately show ?case using w' by metis
qed

lemma runSyncScenario_spec:
  assumes fresh: "files E (''synccost-'' @ sanitizeLabel label @ ''.db'') = Ok (fileWith [])" and k: "k \<noteq> 0" and ks: "distinct ks"
    and fuel: "length ks \<le> maxSteps E" "length ks < 2 ^ 21" and order: "\<forall>xs. set (mapOrder E xs) = set xs"
  shows "\<exists>r w h t w2. runSyncScenario E label ks k = (Ok r, Some w) \<and> sc_InsertCount r = int (length ks) \<and>
    sc_SyncCalls r = word_of_nat (length ks div nat \<bar>k\<bar> + 1) \<and>
    btree_Open (Ok (fileWith (durable (pm_file (pm w))))) [] = Ok w2 \<and> tree_inv 8 h t w2 \<and> map_of (rows t) = map_of (identRows ks)"
proof -
  obtain w where w: "btree_Open (Ok (fileWith [])) [] = Ok w" "tree_abs (maxSteps E) False (0 + length ks) w Map.empty" "pool w = None"
    using btree_Open_empty [of "length ks" "maxSteps E"] fuel by auto
  let ?c = "word_of_nat (length ks div nat \<bar>k\<bar>) :: uint64"
  obtain w1 where w1: "syncLoop E k 0 ks 0 w = (Ok ?c, w1)" "tree_abs (maxSteps E) False 0 w1 (map_of (identRows ks))" "pool w1 = None"
    using syncLoop_spec [OF k order w(2,3) ks, of 0 0] by (auto simp: syncsIn_div)
  obtain w2 where w2: "syncTree E w1 = (Ok (), w2)" "tree_abs (maxSteps E) False 0 w2 (map_of (identRows ks))"
      "durableBytes w2 = fileBytes w2" "pool w2 = None"
    using syncTree_spec [OF w1(2) order w1(3)] by blast
  obtain h t where t: "tree_inv 8 h t w2" "map_of (rows t) = map_of (identRows ks)" using w2(2) by (auto simp: tree_abs_def)
  obtain w3 w4 where w3: "closeTree E w2 = (Ok (), w3)" "btree_Open (Ok (fileWith (content (pm_file (pm w3))))) [] = Ok w4" "tree_inv 8 h t w4"
    using closeTree_spec [OF t(1) order, of 16 False "[]"] by (auto simp: btree_Open_def)
  have "quiet w2" using t(1) by (simp add: tree_inv_def sound_quiet)
  then have "durable (pm_file (pm w3)) = content (pm_file (pm w3))"
    using w3(1) w2(3,4) by (auto simp: closeTree_def BTree_Close_def store_Close_def pm_Close_def withFile_def fileClose_def syscall_quiet
        quiet_def durableBytes_def fileBytes_def)
  moreover have "runSyncScenario E label ks k = (Ok \<lparr>Strategy = label, sc_InsertCount = int (length ks), sc_SyncCalls = ?c + 1,
      Duration = elapsed E label\<rparr>, Some w3)"
    unfolding runSyncScenario_def fresh by (simp add: running_def deferring_def w(1) w1(1) w2(1) w3(1) exec_simps)
  ultimately show ?thesis using w3(2,3) t(2) by (fastforce simp: add.commute)
qed

text \<open>A zero interval: the remainder after the first insertion panics.\<close>

lemma runSyncScenario_zero:
  assumes fresh: "files E (''synccost-'' @ sanitizeLabel label @ ''.db'') = Ok (fileWith [])" and ks: "ks \<noteq> []" "distinct ks"
    and fuel: "length ks \<le> maxSteps E" "length ks < 2 ^ 21"
  shows "fst (runSyncScenario E label ks 0) = Panic"
proof -
  obtain key ks' where k: "ks = key # ks'" using ks(1) by (cases ks) auto
  obtain w where w: "btree_Open (Ok (fileWith [])) [] = Ok w" "tree_abs (maxSteps E) False (Suc (length ks')) w Map.empty"
    using btree_Open_empty [of "length ks" "maxSteps E"] fuel k by auto
  obtain w1 where "BTree_Insert (maxSteps E) key key w = (Ok (), w1)"
    using any_tree.insert_law [OF w(2), of key key] by auto
  then show ?thesis unfolding runSyncScenario_def fresh k by (simp add: running_def deferring_def w(1) slift_def sbind_def wrapErr_def)
qed

end
