(* ===== verification/Reads_Spec.thy ===== *)
theory Reads_Spec
  imports Experiment_Spec
begin

text \<open>
  The read experiment of \<^verbatim>\<open>reads.go\<close>: how many pages a lookup reads. Without a pool every page read goes to
  the page manager, so its counter gives the pages touched: one per level of the tree, one for the heap.
\<close>

section \<open>Counting reads\<close>

abbreviation readsKept :: "uint64 \<Rightarrow> ('s store_scheme, 'a) op \<Rightarrow> bool" where
  "readsKept c f \<equiv> preserves (\<lambda>w. pool w = None \<and> pageReads (pm w) = c) f"

lemma readsKept_objects [stays]: "readsKept c (newObj p)" "readsKept c (deref a)" "readsKept c (assign a p)" "readsKept c AllocatePageID"
  by (simp_all add: preserves_def newObj_def deref_def assign_def AllocatePageID_def)

lemma readsKept_withFile [stays]: "readsKept c (withFile act)"
  by (simp add: preserves_def withFile_def split: prod.splits)

lemma readsKept_write [stays]: "readsKept c (WritePage a)" "readsKept c (writePage a)"
proof -
  show w: "readsKept c (WritePage a)" unfolding WritePage_def by (intro stays) simp
  then show "readsKept c (writePage a)" by (simp add: preserves_def writePage_def)
qed

lemma readsKept_put [stays]: "readsKept c (Heap_Put row)"
  unfolding Heap_Put_def roomyPage_def heap_writePage_def by (intro stays) simp

lemma ReadPage_reads:
  assumes "ReadPage v w = (Ok a, w')"
  shows "pageReads (pm w') = pageReads (pm w) + 1"
  using assms by (auto simp: ReadPage_def sbind_def smod_def withFile_def newObj_def Let_def split: prod.splits res.splits)

lemma readPage_reads:
  assumes "readPage v w = (Ok a, w')" "pool w = None"
  shows "pageReads (pm w') = pageReads (pm w) + 1"
  using assms ReadPage_reads by (simp add: readPage_def)

text \<open>The descent reads one page for every ancestor it records.\<close>

lemma descend_reads:
  "descend fuel k a anc w = (Ok (b, anc'), w') \<Longrightarrow> pool w = None \<Longrightarrow>
   \<exists>vs. anc' = anc @ vs \<and> pageReads (pm w') = pageReads (pm w) + word_of_nat (length vs)"
proof (induction fuel arbitrary: a anc w)
  case 0
  then show ?case by (auto simp: sbind_def deref_def slift_def sret_def split: if_splits)
next
  case (Suc fuel)
  obtain p where p: "deref a w = (Ok p, w)"
    using Suc.prems(1) by (cases "a < length (objs w)") (auto simp: deref_def sbind_def)
  show ?case
  proof (cases "PageType p = InternalPage")
    case False
    then show ?thesis using Suc.prems(1) p by (auto simp: exec_simps)
  next
    case True
    obtain c where c: "findChildPageID p k = Ok c"
      using Suc.prems(1) p True by (cases "findChildPageID p k") (auto simp: exec_simps)
    obtain r w1 where rd: "readPage c w = (r, w1)" by (cases "readPage c w")
    obtain d where d: "r = Ok d"
      using Suc.prems(1) p True c rd by (cases r) (auto simp: exec_simps)
    have w1: "pageReads (pm w1) = pageReads (pm w) + 1" "pool w1 = None"
      using readPage_reads Suc.prems(2) rd d poolFreeD [OF poolFree_paths(1)] by blast+
    have "descend fuel k d (anc @ [ID p]) w1 = (Ok (b, anc'), w')"
      using Suc.prems(1) p True c rd d by (simp add: exec_simps)
    from Suc.IH [OF this w1(2)] w1(1) show ?thesis by auto
  qed
qed

lemma findLeafWithPath_reads:
  assumes "findLeafWithPath fuel k w = (Ok (b, anc), w')" "pool w = None"
  shows "pageReads (pm w') = pageReads (pm w) + word_of_nat (Suc (length anc))"
proof -
  obtain r w1 where rd: "readPage (rootID w) w = (r, w1)" by (cases "readPage (rootID w) w")
  obtain a where a: "r = Ok a" using assms(1) rd by (cases r) (auto simp: findLeafWithPath_def exec_simps)
  have "descend fuel k a [] w1 = (Ok (b, anc), w')" using assms(1) rd a by (simp add: findLeafWithPath_def exec_simps)
  from descend_reads [OF this] show ?thesis
    using readPage_reads assms(2) rd a poolFreeD [OF poolFree_paths(1)] by fastforce
qed

text \<open>A search reads as many pages as the tree has levels.\<close>

lemma BTree_Search_reads:
  assumes inv: "tree_inv 8 h t w" and fuel: "h \<le> fuel" and pool: "pool w = None" and run: "BTree_Search fuel k w = (r, w')"
  shows "pageReads (pm w') = pageReads (pm w) + word_of_nat (Suc h)" "pool w' = None"
proof -
  obtain b q H w1 i kvs and fs :: "bframe list" where f: "findLeafWithPath fuel (EncodeInt64 k) w = (Ok (b, rev (map fst fs)), w1)"
      "st {} (known w) H (nextPageID (pm w)) (store.more w) w1" "H b = Some q" "length fs = h"
    using findLeafWithPath_spec [OF inv fuel] by blast
  have "w' = w1"
    using run f(1) deref_rule [OF f(2,3)] by (auto simp: BTree_Search_def exec_simps sprim_simps Let_def split: res.splits)
  then show "pageReads (pm w') = pageReads (pm w) + word_of_nat (Suc h)" "pool w' = None"
    using findLeafWithPath_reads [OF f(1) pool] poolFreeD [OF poolFree_findLeaf pool f(1)] f(4) by simp_all
qed

section \<open>Rows of the experiments\<close>

lemma length_natDigits: "0 < k \<Longrightarrow> n < 10 ^ k \<Longrightarrow> length (natDigits n) \<le> k"
proof (induction k arbitrary: n)
  case (Suc k)
  show ?case
  proof (cases "n < 10")
    case True
    then show ?thesis by (simp add: natDigits.simps [of n])
  next
    case False
    then have "0 < k" using Suc.prems(2) by (cases k) auto
    moreover have "n div 10 < 10 ^ k" using Suc.prems(2) by (simp add: less_mult_imp_div_less mult.commute)
    ultimately show ?thesis using Suc.IH [of "n div 10"] False by (simp add: natDigits.simps [of n])
  qed
qed simp

lemma length_rowBytes: "i < 10 ^ 20 \<Longrightarrow> length (rowBytes i) \<le> 24"
  using length_natDigits [of 20 i] by (simp add: rowBytes_def itoa_def)

section \<open>Population\<close>

lemma populate_spec:
  "heap_abs (n + length is) hp mh \<Longrightarrow> tree_abs fl u (n + length is) tr mi \<Longrightarrow> pool hp = None \<Longrightarrow> pool tr = None \<Longrightarrow>
   distinct (map word_of_nat is :: int64 list) \<Longrightarrow> word_of_nat ` set is \<inter> dom mi = {} \<Longrightarrow> \<forall>i \<in> set is. i < 10 ^ 20 \<Longrightarrow>
   \<exists>hp' tr' mh' mi' r. populate fl mid is r0 (hp, tr) = (Ok r, (hp', tr')) \<and> heap_abs n hp' mh' \<and> tree_abs fl u n tr' mi' \<and>
     pool hp' = None \<and> pool tr' = None \<and> pageReads (pm hp') = pageReads (pm hp) \<and>
     mh \<subseteq>\<^sub>m mh' \<and> mi \<subseteq>\<^sub>m mi' \<and>
     (\<forall>i \<in> set is. \<exists>rid. mi' (word_of_nat i) = Some rid \<and> mh' rid = Some (rowBytes i) \<and> (int i = mid \<longrightarrow> r = rid)) \<and>
     ((\<forall>i \<in> set is. int i \<noteq> mid) \<longrightarrow> r = r0)"
proof (induction "is" arbitrary: hp tr mh mi r0)
  case Nil
  then show ?case
    by (intro exI [of _ hp] exI [of _ tr] exI [of _ mh] exI [of _ mi] exI [of _ r0]) (simp add: exec_simps)
next
  case (Cons i "is")
  have len: "length (rowBytes i) \<le> 4071" using length_rowBytes [of i] Cons.prems(7) by simp
  have "heap_abs (Suc (n + length is)) hp mh" using Cons.prems(1) by simp
  then obtain rid hp1 where hp1: "Heap_Put (rowBytes i) hp = (Ok rid, hp1)" "rid \<notin> dom mh" "heap_abs (n + length is) hp1 (mh(rid \<mapsto> rowBytes i))"
    using heap.put_law [OF _ len] by blast
  have k1: "pool hp1 = None" "pageReads (pm hp1) = pageReads (pm hp)"
    using preservesD [OF readsKept_put _ hp1(1)] Cons.prems(3) by auto
  have "tree_abs fl u (Suc (n + length is)) tr mi" "word_of_nat i \<notin> dom mi" using Cons.prems(2,6) by auto
  then obtain tr1 where tr1: "BTree_Insert fl (word_of_nat i) rid tr = (Ok (), tr1)" "tree_abs fl u (n + length is) tr1 (mi(word_of_nat i \<mapsto> rid))"
    using any_tree.insert_law by blast
  have p1: "pool tr1 = None" using poolFreeD [OF poolFree_insert Cons.prems(4) tr1(1)] .
  let ?r = "if int i = mid then rid else r0"
  have dis: "distinct (map word_of_nat is :: int64 list)" "word_of_nat ` set is \<inter> dom (mi(word_of_nat i \<mapsto> rid)) = {}"
      "\<forall>i \<in> set is. i < 10 ^ 20"
    using Cons.prems(5-7) by auto
  obtain hp' tr' mh' mi' r where ih: "populate fl mid is ?r (hp1, tr1) = (Ok r, (hp', tr'))" "heap_abs n hp' mh'" "tree_abs fl u n tr' mi'"
      "pool hp' = None" "pool tr' = None" "pageReads (pm hp') = pageReads (pm hp1)"
      "mh(rid \<mapsto> rowBytes i) \<subseteq>\<^sub>m mh'" "mi(word_of_nat i \<mapsto> rid) \<subseteq>\<^sub>m mi'"
      "\<forall>i \<in> set is. \<exists>rid. mi' (word_of_nat i) = Some rid \<and> mh' rid = Some (rowBytes i) \<and> (int i = mid \<longrightarrow> r = rid)"
      "(\<forall>i \<in> set is. int i \<noteq> mid) \<longrightarrow> r = ?r"
    using Cons.IH [OF hp1(3) tr1(2) k1(1) p1 dis, of ?r] by (elim exE conjE) (rule that)
  have run: "populate fl mid (i # is) r0 (hp, tr) = (Ok r, (hp', tr'))"
    using hp1(1) tr1(1) ih(1) by (simp add: exec_simps)
  have at: "mi' (word_of_nat i) = Some rid" "mh' rid = Some (rowBytes i)"
    using map_le_Some [OF ih(8), of "word_of_nat i" rid] map_le_Some [OF ih(7), of rid] by simp_all
  have "r = rid" if "int i = mid"
  proof -
    have "\<forall>j \<in> set is. int j \<noteq> mid" using Cons.prems(5) that by auto
    with ih(10) that show ?thesis by simp
  qed
  with at ih(9) have 1: "\<forall>i \<in> set (i # is). \<exists>rid. mi' (word_of_nat i) = Some rid \<and> mh' rid = Some (rowBytes i) \<and> (int i = mid \<longrightarrow> r = rid)"
    by auto
  have 2: "mh \<subseteq>\<^sub>m mh'" "mi \<subseteq>\<^sub>m mi'"
    using ih(7,8) hp1(2) Cons.prems(6) by (auto simp: map_le_def dom_def)
  have 3: "(\<forall>j \<in> set (i # is). int j \<noteq> mid) \<longrightarrow> r = r0" using ih(10) by auto
  show ?case
    by (rule exI [of _ hp'], rule exI [of _ tr'], rule exI [of _ mh'], rule exI [of _ mi'], rule exI [of _ r])
      (use run ih(2-6) 1 2 3 k1(2) in simp)
qed

section \<open>Measuring\<close>

text \<open>A tree \<open>t\<close> of height \<open>h\<close> in a tree state without a pool, with enough fuel for a walk.\<close>

definition measured :: "nat \<Rightarrow> nat \<Rightarrow> btree \<Rightarrow> BTree \<Rightarrow> bool" where
  "measured fl h t w \<longleftrightarrow> tree_inv 8 h t w \<and> pool w = None \<and> h < fl \<and> unat (nextPageID (pm w)) < 2 ^ 51"

lemma reset_measured:
  assumes "measured fl h t w"
  shows "\<exists>w'. BTree_ResetStats w = (Ok (), w') \<and> measured fl h t w' \<and> pageReads (pm w') = 0"
proof -
  let ?w = "w\<lparr>pageSplits := 0, pageMerges := 0, pm := (pm w)\<lparr>pageReads := 0, pageWrites := 0, syncCalls := 0\<rparr>\<rparr>"
  have "sound ?w = sound w" "known ?w = known w" by (rule world_eq_intro; simp)+
  then have "measured fl h t ?w" using assms by (simp add: measured_def tree_inv_def)
  moreover have "BTree_ResetStats w = (Ok (), ?w)" by (simp add: BTree_ResetStats_def pm_ResetStats_def exec_simps)
  ultimately show ?thesis by simp
qed

lemma stats_measured:
  assumes "measured fl h t w"
  shows "\<exists>s w'. BTree_Stats fl w = (Ok s, w') \<and> st_PageReads s = pageReads (pm w) \<and> measured fl h t w'"
proof -
  have inv: "tree_inv 8 h t w" and p: "pool w = None" "h < fl" using assms by (simp_all add: measured_def)
  obtain s w' where s: "BTree_Stats fl w = (Ok s, w')" "st_PageReads s = PageReads w" "tree_inv 8 h t w'" "keeps {} w w'" "pool w' = pool w"
    using BTree_Stats_spec [OF inv _ p(2)] poolless_disk [OF p(1)] by fastforce
  then show ?thesis using assms by (auto simp: measured_def keeps_def PageReads_def)
qed

lemma search_measured:
  assumes m: "measured fl h t w"
  shows "\<exists>w'. BTree_Search fl k w = (Ok (case map_of (rows t) k of None \<Rightarrow> (0, False) | Some v \<Rightarrow> (v, True)), w') \<and>
    measured fl h t w' \<and> pageReads (pm w') = pageReads (pm w) + word_of_nat (Suc h)"
proof -
  have inv: "tree_inv 8 h t w" and p: "pool w = None" "h \<le> fl" using m by (simp_all add: measured_def)
  obtain w' where w': "BTree_Search fl k w = (Ok (case map_of (rows t) k of None \<Rightarrow> (0, False) | Some v \<Rightarrow> (v, True)), w')"
      "tree_inv 8 h t w'" "nextPageID (pm w') = nextPageID (pm w)"
    using BTree_Search_spec [OF inv p(2)] by blast
  with BTree_Search_reads [OF inv p(2,1) w'(1)] m show ?thesis by (simp add: measured_def)
qed

lemma poolFree_scanChain [stays]: "poolFree (scanChain n a e i rs)"
  by (induction n arbitrary: a i rs) (simp_all, (intro stays | assumption)+)

lemma poolFree_scan [stays]: "poolFree (BTree_Scan fl sf s e)"
  unfolding BTree_Scan_def by (intro stays)

lemma scan_measured:
  assumes m: "measured fl h t w" and range: "\<not> e <s s" and fuel: "2 ^ 51 \<le> scanFuel"
  shows "\<exists>w'. BTree_Scan fl scanFuel s e w = (Ok (map scanRow (filter (\<lambda>r. \<not> fst r <s s \<and> \<not> e <s fst r) (rows t))), w') \<and>
    measured fl h t w'"
proof -
  have inv: "tree_inv 8 h t w" and p: "pool w = None" "h \<le> fl" using m by (simp_all add: measured_def)
  have "length (leafIDs t) \<le> scanFuel"
    using tree_in_bounds(2) [of 8 h t "known w" "nextPageID (pm w)"] m fuel by (simp add: measured_def tree_inv_def)
  then obtain w' where w': "BTree_Scan fl scanFuel s e w = (Ok (map scanRow (filter (\<lambda>r. \<not> fst r <s s \<and> \<not> e <s fst r) (rows t))), w')"
      "tree_inv 8 h t w'" "nextPageID (pm w') = nextPageID (pm w)"
    using BTree_Scan_spec [OF inv p(2) _ range] by blast
  with poolFreeD [OF poolFree_scan p(1) w'(1)] m show ?thesis by (simp add: measured_def)
qed

lemma pointLookup_spec:
  assumes m: "measured fl h t tr" and r: "pageReads (pm tr) = 0" and k: "map_of (rows t) (word_of_int mid) = Some rid"
  shows "\<exists>p tr'. pointLookup fl mid (hp, tr) = (Ok p, (hp, tr')) \<and> IndexPageReads p = word_of_nat (Suc h) \<and> HeapPageReads p = 0 \<and>
    measured fl h t tr'"
proof -
  obtain tr1 where tr1: "BTree_Search fl (word_of_int mid) tr = (Ok (rid, True), tr1)" "measured fl h t tr1"
      "pageReads (pm tr1) = word_of_nat (Suc h)"
    using search_measured [OF m, of "word_of_int mid"] k r by auto
  obtain s tr2 where "BTree_Stats fl tr1 = (Ok s, tr2)" "st_PageReads s = pageReads (pm tr1)" "measured fl h t tr2"
    using stats_measured [OF tr1(2)] by blast
  with tr1 show ?thesis by (auto simp: pointLookup_def exec_simps)
qed

lemma rangeScan_spec:
  assumes m: "measured fl h t tr" and mid: "0 \<le> mid" "mid < 2 ^ 62" and k: "map_of (rows t) (word_of_int mid) = Some rid"
    and fuel: "2 ^ 51 \<le> scanFuel"
  shows "\<exists>p tr'. rangeScan fl scanFuel mid (hp, tr) = (Ok p, (hp, tr')) \<and> measured fl h t tr'"
proof -
  let ?s = "if (word_of_int (mid - 50) :: int64) <s 0 then 0 else word_of_int (mid - 50) :: int64"
  let ?e = "word_of_int (mid + 50) :: int64" and ?k = "word_of_int mid :: int64"
  have i: "sint (word_of_int x :: int64) = x" if "- (2 ^ 63) \<le> x" "x < 2 ^ 63" for x
    using that by (simp only: signed_of_int) (simp add: signed_take_bit_int_eq_self)
  have v: "sint ?e = mid + 50" "sint ?k = mid" "sint (word_of_int (mid - 50) :: int64) = mid - 50"
    using mid by (intro i; simp)+
  have in_range: "\<not> ?k <s ?s" "\<not> ?e <s ?k" "\<not> ?e <s ?s" using v mid by (auto simp: word_sless_alt)
  obtain tr1 where tr1: "BTree_Scan fl scanFuel ?s ?e tr = (Ok (map scanRow (filter (\<lambda>r. \<not> fst r <s ?s \<and> \<not> ?e <s fst r) (rows t))), tr1)"
      "measured fl h t tr1"
    using scan_measured [OF m in_range(3) fuel] by blast
  have "(?k, rid) \<in> set (filter (\<lambda>r. \<not> fst r <s ?s \<and> \<not> ?e <s fst r) (rows t))"
    using map_of_SomeD [OF k] in_range by simp
  then have some: "filter (\<lambda>r. \<not> fst r <s ?s \<and> \<not> ?e <s fst r) (rows t) \<noteq> []" by (metis empty_iff empty_set)
  obtain st tr2 where "BTree_Stats fl tr1 = (Ok st, tr2)" "measured fl h t tr2" using stats_measured [OF tr1(2)] by blast
  with tr1(1) some show ?thesis unfolding rangeScan_def Let_def by (auto simp: exec_simps simp del: word_sless_alt)
qed

lemma Heap_Get_reads:
  assumes "Heap_Get rid w = (Ok row, w')" "pool w = None"
  shows "pageReads (pm w') = pageReads (pm w) + 1"
proof -
  obtain r w1 where rd: "readPage (rid div 4096) w = (r, w1)" by (cases "readPage (rid div 4096) w")
  obtain a where a: "r = Ok a" using assms(1) rd by (cases r) (auto simp: Heap_Get_def Let_def exec_simps)
  have "pageReads (pm w1) = pageReads (pm w) + 1" using readPage_reads rd a assms(2) by blast
  moreover have "w' = w1"
    using assms(1) rd a by (auto simp: Heap_Get_def Let_def heap_readPage_def sbind_Ok sbind_def [of "deref a"] deref_def slift_def sfail_def
        split: if_splits)
  ultimately show ?thesis by simp
qed

lemma secondaryLookup_spec:
  assumes m: "measured fl h t tr" and r: "pageReads (pm tr) = 0" and k: "map_of (rows t) (word_of_int mid) = Some rid"
    and hp: "heap_abs n hp mh" "mh rid = Some row" "pool hp = None" "pageReads (pm hp) = 0"
  shows "\<exists>p hp' tr'. secondaryLookup fl mid rid (hp, tr) = (Ok p, (hp', tr')) \<and> IndexPageReads p = word_of_nat (Suc h) \<and>
    HeapPageReads p = 1 \<and> measured fl h t tr'"
proof -
  obtain tr1 where tr1: "BTree_Search fl (word_of_int mid) tr = (Ok (rid, True), tr1)" "measured fl h t tr1"
      "pageReads (pm tr1) = word_of_nat (Suc h)"
    using search_measured [OF m, of "word_of_int mid"] k r by auto
  obtain s tr2 where tr2: "BTree_Stats fl tr1 = (Ok s, tr2)" "st_PageReads s = pageReads (pm tr1)" "measured fl h t tr2"
    using stats_measured [OF tr1(2)] by blast
  obtain hp1 where hp1: "Heap_Get rid hp = (Ok row, hp1)" using heap.get_law [OF hp(1,2)] by blast
  have "Heap_PageReads hp1 = 1" using Heap_Get_reads [OF hp1 hp(3)] hp(4) by (simp add: Heap_PageReads_def PageReads_def)
  with tr1(1,3) tr2 hp1 show ?thesis unfolding secondaryLookup_def by (auto simp: exec_simps)
qed

section \<open>The experiment\<close>

lemma heap_Open_poolless:
  assumes "heap_Open (Ok (fileWith [])) [] = Ok w"
  shows "pool w = None" "pageReads (pm w) = 0"
proof -
  have "storage_Open (Ok (fileWith [])) = Ok (pm (heapState [] None))"
    by (simp add: storage_Open_def syscall_quiet fileWith_def heapState_def)
  then have open0: "(case openActive (heapState [] None) of (r, h) \<Rightarrow> rbind r (\<lambda>a. Ok (h\<lparr>activePage := a\<rparr>))) = Ok w"
    using assms by (simp add: heap_Open_def heapState_def)
  obtain r w1 where run: "openActive (heapState [] None) = (r, w1)" by (cases "openActive (heapState [] None)")
  have n0: "PageCount (heapState [] None) = 0" by (simp add: PageCount_def heapState_def)
  let ?new = "sbind AllocatePageID (\<lambda>v. sbind (newObj (NewHeapPage v)) (\<lambda>p. sbind (heap_writePage p) (\<lambda>_. sret p)))"
  have kept: "readsKept 0 ?new" unfolding heap_writePage_def by (intro stays)
  have new: "?new (heapState [] None) = (r, w1)" using run n0 by (simp only: openActive_def exec_simps) simp
  have "pool (heapState [] None) = None \<and> pageReads (pm (heapState [] None)) = 0" by (simp add: heapState_def)
  from preservesD [OF kept this new] have "pool w1 = None \<and> pageReads (pm w1) = 0" .
  with open0 run show "pool w = None" "pageReads (pm w) = 0" by (auto simp: rbind_eq_Ok)
qed

lemma tree_abs_measured:
  assumes "tree_abs fl u 1 w m" "pool w = None"
  obtains h t where "measured fl h t w" "map_of (rows t) = m"
proof -
  obtain h t where "tree_inv 8 h t w" "map_of (rows t) = m" "h + 1 \<le> fl" "unat (nextPageID (pm w)) + 1 * (h + 1 + 2) < 2 ^ 51"
    using assms(1) by (auto simp: tree_abs_def)
  then have "measured fl h t w" using assms(2) by (simp add: measured_def)
  with \<open>map_of (rows t) = m\<close> that show ?thesis by blast
qed

lemma word_of_nat_distinct:
  assumes "n \<le> 2 ^ 64"
  shows "distinct (map word_of_nat [0..<n] :: int64 list)"
proof -
  have "inj_on (word_of_nat :: nat \<Rightarrow> int64) (set [0..<n])"
  proof (rule inj_onI)
    fix i j assume i: "i \<in> set [0..<n]" and j: "j \<in> set [0..<n]" and eq: "(word_of_nat i :: int64) = word_of_nat j"
    have "unat (word_of_nat i :: int64) = i" "unat (word_of_nat j :: int64) = j"
      using assms i j by (auto intro: unat_of_nat_small)
    with eq show "i = j" by metis
  qed
  then show ?thesis by (simp add: distinct_map)
qed

lemma RunReadExperiments_spec:
  assumes fresh: "files E ''reads-index.db'' = Ok (fileWith [])" "files E ''reads-heap.db'' = Ok (fileWith [])"
    and n: "0 < n" "n < 2 ^ 20" and fuel: "n < int (maxSteps E)" "2 ^ 51 \<le> scanFuel" and order: "\<forall>xs. set (mapOrder E xs) = set xs"
  shows "\<exists>p s q hp tr h t w2. RunReadExperiments E scanFuel n = (Ok [p, s, q], Some (hp, tr)) \<and>
    btree_Open (Ok (fileWith (content (pm_file (pm tr))))) [] = Ok w2 \<and> tree_inv 8 h t w2 \<and>
    IndexPageReads p = word_of_nat (Suc h) \<and> HeapPageReads p = 0 \<and>
    IndexPageReads q = word_of_nat (Suc h) \<and> HeapPageReads q = 1"
proof -
  let ?N = "nat n" and ?fl = "maxSteps E" and ?mid = "n div 2"
  obtain tr where tr: "btree_Open (Ok (fileWith [])) [] = Ok tr" "tree_abs ?fl False (1 + ?N) tr Map.empty" "pool tr = None"
  proof (rule btree_Open_empty [of "1 + ?N" ?fl])
    show "1 + ?N \<le> ?fl" "1 + ?N < 2 ^ 21" using n fuel(1) by simp_all
  qed
  obtain hp where hp: "heap_Open (Ok (fileWith [])) [] = Ok hp" "heap_inv hp Map.empty" "nextPageID (pm hp) = 1"
    using heap_Open_empty by blast
  have hp': "heap_abs (1 + ?N) hp Map.empty" using hp(2,3) n by (simp add: heap_abs_def)
  note hp0 = heap_Open_poolless [OF hp(1)]
  have keys: "distinct (map word_of_nat [0..<?N] :: int64 list)" using n by (intro word_of_nat_distinct) simp
  have small: "\<forall>i \<in> set [0..<?N]. i < 10 ^ 20" using n by (auto simp: nat_less_iff)
  have len: "heap_abs (1 + length [0..<?N]) hp Map.empty" "tree_abs ?fl False (1 + length [0..<?N]) tr Map.empty"
      "word_of_nat ` set [0..<?N] \<inter> dom Map.empty = ({} :: int64 set)"
    using hp' tr(2) by simp_all
  obtain hp1 tr1 mh mi r where pop: "populate ?fl ?mid [0..<?N] 0 (hp, tr) = (Ok r, (hp1, tr1))" "heap_abs 1 hp1 mh"
      "tree_abs ?fl False 1 tr1 mi" "pool hp1 = None" "pool tr1 = None" "pageReads (pm hp1) = pageReads (pm hp)"
      "\<forall>i \<in> set [0..<?N]. \<exists>rid. mi (word_of_nat i) = Some rid \<and> mh rid = Some (rowBytes i) \<and> (int i = ?mid \<longrightarrow> r = rid)"
    using populate_spec [OF len(1,2) hp0(1) tr(3) keys len(3) small, of ?mid 0] by (elim exE conjE) (rule that)
  have mid: "0 \<le> ?mid" "?mid < n" "?mid < 2 ^ 62" using n by simp_all
  obtain i where i: "int i = ?mid" using mid(1) by (metis int_nat_eq)
  then have "i \<in> set [0..<?N]" using mid(2) by simp
  then obtain rid where rid: "mi (word_of_nat i) = Some rid" "mh rid = Some (rowBytes i)" "int i = ?mid \<longrightarrow> r = rid" using pop(7) by blast
  have "(word_of_nat i :: int64) = word_of_int ?mid" unfolding i [symmetric] by simp
  with rid i have row: "mi (word_of_int ?mid) = Some r" "mh r = Some (rowBytes i)" by simp_all
  obtain h t where m1: "measured ?fl h t tr1" "map_of (rows t) = mi" using tree_abs_measured [OF pop(3,5)] by blast
  note k = row(1) [folded m1(2)]
  obtain tr2 where tr2: "BTree_ResetStats tr1 = (Ok (), tr2)" "measured ?fl h t tr2" "pageReads (pm tr2) = 0"
    using reset_measured [OF m1(1)] by blast
  obtain p tr3 where p: "pointLookup ?fl ?mid (hp1, tr2) = (Ok p, (hp1, tr3))" "IndexPageReads p = word_of_nat (Suc h)"
      "HeapPageReads p = 0" "measured ?fl h t tr3"
    using pointLookup_spec [OF tr2(2,3) k, of hp1] by blast
  obtain tr4 where tr4: "BTree_ResetStats tr3 = (Ok (), tr4)" "measured ?fl h t tr4" using reset_measured [OF p(4)] by blast
  obtain s tr5 where s: "rangeScan ?fl scanFuel ?mid (hp1, tr4) = (Ok s, (hp1, tr5))" "measured ?fl h t tr5"
    using rangeScan_spec [OF tr4(2) mid(1,3) k fuel(2), of hp1] by blast
  obtain tr6 where tr6: "BTree_ResetStats tr5 = (Ok (), tr6)" "measured ?fl h t tr6" "pageReads (pm tr6) = 0"
    using reset_measured [OF s(2)] by blast
  obtain q hp7 tr7 where q: "secondaryLookup ?fl ?mid r (hp1, tr6) = (Ok q, (hp7, tr7))" "IndexPageReads q = word_of_nat (Suc h)"
      "HeapPageReads q = 1" "measured ?fl h t tr7"
    using secondaryLookup_spec [OF tr6(2,3) k pop(2) row(2) pop(4)] pop(6) hp0(2) by auto
  obtain tr8 w2 where tr8: "closeTree E tr7 = (Ok (), tr8)" "btree_Open (Ok (fileWith (content (pm_file (pm tr8))))) [] = Ok w2" "tree_inv 8 h t w2"
    using closeTree_spec [of 8 h t tr7 E 16 False "[]"] q(4) order by (auto simp: measured_def btree_Open_def)
  have "RunReadExperiments E scanFuel n = (Ok [p, s, q], Some (snd (closeHeap E hp7), tr8))"
    unfolding RunReadExperiments_def fresh using n(1) pop(1) tr2(1) p(1) tr4(1) s(1) tr6(1) q(1) tr8(1)
    by (simp add: running_def deferring_def closeBoth_def tr(1) hp(1) Let_def exec_simps)
  with tr8(2,3) p(2,3) q(2,3) show ?thesis by blast
qed

end
