(* ===== verification/Writes_Spec.thy ===== *)
theory Writes_Spec
  imports Reads_Spec
begin

text \<open>
  The write experiments of \<^verbatim>\<open>writes.go\<close>: without a pool a row costs one page write in the heap, insertions merge no page, and
  the scenarios report the sum of what the heap and the indexes wrote.
\<close>

section \<open>Counting writes\<close>

abbreviation writesKept :: "uint64 \<Rightarrow> ('s store_scheme, 'a) op \<Rightarrow> bool" where
  "writesKept c f \<equiv> preserves (\<lambda>w. pool w = None \<and> pageWrites (pm w) = c) f"

lemma writesKept_objects [stays]: "writesKept c (newObj p)" "writesKept c (deref a)" "writesKept c (assign a p)" "writesKept c AllocatePageID"
  by (simp_all add: preserves_def newObj_def deref_def assign_def AllocatePageID_def)

lemma writesKept_withFile [stays]: "writesKept c (withFile act)"
  by (simp add: preserves_def withFile_def split: prod.splits)

lemma writePage_writes:
  assumes "pool w = None" "writePage a w = (r, w')"
  shows "pool w' = None" "pageWrites (pm w') = pageWrites (pm w) + 1"
proof -
  let ?w = "w\<lparr>pm := (pm w)\<lparr>pageWrites := pageWrites (pm w) + 1\<rparr>\<rparr>"
  let ?rest = "sbind (deref a) (\<lambda>p. let offset = ID p * word_of_nat PageSize in
     sbind (withFile (fileSeek offset)) (\<lambda>_. withFile (fileWrite (Data p))))"
  have kept: "writesKept (pageWrites (pm w) + 1) ?rest" by (intro stays)
  have run: "?rest ?w = (r, w')" using assms by (simp add: writePage_def WritePage_def exec_simps)
  have "pool w' = None \<and> pageWrites (pm w') = pageWrites (pm w) + 1"
    by (rule preservesD [OF kept _ run]) (use assms(1) in simp)
  then show "pool w' = None" "pageWrites (pm w') = pageWrites (pm w) + 1" by simp_all
qed

lemma Heap_Put_writes:
  assumes "pool w = None" "Heap_Put row w = (Ok rid, w')"
  shows "pool w' = None" "pageWrites (pm w') = pageWrites (pm w) + 1"
proof -
  have "\<not> HeaderSize + SlotSize + length row > PageSize" using assms(2) by (auto simp: Heap_Put_def sfail_def)
  then obtain a w1 w2 where steps: "sbind (roomyPage (length row)) (\<lambda>a. sbind (deref a) (\<lambda>p. let slotIndex = NumEntries p in
        sbind (slift (InsertEntry p slotIndex row)) (\<lambda>p'. sbind (assign a p') (\<lambda>_. sret (a, recordIDOf (ID p') slotIndex))))) w = (Ok (a, rid), w1)"
      "writePage a w1 = (Ok (), w2)" "w' = w2"
    using assms(2) by (auto simp: Heap_Put_def heap_writePage_def Let_def sbind_eq_Ok sret_def)
  have "writesKept (pageWrites (pm w)) (sbind (roomyPage (length row)) (\<lambda>a. sbind (deref a) (\<lambda>p. let slotIndex = NumEntries p in
        sbind (slift (InsertEntry p slotIndex row)) (\<lambda>p'. sbind (assign a p') (\<lambda>_. sret (a, recordIDOf (ID p') slotIndex))))))"
    unfolding roomyPage_def by (intro stays) simp
  from preservesD [OF this _ steps(1)] assms(1) have "pool w1 = None" "pageWrites (pm w1) = pageWrites (pm w)" by auto
  with writePage_writes [OF _ steps(2)] steps(3) show "pool w' = None" "pageWrites (pm w') = pageWrites (pm w) + 1" by simp_all
qed

lemma heap_Open_writes:
  assumes "heap_Open (Ok (fileWith [])) [] = Ok w"
  shows "pageWrites (pm w) = 1"
proof -
  have "storage_Open (Ok (fileWith [])) = Ok (pm (heapState [] None))"
    by (simp add: storage_Open_def syscall_quiet fileWith_def heapState_def)
  then have open0: "(case openActive (heapState [] None) of (r, h) \<Rightarrow> rbind r (\<lambda>a. Ok (h\<lparr>activePage := a\<rparr>))) = Ok w"
    using assms by (simp add: heap_Open_def heapState_def)
  then obtain a w1 where run: "openActive (heapState [] None) = (Ok a, w1)" "w = w1\<lparr>activePage := a\<rparr>"
    by (cases "openActive (heapState [] None)") (auto simp: rbind_eq_Ok)
  have n0: "PageCount (heapState [] None) = 0" by (simp add: PageCount_def heapState_def)
  obtain w2 where w2: "sbind AllocatePageID (\<lambda>v. newObj (NewHeapPage v)) (heapState [] None) = (Ok a, w2)" "writePage a w2 = (Ok (), w1)"
    using run(1) n0 by (auto simp: openActive_def heap_writePage_def sbind_eq_Ok sret_def sget_def)
  have "writesKept 0 (sbind AllocatePageID (\<lambda>v. newObj (NewHeapPage v)) :: (Heap, addr) op)" by (intro stays)
  from preservesD [OF this _ w2(1)] have "pool w2 = None" "pageWrites (pm w2) = 0" by (auto simp: heapState_def)
  with writePage_writes [OF _ w2(2)] run(2) show ?thesis by simp
qed

section \<open>Insertions merge nothing\<close>

abbreviation mergesKept :: "uint64 \<Rightarrow> (BTree, 'a) op \<Rightarrow> bool" where
  "mergesKept c f \<equiv> preserves (\<lambda>w. pool w = None \<and> pageMerges w = c) f"

lemma mergesKept_steps [stays]:
  "mergesKept c (newObj p)" "mergesKept c (deref a)" "mergesKept c (assign a p)" "mergesKept c AllocatePageID" "mergesKept c (withFile act)"
  by (simp_all add: preserves_def newObj_def deref_def assign_def AllocatePageID_def withFile_def split: prod.splits)

lemma mergesKept_manager [stays]: "mergesKept c AllocatePage" "mergesKept c (readPage v)" "mergesKept c (writePage a)"
proof -
  show "mergesKept c AllocatePage" unfolding AllocatePage_def by (intro stays)
  have "mergesKept c (ReadPage v)" unfolding ReadPage_def by (intro stays) simp
  then show "mergesKept c (readPage v)" by (simp add: preserves_def readPage_def)
  have "mergesKept c (WritePage a)" unfolding WritePage_def by (intro stays) simp
  then show "mergesKept c (writePage a)" by (simp add: preserves_def writePage_def)
qed

lemma mergesKept_mutate [stays]: "mergesKept c (mutate a f)" "mergesKept c (mutate2 a b g)"
  unfolding mutate_def mutate2_def by (intro stays)+

lemma mergesKept_descend [stays]: "mergesKept c (descend n k a anc)"
  by (induction n arbitrary: a anc) (simp_all, (intro stays | assumption)+)

lemma mergesKept_find [stays]: "mergesKept c (findLeafWithPath n k)" "mergesKept c (updateNextLeafPrevLink a)"
  unfolding findLeafWithPath_def updateNextLeafPrevLink_def by (intro stays)+

lemma mergesKept_propagate [stays]: "mergesKept c (propagateSplit a b s anc)"
proof (induction anc arbitrary: a b s rule: rev_induct)
  case Nil
  show ?case by (simp add: propagateSplit.simps) (intro stays; simp)
next
  case (snoc i anc)
  show ?case
    unfolding propagateSplit.simps [of a b s "anc @ [i]"] by (simp add: Let_def) (intro stays snoc.IH; simp)
qed

lemma mergesKept_insert [stays]: "mergesKept c (BTree_Insert n k v)"
  unfolding BTree_Insert_def by (intro stays) simp

lemma mergesKept_search [stays]: "mergesKept c (BTree_Search n k)"
  unfolding preserves_def
proof (intro allI impI)
  fix w :: BTree
  assume w: "pool w = None \<and> pageMerges w = c"
  obtain r w1 where f: "findLeafWithPath n (EncodeInt64 k) w = (r, w1)" by (cases "findLeafWithPath n (EncodeInt64 k) w")
  have w1: "pool w1 = None \<and> pageMerges w1 = c" using preservesD [OF mergesKept_find(1) w f] .
  have "mergesKept c (sbind (deref a) (\<lambda>p. slift (Search p k)))" for a by (intro stays)
  then show "pool (snd (BTree_Search n k w)) = None \<and> pageMerges (snd (BTree_Search n k w)) = c"
    using f w1 unfolding preserves_def BTree_Search_def Let_def by (auto split: res.splits prod.splits)
qed

section \<open>One row\<close>

text \<open>A heap without a pool that has written \<open>c\<close> pages, and a tree without a pool that holds the keys \<open>D\<close> and has merged nothing.\<close>

definition heapAt :: "nat \<Rightarrow> nat \<Rightarrow> Heap \<Rightarrow> bool" where
  "heapAt n c hp \<longleftrightarrow> (\<exists>m. heap_abs n hp m) \<and> pool hp = None \<and> pageWrites (pm hp) = word_of_nat c"

definition treeAt :: "nat \<Rightarrow> nat \<Rightarrow> int64 set \<Rightarrow> BTree \<Rightarrow> bool" where
  "treeAt fl n D tr \<longleftrightarrow> (\<exists>m. tree_abs fl False n tr m \<and> dom m = D) \<and> pool tr = None \<and> pageMerges tr = 0"

lemma put_step:
  assumes "heapAt (Suc n) c hp" "i < 10 ^ 20"
  shows "\<exists>rid hp'. Heap_Put (rowBytes i) hp = (Ok rid, hp') \<and> heapAt n (Suc c) hp'"
proof -
  obtain m where m: "heap_abs (Suc n) hp m" "pool hp = None" "pageWrites (pm hp) = word_of_nat c" using assms(1) by (auto simp: heapAt_def)
  have len: "length (rowBytes i) \<le> 4071" using length_rowBytes [OF assms(2)] by simp
  obtain rid hp' where hp': "Heap_Put (rowBytes i) hp = (Ok rid, hp')" "heap_abs n hp' (m(rid \<mapsto> rowBytes i))"
    using heap.put_law [OF m(1) len] by blast
  with Heap_Put_writes [OF m(2) hp'(1)] m(3) show ?thesis unfolding heapAt_def by fastforce
qed

lemma insert_step:
  assumes "treeAt fl (Suc n) D tr" "k \<notin> D"
  shows "\<exists>tr'. BTree_Insert fl k v tr = (Ok (), tr') \<and> treeAt fl n (insert k D) tr'"
proof -
  obtain m where m: "tree_abs fl False (Suc n) tr m" "dom m = D" "pool tr = None" "pageMerges tr = 0" using assms(1) by (auto simp: treeAt_def)
  obtain tr' where tr': "BTree_Insert fl k v tr = (Ok (), tr')" "tree_abs fl False n tr' (m(k \<mapsto> v))"
    using any_tree.insert_law [OF m(1)] assms(2) m(2) by blast
  have "pool tr' = None \<and> pageMerges tr' = 0" using preservesD [OF mergesKept_insert _ tr'(1)] m(3,4) by blast
  with tr' m(2) show ?thesis unfolding treeAt_def by fastforce
qed

lemma tree_abs_spare: "tree_abs fl u (Suc n) w m \<Longrightarrow> tree_abs fl u n w m"
  unfolding tree_abs_def using budget_skip by fastforce

lemma upsert_step:
  assumes t: "treeAt fl (Suc n) D tr" and k: "k \<notin> D"
  shows "\<exists>tr'. Upsert fl \<lparr>Key = k, RecordID = v, RowStatus = rs\<rparr> tr = (Ok (), tr') \<and> treeAt fl n (if rs = Active then insert k D else D) tr'"
proof -
  obtain m where m: "tree_abs fl False (Suc n) tr m" "dom m = D" "pool tr = None" "pageMerges tr = 0" using t by (auto simp: treeAt_def)
  have none: "m k = None" using k m(2) by auto
  obtain w1 where w1: "BTree_Search fl k tr = (Ok (0, False), w1)" "tree_abs fl False (Suc n) w1 m"
    using any_tree.search_law [OF m(1), of k] none by auto
  have "pool w1 = None \<and> pageMerges w1 = 0" using preservesD [OF mergesKept_search _ w1(1)] m(3,4) by blast
  then have t1: "treeAt fl (Suc n) D w1" "treeAt fl n D w1" using w1(2) tree_abs_spare m(2) unfolding treeAt_def by blast+
  obtain w2 where "BTree_Insert fl k v w1 = (Ok (), w2)" "treeAt fl n (insert k D) w2" using insert_step [OF t1(1) k] by blast
  with w1(1) t1(2) show ?thesis by (cases "rs = Active") (auto simp: Upsert_def upsertWith_def exec_simps)
qed

lemma stats_step:
  assumes "treeAt fl 1 D tr"
  shows "\<exists>s tr'. BTree_Stats fl tr = (Ok s, tr') \<and> st_PageMerges s = 0"
proof -
  obtain m where m: "tree_abs fl False 1 tr m" "pool tr = None" "pageMerges tr = 0" using assms by (auto simp: treeAt_def)
  obtain h t where "measured fl h t tr" using tree_abs_measured [OF m(1,2)] by blast
  then have inv: "tree_inv 8 h t tr" and f: "h < fl" by (simp_all add: measured_def)
  from BTree_Stats_spec [OF inv _ f] poolless_disk [OF m(2)] m(3) show ?thesis by fastforce
qed

section \<open>The loops\<close>

lemma putRows_spec:
  "heapAt (n + length is) c hp \<Longrightarrow> \<forall>i \<in> set is. i < 10 ^ 20 \<Longrightarrow> \<exists>hp'. putRows is hp = (Ok (), hp') \<and> heapAt n (c + length is) hp'"
proof (induction "is" arbitrary: c hp)
  case (Cons i "is")
  then obtain rid hp1 where "Heap_Put (rowBytes i) hp = (Ok rid, hp1)" "heapAt (n + length is) (Suc c) hp1"
    using put_step [of "n + length is" c hp i] by auto
  with Cons.IH [of "Suc c" hp1] Cons.prems(2) show ?case by (auto simp: exec_simps)
qed (simp add: exec_simps)

lemma indexOne_spec:
  "heapAt (n + length is) c hp \<Longrightarrow> treeAt fl (n + length is) D tr \<Longrightarrow> \<forall>i \<in> set is. i < 10 ^ 20 \<Longrightarrow>
   distinct (map word_of_nat is :: int64 list) \<Longrightarrow> word_of_nat ` set is \<inter> D = {} \<Longrightarrow>
   \<exists>hp' tr'. indexRows Heap_Put (BTree_Insert fl) (map (\<lambda>i. (word_of_nat i, rowBytes i)) is) (hp, tr) = (Ok (), (hp', tr')) \<and>
     heapAt n (c + length is) hp' \<and> treeAt fl n (D \<union> word_of_nat ` set is) tr'"
proof (induction "is" arbitrary: c hp D tr)
  case (Cons i "is")
  obtain rid hp1 where hp1: "Heap_Put (rowBytes i) hp = (Ok rid, hp1)" "heapAt (n + length is) (Suc c) hp1"
    using put_step [of "n + length is" c hp i] Cons.prems(1,3) by auto
  obtain tr1 where tr1: "BTree_Insert fl (word_of_nat i) rid tr = (Ok (), tr1)" "treeAt fl (n + length is) (insert (word_of_nat i) D) tr1"
    using insert_step [of fl "n + length is" D tr "word_of_nat i" rid] Cons.prems(2,5) by auto
  have "word_of_nat ` set is \<inter> insert (word_of_nat i) D = ({} :: int64 set)" using Cons.prems(4,5) by auto
  then obtain hp' tr' where "indexRows Heap_Put (BTree_Insert fl) (map (\<lambda>i. (word_of_nat i, rowBytes i)) is) (hp1, tr1) = (Ok (), (hp', tr'))"
      "heapAt n (Suc c + length is) hp'" "treeAt fl n (insert (word_of_nat i) D \<union> word_of_nat ` set is) tr'"
    using Cons.IH [OF hp1(2) tr1(2)] Cons.prems(3,4) by auto
  with hp1(1) tr1(1) show ?case by (simp add: exec_simps)
qed (simp add: exec_simps)

lemma indexTwice_spec:
  "heapAt (n + length is) c hp \<Longrightarrow> treeAt fl (n + length is) D tr \<Longrightarrow> treeAt fl (n + length is) B tr2 \<Longrightarrow> \<forall>i \<in> set is. i < 10 ^ 20 \<Longrightarrow>
   distinct (map word_of_nat is :: int64 list) \<Longrightarrow> word_of_nat ` set is \<inter> D = {} \<Longrightarrow>
   distinct (map (\<lambda>i. word_of_int (N - int i)) is :: int64 list) \<Longrightarrow> (\<lambda>i. word_of_int (N - int i)) ` set is \<inter> B = {} \<Longrightarrow>
   \<exists>hp' tr' tr2' D' B'. indexTwice fl N is (hp, (tr, tr2)) = (Ok (), (hp', (tr', tr2'))) \<and>
     heapAt n (c + length is) hp' \<and> treeAt fl n D' tr' \<and> treeAt fl n B' tr2'"
proof (induction "is" arbitrary: c hp D tr B tr2)
  case (Cons i "is")
  let ?k = "word_of_int (N - int i) :: int64"
  obtain rid hp1 where hp1: "Heap_Put (rowBytes i) hp = (Ok rid, hp1)" "heapAt (n + length is) (Suc c) hp1"
    using put_step [of "n + length is" c hp i] Cons.prems(1,4) by auto
  obtain tr' where tr': "BTree_Insert fl (word_of_nat i) rid tr = (Ok (), tr')" "treeAt fl (n + length is) (insert (word_of_nat i) D) tr'"
    using insert_step [of fl "n + length is" D tr "word_of_nat i" rid] Cons.prems(2,6) by auto
  obtain tr2' where tr2': "BTree_Insert fl ?k rid tr2 = (Ok (), tr2')" "treeAt fl (n + length is) (insert ?k B) tr2'"
    using insert_step [of fl "n + length is" B tr2 ?k rid] Cons.prems(3,8) by auto
  have "word_of_nat ` set is \<inter> insert (word_of_nat i) D = ({} :: int64 set)" using Cons.prems(5,6) by auto
  moreover have "(\<lambda>i. word_of_int (N - int i)) ` set is \<inter> insert ?k B = ({} :: int64 set)" using Cons.prems(7,8) by auto
  moreover have "\<forall>i \<in> set is. i < 10 ^ 20" "distinct (map word_of_nat is :: int64 list)" "distinct (map (\<lambda>i. word_of_int (N - int i)) is :: int64 list)"
    using Cons.prems(4,5,7) by simp_all
  ultimately obtain hp' t1 t2 D' B' where "indexTwice fl N is (hp1, (tr', tr2')) = (Ok (), (hp', (t1, t2)))"
      "heapAt n (Suc c + length is) hp'" "treeAt fl n D' t1" "treeAt fl n B' t2"
    using Cons.IH [OF hp1(2) tr'(2) tr2'(2)] by blast
  with hp1(1) tr'(1) tr2'(1) show ?case by (auto simp: exec_simps)
qed (auto simp: exec_simps)

lemma indexActive_spec:
  "heapAt (n + length is) c hp \<Longrightarrow> treeAt fl (n + length is) D tr \<Longrightarrow> \<forall>i \<in> set is. i < 10 ^ 20 \<Longrightarrow>
   distinct (map word_of_nat is :: int64 list) \<Longrightarrow> word_of_nat ` set is \<inter> D = {} \<Longrightarrow>
   \<exists>hp' tr'. indexActive fl is (hp, tr) = (Ok (), (hp', tr')) \<and>
     heapAt n (c + length is) hp' \<and> treeAt fl n (D \<union> word_of_nat ` {i \<in> set is. even i}) tr'"
proof (induction "is" arbitrary: c hp D tr)
  case (Cons i "is")
  let ?D = "if even i then insert (word_of_nat i) D else D"
  obtain rid hp1 where hp1: "Heap_Put (rowBytes i) hp = (Ok rid, hp1)" "heapAt (n + length is) (Suc c) hp1"
    using put_step [of "n + length is" c hp i] Cons.prems(1,3) by auto
  let ?row = "\<lparr>Key = word_of_nat i, RecordID = rid, RowStatus = (if i mod 2 = 0 then Active else Deleted)\<rparr>"
  obtain tr1 where tr1: "Upsert fl ?row tr = (Ok (), tr1)" "treeAt fl (n + length is) ?D tr1"
    using upsert_step [of fl "n + length is" D tr "word_of_nat i" rid "if i mod 2 = 0 then Active else Deleted"] Cons.prems(2,5)
    by (auto simp: even_iff_mod_2_eq_zero split: if_splits)
  have "word_of_nat ` set is \<inter> ?D = ({} :: int64 set)" using Cons.prems(4,5) by auto
  then obtain hp' tr' where "indexActive fl is (hp1, tr1) = (Ok (), (hp', tr'))"
      "heapAt n (Suc c + length is) hp'" "treeAt fl n (?D \<union> word_of_nat ` {i \<in> set is. even i}) tr'"
    using Cons.IH [OF hp1(2) tr1(2)] Cons.prems(3,4) by auto
  moreover have "?D \<union> word_of_nat ` {i \<in> set is. even i} = D \<union> word_of_nat ` {j \<in> set (i # is). even j}" by auto
  ultimately show ?case using hp1(1) tr1(1) by (auto simp: exec_simps)
qed (simp add: exec_simps)

section \<open>New files\<close>

lemma openRoot_merges: "mergesKept c openRoot"
  unfolding openRoot_def by (intro stays) (simp add: SetNextPageID_def preserves_def smod_def)

lemma btree_Open_merges:
  assumes "btree_Open (Ok (fileWith [])) [] = Ok w"
  shows "pageMerges w = 0"
proof -
  have "storage_Open (Ok (fileWith [])) = Ok (pm (openState [] 16 False None))"
    by (simp add: storage_Open_def syscall_quiet fileWith_def openState_def)
  then have open0: "(case openRoot (openState [] 16 False None) of (r, t) \<Rightarrow> rbind r (\<lambda>root. Ok (t\<lparr>rootID := root\<rparr>))) = Ok w"
    using assms by (simp add: btree_Open_def openWith_def openState_def)
  then obtain v t where run: "openRoot (openState [] 16 False None) = (Ok v, t)" "w = t\<lparr>rootID := v\<rparr>"
    by (cases "openRoot (openState [] 16 False None)") (auto simp: rbind_eq_Ok)
  from preservesD [OF openRoot_merges _ run(1)] run(2) show ?thesis by (auto simp: openState_def)
qed

lemma emptyTreeAt:
  assumes "n < fl" "n < 2 ^ 20"
  shows "\<exists>tr. btree_Open (Ok (fileWith [])) [] = Ok tr \<and> treeAt fl (1 + n) {} tr"
proof -
  obtain tr where tr: "btree_Open (Ok (fileWith [])) [] = Ok tr" "tree_abs fl False (1 + n) tr Map.empty" "pool tr = None"
    using btree_Open_empty [of "1 + n" fl] assms by auto
  with btree_Open_merges [OF tr(1)] show ?thesis unfolding treeAt_def by fastforce
qed

lemma emptyHeapAt:
  assumes "n < 2 ^ 20"
  shows "\<exists>hp. heap_Open (Ok (fileWith [])) [] = Ok hp \<and> heapAt (1 + n) 1 hp"
proof -
  obtain hp where hp: "heap_Open (Ok (fileWith [])) [] = Ok hp" "heap_inv hp Map.empty" "nextPageID (pm hp) = 1"
    using heap_Open_empty by blast
  then have "heap_abs (1 + n) hp Map.empty" using assms by (simp add: heap_abs_def)
  with heap_Open_poolless(1) [OF hp(1)] heap_Open_writes [OF hp(1)] hp(1) show ?thesis unfolding heapAt_def by auto
qed

section \<open>The scenarios\<close>

lemma heapAt_writes: "heapAt n c hp \<Longrightarrow> Heap_PageWrites hp = word_of_nat c"
  by (simp add: heapAt_def Heap_PageWrites_def PageWrites_def)

lemma smallRows: "n < 2 ^ 20 \<Longrightarrow> \<forall>i \<in> set [0..<n]. i < (10 :: nat) ^ 20"
  by auto

lemma runNoIndexScenario_spec:
  assumes "files E ''writecost-none-heap.db'' = Ok (fileWith [])" and n: "0 \<le> n" "n < 2 ^ 20"
  shows "\<exists>r. fst (runNoIndexScenario E n) = Ok r \<and> IndexWrites r = 0 \<and> wc_TotalPages r = word_of_int (n + 1) \<and> wc_PageMerges r = 0"
proof -
  have N: "nat n < 2 ^ 20" using n by simp
  obtain hp where hp: "heap_Open (Ok (fileWith [])) [] = Ok hp" "heapAt (1 + length [0..<nat n]) 1 hp" using emptyHeapAt [OF N] by auto
  obtain hp' where "putRows [0..<nat n] hp = (Ok (), hp')" "heapAt 1 (1 + length [0..<nat n]) hp'"
    using putRows_spec [OF hp(2) smallRows [OF N]] by blast
  with hp(1) assms heapAt_writes [of 1 _ hp'] show ?thesis
    unfolding runNoIndexScenario_def by (simp add: running_def deferring_def exec_simps)
qed

lemma runOneIndexScenario_spec:
  assumes fresh: "\<And>name. files E name = Ok (fileWith [])" and n: "0 \<le> n" "n < 2 ^ 20" "n < int (maxSteps E)"
  shows "\<exists>r. fst (runOneIndexScenario E n) = Ok r \<and> wc_TotalPages r = word_of_int (n + 1) + IndexWrites r \<and> wc_PageMerges r = 0"
proof -
  let ?is = "[0..<nat n]" and ?fl = "maxSteps E"
  have N: "nat n < 2 ^ 20" "nat n < ?fl" "nat n \<le> 2 ^ 64" using n by simp_all
  obtain hp where hp: "heap_Open (Ok (fileWith [])) [] = Ok hp" "heapAt (1 + length ?is) 1 hp" using emptyHeapAt [OF N(1)] by auto
  obtain tr where tr: "btree_Open (Ok (fileWith [])) [] = Ok tr" "treeAt ?fl (1 + length ?is) {} tr" using emptyTreeAt [OF N(2,1)] by auto
  obtain hp' tr' where run: "indexRows Heap_Put (BTree_Insert ?fl) (map (\<lambda>i. (word_of_nat i, rowBytes i)) ?is) (hp, tr) = (Ok (), (hp', tr'))"
      "heapAt 1 (1 + length ?is) hp'" "treeAt ?fl 1 ({} \<union> word_of_nat ` set ?is) tr'"
    using indexOne_spec [OF hp(2) tr(2) smallRows [OF N(1)] word_of_nat_distinct [OF N(3)]] by blast
  obtain s tr'' where "BTree_Stats ?fl tr' = (Ok s, tr'')" "st_PageMerges s = 0" using stats_step [OF run(3)] by blast
  with hp(1) tr(1) run(1) heapAt_writes [OF run(2)] n(1) show ?thesis
    unfolding runOneIndexScenario_def fresh by (simp add: running_def deferring_def pairRes_def closeBoth_def exec_simps)
qed

lemma backwards_distinct:
  assumes "n \<le> 2 ^ 64"
  shows "distinct (map (\<lambda>i. word_of_int (int n - int i)) [0..<n] :: int64 list)"
proof -
  have "inj_on (\<lambda>i. word_of_int (int n - int i) :: int64) (set [0..<n])"
  proof (rule inj_onI)
    fix i j assume "i \<in> set [0..<n]" "j \<in> set [0..<n]" "(word_of_int (int n - int i) :: int64) = word_of_int (int n - int j)"
    then have "(word_of_nat i :: int64) = word_of_nat j" "i < n" "j < n" by simp_all
    then show "i = j" using word_of_nat_distinct [OF assms] by (simp add: distinct_map inj_on_def)
  qed
  then show ?thesis by (simp add: distinct_map)
qed

lemma runMultiIndexScenario_spec:
  assumes fresh: "\<And>name. files E name = Ok (fileWith [])" and n: "0 \<le> n" "n < 2 ^ 20" "n < int (maxSteps E)"
  shows "\<exists>r. fst (runMultiIndexScenario E n) = Ok r \<and> wc_TotalPages r = word_of_int (n + 1) + IndexWrites r \<and> wc_PageMerges r = 0"
proof -
  let ?is = "[0..<nat n]" and ?fl = "maxSteps E"
  have N: "nat n < 2 ^ 20" "nat n < ?fl" "nat n \<le> 2 ^ 64" "int (nat n) = n" using n by simp_all
  obtain hp where hp: "heap_Open (Ok (fileWith [])) [] = Ok hp" "heapAt (1 + length ?is) 1 hp" using emptyHeapAt [OF N(1)] by auto
  obtain tr where tr: "btree_Open (Ok (fileWith [])) [] = Ok tr" "treeAt ?fl (1 + length ?is) {} tr" using emptyTreeAt [OF N(2,1)] by auto
  obtain hp' tr1 tr2 D B where run: "indexTwice ?fl n ?is (hp, (tr, tr)) = (Ok (), (hp', (tr1, tr2)))"
      "heapAt 1 (1 + length ?is) hp'" "treeAt ?fl 1 D tr1" "treeAt ?fl 1 B tr2"
    using indexTwice_spec [OF hp(2) tr(2) tr(2) smallRows [OF N(1)] word_of_nat_distinct [OF N(3)], of n]
      backwards_distinct [OF N(3)] N(4) by auto
  obtain s1 tr1' where "BTree_Stats ?fl tr1 = (Ok s1, tr1')" "st_PageMerges s1 = 0" using stats_step [OF run(3)] by blast
  moreover obtain s2 tr2' where "BTree_Stats ?fl tr2 = (Ok s2, tr2')" "st_PageMerges s2 = 0" using stats_step [OF run(4)] by blast
  ultimately show ?thesis
    using hp(1) tr(1) run(1) heapAt_writes [OF run(2)] n(1)
    unfolding runMultiIndexScenario_def fresh by (simp add: running_def deferring_def pairRes_def closeBoth_def exec_simps)
qed

lemma runPartialIndexScenario_spec:
  assumes fresh: "\<And>name. files E name = Ok (fileWith [])" and n: "0 \<le> n" "n < 2 ^ 20" "n < int (maxSteps E)"
  shows "\<exists>r. fst (runPartialIndexScenario E n) = Ok r \<and> wc_TotalPages r = word_of_int (n + 1) + IndexWrites r \<and> wc_PageMerges r = 0"
proof -
  let ?is = "[0..<nat n]" and ?fl = "maxSteps E"
  have N: "nat n < 2 ^ 20" "nat n < ?fl" "nat n \<le> 2 ^ 64" using n by simp_all
  obtain hp where hp: "heap_Open (Ok (fileWith [])) [] = Ok hp" "heapAt (1 + length ?is) 1 hp" using emptyHeapAt [OF N(1)] by auto
  obtain tr where tr: "btree_Open (Ok (fileWith [])) [] = Ok tr" "treeAt ?fl (1 + length ?is) {} tr" using emptyTreeAt [OF N(2,1)] by auto
  obtain hp' tr' where run: "indexActive ?fl ?is (hp, tr) = (Ok (), (hp', tr'))" "heapAt 1 (1 + length ?is) hp'"
      "treeAt ?fl 1 ({} \<union> word_of_nat ` {i \<in> set ?is. even i}) tr'"
    using indexActive_spec [OF hp(2) tr(2) smallRows [OF N(1)] word_of_nat_distinct [OF N(3)]] by blast
  obtain s tr'' where "BTree_Stats ?fl tr' = (Ok s, tr'')" "st_PageMerges s = 0" using stats_step [OF run(3)] by blast
  with hp(1) tr(1) run(1) heapAt_writes [OF run(2)] n(1) show ?thesis
    unfolding runPartialIndexScenario_def fresh
    by (simp add: running_def deferring_def pairRes_def closeBoth_def partial_Open_def PartialIndex_Stats_def exec_simps)
qed

end
