(* ===== verification/Bufferpool_Spec.thy ===== *)
theory Bufferpool_Spec
  imports Experiment_Spec
begin

text \<open>
  The comparison of \<^verbatim>\<open>bufferpool.go\<close>: with any buffer pool the workload inserts its keys, the sync brings every page of
  the tree into the file before the statistics walk it there, and the file that is closed holds the rows.
\<close>

text \<open>With a pool the walk of \<^verbatim>\<open>Stats\<close> reads the file, which holds the tree only after a sync.\<close>

lemma sync_then_stats:
  assumes inv: "tree_inv 8 h t w" and order: "\<forall>xs. set (mapOrder E xs) = set xs" and fuel: "h < fuel"
  shows "\<exists>s w1 w2. syncTree E w = (Ok (), w1) \<and> BTree_Stats fuel w1 = (Ok s, w2) \<and> tree_inv 8 h t w2 \<and>
    Height s = int h + 1 \<and> TotalEntries s = int (length (contents t))"
proof -
  have walk: "walk_of (walk (mapOrder E) w) w" using order by (simp add: walk_of_def walk_def)
  have ok: "sound w" using inv by (simp add: tree_inv_def)
  obtain w1 where w1: "store_Sync (walk (mapOrder E) w) w = (Ok (), w1)" "store_ok (stale w) w1" "keeps (stale w) w w1"
      "\<forall>v p. known w v = Some p \<longrightarrow> diskPage w1 v = Some (Data p)"
    using store_Sync_spec [OF ok walk] by blast
  note s = st_initial_keeps [OF ok w1(3,2)]
  have rep: "rep 8 (known w) t" using inv by (simp add: tree_inv_def tree_in_def)
  have "tree_inv 8 h t w1" using tree_inv_st [OF inv s] by simp
  from stats_onDisk [OF this rep st_le_known [OF s] w1(4) fuel] w1(1) show ?thesis
    by (fastforce simp: syncTree_def BTree_Sync_def)
qed

lemma btree_Open_pools:
  assumes "n \<le> fl" "n < 2 ^ 21"
  shows "\<exists>w. btree_Open (Ok (fileWith [])) opts = Ok w \<and> tree_abs fl False n w Map.empty"
proof -
  obtain w where w: "btree_Open (Ok (fileWith [])) opts = Ok w" "tree_inv 8 0 (Leaf 1 []) w" "\<not> unique w" "nextPageID (pm w) = 2"
    using openWith_empty [of 16 False opts 8] by (auto simp: btree_Open_def)
  have "n * (0 + n + 2) \<le> 2 ^ 21 * (0 + 2 ^ 21 + 2)" using assms(2) by (intro mult_mono add_mono) simp_all
  then have "tree_abs fl False n w Map.empty"
    using w assms(1) unfolding tree_abs_def by (intro exI [of _ 0] exI [of _ "Leaf 1 []"]) (simp add: rows_def rowsOf_def)
  with w(1) show ?thesis by blast
qed

lemma runBufferPoolScenario_spec:
  assumes fresh: "files E (''bufferpool-'' @ pattern @ ''-'' @ sanitizeLabel label @ ''.db'') = Ok (fileWith [])" and ks: "distinct ks"
    and fuel: "length ks < maxSteps E" "length ks < 2 ^ 20" and order: "\<forall>xs. set (mapOrder E xs) = set xs"
  shows "\<exists>r w h t w2. runBufferPoolScenario E label pattern ks opts = (Ok r, Some w) \<and> Label r = label \<and> bp_Pattern r = pattern \<and>
    bp_InsertCount r = int (length ks) \<and> closed (pm_file (pm w)) \<and>
    btree_Open (Ok (fileWith (content (pm_file (pm w))))) opts' = Ok w2 \<and> tree_inv 8 h t w2 \<and> map_of (rows t) = map_of (identRows ks)"
proof -
  obtain w where w: "btree_Open (Ok (fileWith [])) opts = Ok w" "tree_abs (maxSteps E) False (1 + length ks) w Map.empty"
    using btree_Open_pools [of "1 + length ks" "maxSteps E" opts] fuel by auto
  obtain w1 where w1: "\<forall>msg. insertKeys (maxSteps E) msg ks w = (Ok (), w1)" "tree_abs (maxSteps E) False 1 w1 (map_of (identRows ks))"
    using insertKeys_spec [OF w(2) ks] by auto
  obtain h t where t: "tree_inv 8 h t w1" "map_of (rows t) = map_of (identRows ks)" "h < maxSteps E"
    using w1(2) by (auto simp: tree_abs_def)
  obtain s w2 w3 where s: "syncTree E w1 = (Ok (), w2)" "BTree_Stats (maxSteps E) w2 = (Ok s, w3)" "tree_inv 8 h t w3"
    using sync_then_stats [OF t(1) order t(3)] by blast
  obtain w4 w5 where w4: "closeTree E w3 = (Ok (), w4)" "closed (pm_file (pm w4))"
      "btree_Open (Ok (fileWith (content (pm_file (pm w4))))) opts' = Ok w5" "tree_inv 8 h t w5"
    using closeTree_spec [OF s(3) order, of 16 False opts'] by (auto simp: btree_Open_def)
  let ?r = "\<lparr>Label = label, bp_Pattern = pattern, bp_InsertCount = int (length ks), bp_PageReads = st_PageReads s,
      bp_PageWrites = st_PageWrites s, bp_Duration = elapsed E label\<rparr>"
  have "runBufferPoolScenario E label pattern ks opts = (Ok ?r, Some w4)"
    unfolding runBufferPoolScenario_def fresh
    by (simp add: running_def deferring_def w(1) w1(1) s(1,2) w4(1) exec_simps)
  with w4 t(2) show ?thesis by fastforce
qed

end
