(* ===== verification/Command.thy ===== *)
theory Command
  imports Experiment
begin

text \<open>
  \<^verbatim>\<open>cmd/indexlab/main.go\<close>: which experiments run, in which order, what is printed and how the program
  ends. A table is its header and its rows of cells; what is printed is a list of lines and tables. The console is a record of parameters:
  \<open>showDuration\<close> is \<^verbatim>\<open>time.Duration.String\<close>, \<open>flush\<close> the outcome of \<^verbatim>\<open>tabwriter.Flush\<close> on the standard output.
\<close>

section \<open>Flags and tables\<close>

record flags =
  outDir :: string
  n_flag :: int
  poolCapacity :: int
  syncInterval :: int
  which :: string

record Table =
  header_cells :: "string list"
  row_cells :: "string list list"

record console =
  showDuration :: "int64 \<Rightarrow> string"
  flush :: "Table \<Rightarrow> unit res"

definition utoa :: "uint64 \<Rightarrow> string" where
  "utoa x = itoa (uint x)"

text \<open>
  What a run prints: a line of \<^verbatim>\<open>fmt.Println\<close>, or a table that \<^verbatim>\<open>Flush\<close> has written in full; what
  a failing \<^verbatim>\<open>Flush\<close> has written of its table is not recorded. An experiment has an output and an outcome, and a line
  that was printed before an error stays printed.
\<close>

datatype printout = Line string | Aligned Table

type_synonym report = "printout list \<times> unit res"

fun println :: "string \<Rightarrow> report \<Rightarrow> report" where
  "println s (out, r) = (Line s # out, r)"

definition whenOk :: "'a res \<Rightarrow> ('a \<Rightarrow> report) \<Rightarrow> report" where
  "whenOk r f = (case r of Ok x \<Rightarrow> f x | Err e \<Rightarrow> ([], Err e) | Panic \<Rightarrow> ([], Panic) | Hang \<Rightarrow> ([], Hang))"

text \<open>\<^verbatim>\<open>newTable\<close> with the rows printed to it, and \<^verbatim>\<open>flushTable\<close>\<close>

definition newTable :: "string list \<Rightarrow> string list list \<Rightarrow> Table" where
  "newTable headers rs = \<lparr>header_cells = headers, row_cells = rs\<rparr>"

definition flushTable :: "console \<Rightarrow> Table \<Rightarrow> report" where
  "flushTable C t = whenOk (flush C t) (\<lambda>_. ([Aligned t, Line []], Ok ()))"

section \<open>The experiments\<close>

definition runWorkloadExperiment :: "console \<Rightarrow> env \<Rightarrow> int \<Rightarrow> report" where
  "runWorkloadExperiment C E n =
     whenOk (RunAllWorkloads E n) (\<lambda>results.
     println ''=== Workload experiment (key-generation pattern vs. tree shape) ===''
       (flushTable C (newTable [''PATTERN'', ''INSERTS'', ''SPLITS'', ''WRITES'', ''HEIGHT'', ''PAGES'']
       (map (\<lambda>r. [Pattern r, itoa (InsertCount r), utoa (wr_PageSplits r), utoa (wr_PageWrites r),
         itoa (FinalHeight r), itoa (FinalPageCount r)]) results))))"

definition runReadsExperiment :: "console \<Rightarrow> env \<Rightarrow> nat \<Rightarrow> int \<Rightarrow> report" where
  "runReadsExperiment C E scanFuel n =
     whenOk (fst (RunReadExperiments E scanFuel n)) (\<lambda>results.
     println ''=== Read experiment (pages touched per operation) ===''
       (flushTable C (newTable [''OPERATION'', ''INDEX READS'', ''HEAP READS'', ''TOTAL'']
       (map (\<lambda>r. [Operation r, utoa (IndexPageReads r), utoa (HeapPageReads r), utoa (rd_TotalPages r)]) results))))"

definition runWritesExperiment :: "console \<Rightarrow> env \<Rightarrow> int \<Rightarrow> report" where
  "runWritesExperiment C E n =
     whenOk (RunWriteCostExperiments E n) (\<lambda>results.
     println ''=== Write-cost experiment (indexing overhead) ===''
       (flushTable C (newTable [''SCENARIO'', ''INDEX WRITES'', ''SPLITS'', ''MERGES'', ''TOTAL PAGES'']
       (map (\<lambda>r. [Scenario r, utoa (IndexWrites r), utoa (wc_PageSplits r), utoa (wc_PageMerges r), utoa (wc_TotalPages r)]) results))))"

definition runBufferPoolExperiment :: "console \<Rightarrow> env \<Rightarrow> int \<Rightarrow> int \<Rightarrow> report" where
  "runBufferPoolExperiment C E n cap =
     whenOk (RunBufferPoolComparison E Random n cap) (\<lambda>results.
     println ''=== Buffer pool experiment (deferred writes vs. write-through) ===''
       (flushTable C (newTable [''LABEL'', ''INSERTS'', ''PAGE READS'', ''PAGE WRITES'', ''DURATION'']
       (map (\<lambda>r. [Label r, itoa (bp_InsertCount r), utoa (bp_PageReads r), utoa (bp_PageWrites r),
         showDuration C (bp_Duration r)]) results))))"

definition runSyncExperiment :: "console \<Rightarrow> env \<Rightarrow> int \<Rightarrow> int \<Rightarrow> report" where
  "runSyncExperiment C E n interval =
     whenOk (RunSyncCostExperiments E n interval) (\<lambda>results.
     println ''=== Sync-cost experiment (durability boundary overhead) ===''
       (flushTable C (newTable [''STRATEGY'', ''INSERTS'', ''SYNC CALLS'', ''DURATION'']
       (map (\<lambda>r. [Strategy r, itoa (sc_InsertCount r), utoa (sc_SyncCalls r), showDuration C (Duration r)]) results))))"

section \<open>The program\<close>

text \<open>The map \<^verbatim>\<open>runners\<close>; \<open>envOf\<close> gives the environment an experiment finds.\<close>

definition runners :: "console \<Rightarrow> (string \<Rightarrow> env) \<Rightarrow> nat \<Rightarrow> flags \<Rightarrow> string \<rightharpoonup> report" where
  "runners C envOf scanFuel F =
     [''workload'' \<mapsto> runWorkloadExperiment C (envOf ''workload'') (n_flag F),
      ''reads'' \<mapsto> runReadsExperiment C (envOf ''reads'') scanFuel (n_flag F),
      ''writes'' \<mapsto> runWritesExperiment C (envOf ''writes'') (n_flag F),
      ''bufferpool'' \<mapsto> runBufferPoolExperiment C (envOf ''bufferpool'') (n_flag F) (poolCapacity F),
      ''sync'' \<mapsto> runSyncExperiment C (envOf ''sync'') (n_flag F) (syncInterval F)]"

definition experimentOrder :: "string list" where
  "experimentOrder = [''workload'', ''reads'', ''writes'', ''bufferpool'', ''sync'']"

definition toRun :: "(string \<rightharpoonup> 'a) \<Rightarrow> string \<Rightarrow> string list option" where
  "toRun rs w =
     (if w = ''all'' then Some experimentOrder
      else case rs w of Some _ \<Rightarrow> Some [w] | None \<Rightarrow> None)"

text \<open>How the program ends: by returning, by \<^verbatim>\<open>os.Exit(1)\<close> after a message, by a panic or not at all.\<close>

datatype exit = Exit0 | Exit1 string | Panicked | Stuck

fun runNamed :: "(string \<rightharpoonup> report) \<Rightarrow> string list \<Rightarrow> printout list \<times> exit" where
  "runNamed rs [] = ([], Exit0)"
| "runNamed rs (name # names) =
     (case rs name of
        None \<Rightarrow> ([], Panicked)
      | Some (out, Ok _) \<Rightarrow> (case runNamed rs names of (out', x) \<Rightarrow> (out @ out', x))
      | Some (out, Err e) \<Rightarrow> (out, Exit1 (name @ '' experiment failed''))
      | Some (out, Panic) \<Rightarrow> (out, Panicked)
      | Some (out, Hang) \<Rightarrow> (out, Stuck))"

text \<open>The deferred \<^verbatim>\<open>os.RemoveAll\<close> runs on return and on a panic; \<^verbatim>\<open>os.Exit\<close> skips deferred calls.\<close>

fun runsDeferred :: "exit \<Rightarrow> bool" where
  "runsDeferred Exit0 = True"
| "runsDeferred (Exit1 msg) = False"
| "runsDeferred Panicked = True"
| "runsDeferred Stuck = False"

record outcome =
  printed :: "printout list"
  ended :: exit
  tempRemoved :: bool

text \<open>\<open>mkdir\<close> is the outcome of \<^verbatim>\<open>os.MkdirTemp\<close> (for the empty name) or of \<^verbatim>\<open>os.MkdirAll\<close>: the directory to use.\<close>

definition main ::
    "console \<Rightarrow> (string \<Rightarrow> string res) \<Rightarrow> (string \<Rightarrow> string \<Rightarrow> env) \<Rightarrow> nat \<Rightarrow> flags \<Rightarrow> outcome" where
  "main C mkdir envOf scanFuel F =
     (case mkdir (outDir F) of
        Ok dir \<Rightarrow>
          (let rs = runners C (envOf dir) scanFuel F in
           case (case toRun rs (which F) of
                   Some names \<Rightarrow> runNamed rs names
                 | None \<Rightarrow> ([], Exit1 ''unknown -run value''))
           of (ts, x) \<Rightarrow> \<lparr>printed = ts, ended = x, tempRemoved = (outDir F = [] \<and> runsDeferred x)\<rparr>)
      | Err e \<Rightarrow> \<lparr>printed = [], ended = Exit1 (if outDir F = [] then ''creating temp dir'' else ''creating output dir''),
                 tempRemoved = False\<rparr>
      | Panic \<Rightarrow> \<lparr>printed = [], ended = Panicked, tempRemoved = False\<rparr>
      | Hang \<Rightarrow> \<lparr>printed = [], ended = Stuck, tempRemoved = False\<rparr>)"

section \<open>Running a list of experiments\<close>

lemma runNamed_all:
  "(\<And>name. name \<in> set names \<Longrightarrow> rs name = Some (f name, Ok ())) \<Longrightarrow> runNamed rs names = (concat (map f names), Exit0)"
  by (induction names) auto

text \<open>The first failure ends the run after what was printed before it.\<close>

lemma runNamed_stops:
  "(\<And>name. name \<in> set before \<Longrightarrow> rs name = Some (f name, Ok ())) \<Longrightarrow> rs bad = Some (out, Err e) \<Longrightarrow>
     runNamed rs (before @ bad # rest) = (concat (map f before) @ out, Exit1 (bad @ '' experiment failed''))"
  by (induction before) auto

text \<open>An experiment that succeeds prints its title, its table and an empty line; one that fails prints at most its title.\<close>

definition tidy :: "report \<Rightarrow> bool" where
  "tidy r \<longleftrightarrow> (if snd r = Ok () then \<exists>s t. fst r = [Line s, Aligned t, Line []] else fst r = [] \<or> (\<exists>s. fst r = [Line s]))"

lemma tidy_report: "tidy (whenOk x (\<lambda>y. println s (flushTable C (tbl y))))"
  by (simp add: tidy_def whenOk_def flushTable_def split: res.split)

lemma tidy_experiments:
  "tidy (runWorkloadExperiment C E n)" "tidy (runReadsExperiment C E m n)" "tidy (runWritesExperiment C E n)"
  "tidy (runBufferPoolExperiment C E n c)" "tidy (runSyncExperiment C E n i)"
  unfolding runWorkloadExperiment_def runReadsExperiment_def runWritesExperiment_def runBufferPoolExperiment_def runSyncExperiment_def
  by (rule tidy_report)+

lemma tidy_runners: "runners C envOf scanFuel F name = Some r \<Longrightarrow> tidy r"
  by (auto simp: runners_def tidy_experiments split: if_splits)

lemma runners_dom: "dom (runners C envOf scanFuel F) = set experimentOrder"
  by (simp add: runners_def experimentOrder_def insert_commute)

lemma toRun_runners:
  "toRun (runners C envOf scanFuel F) w =
     (if w = ''all'' then Some experimentOrder else if w \<in> set experimentOrder then Some [w] else None)"
  using runners_dom [of C envOf scanFuel F] by (auto simp: toRun_def domIff split: option.splits)

end
