(* ===== verification/Experiment_Properties.thy ===== *)
theory Experiment_Properties
  imports Writes_Spec Bufferpool_Spec Command
begin

text \<open>
  What the experiments report: each scenario succeeds on new files, reports the numbers it means to measure
  and leaves a file with the rows it inserted; and which experiments the command runs.
\<close>

section \<open>New files\<close>

text \<open>Every name opens an empty file; the walk over a map follows the list of its keys.\<close>

definition freshEnv :: "nat \<Rightarrow> env" where
  "freshEnv n = \<lparr>files = \<lambda>_. Ok (fileWith []), rand = \<lambda>_ _ k. Ok (replicate k 200), now = 1760000000000,
     elapsed = \<lambda>_. 7, mapOrder = \<lambda>xs. xs, maxSteps = n\<rparr>"

lemma freshEnv_simps [simp]:
  "files (freshEnv n) name = Ok (fileWith [])" "mapOrder (freshEnv n) = (\<lambda>xs. xs)" "maxSteps (freshEnv n) = n"
  "now (freshEnv n) = 1760000000000" "rand (freshEnv n) p i k = Ok (replicate k 200)"
  by (simp_all add: freshEnv_def)

section \<open>Workloads\<close>

text \<open>
  C26. A workload on a new file with distinct keys inserts every key, reports their number and the height and
  the page count of the tree it built, and closes a file that reopens to a tree with exactly those rows.
\<close>

theorem workload_report:
  assumes "files E (''workload-'' @ pattern @ ''.db'') = Ok (fileWith [])"
    and "GenerateKeys (rand E pattern) (now E) pattern n = Ok ks" "distinct ks"
    and "length ks < maxSteps E" "length ks < 2 ^ 20" "\<forall>xs. set (mapOrder E xs) = set xs"
  shows "\<exists>r w h t w2. RunWorkload E pattern n = (Ok r, Some w) \<and> closed (pm_file (pm w)) \<and>
    btree_Open (Ok (fileWith (content (pm_file (pm w))))) [] = Ok w2 \<and> tree_inv 8 h t w2 \<and>
    map_of (rows t) = map_of (map (\<lambda>k. (k, k)) ks) \<and> InsertCount r = int (length ks) \<and> FinalHeight r = int h + 1 \<and>
    FinalPageCount r = int (length (ids t))"
  using RunWorkload_spec [OF assms] by (simp add: identRows_def)

theorem workload_report_witness:
  "\<exists>r w. RunWorkload (freshEnv 9) Sequential 3 = (Ok r, Some w) \<and> closed (pm_file (pm w)) \<and> InsertCount r = 3"
proof -
  have gen: "GenerateKeys (rand (freshEnv 9) Sequential) (now (freshEnv 9)) Sequential 3 = Ok (map word_of_nat [0..<3])"
    by (simp add: GenerateKeys_def sequentialKeys_def)
  have "distinct (map word_of_nat [0..<3] :: int64 list)" by (rule word_of_nat_distinct) simp
  from workload_report [OF _ gen this] obtain r w h t w2 where "RunWorkload (freshEnv 9) Sequential 3 = (Ok r, Some w)"
      "closed (pm_file (pm w))" "InsertCount r = int (length (map word_of_nat [0..<3] :: int64 list))"
    by auto
  then show ?thesis by auto
qed

section \<open>The cost of syncing\<close>

lemma wrapRes_Ok [simp]: "wrapRes msg (Ok x) = Ok x"
  by (simp add: wrapRes_def)

text \<open>
  C27. The sync-cost experiment on new files reports three strategies: a sync for every insertion and one at the end,
  one for every full interval and one at the end, and one at the end only; a zero interval panics as soon as
  there is a key to insert.
\<close>

theorem sync_cost_calls:
  assumes fresh: "\<And>name. files E name = Ok (fileWith [])" and n: "0 \<le> n" "n < 2 ^ 21" "n \<le> int (maxSteps E)"
    and order: "\<forall>xs. set (mapOrder E xs) = set xs"
  shows "(k \<noteq> 0 \<longrightarrow> (\<exists>rs. RunSyncCostExperiments E n k = Ok rs \<and>
      map sc_SyncCalls rs = [word_of_int (n + 1), word_of_nat (nat n div nat \<bar>k\<bar> + 1), 1] \<and> map sc_InsertCount rs = [n, n, n])) \<and>
    (0 < n \<longrightarrow> RunSyncCostExperiments E n 0 = Panic)"
proof -
  let ?ks = "map word_of_nat [0..<nat n] :: int64 list"
  have gen: "GenerateKeys (rand E Sequential) (now E) Sequential n = Ok ?ks" using n(1) by (simp add: GenerateKeys_def sequentialKeys_def)
  have d: "distinct ?ks" using n by (intro word_of_nat_distinct) simp
  have len: "length ?ks \<le> maxSteps E" "length ?ks < 2 ^ 21" "int (length ?ks) = n" using n by auto
  have run: "\<exists>r. fst (runSyncScenario E label ?ks j) = Ok r \<and> sc_InsertCount r = n \<and> sc_SyncCalls r = word_of_nat (nat n div nat \<bar>j\<bar> + 1)"
    if "j \<noteq> 0" for label j
    using runSyncScenario_spec [OF fresh that d len(1,2) order, of label] len(3) by auto
  obtain a where a: "fst (runSyncScenario E ''sync every write'' ?ks 1) = Ok a" "sc_InsertCount a = n" "sc_SyncCalls a = word_of_int (n + 1)"
    using run [of 1 "''sync every write''"] n(1) by auto
  obtain c where c: "fst (runSyncScenario E ''sync once at end'' ?ks (n + 1)) = Ok c" "sc_InsertCount c = n" "sc_SyncCalls c = 1"
    using run [of "n + 1" "''sync once at end''"] n(1) by auto
  have "\<exists>rs. RunSyncCostExperiments E n k = Ok rs \<and>
      map sc_SyncCalls rs = [word_of_int (n + 1), word_of_nat (nat n div nat \<bar>k\<bar> + 1), 1] \<and> map sc_InsertCount rs = [n, n, n]" if k: "k \<noteq> 0"
  proof -
    obtain b where b: "fst (runSyncScenario E (''sync every '' @ itoa k @ '' writes'') ?ks k) = Ok b" "sc_InsertCount b = n"
        "sc_SyncCalls b = word_of_nat (nat n div nat \<bar>k\<bar> + 1)"
      using run [OF k] by blast
    have "RunSyncCostExperiments E n k = Ok [a, b, c]"
      using n(1) unfolding RunSyncCostExperiments_def gen rbind_simps(1) a(1) b(1) wrapRes_Ok by (simp add: c(1))
    with a b c show ?thesis by simp
  qed
  moreover have "RunSyncCostExperiments E n 0 = Panic" if "0 < n"
  proof -
    have "fst (runSyncScenario E label ?ks 0) = Panic" for label
      using runSyncScenario_zero [OF fresh _ d len(1,2)] that by simp
    then show ?thesis unfolding RunSyncCostExperiments_def gen by (simp add: wrapRes_def a(1))
  qed
  ultimately show ?thesis by blast
qed

theorem sync_cost_calls_witness:
  "\<exists>rs. RunSyncCostExperiments (freshEnv 250) 250 100 = Ok rs \<and> map sc_SyncCalls rs = [251, 3, 1] \<and>
     RunSyncCostExperiments (freshEnv 250) 250 0 = Panic"
  using sync_cost_calls [of "freshEnv 250" 250 100] by auto

section \<open>The cost of reading\<close>

text \<open>
  C28. The read experiment on new files reports, for a tree with \<open>h\<close> levels of internal pages, \<open>h + 1\<close> index pages for a
  point lookup and no heap page, and \<open>h + 1\<close> index pages and one heap page for the lookup through the index.
\<close>

theorem read_experiment_counts:
  assumes "files E ''reads-index.db'' = Ok (fileWith [])" "files E ''reads-heap.db'' = Ok (fileWith [])"
    and "0 < n" "n < 2 ^ 20" "n < int (maxSteps E)" "2 ^ 51 \<le> scanFuel" "\<forall>xs. set (mapOrder E xs) = set xs"
  shows "\<exists>p s q hp tr h t w2. RunReadExperiments E scanFuel n = (Ok [p, s, q], Some (hp, tr)) \<and>
    btree_Open (Ok (fileWith (content (pm_file (pm tr))))) [] = Ok w2 \<and> tree_inv 8 h t w2 \<and>
    IndexPageReads p = word_of_nat (Suc h) \<and> HeapPageReads p = 0 \<and>
    IndexPageReads q = word_of_nat (Suc h) \<and> HeapPageReads q = 1"
  by (rule RunReadExperiments_spec [OF assms])

theorem read_experiment_counts_witness:
  "\<exists>p s q ws. RunReadExperiments (freshEnv 600) (2 ^ 51) 500 = (Ok [p, s, q], ws) \<and> HeapPageReads p = 0 \<and> HeapPageReads q = 1"
proof -
  have "(500 :: int) < 2 ^ 20" "(500 :: int) < int (maxSteps (freshEnv 600))" by simp_all
  from read_experiment_counts [OF _ _ _ this, of "2 ^ 51"] show ?thesis by fastforce
qed

section \<open>The cost of writing\<close>

text \<open>
  C29. The write experiment on new files succeeds in all four scenarios: without an index it reports one page write for each
  row and one for the first page of the heap, with indexes the same heap writes and the writes of its indexes, and
  no scenario merges a page.
\<close>

theorem write_cost_report:
  assumes fresh: "\<And>name. files E name = Ok (fileWith [])" and n: "0 \<le> n" "n < 2 ^ 20" "n < int (maxSteps E)"
  shows "\<exists>none one multi partial. RunWriteCostExperiments E n = Ok [none, one, multi, partial] \<and>
    IndexWrites none = 0 \<and>
    (\<forall>r \<in> {none, one, multi, partial}. wc_TotalPages r = word_of_int (n + 1) + IndexWrites r \<and> wc_PageMerges r = 0)"
proof -
  obtain a where a: "fst (runNoIndexScenario E n) = Ok a" "IndexWrites a = 0" "wc_TotalPages a = word_of_int (n + 1)" "wc_PageMerges a = 0"
    using runNoIndexScenario_spec [OF fresh n(1,2)] by blast
  obtain b where b: "fst (runOneIndexScenario E n) = Ok b" "wc_TotalPages b = word_of_int (n + 1) + IndexWrites b" "wc_PageMerges b = 0"
    using runOneIndexScenario_spec [OF fresh n] by blast
  obtain c where c: "fst (runMultiIndexScenario E n) = Ok c" "wc_TotalPages c = word_of_int (n + 1) + IndexWrites c" "wc_PageMerges c = 0"
    using runMultiIndexScenario_spec [OF fresh n] by blast
  obtain d where d: "fst (runPartialIndexScenario E n) = Ok d" "wc_TotalPages d = word_of_int (n + 1) + IndexWrites d" "wc_PageMerges d = 0"
    using runPartialIndexScenario_spec [OF fresh n] by blast
  have "RunWriteCostExperiments E n = Ok [a, b, c, d]" by (simp add: RunWriteCostExperiments_def a(1) b(1) c(1) d(1))
  with a(2-4) b(2,3) c(2,3) d(2,3) show ?thesis by (intro exI [of _ a] exI [of _ b] exI [of _ c] exI [of _ d]) simp
qed

theorem write_cost_report_witness:
  "\<exists>a b c d. RunWriteCostExperiments (freshEnv 40) 30 = Ok [a, b, c, d] \<and> wc_TotalPages a = 31 \<and> wc_TotalPages b = 31 + IndexWrites b"
proof -
  have "(0 :: int) \<le> 30" "(30 :: int) < 2 ^ 20" "(30 :: int) < int (maxSteps (freshEnv 40))" by simp_all
  from write_cost_report [OF _ this] obtain a b c d where r: "RunWriteCostExperiments (freshEnv 40) 30 = Ok [a, b, c, d]" "IndexWrites a = 0"
      "\<forall>r \<in> {a, b, c, d}. wc_TotalPages r = word_of_int (30 + 1) + IndexWrites r \<and> wc_PageMerges r = 0"
    by auto
  then have "wc_TotalPages a = 31" "wc_TotalPages b = 31 + IndexWrites b" by auto
  with r(1) show ?thesis by blast
qed

section \<open>The buffer pool comparison\<close>

text \<open>
  C30. The buffer pool comparison on new files succeeds for every capacity of the pool, a negative one included, and
  reports one result without and one with the pool; the run with any pools inserts every key, syncs, measures and closes a file
  that reopens, with any pools, to a tree with exactly those rows.
\<close>

theorem pool_comparison_report:
  assumes fresh: "\<And>name. files E name = Ok (fileWith [])"
    and gen: "GenerateKeys (rand E pattern) (now E) pattern n = Ok ks" "distinct ks"
    and fuel: "length ks < maxSteps E" "length ks < 2 ^ 20" and order: "\<forall>xs. set (mapOrder E xs) = set xs"
  shows "(\<exists>a b. RunBufferPoolComparison E pattern n cap = Ok [a, b] \<and>
      map Label [a, b] = [''no pool'', ''pool (capacity='' @ itoa cap @ '')''] \<and>
      map bp_InsertCount [a, b] = [int (length ks), int (length ks)]) \<and>
    (\<exists>r w h t w2. runBufferPoolScenario E label pattern ks opts = (Ok r, Some w) \<and> closed (pm_file (pm w)) \<and>
      btree_Open (Ok (fileWith (content (pm_file (pm w))))) opts' = Ok w2 \<and> tree_inv 8 h t w2 \<and>
      map_of (rows t) = map_of (map (\<lambda>k. (k, k)) ks))"
proof -
  note run = runBufferPoolScenario_spec [OF fresh gen(2) fuel order]
  obtain a where a: "fst (runBufferPoolScenario E ''no pool'' pattern ks []) = Ok a" "Label a = ''no pool''" "bp_InsertCount a = int (length ks)"
    using run [of "''no pool''" pattern "[]" "[]"] by auto
  let ?pool = "''pool (capacity='' @ itoa cap @ '')''"
  obtain b where b: "fst (runBufferPoolScenario E ?pool pattern ks [cap]) = Ok b" "Label b = ?pool" "bp_InsertCount b = int (length ks)"
    using run [of ?pool pattern "[cap]" "[]"] by auto
  have "RunBufferPoolComparison E pattern n cap = Ok [a, b]"
    unfolding RunBufferPoolComparison_def gen(1) rbind_simps(1) a(1) b(1) wrapRes_Ok by simp
  with a(2,3) b(2,3) have "\<exists>a b. RunBufferPoolComparison E pattern n cap = Ok [a, b] \<and> map Label [a, b] = [''no pool'', ?pool] \<and>
      map bp_InsertCount [a, b] = [int (length ks), int (length ks)]" by simp
  with run [of label pattern opts opts'] show ?thesis unfolding identRows_def by blast
qed

theorem pool_comparison_report_witness:
  "\<exists>a b. RunBufferPoolComparison (freshEnv 40) Sequential 30 (- 1) = Ok [a, b] \<and> map bp_InsertCount [a, b] = [30, 30]"
proof -
  have gen: "GenerateKeys (rand (freshEnv 40) Sequential) (now (freshEnv 40)) Sequential 30 = Ok (map word_of_nat [0..<30])"
    by (simp add: GenerateKeys_def sequentialKeys_def)
  have "distinct (map word_of_nat [0..<30] :: int64 list)" by (rule word_of_nat_distinct) simp
  from pool_comparison_report [OF _ gen this, where cap = "- 1" and label = "[]" and opts = "[]" and opts' = "[]"] show ?thesis by auto
qed

section \<open>Time-ordered keys\<close>

text \<open>
  C31. The time-ordered generator gives as many keys as asked, strictly increasing as signed numbers whatever the
  random low bits are, as long as the times stay inside a window of two to the 36 milliseconds around a multiple of it.
\<close>

theorem uuid7_keys_increase:
  assumes "GenerateKeys rng start UUID7Like n = Ok ks"
    and "q * 2 ^ 36 - 2 ^ 35 \<le> sint start" "sint start + n \<le> q * 2 ^ 36 + 2 ^ 35" "sint start + n \<le> 2 ^ 63"
  shows "length ks = nat n \<and> sorted_wrt (\<lambda>a b. sint a < sint b) ks"
proof -
  have ks: "uuid7LikeKeys rng start n = Ok ks" using assms(1) by (simp add: GenerateKeys_def pattern_defs)
  then have "uuid7From rng start 0 (nat n) = Ok ks" by (simp add: uuid7LikeKeys_def split: if_splits)
  with uuid7From_nth uuid7_increasing [OF ks assms(2-4)] show ?thesis by blast
qed

theorem uuid7_keys_increase_witness:
  "\<exists>ks. GenerateKeys (rand (freshEnv 0) UUID7Like) (now (freshEnv 0)) UUID7Like 2 = Ok ks \<and> length ks = 2 \<and>
     sorted_wrt (\<lambda>a b. sint a < sint b) ks"
proof -
  obtain ks where ks: "GenerateKeys (rand (freshEnv 0) UUID7Like) (now (freshEnv 0)) UUID7Like 2 = Ok ks"
    by (simp add: GenerateKeys_def pattern_defs uuid7LikeKeys_def readRand_def Uint32_def numeral_2_eq_2)
  from uuid7_keys_increase [OF this, of 26] ks show ?thesis by auto
qed

section \<open>The command\<close>

text \<open>
  C40. The command runs the named experiment, or all five in their fixed order, and prints a title and a table for each; an
  unknown name runs nothing and exits with status 1; the first experiment that fails ends the run with status 1 after
  the output before it and at most its own title. The temporary directory is removed only when the program returns.
\<close>

theorem command_runs_named:
  fixes rs :: "string \<rightharpoonup> report"
  assumes "mkdir (outDir F) = Ok dir" and rs: "rs = runners C (envOf dir) scanFuel F"
    and names: "names = (if which F = ''all'' then [''workload'', ''reads'', ''writes'', ''bufferpool'', ''sync''] else [which F])"
  shows "(which F \<notin> set (''all'' # experimentOrder) \<longrightarrow>
      main C mkdir envOf scanFuel F = \<lparr>printed = [], ended = Exit1 ''unknown -run value'', tempRemoved = False\<rparr>) \<and>
    (which F \<in> set (''all'' # experimentOrder) \<and> (\<forall>name \<in> set names. rs name = Some (f name, Ok ())) \<longrightarrow>
      main C mkdir envOf scanFuel F = \<lparr>printed = concat (map f names), ended = Exit0, tempRemoved = (outDir F = [])\<rparr> \<and>
      (\<forall>name \<in> set names. \<exists>s t. f name = [Line s, Aligned t, Line []])) \<and>
    (which F \<in> set (''all'' # experimentOrder) \<and> names = before @ bad # rest \<and>
      (\<forall>name \<in> set before. rs name = Some (f name, Ok ())) \<and> rs bad = Some (out, Err e) \<longrightarrow>
      main C mkdir envOf scanFuel F =
        \<lparr>printed = concat (map f before) @ out, ended = Exit1 (bad @ '' experiment failed''), tempRemoved = False\<rparr> \<and>
      (out = [] \<or> (\<exists>s. out = [Line s])))"
proof -
  have run: "toRun rs (which F) = (if which F \<in> set (''all'' # experimentOrder) then Some names else None)"
    unfolding rs toRun_runners names by (simp add: experimentOrder_def)
  have main: "main C mkdir envOf scanFuel F =
      (case (case toRun rs (which F) of Some names \<Rightarrow> runNamed rs names | None \<Rightarrow> ([], Exit1 ''unknown -run value''))
       of (ts, x) \<Rightarrow> \<lparr>printed = ts, ended = x, tempRemoved = (outDir F = [] \<and> runsDeferred x)\<rparr>)"
    unfolding main_def assms(1) rs by (simp add: Let_def)
  have "\<exists>s t. o' = [Line s, Aligned t, Line []]" if "rs name = Some (o', Ok ())" for name o'
    using tidy_runners [OF that [unfolded rs]] by (simp add: tidy_def)
  moreover have "o' = [] \<or> (\<exists>s. o' = [Line s])" if "rs name = Some (o', Err e)" for name o'
    using tidy_runners [OF that [unfolded rs]] by (simp add: tidy_def)
  ultimately show ?thesis
    unfolding main run using runNamed_all [of names rs f] runNamed_stops [of before rs f bad out e rest] by auto
qed

theorem command_runs_named_witness:
  "let F = \<lparr>outDir = [], n_flag = 4, poolCapacity = 1, syncInterval = 1, which = ''all''\<rparr>;
       C = \<lparr>showDuration = \<lambda>_. ''1s'', flush = \<lambda>_. Ok ()\<rparr>; E = (freshEnv 0)\<lparr>files := \<lambda>_. Err EIO\<rparr> in
     main C (\<lambda>_. Ok ''tmp'') (\<lambda>_ _. E) 0 F = \<lparr>printed = [], ended = Exit1 ''workload experiment failed'', tempRemoved = False\<rparr> \<and>
     main C (\<lambda>_. Ok ''tmp'') (\<lambda>_ _. E) 0 (F\<lparr>which := ''nothing''\<rparr>) = \<lparr>printed = [], ended = Exit1 ''unknown -run value'', tempRemoved = False\<rparr>"
  (is "let F = ?F; C = ?C; E = ?E in _ ")
proof -
  have "runners ?C (\<lambda>_. ?E) 0 ?F ''workload'' = Some ([], Err EIO)"
    by (simp add: runners_def runWorkloadExperiment_def RunAllWorkloads_def RunWorkload_def running_def btree_Open_def openWith_def storage_Open_def whenOk_def)
  moreover note command_runs_named [of "\<lambda>_. Ok ''tmp''" ?F "''tmp''" _ ?C "\<lambda>_ _. ?E" 0, OF _ refl refl, where before = "[]" and bad = "''workload''" and e = EIO and out = "[]"]
    command_runs_named [of "\<lambda>_. Ok ''tmp''" "?F\<lparr>which := ''nothing''\<rparr>" "''tmp''" _ ?C "\<lambda>_ _. ?E" 0, OF _ refl refl]
  ultimately show ?thesis by (simp add: experimentOrder_def)
qed

end
