(* ===== verification/Cousins.thy ===== *)
theory Cousins
  imports Repair_Steps Page_Properties Tree_Ops
begin

text \<open>
  \<^verbatim>\<open>fixLeafUnderflow\<close> takes the neighbours of a leaf from the leaf chain. At the edge of its parent the neighbour is a
  cousin, which the parent does not lead to, and the update of the parent that \<^verbatim>\<open>redistributeLeafFromLeft\<close> and
  \<^verbatim>\<open>redistributeLeafFromRight\<close> then make does not keep it a node: this is why deletion in a tree with more than one
  level above its leaves is stated for leaves between siblings.
\<close>

lemma findChildFrom_missing:
  assumes p: "wf_page p" "uniform K (entries p)" and v: "\<forall>x < numEntries p. childOf K (entries p ! x) \<noteq> v"
  shows "i + m = numEntries p \<Longrightarrow> findChildFrom p v (int K) i m = Ok (0, False)"
proof (induction m arbitrary: i)
  case (Suc m)
  then have "i < numEntries p" by simp
  with Suc entryChild_spec [OF p, of i] v show ?case by simp
qed simp

lemma findChildIndex_missing:
  assumes n: "node_page K p ss vs" and v: "v \<notin> set vs"
  shows "ss \<noteq> [] \<Longrightarrow> findChildIndex p v = Ok (0, False)"
proof -
  assume ne: "ss \<noteq> []"
  note p = node_page_parts [OF n]
  have "entryKeyLen p = Ok (int K)" using node_page_length [OF n] ne by (intro entryKeyLen_spec [OF p(1,2)]) auto
  moreover have "\<forall>x < numEntries p. childOf K (entries p ! x) \<noteq> v" using v by (auto simp: p(5))
  then have "findChildFrom p v (int K) 0 (numEntries p) = Ok (0, False)" using findChildFrom_missing [OF p(1,2)] by simp
  moreover have "LeftmostChildPageID p \<noteq> v" using v by (auto simp: p(5))
  ultimately show ?thesis by (simp add: findChildIndex_def)
qed

lemma insert_entry_page:
  assumes p: "wf_page p" "uniform K (entries p)" and i: "unat i \<le> numEntries p" and s: "length s = K"
    and room: "Suc (numEntries p) * (K + 12) \<le> 4075"
  shows "\<exists>p'. InsertEntry p i (s @ encodeChildID v) = Ok p' \<and> wf_page p' \<and> header p' = header p \<and> keys K p' = insert_nth (unat i) s (keys K p) \<and>
    childIDs K p' = insert_nth (Suc (unat i)) v (childIDs K p)"
proof -
  let ?e = "s @ encodeChildID v"
  have "length ?e = K + 8" using s by (simp add: encodeChildID_def)
  then have uni: "uniform K (insert_nth (unat i) ?e (entries p))" using p(2) by simp
  have "fits (insert_nth (unat i) ?e (entries p))" using fits_uniform [OF uni] room by simp
  then obtain p' where p': "InsertEntry p i ?e = Ok p'" "header p' = header p" "entries p' = insert_nth (unat i) ?e (entries p)" "wf_page p'"
    using InsertEntry_spec [OF p(1) i, of ?e] by auto
  have "keys K p' = insert_nth (unat i) s (keys K p)" using p'(3) s by (simp add: keys_def map_insert_nth)
  moreover have "childIDs K p' = insert_nth (Suc (unat i)) v (childIDs K p)"
    using p'(2,3) s by (simp add: childIDs_def Leftmost_header encodeChildID_def insert_nth_def take_map drop_map)
  ultimately show ?thesis using p'(1,2,4) by blast
qed

text \<open>
  A row lent by the cousin on the left of the leftmost child: the index of that child is the number of entries,
  nothing is deleted, and the child is entered a second time, after all others and under a smaller separator.
\<close>

lemma left_cousin_disorders_parent:
  assumes n: "node_page K pp ss vs" and s: "length s = K" "ss \<noteq> []" "\<forall>u \<in> set ss. s < u"
    and room: "Suc (length ss) * (K + 12) \<le> 4075"
  shows "\<exists>p'. rbind (findChildIndex pp (vs ! 0)) (\<lambda>(idx, _). replaceEntry idx (s @ encodeChildID (vs ! 0)) pp) = Ok p' \<and>
    keys K p' = ss @ [s] \<and> childIDs K p' = vs @ [vs ! 0] \<and> \<not> sorted (keys K p') \<and> \<not> distinct (childIDs K p')"
proof -
  note p = node_page_parts [OF n]
  have num: "numEntries pp = length ss" "length vs = Suc (length ss)" using node_page_length [OF n] by simp_all
  have idx: "findChildIndex pp (vs ! 0) = Ok (NumEntries pp, True)" by (simp add: findChildIndex_def p(5))
  have del: "DeleteEntry pp (NumEntries pp) = Ok pp" by (simp add: DeleteEntry_def)
  obtain p' where p': "InsertEntry pp (NumEntries pp) (s @ encodeChildID (vs ! 0)) = Ok p'" "keys K p' = insert_nth (length ss) s (keys K pp)"
      "childIDs K p' = insert_nth (Suc (length ss)) (vs ! 0) (childIDs K pp)"
    using insert_entry_page [OF p(1,2) order_refl s(1)] room num by auto
  have k: "keys K pp = ss" "childIDs K pp = vs" using n by (simp_all add: node_page_def)
  have "keys K p' = ss @ [s]" "childIDs K p' = vs @ [vs ! 0]" using p'(2,3) k num by (simp_all add: insert_nth_def)
  moreover have "\<not> sorted (ss @ [s])" using s(2,3) by (cases ss) auto
  moreover have "\<not> distinct (vs @ [vs ! 0])" using num by simp
  ultimately show ?thesis using idx del p'(1) by (auto simp: replaceEntry_def)
qed

text \<open>
  A row lent by the cousin on the right of the last child: the cousin is not found in the parent, and its entry
  replaces the first one, so that the second child is lost to searches and the cousin is entered in its place.
\<close>

lemma right_cousin_loses_child:
  assumes n: "node_page K pp (u # ss) (v # x # vs)" and c: "c \<notin> set (v # x # vs)" and s: "length s = K"
    and room: "Suc (length ss) * (K + 12) \<le> 4075"
  shows "\<exists>p'. rbind (findChildIndex pp c) (\<lambda>(idx, _). replaceEntry idx (s @ encodeChildID c) pp) = Ok p' \<and>
    keys K p' = s # ss \<and> childIDs K p' = v # c # vs \<and> header p' = header pp \<and> wf_page p'"
proof -
  have n': "node_page K pp (insert_nth 0 u ss) (insert_nth (Suc 0) x (v # vs))" using n by (simp add: insert_nth_def)
  have len: "length (v # vs) = Suc (length ss)" using node_page_length [OF n] by simp
  obtain q where q: "DeleteEntry pp 0 = Ok q" "node_page K q ss (v # vs)" "header q = header pp" using dropEntry_spec [OF n' _ len] by auto
  note p = node_page_parts [OF q(2)]
  have num: "numEntries q = length ss" "keys K q = ss" "childIDs K q = v # vs" using node_page_length [OF q(2)] q(2) by (simp_all add: node_page_def)
  obtain p' where p': "InsertEntry q 0 (s @ encodeChildID c) = Ok p'" "keys K p' = s # ss" "childIDs K p' = v # c # vs"
      "wf_page p'" "header p' = header q"
    using insert_entry_page [OF p(1,2) _ s, of 0] room num by (auto simp: insert_nth_def)
  moreover have "findChildIndex pp c = Ok (0, False)" using findChildIndex_missing [OF n c] by simp
  ultimately show ?thesis using q(1,3) by (simp add: replaceEntry_def)
qed

section \<open>The repair that loses a child\<close>

lemma st_pointers:
  assumes "sound w" "\<And>a p. H a = Some p \<Longrightarrow> a < length (objs w) \<and> p = objs w ! a"
  shows "st {} (known w) H (nextPageID (pm w)) (store.more w) w"
  using st_initial [OF assms(1)] assms(2) unfolding st_def by auto

text \<open>
  C39. \<^verbatim>\<open>redistributeLeafFromRight\<close> called with a right-hand leaf that is not a child of \<open>parent\<close>, as \<^verbatim>\<open>fixLeafUnderflow\<close> does for
  the last child of a node whose next leaf can lend, returns without an error and writes a parent whose second
  child is replaced by that leaf: no search reaches the rows under the second child any more.
\<close>

theorem cousin_lending_loses_child:
  assumes "sound w" "distinct [a, b, c]" "\<forall>i \<in> {a, b, c}. i < length (objs w) \<and> valid_id (ID (objs w ! i))"
    and "distinct (map (\<lambda>i. ID (objs w ! i)) [a, b, c])"
    and "leaf_page 8 (objs w ! a) xs" "leaf_page 8 (objs w ! b) (y # z # ys)" "sorted_wrt (<) (map fst (xs @ y # z # ys))" "length xs < 203"
    and "node_page 8 (objs w ! c) (u # ss) (v # x # vs)" "ID (objs w ! b) \<notin> set (v # x # vs)"
  shows "\<exists>w' p'. redistributeLeafFromRight a b c w = (Ok (), w') \<and> known w' (ID (objs w ! c)) = Some p' \<and>
    childIDs 8 p' = v # ID (objs w ! b) # vs"
proof -
  let ?p = "objs w ! a" and ?q = "objs w ! b" and ?pp = "objs w ! c"
  let ?H = "[a \<mapsto> ?p, b \<mapsto> ?q, c \<mapsto> ?pp]"
  have s: "st {} (known w) ?H (nextPageID (pm w)) (store.more w) w"
    by (rule st_pointers [OF assms(1)]) (use assms(3) in \<open>auto split: if_splits\<close>)
  have H: "?H a = Some ?p" "?H b = Some ?q" "?H c = Some ?pp" and ab: "a \<noteq> b" "a \<noteq> c" "b \<noteq> c" using assms(2) by auto
  have val: "valid_id (ID ?p)" "valid_id (ID ?q)" "valid_id (ID ?pp)" using assms(3) by simp_all
  obtain p' q' where m: "redistributeFromRight ?p ?q = Ok (fst z, p', q')" "leaf_page 8 p' (xs @ [y])" "leaf_page 8 q' (z # ys)"
      "header p' = header ?p" "header q' = header ?q"
    using redistributeFromRight_page [OF assms(5-7)] assms(8) by auto
  have id: "ID p' = ID ?p" "ID q' = ID ?q" "wf_page p'" "wf_page q'"
    using header_same [OF m(4)] header_same [OF m(5)] leaf_page_parts(1) [OF m(2)] leaf_page_parts(1) [OF m(3)] by simp_all
  have z: "length (fst z) = 8" using leaf_page_parts(5) [OF m(3)] by simp
  have room: "Suc (length ss) * (8 + 12) \<le> 4075" using node_page_space(2) [OF assms(9)] by simp
  let ?f = "\<lambda>p. rbind (findChildIndex p (ID q')) (\<lambda>(idx, _). replaceEntry idx (fst z @ encodeChildID (ID q')) p)"
  obtain p3 where p3: "?f ?pp = Ok p3" "childIDs 8 p3 = v # ID ?q # vs" "header p3 = header ?pp" "wf_page p3"
    using right_cousin_loses_child [OF assms(9,10) z room] id(2) by auto
  have id3: "ID p3 = ID ?pp" using header_same [OF p3(3)] by simp
  have val': "valid_id (ID p')" "valid_id (ID q')" "valid_id (ID p3)" using val id id3 by simp_all
  obtain w1 where w1: "mutate2 a b redistributeFromRight w = (Ok (fst z), w1)"
      "st (insert (ID ?q) (insert (ID ?p) {})) (known w) (?H(a \<mapsto> p', b \<mapsto> q')) (nextPageID (pm w)) (store.more w) w1"
    using mutate2_rule [OF s H(1,2) ab(1), of redistributeFromRight "fst z" p' q'] m(1) id val by blast
  have H1: "(?H(a \<mapsto> p', b \<mapsto> q')) b = Some q'" "(?H(a \<mapsto> p', b \<mapsto> q')) c = Some ?pp" using ab by simp_all
  obtain w2 where w2: "mutate c ?f w1 = (Ok (), w2)"
      "st (insert (ID ?pp) {ID ?q, ID ?p}) (known w) (?H(a \<mapsto> p', b \<mapsto> q', c \<mapsto> p3)) (nextPageID (pm w)) (store.more w) w2"
    using mutate_rule [OF w1(2) H1(2), of ?f p3] p3 id3 val by blast
  let ?H3 = "?H(a \<mapsto> p', b \<mapsto> q', c \<mapsto> p3)"
  have H3: "?H3 a = Some p'" "?H3 b = Some q'" "?H3 c = Some p3" using ab by simp_all
  obtain w3 where w3: "writePage a w2 = (Ok (), w3)" "st ({ID ?pp, ID ?q, ID ?p} - {ID p'}) ((known w)(ID p' \<mapsto> p')) ?H3 (nextPageID (pm w)) (store.more w) w3"
    using write_rule_clean [OF w2(2) H3(1) id(3) val'(1)] by blast
  obtain w4 where w4: "writePage b w3 = (Ok (), w4)" "st ({ID ?pp, ID ?q, ID ?p} - {ID p'} - {ID q'}) ((known w)(ID p' \<mapsto> p', ID q' \<mapsto> q')) ?H3 (nextPageID (pm w)) (store.more w) w4"
    using write_rule_clean [OF w3(2) H3(2) id(4) val'(2)] by blast
  obtain w5 where w5: "writePage c w4 = (Ok (), w5)"
      "st ({ID ?pp, ID ?q, ID ?p} - {ID p'} - {ID q'} - {ID p3}) ((known w)(ID p' \<mapsto> p', ID q' \<mapsto> q', ID p3 \<mapsto> p3)) ?H3 (nextPageID (pm w)) (store.more w) w5"
    using write_rule_clean [OF w4(2) H3(3) p3(4) val'(3)] by blast
  have "{ID ?pp, ID ?q, ID ?p} - {ID p'} - {ID q'} - {ID p3} = {}" using id id3 by auto
  with w5(2) have "(known w)(ID p' \<mapsto> p', ID q' \<mapsto> q', ID p3 \<mapsto> p3) \<subseteq>\<^sub>m known w5" using st_le_known by metis
  then have "known w5 (ID ?pp) = Some p3" using map_le_Some [of _ "known w5" "ID ?pp" p3] id3 by simp
  moreover have "redistributeLeafFromRight a b c w = (Ok (), w5)"
    using w1(1) w2(1) w3(1) w4(1) w5(1) deref_rule [OF w1(2) H1(1)] by (simp add: redistributeLeafFromRight_def exec_simps)
  ultimately show ?thesis using p3(2) by blast
qed

lemma leafWith_page:
  assumes "length rs \<le> 203" "sorted_wrt (<) (map (EncodeInt64 \<circ> fst) rs)"
  shows "leaf_page 8 (pageWith (NewLeafPage i) (map (\<lambda>(k, v). row k v) rs)) (map (\<lambda>(k, v). (EncodeInt64 k, EncodeInt64 v)) rs)"
    and "ID (pageWith (NewLeafPage i) (map (\<lambda>(k, v). row k v) rs)) = i"
proof -
  let ?es = "map (\<lambda>(k, v). row k v) rs"
  have uni: "uniform 8 ?es" by (auto simp: uniform_def row_def)
  have l: "length ?es \<le> 203" using assms(1) by simp
  note lf = leafWith_spec [OF l uni, of i]
  show "leaf_page 8 (pageWith (NewLeafPage i) ?es) (map (\<lambda>(k, v). (EncodeInt64 k, EncodeInt64 v)) rs)"
    using lf uni assms(2) header_eqD [OF lf(3)] by (intro leaf_pageI) (auto simp: row_def entryOf_def comp_def split_beta)
  show "ID (pageWith (NewLeafPage i) ?es) = i" using header_eqD [OF lf(3)] by simp
qed

theorem cousin_lending_loses_child_witness:
  "\<exists>w a b c w' p'. sound w \<and> node_page 8 (objs w ! c) (map EncodeInt64 [10, 20]) [1, 2, 3] \<and> ID (objs w ! b) = 9 \<and>
    redistributeLeafFromRight a b c w = (Ok (), w') \<and> known w' 7 = Some p' \<and> childIDs 8 p' = [1, 9, 3]"
proof -
  let ?p = "pageWith (NewLeafPage 3) (map (\<lambda>(k, v). row k v) [(21, 0)])" and ?pp = "internalWith 7 1 [(10, 2), (20, 3)]"
    and ?q = "pageWith (NewLeafPage 9) (map (\<lambda>(k, v). row k v) [(31, 0), (32, 0)])"
  obtain w0 where "tree_inv 8 0 (Leaf 1 []) w0" using openWith_empty [of 16 True "[]" 8] by auto
  then have "sound w0" by (simp add: tree_inv_def)
  define a where "a = length (objs w0)"
  define w where "w = w0\<lparr>objs := objs w0 @ [?p, ?q, ?pp]\<rparr>"
  have "sound (w1\<lparr>objs := objs w1 @ [p]\<rparr>)" if "sound w1" for w1 :: BTree and p
    using newObj_rule [OF st_initial [OF that], of p] st_sound by (fastforce simp: newObj_def)
  from this [OF this [OF this [OF \<open>sound w0\<close>, of ?p], of ?q], of ?pp] have s: "sound w" by (simp add: w_def)
  have o: "objs w ! a = ?p" "objs w ! (a + 1) = ?q" "objs w ! (a + 2) = ?pp" "length (objs w) = a + 3"
    by (simp_all add: w_def a_def nth_append)
  note i = internalWith_children [of "[(10, 2), (20, 3)]" 7 1] internalWith_spec [of "[(10, 2), (20, 3)]" 7 1]
  have pp: "node_page 8 ?pp [EncodeInt64 10, EncodeInt64 20] [1, 2, 3]" "ID ?pp = 7"
    using i header_eqD [OF i(6)] by (auto intro!: node_pageI)
  have lp: "leaf_page 8 ?p [(EncodeInt64 21, EncodeInt64 0)]" "ID ?p = 3"
    using leafWith_page [of "[(21, 0)]" 3] by simp_all
  have lq: "leaf_page 8 ?q [(EncodeInt64 31, EncodeInt64 0), (EncodeInt64 32, EncodeInt64 0)]" "ID ?q = 9"
    using leafWith_page [of "[(31, 0), (32, 0)]" 9] by simp_all
  have ids: "ID (objs w ! a) = 3" "ID (objs w ! Suc a) = 9" "ID (objs w ! Suc (Suc a)) = 7" using o lp(2) lq(2) pp(2) by simp_all
  have "\<exists>w' p'. redistributeLeafFromRight a (a + 1) (a + 2) w = (Ok (), w') \<and> known w' (ID (objs w ! (a + 2))) = Some p' \<and>
      childIDs 8 p' = [1, ID (objs w ! (a + 1)), 3]"
    by (rule cousin_lending_loses_child [OF s _ _ _ lp(1) [folded o(1)] lq(1) [folded o(2)] _ _ pp(1) [folded o(3)]])
      (use ids o(4) in \<open>simp_all add: valid_id_def\<close>)
  then obtain w' p' where w': "redistributeLeafFromRight a (a + 1) (a + 2) w = (Ok (), w')" "known w' 7 = Some p'" "childIDs 8 p' = [1, 9, 3]"
    using ids by auto
  have "node_page 8 (objs w ! (a + 2)) (map EncodeInt64 [10, 20]) [1, 2, 3]" unfolding o(3) using pp(1) by simp
  with s w' ids(2) show ?thesis
    by - (rule exI [of _ w], rule exI [of _ a], rule exI [of _ "a + 1"], rule exI [of _ "a + 2"], rule exI [of _ w'], rule exI [of _ p'], simp)
qed

end
