(* ===== verification/Spec2Isabelle.thy ===== *)
theory Spec2Isabelle
  imports Page_Properties Tree_Properties Recovery Composite_Properties Store_Properties Row_Properties Experiment_Properties Cousins
begin

text \<open>
  \<^bold>\<open>The index lab.\<close> The program under \<^verbatim>\<open>src/\<close> is a laboratory for database indexes: a B+ tree on slotted
  pages in a file, with an optional write-back buffer pool, a heap file for rows, a tree over two columns, a
  partial index, and experiments that count pages and syncs. This development models every Go file of it
  that is not a test and proves what its layers promise each other.

  \<^bold>\<open>The program and its model.\<close> One theory per component, in the order of the layers.

  \<^item> \<open>Prelude\<close>, \<open>Bytes\<close>: the Go integer types as words, the outcomes of a call (a value, an error, a panic, no
    return: \<open>res\<close>), sequencing for pure code (\<open>rbind\<close>) and for code with a state (\<open>op\<close>, \<open>sbind\<close>), slices,
    \<^verbatim>\<open>sort.Search\<close>, big-endian words and the comparison of byte slices.
  \<^item> \<open>Key\<close>: \<^verbatim>\<open>btree/key.go\<close>. \<open>Page\<close>: \<^verbatim>\<open>page/page.go\<close> on the 4096 bytes of a page, with 16-bit offsets that wrap.
    \<open>Node\<close>: \<^verbatim>\<open>btree/node.go\<close> and \<^verbatim>\<open>btree/tree.go\<close>.
  \<^item> \<open>Storage\<close>: \<^verbatim>\<open>storage/file.go\<close> over a file with a position, a content, a durable image and a schedule of failing
    system calls; page objects have addresses, so a page changed through one pointer changes for all of them.
    \<open>Pool\<close>: \<^verbatim>\<open>buffer/pool.go\<close>; the order in which Go walks a map is an argument.
  \<^item> \<open>Store\<close>: the read and write paths of the tree and the heap. \<open>BTree\<close>, \<open>Underflow\<close>: \<^verbatim>\<open>btree/btree.go\<close>, insertion with
    the propagation of splits and deletion with the whole repair of underfull pages. \<open>Composite\<close>:
    \<^verbatim>\<open>btree/composite.go\<close>. \<open>Stats\<close>: \<^verbatim>\<open>btree/stats.go\<close>. \<open>Heap\<close>: \<^verbatim>\<open>heap/heap.go\<close>. \<open>Partial\<close>: \<^verbatim>\<open>partial/partial.go\<close>.
  \<^item> \<open>Experiment_Keys\<close>, \<open>Experiment\<close>: the files of \<^verbatim>\<open>internal/experiment\<close> over an environment (files, random bytes, the
    clock, durations, the walk of a map). \<open>Command\<close>: \<^verbatim>\<open>cmd/indexlab/main.go\<close>.

  \<^bold>\<open>The interfaces.\<close> The locale \<open>page_store\<close> (\<open>Page_Store\<close>) is what the tree and the heap know of storage: a symbolic
    state of what every page holds; it is interpreted on the pooled and on the direct paths. \<open>leaf_insert\<close>, \<open>chain_scan\<close>
    and \<open>leaf_delete\<close> carry the tree algorithms for any kind of key, \<open>node_sizes\<close> the minimum and the room of a page, and
    \<open>repaired_delete\<close>, which extends both, deletion with repair; all are interpreted on integer keys and on pairs of
    columns. \<open>key_index\<close> and \<open>unique_index\<close> state what an index over integers promises its callers, \<open>row_store\<close> what a
    heap promises; \<open>indexed_rows\<close> and \<open>updatable_index\<close> are the clients (a table with an index, the partial index).
    \<open>read_frame\<close>, \<open>tree_read_frame\<close>, \<open>store_frame\<close>, \<open>tree_frame\<close> and \<open>untouched\<close> carry what holds on every path, failures
    included.

  \<^bold>\<open>What is proved.\<close>

  \<^item> Pages (\<open>Page_Layout\<close>, \<open>Node_Spec\<close>, \<open>Node_Split\<close>, \<open>Page_Properties\<close>): on well-formed pages insertion, deletion, searches,
    splits, merges and redistribution act on the list of entries as expected and keep the layout; encoded keys
    compare as the keys do.
  \<^item> Storage (\<open>Storage_Spec\<close>, \<open>Pool_Spec\<close>, \<open>Lru\<close>, \<open>Untouched\<close>, \<open>Durability\<close>, \<open>Store_Properties\<close>): reads return what was written with or
    without a pool; the pool refines a least-recently-used list and stays within its capacity whatever system call
    fails; only \<^verbatim>\<open>Sync\<close> makes bytes durable, and after it a crash loses nothing.
  \<^item> Trees (\<open>Tree_Shape\<close>, \<open>Tree_Rep\<close>, \<open>Tree_Search\<close>, \<open>Tree_Scan\<close>, \<open>Tree_Grow\<close>, \<open>Tree_Insert\<close>, \<open>Leaf_Insert\<close>, \<open>Tree_Ops\<close>, \<open>Tree_Delete\<close>, \<open>Index\<close>,
    \<open>Client\<close>, \<open>Stats_Spec\<close>, \<open>Tree_Properties\<close>): the invariant of the tree in its pages for trees of any height, kept by insertion
    through any number of splits; searching, scanning and the statistics in terms of the rows; the tree as a
    refinement of a sorted list for sequences of calls whose deletions find fewer than 20604 rows; termination of the
    descent.
  \<^item> Half-full pages (\<open>Occupancy\<close>): splits leave at least 101 of 203 entries (72 of 145 for pairs of columns), every insertion
    and repaired deletion keeps all pages but the root half full, and so the height is logarithmic.
  \<^item> Repair (\<open>Tree_Shrink\<close>, \<open>Node_Repair\<close>, \<open>Repair_Steps\<close>; \<open>Leaf_Repair\<close>, \<open>Leaf_Share\<close>, \<open>Leaf_Merge\<close>, \<open>Leaf_Underflow\<close> for leaves;
    \<open>Inner_Shape\<close>, \<open>Inner_Repair\<close> for internal nodes; \<open>Delete_Repair\<close>): two neighbouring children taken out of their parent, shared
    anew or joined; the pages a redistribution or a merge leaves; the induction over the ancestors, up to a root that
    hands the tree to its only child. A merged page stays behind unreachable and possibly unwritten, which the invariant of
    the tree allows (\<open>stale\<close>, \<open>sound\<close> and \<open>known\<close> of \<open>Pool_Spec\<close>).
  \<^item> Power cuts (\<open>Recovery\<close>): the tree and its file as a state machine whose steps are calls and power cuts, after which the
    tree is opened again from what the disk holds. The program has no recovery, and a cut after a write that was not
    synced may leave anything; a cut after a \<^verbatim>\<open>Sync\<close> and before the next update is shown to lose nothing, searches and
    scans in between included, and the next call, if it is not a deletion beyond the limit below, has an answer.
  \<^item> Pairs of columns (\<open>Composite_Spec\<close>, \<open>Composite_Client\<close>, \<open>Composite_Properties\<close>): the invariant, insertion, deletion,
    search and scan of the composite tree, which refines a list of rows in the order of both columns for sequences of
    calls that insert no pair twice and delete from fewer than 10512 rows.
  \<^item> Rows (\<open>Heap_Spec\<close>, \<open>Heap_Durable\<close>, \<open>Indexed_Rows\<close>, \<open>Partial_Spec\<close>, \<open>Row_Properties\<close>): rows come back as stored, also after a
    crash that follows a sync and after closing, are found through an index, and a partial index holds exactly the active rows.
  \<^item> Experiments (\<open>Preserves\<close>, \<open>Poolless\<close>, \<open>Experiment_Spec\<close>, \<open>Reads_Spec\<close>, \<open>Writes_Spec\<close>, \<open>Bufferpool_Spec\<close>, \<open>Experiment_Properties\<close>): all five
    experiments succeed on new files and report the numbers they mean to measure: page reads per level, heap writes per
    row, syncs per interval, the shape of the tree.

  \<^bold>\<open>Fuel and bounds.\<close> Loops that follow page numbers found on disk may not end on a damaged file, so the descent, the
  scan and the level walk of the statistics take fuel; running out is the outcome \<open>Hang\<close>. For a tree in order the number
  of allocated pages is enough for each of them, and more fuel changes nothing (\<open>tree_descent_terminates\<close>,
  \<open>tree_scan_range\<close>). A page number is valid below two to the 51, so that its byte offset is a 64-bit file offset; the
  theorems on new files allow fewer than two to the 21 insertions, which keeps the numbers below that bound with room
  for a split on every level. After a power cut the page numbers come from the length of the file on the disk, which a
  cut therefore leaves shorter than two to the 62 bytes. The propagation of splits and the repair after a deletion shorten
  the list of ancestors and need no fuel.

  \<^bold>\<open>Not covered.\<close> The theorems on what calls answer are about files whose system calls do not fail; what holds when they do
  is the capacity of the pool, the consistency of its lists and that only \<^verbatim>\<open>Sync\<close> syncs. Deletion is modelled in full. Its
  theorems cover trees of any height when the underfull leaf has its chain
  neighbours under its own parent, which below 20604 rows (10512 for pairs of columns) is every leaf. A repair that takes a
  neighbour in the leaf chain from under another parent breaks the parent (a defect of the code: \<open>Cousins\<close>), so no theorem
  can cover every repair; the internal repairs of a tree over two columns cut its separators at 8 bytes, so above
  one level they are not covered either. Concurrency is absent from the program. Flag parsing, the alignment of
  printed columns and the text of wrapped operating-system errors belong to the library. Durations are parameters.
\<close>

end
